(* ===== verification/Prelude.thy ===== *)
theory Prelude
  imports Main "HOL-Library.AList" "HOL-Library.Char_ord" "HOL-Library.List_Lexorder"
    "HOL-Library.Product_Lexorder" "HOL-Library.Sublist" "HOL-Library.Multiset"
begin

text \<open>
  Shared vocabulary and automation. Python's \<^verbatim>\<open>str\<close> is a byte list holding its UTF-8 form
  (\<^typ>\<open>string\<close>; byte order and code point order agree, so sorting agrees), a \<^verbatim>\<open>dict\<close> is an
  association list in insertion order with distinct keys, and the dictionary idioms of the code
  (\<^verbatim>\<open>dict.fromkeys\<close>, dict comprehensions, \<^verbatim>\<open>d[k] = v\<close>, \<^verbatim>\<open>d.pop\<close>) are functions on those lists.
  The laws of the dictionary are a locale, interpreted on the association lists.
\<close>

named_theorems dict_simps

type_synonym 'v dict = "(string \<times> 'v) list"

section \<open>Dictionaries\<close>

text \<open>The operations the components use of a Python dictionary, and what they promise.\<close>

locale dictionary =
  fixes look :: "'d \<Rightarrow> 'k \<Rightarrow> 'v option"
    and put :: "'k \<Rightarrow> 'v \<Rightarrow> 'd \<Rightarrow> 'd"
    and del :: "'k \<Rightarrow> 'd \<Rightarrow> 'd"
    and emp :: "'d"
    and ok :: "'d \<Rightarrow> bool"
  assumes look_emp: "look emp k = None"
    and look_put: "look (put k v d) = (look d)(k \<mapsto> v)"
    and look_del: "look (del k d) = (look d)(k := None)"
    and ok_emp: "ok emp"
    and ok_put: "ok d \<Longrightarrow> ok (put k v d)"
    and ok_del: "ok d \<Longrightarrow> ok (del k d)"
begin

lemma look_put_same: "look (put k v d) k = Some v"
  by (simp add: look_put)

lemma look_put_other: "k \<noteq> k' \<Longrightarrow> look (put k v d) k' = look d k'"
  by (simp add: look_put)

lemma look_fold_del: "look (fold del ks d) k = (if k \<in> set ks then None else look d k)"
  by (induction ks arbitrary: d) (auto simp: look_del)

lemma ok_fold_del: "ok d \<Longrightarrow> ok (fold del ks d)"
  by (induction ks arbitrary: d) (auto simp: ok_del)

lemma look_fold_put:
  "look (fold (\<lambda>k. put k (f k)) ks d) k = (if k \<in> set ks then Some (f k) else look d k)"
  by (induction ks arbitrary: d) (auto simp: look_put)

lemma ok_fold_put: "ok d \<Longrightarrow> ok (fold (\<lambda>k. put k (f k)) ks d)"
  by (induction ks arbitrary: d) (auto simp: ok_put)

end

definition keys_ok :: "('k \<times> 'v) list \<Rightarrow> bool" where
  "keys_ok d \<longleftrightarrow> distinct (map fst d)"

interpretation pydict: dictionary "map_of :: ('k \<times> 'v) list \<Rightarrow> 'k \<Rightarrow> 'v option" AList.update AList.delete "[]" keys_ok
proof unfold_locales
  fix k :: 'k and v :: 'v and d :: "('k \<times> 'v) list"
  show "map_of (AList.update k v d) = (map_of d)(k \<mapsto> v)"
    by (rule update_conv')
  show "map_of (AList.delete k d) = (map_of d)(k := None)"
    by (rule delete_conv')
  show "keys_ok d \<Longrightarrow> keys_ok (AList.update k v d)"
    by (simp add: keys_ok_def distinct_update)
  show "keys_ok d \<Longrightarrow> keys_ok (AList.delete k d)"
    by (simp add: keys_ok_def distinct_delete)
qed (simp_all add: keys_ok_def)

text \<open>A dict comprehension: a later pair replaces the value, the key keeps its first place.\<close>

definition dict_of :: "('k \<times> 'v) list \<Rightarrow> ('k \<times> 'v) list" where
  "dict_of ps = fold (\<lambda>(k, v). AList.update k v) ps []"

lemma fold_update_keys:
  "fst ` set (fold (\<lambda>(k, v). AList.update k v) ps d) = fst ` set d \<union> fst ` set ps"
proof (induction ps arbitrary: d)
  case (Cons p ps)
  then show ?case
    using dom_update [of "fst p" "snd p" d] by (cases p) simp
qed simp

lemma fold_update_distinct:
  "distinct (map fst d) \<Longrightarrow> distinct (map fst (fold (\<lambda>(k, v). AList.update k v) ps d))"
  by (induction ps arbitrary: d) (auto simp: distinct_update)

lemma update_fresh: "k \<notin> fst ` set d \<Longrightarrow> AList.update k v d = d @ [(k, v)]"
  by (induction d) auto

lemma fold_update_fresh:
  "distinct (map fst ps) \<Longrightarrow> fst ` set d \<inter> fst ` set ps = {} \<Longrightarrow>
   fold (\<lambda>(k, v). AList.update k v) ps d = d @ ps"
proof (induction ps arbitrary: d)
  case (Cons p ps)
  obtain k v where p: "p = (k, v)" by (cases p)
  with Cons.prems have "AList.update k v d = d @ [(k, v)]"
    by (intro update_fresh) auto
  with Cons p show ?case by auto
qed simp

lemma dict_of_keys [dict_simps]: "fst ` set (dict_of ps) = fst ` set ps"
  by (simp add: dict_of_def fold_update_keys)

lemma dict_of_distinct [dict_simps]: "distinct (map fst (dict_of ps))"
  by (simp add: dict_of_def fold_update_distinct)

lemma dict_of_id [dict_simps]: "distinct (map fst ps) \<Longrightarrow> dict_of ps = ps"
  by (simp add: dict_of_def fold_update_fresh)

text \<open>\<^verbatim>\<open>tuple(dict.fromkeys(xs))\<close>: duplicates dropped, first occurrences kept in order.\<close>

definition dedup :: "'a list \<Rightarrow> 'a list" where
  "dedup xs = rev (remdups (rev xs))"

lemma set_dedup [simp]: "set (dedup xs) = set xs"
  by (simp add: dedup_def)

lemma distinct_dedup [simp]: "distinct (dedup xs)"
  by (simp add: dedup_def)

lemma dedup_distinct [simp]: "distinct xs \<Longrightarrow> dedup xs = xs"
  by (simp add: dedup_def distinct_remdups_id)

lemma dedup_Nil [simp]: "dedup [] = []"
  by (simp add: dedup_def)

lemma map_of_Some_in: "map_of d k = Some v \<Longrightarrow> k \<in> fst ` set d"
  by (force dest: map_of_SomeD)

lemma map_of_map_self: "map_of (map (\<lambda>x. (f x, g x)) xs) k = Some v \<Longrightarrow> \<exists>x \<in> set xs. f x = k \<and> g x = v"
  by (induction xs) (auto split: if_splits)

lemma map_of_self_eq:
  "distinct (map f xs) \<Longrightarrow> x \<in> set xs \<Longrightarrow> map_of (map (\<lambda>x. (f x, g x)) xs) (f x) = Some (g x)"
  by (induction xs) (auto simp: rev_image_eqI)

lemma map_of_self_None: "k \<notin> f ` set xs \<Longrightarrow> map_of (map (\<lambda>x. (f x, g x)) xs) k = None"
  by (induction xs) auto

section \<open>Text\<close>

text \<open>\<^verbatim>\<open>sep.join(parts)\<close>.\<close>

fun join :: "string \<Rightarrow> string list \<Rightarrow> string" where
  "join sep [] = []"
| "join sep [p] = p"
| "join sep (p # q # ps) = p @ sep @ join sep (q # ps)"

text \<open>\<^verbatim>\<open>str(n)\<close> of a Python integer: decimal digits with a leading minus.\<close>

definition digit :: "nat \<Rightarrow> char" where
  "digit n = char_of (48 + n)"

fun dec_nat :: "nat \<Rightarrow> string" where
  "dec_nat n = (if n < 10 then [digit n] else dec_nat (n div 10) @ [digit (n mod 10)])"

declare dec_nat.simps [simp del]

definition dec_int :: "int \<Rightarrow> string" where
  "dec_int i = (if i < 0 then CHR ''-'' # dec_nat (nat (- i)) else dec_nat (nat i))"

definition is_digit :: "char \<Rightarrow> bool" where
  "is_digit c \<longleftrightarrow> 48 \<le> (of_char c :: nat) \<and> (of_char c :: nat) \<le> 57"

lemma is_digit_digit: "n < 10 \<Longrightarrow> is_digit (digit n)"
  by (simp add: is_digit_def digit_def)

lemma of_char_digit: "n < 10 \<Longrightarrow> (of_char (digit n) :: nat) = 48 + n"
  by (simp add: digit_def)

lemma digit_inj: "m < 10 \<Longrightarrow> n < 10 \<Longrightarrow> digit m = digit n \<longleftrightarrow> m = n"
  by (metis add_left_cancel of_char_digit)

lemma dec_nat_digits: "c \<in> set (dec_nat n) \<Longrightarrow> is_digit c"
proof (induction n rule: dec_nat.induct)
  case (1 n)
  then show ?case
    by (cases "n < 10") (auto simp: dec_nat.simps [of n] is_digit_digit)
qed

lemma dec_nat_nonempty [simp]: "dec_nat n \<noteq> []"
  by (subst dec_nat.simps) simp

lemma dec_nat_inj: "dec_nat m = dec_nat n \<Longrightarrow> m = n"
proof (induction m arbitrary: n rule: dec_nat.induct)
  case (1 m)
  show ?case
  proof (cases "m < 10")
    case True
    then show ?thesis
      using 1(2) dec_nat_nonempty [of "n div 10"]
      by (cases "n < 10") (auto simp: dec_nat.simps [of m] dec_nat.simps [of n] digit_inj simp del: dec_nat_nonempty)
  next
    case False
    with 1(2) have n: "\<not> n < 10"
      by (auto simp: dec_nat.simps [of m] dec_nat.simps [of n])
    with False 1(2) have "dec_nat (m div 10) = dec_nat (n div 10)" and "digit (m mod 10) = digit (n mod 10)"
      by (auto simp: dec_nat.simps [of m] dec_nat.simps [of n])
    with False 1(1) have "m div 10 = n div 10" and "m mod 10 = n mod 10"
      by (auto simp: digit_inj)
    then show ?thesis by (metis div_mult_mod_eq)
  qed
qed

lemma not_digit_minus [simp]: "\<not> is_digit (CHR ''-'')"
  by (simp add: is_digit_def)

lemma dec_nat_no_minus: "dec_nat n \<noteq> CHR ''-'' # s"
  using dec_nat_digits [of "CHR ''-''" n] by auto

lemma dec_int_inj: "dec_int i = dec_int j \<Longrightarrow> i = j"
  using dec_nat_no_minus by (auto simp: dec_int_def dest: dec_nat_inj split: if_splits) metis+

text \<open>Two texts, each a run over an alphabet followed by a character outside it, split alike.\<close>

lemma split_at_delim:
  assumes "\<forall>c \<in> set a. P c" "\<forall>c \<in> set b. P c" "x = [] \<or> \<not> P (hd x)" "y = [] \<or> \<not> P (hd y)"
    and "a @ x = b @ y"
  shows "a = b \<and> x = y"
proof -
  have "takeWhile P (a @ x) = a" and "takeWhile P (b @ y) = b"
    using assms(1-4) by (cases x; cases y; auto simp: takeWhile_append)+
  with assms(5) show ?thesis by auto
qed

section \<open>Errors\<close>

text \<open>Sequencing of raising code: the first exception wins.\<close>

definition bind_err :: "('e + 'a) \<Rightarrow> ('a \<Rightarrow> 'e + 'b) \<Rightarrow> 'e + 'b" where
  "bind_err m f = (case m of Inl e \<Rightarrow> Inl e | Inr x \<Rightarrow> f x)"

lemma bind_err_Inr [simp]: "bind_err m f = Inr y \<longleftrightarrow> (\<exists>x. m = Inr x \<and> f x = Inr y)"
  by (auto simp: bind_err_def split: sum.splits)

section \<open>Worklist reachability\<close>

text \<open>
  The loop that five functions of the code share: pop a node, skip it when seen, otherwise mark it
  and push what it waits for. \<open>blocked\<close> is the dictionary from a node to its direct predecessors;
  the stack's top is the list's head.
\<close>

function worklist :: "('a \<times> 'a list) list \<Rightarrow> 'a list \<Rightarrow> 'a list \<Rightarrow> 'a list" where
  "worklist blocked [] seen = seen"
| "worklist blocked (cur # stack) seen =
     (if cur \<in> set seen then worklist blocked stack seen
      else worklist blocked
             (rev (case map_of blocked cur of None \<Rightarrow> [] | Some ds \<Rightarrow> ds) @ stack) (cur # seen))"
  by pat_completeness auto
termination
proof (relation "measures [\<lambda>(b, st, seen). card ((set st \<union> \<Union> (set ` snd ` set b)) - set seen),
    \<lambda>(b, st, seen). length st]", goal_cases)
  case (2 b cur st seen)
  have "card ((set st \<union> \<Union> (set ` snd ` set b)) - set seen)
      \<le> card ((set (cur # st) \<union> \<Union> (set ` snd ` set b)) - set seen)"
    by (rule card_mono) auto
  then show ?case by (auto simp: le_less)
next
  case (3 b cur st seen)
  let ?ds = "rev (case map_of b cur of None \<Rightarrow> [] | Some ds \<Rightarrow> ds)"
  have "set ?ds \<subseteq> \<Union> (set ` snd ` set b)"
    by (cases "map_of b cur") (force dest: map_of_SomeD)+
  with 3 have "(set (?ds @ st) \<union> \<Union> (set ` snd ` set b)) - set (cur # seen)
      \<subset> (set (cur # st) \<union> \<Union> (set ` snd ` set b)) - set seen"
    by auto
  then have "card ((set (?ds @ st) \<union> \<Union> (set ` snd ` set b)) - set (cur # seen))
      < card ((set (cur # st) \<union> \<Union> (set ` snd ` set b)) - set seen)"
    by (rule psubset_card_mono [rotated]) auto
  then show ?case by auto
qed simp

text \<open>One edge of the dictionary: \<open>d\<close> is listed under \<open>t\<close>.\<close>

definition dict_edges :: "('a \<times> 'a list) list \<Rightarrow> ('a \<times> 'a) set" where
  "dict_edges blocked = {(d, t). \<exists>ds. map_of blocked t = Some ds \<and> d \<in> set ds}"

lemma worklist_sound:
  "x \<in> set (worklist b stack seen) \<Longrightarrow> x \<in> set seen \<or> (\<exists>s \<in> set stack. (x, s) \<in> (dict_edges b)\<^sup>*)"
proof (induction b stack seen rule: worklist.induct)
  case (2 b cur stack seen)
  show ?case
  proof (cases "cur \<in> set seen")
    case True
    with 2 show ?thesis by auto
  next
    case False
    let ?ds = "case map_of b cur of None \<Rightarrow> [] | Some ds \<Rightarrow> ds"
    have edge: "(d, cur) \<in> dict_edges b" if "d \<in> set ?ds" for d
      using that by (cases "map_of b cur") (auto simp: dict_edges_def)
    from False "2.prems" "2.IH"(2) [OF False] have
      "x \<in> set (cur # seen) \<or> (\<exists>s \<in> set (rev ?ds @ stack). (x, s) \<in> (dict_edges b)\<^sup>*)"
      by simp
    then show ?thesis
      using edge by (auto intro: rtrancl_into_rtrancl)
  qed
qed auto

lemma worklist_mono: "set seen \<subseteq> set (worklist b stack seen)"
  by (induction b stack seen rule: worklist.induct) auto

lemma worklist_stack: "set stack \<subseteq> set (worklist b stack seen)"
proof (induction b stack seen rule: worklist.induct)
  case (2 b cur stack seen)
  show ?case
  proof (cases "cur \<in> set seen")
    case True
    with 2(1) worklist_mono [of seen b stack] show ?thesis by auto
  next
    case False
    let ?ds = "case map_of b cur of None \<Rightarrow> [] | Some ds \<Rightarrow> ds"
    from 2(2) [OF False] worklist_mono [of "cur # seen" b "rev ?ds @ stack"] False
    show ?thesis by auto
  qed
qed simp

lemma worklist_closed:
  "(\<And>t d. t \<in> set seen \<Longrightarrow> (d, t) \<in> dict_edges b \<Longrightarrow> d \<in> set seen \<union> set stack) \<Longrightarrow>
   t \<in> set (worklist b stack seen) \<Longrightarrow> (d, t) \<in> dict_edges b \<Longrightarrow> d \<in> set (worklist b stack seen)"
proof (induction b stack seen arbitrary: t d rule: worklist.induct)
  case (1 b seen)
  then show ?case by auto
next
  case (2 b cur stack seen)
  show ?case
  proof (cases "cur \<in> set seen")
    case True
    have "d \<in> set (worklist b stack seen)"
    proof (rule "2.IH"(1) [OF True, of t d])
      fix t' d' assume "t' \<in> set seen" "(d', t') \<in> dict_edges b"
      with "2.prems"(1) True show "d' \<in> set seen \<union> set stack" by fastforce
    next
      show "t \<in> set (worklist b stack seen)" using "2.prems"(2) True by simp
    qed (fact "2.prems"(3))
    with True show ?thesis by simp
  next
    case False
    let ?st = "rev (case map_of b cur of None \<Rightarrow> [] | Some ds \<Rightarrow> ds) @ stack"
    have "d \<in> set (worklist b ?st (cur # seen))"
    proof (rule "2.IH"(2) [OF False, of t d])
      fix t' d' assume t': "t' \<in> set (cur # seen)" and e: "(d', t') \<in> dict_edges b"
      show "d' \<in> set (cur # seen) \<union> set ?st"
      proof (cases "t' = cur")
        case True
        with e show ?thesis by (auto simp: dict_edges_def)
      next
        case False
        with t' e "2.prems"(1) [of t' d'] show ?thesis by auto
      qed
    next
      show "t \<in> set (worklist b ?st (cur # seen))" using "2.prems"(2) False by simp
    qed (fact "2.prems"(3))
    with False show ?thesis by simp
  qed
qed

theorem worklist_reach:
  "set (worklist b stack []) = {x. \<exists>s \<in> set stack. (x, s) \<in> (dict_edges b)\<^sup>*}" (is "?l = ?r")
proof
  show "?l \<subseteq> ?r" using worklist_sound [of _ b stack "[]"] by auto
next
  have "x \<in> ?l" if "(x, s) \<in> (dict_edges b)\<^sup>*" "s \<in> set stack" for x s
    using that
  proof (induction rule: converse_rtrancl_induct)
    case base
    then show ?case using worklist_stack [of stack b "[]"] by auto
  next
    case (step y z)
    then show ?case using worklist_closed [of "[]" b stack z y] by auto
  qed
  then show "?r \<subseteq> ?l" by auto
qed

end
