(* ===== verification/Json.thy ===== *)
theory Json
  imports Prelude
begin

text \<open>
  The value every document is parsed into (\<^verbatim>\<open>strict_yaml\<close> leaves only dict, list, str, int, float,
  bool and None) and the readers of \<^verbatim>\<open>models.py\<close> that project typed fields out of it. The code keeps
  the parsed mapping as the truth and its classes as views over it; the model does the same.

  A finite float is carried as its \<^verbatim>\<open>repr\<close> text, which is what \<^verbatim>\<open>json.dumps\<close> and \<^verbatim>\<open>str\<close> print.
\<close>

datatype pyfloat = FNaN | FInf | FNegInf | FFin string

datatype json =
    JNull
  | JBool bool
  | JInt int
  | JFloat pyfloat
  | JStr string
  | JArr "json list"
  | JObj "(string \<times> json) list"

type_synonym jobj = "(string \<times> json) list"

section \<open>Python idioms on values\<close>

text \<open>\<^verbatim>\<open>bool(v)\<close>.\<close>

fun truthy :: "json \<Rightarrow> bool" where
  "truthy JNull = False"
| "truthy (JBool b) = b"
| "truthy (JInt i) = (i \<noteq> 0)"
| "truthy (JFloat f) = (f \<noteq> FFin ''0.0'' \<and> f \<noteq> FFin ''-0.0'')"
| "truthy (JStr s) = (s \<noteq> [])"
| "truthy (JArr xs) = (xs \<noteq> [])"
| "truthy (JObj kvs) = (kvs \<noteq> [])"

text \<open>\<^verbatim>\<open>mapping.get(key)\<close> and \<^verbatim>\<open>mapping.get(key, default)\<close>.\<close>

definition jget :: "jobj \<Rightarrow> string \<Rightarrow> json" where
  "jget m k = (case map_of m k of None \<Rightarrow> JNull | Some v \<Rightarrow> v)"

definition jget_or :: "jobj \<Rightarrow> string \<Rightarrow> json \<Rightarrow> json" where
  "jget_or m k d = (case map_of m k of None \<Rightarrow> d | Some v \<Rightarrow> v)"

text \<open>\<^verbatim>\<open>v or default\<close>.\<close>

definition py_or :: "json \<Rightarrow> json \<Rightarrow> json" where
  "py_or v d = (if truthy v then v else d)"

text \<open>\<^verbatim>\<open>v if isinstance(v, dict) else {}\<close> and its list counterpart.\<close>

fun as_obj :: "json \<Rightarrow> jobj" where
  "as_obj (JObj kvs) = kvs"
| "as_obj _ = []"

fun is_obj :: "json \<Rightarrow> bool" where
  "is_obj (JObj _) = True"
| "is_obj _ = False"

fun as_arr :: "json \<Rightarrow> json list" where
  "as_arr (JArr xs) = xs"
| "as_arr _ = []"

text \<open>\<^verbatim>\<open>isinstance(v, int)\<close>: a Python bool is an int.\<close>

fun as_pyint :: "json \<Rightarrow> int option" where
  "as_pyint (JInt i) = Some i"
| "as_pyint (JBool b) = Some (if b then 1 else 0)"
| "as_pyint _ = None"

text \<open>The elements of a list that are strings, and those that are mappings.\<close>

fun strs_in :: "json list \<Rightarrow> string list" where
  "strs_in [] = []"
| "strs_in (JStr s # xs) = s # strs_in xs"
| "strs_in (_ # xs) = strs_in xs"

fun objs_in :: "json list \<Rightarrow> jobj list" where
  "objs_in [] = []"
| "objs_in (JObj m # xs) = m # objs_in xs"
| "objs_in (_ # xs) = objs_in xs"

text \<open>The items of a mapping whose value is a mapping (\<^verbatim>\<open>{k: v for k, v in value.items() if isinstance(v, dict)}\<close>).\<close>

fun obj_items :: "jobj \<Rightarrow> (string \<times> jobj) list" where
  "obj_items [] = []"
| "obj_items ((k, JObj m) # kvs) = (k, m) # obj_items kvs"
| "obj_items (_ # kvs) = obj_items kvs"

lemma obj_items_in: "(k, m) \<in> set (obj_items kvs) \<longleftrightarrow> (k, JObj m) \<in> set kvs"
  by (induction kvs rule: obj_items.induct) auto

lemma obj_items_keys: "fst ` set (obj_items kvs) \<subseteq> fst ` set kvs"
  by (force simp: obj_items_in)

lemma distinct_obj_items: "distinct (map fst kvs) \<Longrightarrow> distinct (map fst (obj_items kvs))"
proof (induction kvs rule: obj_items.induct)
  case (2 k m kvs)
  then show ?case using obj_items_keys [of kvs] by auto
qed auto

lemma map_of_obj_items:
  "distinct (map fst kvs) \<Longrightarrow>
   map_of (obj_items kvs) k = (case map_of kvs k of Some (JObj m) \<Rightarrow> Some m | _ \<Rightarrow> None)"
proof (cases "map_of (obj_items kvs) k")
  case None
  then have "(k, JObj m) \<notin> set kvs" for m
    using obj_items_in [of k m kvs] by (force simp: map_of_eq_None_iff)
  with None show ?thesis
    by (auto split: option.splits json.splits dest: map_of_SomeD)
next
  case (Some m)
  assume "distinct (map fst kvs)"
  with Some have "map_of kvs k = Some (JObj m)"
    by (auto dest!: map_of_SomeD simp: obj_items_in)
  with Some show ?thesis by simp
qed

lemma objs_in_set: "m \<in> set (objs_in xs) \<longleftrightarrow> JObj m \<in> set xs"
  by (induction xs rule: objs_in.induct) auto

lemma objs_in_map_JObj [simp]: "objs_in (map JObj ms) = ms"
  by (induction ms) auto

lemma strs_in_map_JStr [simp]: "strs_in (map JStr ss) = ss"
  by (induction ss) auto

section \<open>\<^verbatim>\<open>str(v)\<close>\<close>

text \<open>\<^verbatim>\<open>repr\<close> of a string: single quotes unless it holds one and no double quote; backslash, the quote,
  newline, return and tab escaped by letter, other ASCII controls as \<^verbatim>\<open>\xNN\<close>. Bytes above 127 belong
  to a non-ASCII character and are left as they are.\<close>

definition hex_digit :: "nat \<Rightarrow> char" where
  "hex_digit n = (if n < 10 then char_of (48 + n) else char_of (87 + n))"

definition repr_char :: "char \<Rightarrow> char \<Rightarrow> string" where
  "repr_char q c =
     (if c = q \<or> c = CHR 0x5C then [CHR 0x5C, c]
      else if c = CHR 0x0A then [CHR 0x5C, CHR ''n'']
      else if c = CHR 0x0D then [CHR 0x5C, CHR ''r'']
      else if c = CHR 0x09 then [CHR 0x5C, CHR ''t'']
      else if (of_char c :: nat) < 32 \<or> (of_char c :: nat) = 127
        then [CHR 0x5C, CHR ''x'', hex_digit (of_char c div 16), hex_digit (of_char c mod 16)]
      else [c])"

definition repr_str :: "string \<Rightarrow> string" where
  "repr_str s =
     (let q = (if CHR 0x27 \<in> set s \<and> CHR 0x22 \<notin> set s then CHR 0x22 else CHR 0x27)
      in [q] @ concat (map (repr_char q) s) @ [q])"

fun py_repr :: "json \<Rightarrow> string" where
  "py_repr JNull = ''None''"
| "py_repr (JBool b) = (if b then ''True'' else ''False'')"
| "py_repr (JInt i) = dec_int i"
| "py_repr (JFloat FNaN) = ''nan''"
| "py_repr (JFloat FInf) = ''inf''"
| "py_repr (JFloat FNegInf) = ''-inf''"
| "py_repr (JFloat (FFin t)) = t"
| "py_repr (JStr s) = repr_str s"
| "py_repr (JArr xs) = ''['' @ join '', '' (map py_repr xs) @ '']''"
| "py_repr (JObj kvs) = ''{'' @ join '', '' (map (\<lambda>kv. repr_str (fst kv) @ '': '' @ py_repr (snd kv)) kvs) @ ''}''"

fun py_str :: "json \<Rightarrow> string" where
  "py_str (JStr s) = s"
| "py_str v = py_repr v"

text \<open>\<^verbatim>\<open>str(entry.get(k, d))\<close>.\<close>

definition str_get :: "jobj \<Rightarrow> string \<Rightarrow> string \<Rightarrow> string" where
  "str_get m k d = py_str (jget_or m k (JStr d))"

section \<open>The typed readers of \<^verbatim>\<open>models.py\<close>\<close>

text \<open>\<^verbatim>\<open>_str\<close>: the field if it is a string, otherwise the default.\<close>

definition str_field :: "jobj \<Rightarrow> string \<Rightarrow> string \<Rightarrow> string" where
  "str_field m k d = (case jget_or m k (JStr d) of JStr s \<Rightarrow> s | _ \<Rightarrow> d)"

text \<open>\<^verbatim>\<open>_ids\<close>: the strings of a list field.\<close>

definition ids_field :: "jobj \<Rightarrow> string \<Rightarrow> string list" where
  "ids_field m k = (case py_or (jget m k) (JArr []) of JArr vs \<Rightarrow> strs_in vs | _ \<Rightarrow> [])"

text \<open>\<^verbatim>\<open>_maps\<close>: the mappings of a list field.\<close>

definition maps_field :: "jobj \<Rightarrow> string \<Rightarrow> jobj list" where
  "maps_field m k = (case py_or (jget m k) (JArr []) of JArr vs \<Rightarrow> objs_in vs | _ \<Rightarrow> [])"

text \<open>The field if it is a mapping, otherwise the empty one.\<close>

definition obj_field :: "jobj \<Rightarrow> string \<Rightarrow> jobj" where
  "obj_field m k = as_obj (jget m k)"

lemma ids_field_eq: "ids_field m k = (case map_of m k of Some (JArr vs) \<Rightarrow> strs_in vs | _ \<Rightarrow> [])"
  by (auto simp: ids_field_def jget_def py_or_def split: option.splits json.splits)

lemma maps_field_eq: "maps_field m k = (case map_of m k of Some (JArr vs) \<Rightarrow> objs_in vs | _ \<Rightarrow> [])"
  by (auto simp: maps_field_def jget_def py_or_def split: option.splits json.splits)

lemma str_field_eq: "str_field m k d = (case map_of m k of Some (JStr s) \<Rightarrow> s | _ \<Rightarrow> d)"
  by (auto simp: str_field_def jget_or_def split: option.splits json.splits)

lemma obj_field_eq: "obj_field m k = (case map_of m k of Some (JObj d) \<Rightarrow> d | _ \<Rightarrow> [])"
  by (auto simp: obj_field_def jget_def split: option.splits json.splits)

lemmas field_eqs = ids_field_eq maps_field_eq str_field_eq obj_field_eq

text \<open>Storing a field: the mapping operations, with the field readers after them.\<close>

abbreviation jset :: "string \<Rightarrow> json \<Rightarrow> jobj \<Rightarrow> jobj" where
  "jset k v m \<equiv> AList.update k v m"

abbreviation jpop :: "string \<Rightarrow> jobj \<Rightarrow> jobj" where
  "jpop k m \<equiv> AList.delete k m"

lemmas map_of_jset [simp] = pydict.look_put
lemmas map_of_jpop [simp] = pydict.look_del

text \<open>A value as a parser builds it: every mapping's keys are distinct.\<close>

fun jwf :: "json \<Rightarrow> bool" where
  "jwf (JArr xs) = (\<forall>x \<in> set xs. jwf x)"
| "jwf (JObj kvs) = (distinct (map fst kvs) \<and> (\<forall>kv \<in> set kvs. jwf (snd kv)))"
| "jwf _ = True"

end
