(* ===== verification/Digests.thy ===== *)
theory Digests
  imports Json
begin

text \<open>
  \<^verbatim>\<open>digests.py\<close>: canonical bytes of a document and the \<^verbatim>\<open>sha256:\<close> digests every binding is built
  from. The hash function is the parameter \<open>sha\<close> (\<^verbatim>\<open>hashlib.sha256(...).hexdigest()\<close>, from bytes to
  hex text); no theorem assumes it is injective, each one ends in "or two texts collide".
\<close>

datatype digest_error =
    NoCanonicalForm string
  | NotADigest string
  | UnparseableRecord string
  | UnsupportedKind string string
  | BadObjectId string string
  | DuplicatePath string

section \<open>Canonical form\<close>

text \<open>\<^verbatim>\<open>_check\<close>: the path of the first value with no canonical form. Keys are strings by the type.\<close>

definition sub_path :: "string \<Rightarrow> string \<Rightarrow> string" where
  "sub_path path k = (if path = [] then k else path @ ''.'' @ k)"

fun check_value :: "string \<Rightarrow> json \<Rightarrow> string option"
  and check_items :: "string \<Rightarrow> (string \<times> json) list \<Rightarrow> string option"
  and check_elems :: "string \<Rightarrow> nat \<Rightarrow> json list \<Rightarrow> string option" where
  "check_value path (JFloat f) =
     (case f of FFin _ \<Rightarrow> None | _ \<Rightarrow> Some (if path = [] then ''<root>'' else path))"
| "check_value path (JObj kvs) = check_items path kvs"
| "check_value path (JArr xs) = check_elems path 0 xs"
| "check_value path _ = None"
| "check_items path [] = None"
| "check_items path ((k, v) # kvs) =
     (case check_value (sub_path path k) v of
        Some e \<Rightarrow> Some e
      | None \<Rightarrow> check_items path kvs)"
| "check_elems path i [] = None"
| "check_elems path i (x # xs) =
     (case check_value (path @ ''['' @ dec_nat i @ '']'') x of
        Some e \<Rightarrow> Some e
      | None \<Rightarrow> check_elems path (Suc i) xs)"

text \<open>\<^verbatim>\<open>prune\<close>: the mapping keys named in \<open>ks\<close> removed at any depth.\<close>

fun prune_keys :: "string list \<Rightarrow> json \<Rightarrow> json" where
  "prune_keys ks (JObj kvs) =
     JObj (map (\<lambda>kv. (fst kv, prune_keys ks (snd kv))) (filter (\<lambda>kv. fst kv \<notin> set ks) kvs))"
| "prune_keys ks (JArr xs) = JArr (map (prune_keys ks) xs)"
| "prune_keys ks v = v"

definition prune :: "json \<Rightarrow> string list \<Rightarrow> json" where
  "prune v ks = (if ks = [] then v else prune_keys ks v)"

text \<open>
  \<^verbatim>\<open>json.dumps\<close> with sorted keys, compact separators and \<^verbatim>\<open>ensure_ascii=False\<close>: a string's quote,
  backslash and ASCII controls are escaped, every other byte is itself.
\<close>

definition short_esc :: "char \<Rightarrow> char option" where
  "short_esc = map_of
     [(CHR 0x22, CHR 0x22), (CHR 0x5C, CHR 0x5C), (CHR 0x0A, CHR ''n''), (CHR 0x0D, CHR ''r''),
      (CHR 0x09, CHR ''t''), (CHR 0x0C, CHR ''f''), (CHR 0x08, CHR ''b'')]"

definition esc_char :: "char \<Rightarrow> string" where
  "esc_char c =
     (case short_esc c of
        Some l \<Rightarrow> [CHR 0x5C, l]
      | None \<Rightarrow> if (of_char c :: nat) < 32
          then CHR 0x5C # ''u00'' @ [hex_digit (of_char c div 16), hex_digit (of_char c mod 16)]
          else [c])"

definition quote_str :: "string \<Rightarrow> string" where
  "quote_str s = CHR 0x22 # concat (map esc_char s) @ [CHR 0x22]"

fun ser :: "json \<Rightarrow> string" where
  "ser JNull = ''null''"
| "ser (JBool b) = (if b then ''true'' else ''false'')"
| "ser (JInt i) = dec_int i"
| "ser (JFloat f) = (case f of FFin t \<Rightarrow> t | FNaN \<Rightarrow> ''NaN'' | FInf \<Rightarrow> ''Infinity'' | FNegInf \<Rightarrow> ''-Infinity'')"
| "ser (JStr s) = quote_str s"
| "ser (JArr xs) = ''['' @ join '','' (map ser xs) @ '']''"
| "ser (JObj kvs) = ''{'' @ join '',''
     (map (\<lambda>kt. quote_str (fst kt) @ '':'' @ snd kt)
       (sort_key fst (map (\<lambda>kv. (fst kv, ser (snd kv))) kvs))) @ ''}''"

definition canonical :: "json \<Rightarrow> string list \<Rightarrow> digest_error + string" where
  "canonical v ks =
     (let pruned = prune v ks
      in case check_value [] pruned of
           Some at \<Rightarrow> Inl (NoCanonicalForm at)
         | None \<Rightarrow> Inr (ser pruned))"

section \<open>Digests\<close>

definition digest_prefix :: string where
  "digest_prefix = ''sha256:''"

definition volatile_timestamp_keys :: "string list" where
  "volatile_timestamp_keys =
     [''updated_at'', ''generated_at'', ''frozen_at'', ''installed_at'', ''completed_at'']"

definition of_bytes :: "(string \<Rightarrow> string) \<Rightarrow> string \<Rightarrow> string" where
  "of_bytes sha data = digest_prefix @ sha data"

definition digest_of :: "(string \<Rightarrow> string) \<Rightarrow> json \<Rightarrow> string list \<Rightarrow> digest_error + string" where
  "digest_of sha v ks = bind_err (canonical v ks) (\<lambda>b. Inr (of_bytes sha b))"

text \<open>\<^verbatim>\<open>of_texts\<close>: every part is preceded by its byte length and a NUL.\<close>

definition frame :: "string \<Rightarrow> string" where
  "frame p = dec_nat (length p) @ [CHR 0x00] @ p"

definition of_texts :: "(string \<Rightarrow> string) \<Rightarrow> string list \<Rightarrow> string" where
  "of_texts sha parts = digest_prefix @ sha (concat (map frame parts))"

definition is_lower_hex :: "char \<Rightarrow> bool" where
  "is_lower_hex c \<longleftrightarrow> is_digit c \<or> 97 \<le> (of_char c :: nat) \<and> (of_char c :: nat) \<le> 102"

text \<open>Python's \<^verbatim>\<open>$\<close> also matches before one trailing newline; every anchored pattern of the code has it.\<close>

definition chomp :: "string \<Rightarrow> string" where
  "chomp s = (if s \<noteq> [] \<and> last s = CHR 0x0A then butlast s else s)"

definition hex_run :: "nat \<Rightarrow> string \<Rightarrow> bool" where
  "hex_run n s \<longleftrightarrow> length s = n \<and> list_all is_lower_hex s"

definition is_digest :: "string \<Rightarrow> bool" where
  "is_digest s \<longleftrightarrow> prefix digest_prefix s \<and>
     (hex_run 64 (drop 7 s) \<or> hex_run 64 (chomp (drop 7 s)))"

definition require_digest :: "string \<Rightarrow> digest_error + string" where
  "require_digest s = (if is_digest s then Inr s else Inl (NotADigest s))"

definition matches :: "string \<Rightarrow> string \<Rightarrow> bool" where
  "matches left right \<longleftrightarrow> is_digest left \<and> is_digest right \<and> left = right"

section \<open>Git trees\<close>

datatype tree_entry = TreeEntry (te_path: string) (te_mode: string) (te_blob: string)

text \<open>The dataclass is declared \<^verbatim>\<open>order=True\<close>: fields compare in declaration order.\<close>

instantiation tree_entry :: linorder
begin

definition less_eq_tree_entry :: "tree_entry \<Rightarrow> tree_entry \<Rightarrow> bool" where
  "less_eq_tree_entry a b \<longleftrightarrow> (te_path a, te_mode a, te_blob a) \<le> (te_path b, te_mode b, te_blob b)"

definition less_tree_entry :: "tree_entry \<Rightarrow> tree_entry \<Rightarrow> bool" where
  "less_tree_entry a b \<longleftrightarrow> (te_path a, te_mode a, te_blob a) < (te_path b, te_mode b, te_blob b)"

instance
  by standard
    (unfold less_eq_tree_entry_def less_tree_entry_def,
     auto intro: tree_entry.expand simp: less_le_not_le [symmetric] split: if_splits)

end

fun split_on :: "char \<Rightarrow> string \<Rightarrow> string list" where
  "split_on c [] = [[]]"
| "split_on c (x # xs) =
     (if x = c then [] # split_on c xs
      else (case split_on c xs of [] \<Rightarrow> [[x]] | p # ps \<Rightarrow> (x # p) # ps))"

definition is_space :: "char \<Rightarrow> bool" where
  "is_space c \<longleftrightarrow> c = CHR '' '' \<or> 9 \<le> (of_char c :: nat) \<and> (of_char c :: nat) \<le> 13
     \<or> 28 \<le> (of_char c :: nat) \<and> (of_char c :: nat) \<le> 31"

text \<open>\<^verbatim>\<open>s.split()\<close> (on ASCII white space).\<close>

function words_of :: "string \<Rightarrow> string list" where
  "words_of [] = []"
| "words_of (x # xs) =
     (if is_space x then words_of xs
      else (x # takeWhile (\<lambda>c. \<not> is_space c) xs) # words_of (dropWhile (\<lambda>c. \<not> is_space c) xs))"
  by pat_completeness auto
termination
  by (relation "measure length") (auto simp: less_Suc_eq_le length_dropWhile_le)

text \<open>A git object id: 40 hexadecimal digits, or 64 (with the trailing newline \<^verbatim>\<open>$\<close> lets through).\<close>

definition is_blob_id :: "string \<Rightarrow> bool" where
  "is_blob_id s \<longleftrightarrow> hex_run 40 s \<or> hex_run 64 s \<or> hex_run 40 (chomp s) \<or> hex_run 64 (chomp s)"

definition parse_record :: "string \<Rightarrow> digest_error + tree_entry" where
  "parse_record rec =
     (let meta = takeWhile (\<lambda>c. c \<noteq> CHR 0x09) rec;
          path = drop (Suc (length meta)) rec;
          fields = words_of meta
      in if path = [] \<or> length fields < 3 then Inl (UnparseableRecord rec)
         else let mode = fields ! 0; kind = fields ! 1; blob = fields ! 2
              in if kind \<noteq> ''blob'' then Inl (UnsupportedKind path kind)
                 else if \<not> is_blob_id blob then Inl (BadObjectId path blob)
                 else Inr (TreeEntry path mode blob))"

fun parse_records :: "string list \<Rightarrow> digest_error + tree_entry list" where
  "parse_records [] = Inr []"
| "parse_records (r # rs) =
     (if r = [] then parse_records rs
      else bind_err (parse_record r) (\<lambda>e. bind_err (parse_records rs) (\<lambda>es. Inr (e # es))))"

definition parse_ls_tree :: "string \<Rightarrow> digest_error + tree_entry list" where
  "parse_ls_tree output = parse_records (split_on (CHR 0x00) output)"

text \<open>The first path that occurs a second time.\<close>

fun first_dup :: "'a list \<Rightarrow> 'a list \<Rightarrow> 'a option" where
  "first_dup seen [] = None"
| "first_dup seen (x # xs) = (if x \<in> set seen then Some x else first_dup (x # seen) xs)"

definition entry_text :: "tree_entry \<Rightarrow> string" where
  "entry_text e = te_path e @ [CHR 0x00] @ te_mode e @ [CHR 0x00] @ te_blob e"

definition tree_digest :: "(string \<Rightarrow> string) \<Rightarrow> tree_entry list \<Rightarrow> digest_error + string" where
  "tree_digest sha entries =
     (case first_dup [] (map te_path entries) of
        Some p \<Rightarrow> Inl (DuplicatePath p)
      | None \<Rightarrow> Inr (of_texts sha (map entry_text (sort entries))))"

definition under_any :: "string \<Rightarrow> string list \<Rightarrow> string list \<Rightarrow> bool" where
  "under_any path pres exact \<longleftrightarrow> path \<in> set exact \<or> (\<exists>p \<in> set pres. prefix p path)"

definition ends_slash :: "string \<Rightarrow> bool" where
  "ends_slash p \<longleftrightarrow> suffix ''/'' p"

definition as_prefixes :: "string list \<Rightarrow> string list" where
  "as_prefixes ps = map (\<lambda>p. if ends_slash p then p else p @ ''/'') ps"

definition as_exact :: "string list \<Rightarrow> string list" where
  "as_exact ps = filter (\<lambda>p. \<not> ends_slash p) ps"

definition filter_tree :: "tree_entry list \<Rightarrow> string list \<Rightarrow> string list \<Rightarrow> tree_entry list" where
  "filter_tree entries exclude include =
     (let kept = filter (\<lambda>e. \<not> under_any (te_path e) (as_prefixes exclude) (as_exact exclude)) entries
      in if include = [] then kept
         else filter (\<lambda>e. under_any (te_path e) (as_prefixes include) (as_exact include)) kept)"

section \<open>The canonical form is unambiguous\<close>

text \<open>Key order is the only thing the canonical form forgets.\<close>

fun norm :: "json \<Rightarrow> json" where
  "norm (JArr xs) = JArr (map norm xs)"
| "norm (JObj kvs) = JObj (sort_key fst (map (\<lambda>kv. (fst kv, norm (snd kv))) kvs))"
| "norm v = v"

text \<open>A finite float's \<^verbatim>\<open>repr\<close>: number characters, and a point or an exponent among them.\<close>

definition num_char :: "char \<Rightarrow> bool" where
  "num_char c \<longleftrightarrow> is_digit c \<or> c \<in> {CHR ''-'', CHR ''+'', CHR ''.'', CHR ''e''}"

definition float_text :: "string \<Rightarrow> bool" where
  "float_text t \<longleftrightarrow> t \<noteq> [] \<and> list_all num_char t \<and> (CHR ''.'' \<in> set t \<or> CHR ''e'' \<in> set t)"

fun floats_ok :: "json \<Rightarrow> bool" where
  "floats_ok (JFloat (FFin t)) = float_text t"
| "floats_ok (JArr xs) = (\<forall>x \<in> set xs. floats_ok x)"
| "floats_ok (JObj kvs) = (\<forall>kv \<in> set kvs. floats_ok (snd kv))"
| "floats_ok _ = True"

fun finite_floats :: "json \<Rightarrow> bool" where
  "finite_floats (JFloat f) = (case f of FFin _ \<Rightarrow> True | _ \<Rightarrow> False)"
| "finite_floats (JArr xs) = (\<forall>x \<in> set xs. finite_floats x)"
| "finite_floats (JObj kvs) = (\<forall>kv \<in> set kvs. finite_floats (snd kv))"
| "finite_floats _ = True"

lemma check_value_None:
  "check_value p v = None \<longleftrightarrow> finite_floats v"
  "check_items p kvs = None \<longleftrightarrow> (\<forall>kv \<in> set kvs. finite_floats (snd kv))"
  "check_elems p i xs = None \<longleftrightarrow> (\<forall>x \<in> set xs. finite_floats x)"
  by (induction p v and p kvs and p i xs rule: check_value_check_items_check_elems.induct)
    (auto split: pyfloat.splits option.splits)

lemma sort_key_map: "sort_key f (map h xs) = map h (sort_key (\<lambda>x. f (h x)) xs)"
proof -
  have "insort_key f (h x) (map h ys) = map h (insort_key (\<lambda>x. f (h x)) x ys)" for x ys
    by (induction ys) auto
  then show ?thesis by (induction xs) auto
qed

definition ser_item :: "string \<times> json \<Rightarrow> string" where
  "ser_item kv = quote_str (fst kv) @ '':'' @ ser (snd kv)"

definition norm_item :: "string \<times> json \<Rightarrow> string \<times> json" where
  "norm_item kv = (fst kv, norm (snd kv))"

lemma ser_JObj: "ser (JObj kvs) = ''{'' @ join '','' (map ser_item (sort_key fst kvs)) @ ''}''"
  by (simp add: sort_key_map ser_item_def [abs_def] comp_def)

lemma norm_JObj: "norm (JObj kvs) = JObj (map norm_item (sort_key fst kvs))"
  by (simp add: sort_key_map norm_item_def [abs_def] comp_def)

lemma ser_norm: "ser (norm v) = ser v"
proof (induction v rule: norm.induct)
  case (1 xs)
  then show ?case by (simp add: comp_def cong: map_cong)
next
  case (2 kvs)
  have "map ser_item (map norm_item (sort_key fst kvs)) = map ser_item (sort_key fst kvs)"
    using 2 by (auto simp: ser_item_def norm_item_def)
  moreover have "sort_key fst (map norm_item (sort_key fst kvs)) = map norm_item (sort_key fst kvs)"
    by (rule sort_key_id_if_sorted) (simp add: comp_def norm_item_def)
  ultimately show ?case by (simp only: norm_JObj ser_JObj)
qed simp_all

declare ser.simps(7) [simp del] norm.simps(2) [simp del]

subsection \<open>Strings\<close>

lemma hex_digit_inj: "m < 16 \<Longrightarrow> n < 16 \<Longrightarrow> hex_digit m = hex_digit n \<Longrightarrow> m = n"
  by (auto simp: hex_digit_def dest!: arg_cong [where f = "of_char :: char \<Rightarrow> nat"] split: if_splits)

lemma hex_pair_inj:
  assumes "hex_digit (of_char c div 16) = hex_digit (of_char d div 16)"
    and "hex_digit (of_char c mod 16) = hex_digit (of_char d mod 16)"
    and "(of_char c :: nat) < 32" "(of_char d :: nat) < 32"
  shows "c = d"
proof -
  have "of_char c div 16 = (of_char d :: nat) div 16" "of_char c mod 16 = (of_char d :: nat) mod 16"
    using assms by (auto intro!: hex_digit_inj)
  then have "(of_char c :: nat) = of_char d" by (metis div_mult_mod_eq)
  then show ?thesis by simp
qed

lemma short_esc_inj: "short_esc c = Some l \<Longrightarrow> short_esc d = Some l \<Longrightarrow> c = d"
  by (auto simp: short_esc_def split: if_splits)

lemma short_esc_u: "short_esc c \<noteq> Some (CHR ''u'')"
  by (auto simp: short_esc_def)

lemma short_esc_None: "short_esc c = None \<Longrightarrow> c \<noteq> CHR 0x22 \<and> c \<noteq> CHR 0x5C"
  by (auto simp: short_esc_def)

lemma esc_char_cases:
  obtains (short) l where "short_esc c = Some l" "esc_char c = [CHR 0x5C, l]" "l \<noteq> CHR ''u''"
  | (ctrl) "short_esc c = None" "(of_char c :: nat) < 32"
      "esc_char c = CHR 0x5C # ''u00'' @ [hex_digit (of_char c div 16), hex_digit (of_char c mod 16)]"
  | (plain) "esc_char c = [c]" "c \<noteq> CHR 0x5C"
proof (cases "short_esc c")
  case None
  then show ?thesis
    using that(2,3) short_esc_None [OF None] by (cases "(of_char c :: nat) < 32") (simp_all add: esc_char_def)
next
  case (Some l)
  moreover have "l \<noteq> CHR ''u''" using Some short_esc_u by metis
  ultimately show ?thesis using that(1) by (simp add: esc_char_def)
qed

lemma esc_char_inj:
  assumes "esc_char c @ x = esc_char d @ y"
  shows "c = d \<and> x = y"
proof (cases c rule: esc_char_cases)
  case c: (short l)
  show ?thesis
  proof (cases d rule: esc_char_cases)
    case (short l')
    with c assms short_esc_inj [of c l d] show ?thesis by simp
  qed (use c assms in auto)
next
  case c: ctrl
  show ?thesis
  proof (cases d rule: esc_char_cases)
    case ctrl
    with c assms hex_pair_inj [of c d] show ?thesis by simp
  qed (use c assms in auto)
next
  case c: plain
  show ?thesis
    by (cases d rule: esc_char_cases) (use c assms in auto)
qed

lemma esc_char_hd: "esc_char c @ x \<noteq> CHR 0x22 # y"
  using short_esc_None [of c] by (auto simp: esc_char_def split: option.splits)

lemma esc_text_inj:
  "concat (map esc_char s) @ CHR 0x22 # r = concat (map esc_char t) @ CHR 0x22 # r' \<Longrightarrow> s = t \<and> r = r'"
proof (induction s arbitrary: t)
  case Nil
  then show ?case using esc_char_hd by (cases t) (auto, metis)
next
  case (Cons c s)
  show ?case
  proof (cases t)
    case Nil
    with Cons.prems esc_char_hd show ?thesis by auto
  next
    case (Cons d t')
    with Cons.prems have "esc_char c @ (concat (map esc_char s) @ CHR 0x22 # r)
        = esc_char d @ (concat (map esc_char t') @ CHR 0x22 # r')" by simp
    from esc_char_inj [OF this] Cons.IH [of t'] Cons show ?thesis by auto
  qed
qed

lemma quote_str_inj: "quote_str s @ r = quote_str t @ r' \<Longrightarrow> s = t \<and> r = r'"
  unfolding quote_str_def using esc_text_inj [of s r t r'] by simp

subsection \<open>Separated items\<close>

text \<open>What may follow a value inside a document: nothing, a comma or a closing bracket.\<close>

definition ends_value :: "string \<Rightarrow> bool" where
  "ends_value r \<longleftrightarrow> r = [] \<or> hd r \<in> {CHR '','', CHR '']'', CHR ''}''}"

lemma join_Cons: "join sep (p # ps) = p @ concat (map (\<lambda>q. sep @ q) ps)"
  by (induction ps arbitrary: p) auto

lemma items_tail_inj:
  assumes "\<And>x y z z'. x \<in> set xs \<Longrightarrow> y \<in> set ys \<Longrightarrow> ends_value z \<Longrightarrow> ends_value z' \<Longrightarrow>
      f x @ z = f y @ z' \<Longrightarrow> g x = g y \<and> z = z'"
    and "cl \<in> {CHR '']'', CHR ''}''}"
    and "concat (map (\<lambda>x. '','' @ f x) xs) @ cl # r = concat (map (\<lambda>x. '','' @ f x) ys) @ cl # r'"
  shows "map g xs = map g ys \<and> r = r'"
  using assms(1,3)
proof (induction xs arbitrary: ys)
  case Nil
  with assms(2) show ?case by (cases ys) auto
next
  case (Cons x xs)
  show ?case
  proof (cases ys)
    case Nil
    with Cons.prems(2) assms(2) show ?thesis by auto
  next
    case ys: (Cons y ys')
    let ?t = "\<lambda>us r. concat (map (\<lambda>x. '','' @ f x) us) @ cl # r"
    have e: "ends_value (?t us q)" for us q
      using assms(2) by (cases us) (auto simp: ends_value_def)
    from Cons.prems(2) ys have "f x @ ?t xs r = f y @ ?t ys' r'" by simp
    with Cons.prems(1) [of x y "?t xs r" "?t ys' r'"] ys e
    have "g x = g y" and "?t xs r = ?t ys' r'" by auto
    moreover from this(2) have "map g xs = map g ys' \<and> r = r'"
      by (intro Cons.IH Cons.prems(1)) (auto simp: ys)
    ultimately show ?thesis using ys by simp
  qed
qed

lemma items_inj:
  assumes inj: "\<And>x y z z'. x \<in> set xs \<Longrightarrow> y \<in> set ys \<Longrightarrow> ends_value z \<Longrightarrow> ends_value z' \<Longrightarrow>
      f x @ z = f y @ z' \<Longrightarrow> g x = g y \<and> z = z'"
    and start: "\<And>x. x \<in> set xs \<union> set ys \<Longrightarrow> f x \<noteq> [] \<and> \<not> ends_value (f x)"
    and cl: "cl \<in> {CHR '']'', CHR ''}''}"
    and eq: "join '','' (map f xs) @ cl # r = join '','' (map f ys) @ cl # r'"
  shows "map g xs = map g ys \<and> r = r'"
proof (cases xs; cases ys)
  fix y ys' assume *: "xs = []" "ys = y # ys'"
  with eq cl start [of y] show ?thesis
    by (cases "f y") (auto simp: join_Cons ends_value_def)
next
  fix x xs' assume *: "xs = x # xs'" "ys = []"
  with eq cl start [of x] show ?thesis
    by (cases "f x") (auto simp: join_Cons ends_value_def)
next
  fix x xs' y ys' assume *: "xs = x # xs'" "ys = y # ys'"
  let ?t = "\<lambda>us r. concat (map (\<lambda>x. '','' @ f x) us) @ cl # r"
  have e: "ends_value (?t us q)" for us q
    using cl by (cases us) (auto simp: ends_value_def)
  from eq * have "f x @ ?t xs' r = f y @ ?t ys' r'"
    by (simp add: join_Cons comp_def)
  with inj [of x y "?t xs' r" "?t ys' r'"] * e
  have "g x = g y" and t: "?t xs' r = ?t ys' r'" by auto
  moreover have "map g xs' = map g ys' \<and> r = r'"
    by (rule items_tail_inj [OF _ cl t]) (rule inj, auto simp: *)
  ultimately show ?thesis using * by simp
qed (use eq in simp)

subsection \<open>Values\<close>

lemma num_char_numbers:
  "c \<in> set (dec_int i) \<Longrightarrow> is_digit c \<or> c = CHR ''-''"
  by (auto simp: dec_int_def dest: dec_nat_digits split: if_splits)

lemma ser_nonempty: "floats_ok v \<Longrightarrow> ser v \<noteq> []"
  by (cases v rule: ser.cases)
    (auto simp: dec_int_def quote_str_def float_text_def ser_JObj split: pyfloat.splits)

lemma hd_digits: "c = hd (dec_nat n) \<Longrightarrow> is_digit c"
  using dec_nat_digits [of "hd (dec_nat n)" n] by simp

text \<open>Numbers are runs of number characters; every other value starts with a character of its own.\<close>

definition is_num :: "json \<Rightarrow> bool" where
  "is_num v \<longleftrightarrow> (\<exists>i. v = JInt i) \<or> (\<exists>t. v = JFloat (FFin t))"

lemma ser_num: "is_num v \<Longrightarrow> floats_ok v \<Longrightarrow> \<forall>c \<in> set (ser v). num_char c"
  by (auto simp: is_num_def float_text_def num_char_def list_all_iff dest: num_char_numbers)

lemma dec_int_not_float: "float_text t \<Longrightarrow> dec_int i \<noteq> t"
proof
  assume t: "float_text t" and eq: "dec_int i = t"
  have "\<not> is_digit (CHR ''.'') \<and> \<not> is_digit (CHR ''e'')"
    by (simp add: is_digit_def)
  moreover have "CHR ''.'' \<in> set (dec_int i) \<or> CHR ''e'' \<in> set (dec_int i)"
    using t eq by (simp add: float_text_def)
  ultimately show False
    using num_char_numbers [of "CHR ''.''" i] num_char_numbers [of "CHR ''e''" i] by auto
qed

lemma ser_num_inj:
  assumes "is_num v" "is_num w" "floats_ok v" "floats_ok w" "ser v = ser w"
  shows "v = w"
proof -
  from assms(1) consider (i) i where "v = JInt i" | (f) t where "v = JFloat (FFin t)"
    by (auto simp: is_num_def)
  then show ?thesis
  proof cases
    case i
    with assms(2,4,5) dec_int_not_float show ?thesis
      by (auto simp: is_num_def dest: dec_int_inj)
  next
    case f
    with assms(3) have t: "float_text t" by simp
    from assms(2) consider (i) i where "w = JInt i" | (g) u where "w = JFloat (FFin u)"
      by (auto simp: is_num_def)
    then show ?thesis
    proof cases
      case i
      with f assms(5) dec_int_not_float [OF t, of i] show ?thesis by simp
    next
      case g
      with f assms(5) show ?thesis by simp
    qed
  qed
qed

lemma ends_value_not_num: "ends_value r \<Longrightarrow> r = [] \<or> \<not> num_char (hd r)"
  by (auto simp: ends_value_def num_char_def is_digit_def)

fun lead_char :: "json \<Rightarrow> char" where
  "lead_char JNull = CHR ''n''"
| "lead_char (JBool b) = (if b then CHR ''t'' else CHR ''f'')"
| "lead_char (JStr _) = CHR 0x22"
| "lead_char (JArr _) = CHR ''[''"
| "lead_char (JObj _) = CHR ''{''"
| "lead_char _ = CHR ''0''"

lemma ser_lead:
  assumes "\<not> is_num v" "finite_floats v"
  shows "\<exists>t. ser v = lead_char v # t" "\<not> num_char (lead_char v)" "\<not> ends_value [lead_char v]"
  using assms
  by (cases v; auto simp: is_num_def quote_str_def ser_JObj num_char_def is_digit_def ends_value_def
      split: pyfloat.splits)+

lemma ser_not_end:
  assumes "floats_ok v" "finite_floats v"
  shows "ser v \<noteq> [] \<and> \<not> ends_value (ser v)"
proof (cases "is_num v")
  case True
  with assms ser_num [of v] ser_nonempty [of v] show ?thesis
    using ends_value_not_num [of "ser v"] by (cases "ser v") auto
next
  case False
  with assms ser_lead [of v] show ?thesis
    by (auto simp: ends_value_def)
qed

lemma sort_key_in: "x \<in> set (sort_key f xs) \<longleftrightarrow> x \<in> set xs"
  by simp

lemma num_lead_clash:
  assumes "is_num v" "floats_ok v" "\<not> is_num w" "finite_floats w"
  shows "ser v @ r \<noteq> ser w @ r'"
proof -
  obtain t where "ser w = lead_char w # t" "\<not> num_char (lead_char w)"
    using ser_lead [OF assms(3,4)] by blast
  with ser_num [OF assms(1,2)] ser_nonempty [OF assms(2)] show ?thesis
    by (cases "ser v") auto
qed

lemma ser_prefix_num:
  assumes "is_num v \<or> is_num w" "floats_ok v" "finite_floats v" "floats_ok w" "finite_floats w"
    and "ends_value r" "ends_value r'" "ser v @ r = ser w @ r'"
  shows "v = w \<and> r = r'"
proof -
  have "is_num v" and "is_num w"
    using assms num_lead_clash by metis+
  moreover have "ser v = ser w \<and> r = r'"
    using calculation assms
    by (intro split_at_delim [where P = num_char] ser_num ends_value_not_num) auto
  ultimately show ?thesis
    using assms(2,4) by (auto dest: ser_num_inj)
qed

lemma ser_item_start: "ser_item kv \<noteq> [] \<and> \<not> ends_value (ser_item kv)"
  by (simp add: ser_item_def quote_str_def ends_value_def)

lemma ser_prefix_inj:
  "floats_ok v \<Longrightarrow> finite_floats v \<Longrightarrow> floats_ok w \<Longrightarrow> finite_floats w \<Longrightarrow>
   ends_value r \<Longrightarrow> ends_value r' \<Longrightarrow> ser v @ r = ser w @ r' \<Longrightarrow> norm v = norm w \<and> r = r'"
proof (induction v arbitrary: w r r' rule: measure_induct_rule [where f = size])
  case (less v)
  show ?case
  proof (cases "is_num v \<or> is_num w")
    case True
    with less.prems show ?thesis using ser_prefix_num by blast
  next
    case False
    then have l: "lead_char v = lead_char w"
      using less.prems ser_lead(1) [of v] ser_lead(1) [of w] by fastforce
    show ?thesis
    proof (cases v)
      case (JStr s)
      with l False less.prems obtain t where "w = JStr t"
        by (cases w) (auto simp: is_num_def split: pyfloat.splits if_splits)
      with JStr less.prems(7) show ?thesis by (auto dest: quote_str_inj)
    next
      case (JArr xs)
      with l False less.prems obtain ys where w: "w = JArr ys"
        by (cases w) (auto simp: is_num_def split: pyfloat.splits if_splits)
      have "map norm xs = map norm ys \<and> r = r'"
      proof (rule items_inj [where f = ser and cl = "CHR '']''"])
        fix x y z z'
        assume "x \<in> set xs" "y \<in> set ys" "ends_value z" "ends_value z'" "ser x @ z = ser y @ z'"
        moreover have "size x < size v"
          using JArr \<open>x \<in> set xs\<close> by (simp add: size_list_estimation' le_imp_less_Suc)
        ultimately show "norm x = norm y \<and> z = z'"
          using less.prems JArr w by (intro less.IH) auto
      qed (use less.prems JArr w in \<open>auto simp: ser_not_end\<close>)
      with JArr w show ?thesis by simp
    next
      case (JObj kvs)
      with l False less.prems obtain kvs' where w: "w = JObj kvs'"
        by (cases w) (auto simp: is_num_def split: pyfloat.splits if_splits)
      have "map norm_item (sort_key fst kvs) = map norm_item (sort_key fst kvs') \<and> r = r'"
      proof (rule items_inj [where f = ser_item and cl = "CHR ''}''"])
        fix x y z z'
        assume x: "x \<in> set (sort_key fst kvs)" and y: "y \<in> set (sort_key fst kvs')"
          and z: "ends_value z" "ends_value z'" and eq: "ser_item x @ z = ser_item y @ z'"
        have "size (snd x) < size v"
          using JObj x by (cases x) (auto intro!: le_imp_less_Suc size_list_estimation')
        moreover from eq have "fst x = fst y" "ser (snd x) @ z = ser (snd y) @ z'"
          by (auto simp: ser_item_def dest!: quote_str_inj)
        ultimately show "norm_item x = norm_item y \<and> z = z'"
          using less.prems JObj w x y z less.IH [of "snd x" "snd y" z z']
          by (auto simp: norm_item_def)
      qed (use less.prems JObj w ser_item_start in \<open>auto simp: ser_JObj\<close>)
      with JObj w show ?thesis by (simp add: norm_JObj)
    qed (use l False less.prems in \<open>cases w; auto simp: is_num_def split: pyfloat.splits if_splits\<close>)+
  qed
qed

text \<open>Two texts a hash function does not tell apart.\<close>

definition collides :: "(string \<Rightarrow> string) \<Rightarrow> string \<Rightarrow> string \<Rightarrow> bool" where
  "collides sha x y \<longleftrightarrow> x \<noteq> y \<and> sha x = sha y"

lemma canonical_eq_iff:
  assumes "floats_ok v" "floats_ok w" "canonical v [] = Inr b" "canonical w [] = Inr c"
  shows "b = c \<longleftrightarrow> norm v = norm w"
proof -
  have vw: "ser v = b" "ser w = c" "finite_floats v" "finite_floats w"
    using assms(3,4) by (auto simp: canonical_def prune_def check_value_None split: option.splits)
  show ?thesis
  proof
    assume "b = c"
    with vw assms(1,2) ser_prefix_inj [of v w "[]" "[]"] show "norm v = norm w"
      by (simp add: ends_value_def)
  next
    assume "norm v = norm w"
    with vw show "b = c" by (metis ser_norm)
  qed
qed

text \<open>A digest binds its document: two documents with a canonical form have the same digest
  whenever they differ at most in the order of mapping keys, and if their digests agree then either
  they differ in nothing else or their two canonical texts are a collision of the hash.\<close>

theorem digest_binds_document:
  assumes "floats_ok v" "floats_ok w"
    and "canonical v [] = Inr b" "canonical w [] = Inr c"
    and "digest_of sha v [] = Inr d" "digest_of sha w [] = Inr e"
  shows "(norm v = norm w \<longrightarrow> d = e) \<and> (d = e \<longrightarrow> norm v = norm w \<or> collides sha b c)"
  using assms canonical_eq_iff [OF assms(1-4)]
  by (auto simp: digest_of_def bind_err_def of_bytes_def collides_def)

lemma digest_of_plain: "finite_floats v \<Longrightarrow> canonical v [] = Inr (ser v) \<and> digest_of sha v [] = Inr (of_bytes sha (ser v))"
  using check_value_None(1) [of "[]" v] by (simp add: digest_of_def bind_err_def canonical_def prune_def)

theorem digest_binds_document_witness:
  "digest_of id (JObj [(''b'', JInt 1), (''a'', JNull)]) [] = digest_of id (JObj [(''a'', JNull), (''b'', JInt 1)]) []
   \<and> digest_of id (JArr [JInt 1, JInt 2]) [] \<noteq> digest_of id (JArr [JInt 12]) []"
proof
  let ?v = "JObj [(''b'', JInt 1), (''a'', JNull)]" and ?w = "JObj [(''a'', JNull), (''b'', JInt 1)]"
  have "norm ?v = norm ?w" by (simp add: norm_JObj norm_item_def)
  then show "digest_of id ?v [] = digest_of id ?w []"
    using digest_binds_document [of ?v ?w "ser ?v" "ser ?w" id "of_bytes id (ser ?v)" "of_bytes id (ser ?w)"]
    by (simp add: digest_of_plain)
  let ?x = "JArr [JInt 1, JInt 2]" and ?y = "JArr [JInt 12]"
  show "digest_of id ?x [] \<noteq> digest_of id ?y []"
    using digest_binds_document [of ?x ?y "ser ?x" "ser ?y" id "of_bytes id (ser ?x)" "of_bytes id (ser ?y)"]
    by (simp add: digest_of_plain collides_def)
qed

section \<open>Length-prefixed sequences\<close>

lemma frame_inj: "frame p @ r = frame q @ r' \<Longrightarrow> p = q \<and> r = r'"
proof -
  assume eq: "frame p @ r = frame q @ r'"
  have "dec_nat (length p) = dec_nat (length q) \<and> CHR 0x00 # p @ r = CHR 0x00 # q @ r'"
    using eq by (intro split_at_delim [where P = is_digit]) (auto simp: frame_def is_digit_def dest: dec_nat_digits)
  then show ?thesis
    by (auto dest: dec_nat_inj)
qed

lemma frames_inj: "concat (map frame xs) = concat (map frame ys) \<Longrightarrow> xs = ys"
proof (induction xs arbitrary: ys)
  case Nil
  then show ?case by (cases ys) (auto simp: frame_def)
next
  case (Cons x xs)
  show ?case
  proof (cases ys)
    case Nil
    with Cons.prems show ?thesis by (simp add: frame_def)
  next
    case (Cons y ys')
    with Cons.prems frame_inj [of x "concat (map frame xs)" y "concat (map frame ys')"] Cons.IH
    show ?thesis by auto
  qed
qed

lemma of_texts_inj:
  "of_texts sha xs = of_texts sha ys \<Longrightarrow> xs = ys \<or> collides sha (concat (map frame xs)) (concat (map frame ys))"
  by (auto simp: of_texts_def collides_def dest: frames_inj)

section \<open>Tree digests\<close>

lemma first_dup_None: "first_dup seen xs = None \<longleftrightarrow> distinct xs \<and> set xs \<inter> set seen = {}"
  by (induction seen xs rule: first_dup.induct) auto

text \<open>The records of a listing are split at NUL, so no field of an entry holds one.\<close>

definition nul_free :: "tree_entry \<Rightarrow> bool" where
  "nul_free e \<longleftrightarrow> CHR 0x00 \<notin> set (te_path e) \<and> CHR 0x00 \<notin> set (te_mode e) \<and> CHR 0x00 \<notin> set (te_blob e)"

lemma split_on_free: "p \<in> set (split_on c s) \<Longrightarrow> c \<notin> set p"
proof (induction s arbitrary: p)
  case (Cons x xs)
  then show ?case
    by (cases "split_on c xs") (auto split: if_splits)
qed simp

lemma words_of_chars: "w \<in> set (words_of s) \<Longrightarrow> set w \<subseteq> set s"
proof (induction s rule: words_of.induct)
  case (2 x xs)
  then show ?case
    by (auto split: if_splits dest: set_takeWhileD set_dropWhileD)
qed simp

lemma parse_record_free:
  assumes "parse_record r = Inr e" "CHR 0x00 \<notin> set r"
  shows "nul_free e"
proof -
  let ?m = "takeWhile (\<lambda>c. c \<noteq> CHR 0x09) r"
  have e: "e = TreeEntry (drop (Suc (length ?m)) r) (words_of ?m ! 0) (words_of ?m ! 2)"
    and len: "3 \<le> length (words_of ?m)"
    using assms(1) by (auto simp: parse_record_def Let_def split: if_splits)
  have "set (words_of ?m ! i) \<subseteq> set r" if "i < 3" for i
    using that len words_of_chars [of "words_of ?m ! i" ?m]
    by (auto dest: set_takeWhileD intro!: nth_mem)
  from this [of 0] this [of 2] e assms(2) show ?thesis
    by (auto simp: nul_free_def dest: in_set_dropD)
qed

lemma parse_records_free:
  "parse_records rs = Inr es \<Longrightarrow> (\<forall>r \<in> set rs. CHR 0x00 \<notin> set r) \<Longrightarrow> e \<in> set es \<Longrightarrow> nul_free e"
  by (induction rs arbitrary: es) (auto split: if_splits dest: parse_record_free)

lemma parse_ls_tree_free: "parse_ls_tree out = Inr es \<Longrightarrow> e \<in> set es \<Longrightarrow> nul_free e"
  unfolding parse_ls_tree_def by (rule parse_records_free) (auto dest: split_on_free)

lemma entry_text_inj: "nul_free d \<Longrightarrow> nul_free e \<Longrightarrow> entry_text d = entry_text e \<Longrightarrow> d = e"
proof -
  assume f: "nul_free d" "nul_free e" and eq: "entry_text d = entry_text e"
  let ?P = "\<lambda>c. c \<noteq> CHR 0x00"
  have 1: "te_path d = te_path e \<and> CHR 0x00 # te_mode d @ CHR 0x00 # te_blob d
      = CHR 0x00 # te_mode e @ CHR 0x00 # te_blob e"
    using f eq by (intro split_at_delim [where P = ?P]) (auto simp: nul_free_def entry_text_def)
  then have "te_mode d @ CHR 0x00 # te_blob d = te_mode e @ CHR 0x00 # te_blob e" by simp
  then have "te_mode d = te_mode e \<and> CHR 0x00 # te_blob d = CHR 0x00 # te_blob e"
    using f by (intro split_at_delim [where P = ?P]) (auto simp: nul_free_def)
  with 1 show ?thesis by (auto intro: tree_entry.expand)
qed

definition tree_text :: "tree_entry list \<Rightarrow> string" where
  "tree_text es = concat (map frame (map entry_text (sort es)))"

text \<open>A tree digest binds the committed tree and nothing else: two \<^verbatim>\<open>git ls-tree\<close> listings with the
  same entries in any order have the same digest, and two listings with the same digest have the
  same entries, or their two framed texts are a collision of the hash.\<close>

theorem tree_digest_binds_tree:
  assumes "parse_ls_tree out1 = Inr es1" "parse_ls_tree out2 = Inr es2"
    and "tree_digest sha es1 = Inr d1" "tree_digest sha es2 = Inr d2"
  shows "(mset es1 = mset es2 \<longrightarrow> d1 = d2) \<and>
    (d1 = d2 \<longrightarrow> mset es1 = mset es2 \<or> collides sha (tree_text es1) (tree_text es2))"
proof (intro conjI impI)
  have d: "d1 = of_texts sha (map entry_text (sort es1))" "d2 = of_texts sha (map entry_text (sort es2))"
    using assms(3,4) by (auto simp: tree_digest_def split: option.splits)
  show "d1 = d2" if "mset es1 = mset es2"
    using that d by (metis sorted_list_of_multiset_mset)
  assume "d1 = d2"
  with d of_texts_inj [of sha "map entry_text (sort es1)" "map entry_text (sort es2)"]
  have "map entry_text (sort es1) = map entry_text (sort es2) \<or> collides sha (tree_text es1) (tree_text es2)"
    by (simp add: tree_text_def)
  moreover have "inj_on entry_text (set (sort es1) \<union> set (sort es2))"
    using assms(1,2) by (auto intro!: inj_onI entry_text_inj dest: parse_ls_tree_free)
  ultimately show "mset es1 = mset es2 \<or> collides sha (tree_text es1) (tree_text es2)"
    by (metis inj_on_map_eq_map mset_sort)
qed

definition sample_entry :: "string \<Rightarrow> tree_entry" where
  "sample_entry path = TreeEntry path ''100644'' (replicate 40 (CHR ''a''))"

definition sample_record :: "string \<Rightarrow> string" where
  "sample_record path = ''100644 blob '' @ replicate 40 (CHR ''a'') @ [CHR 0x09] @ path"

theorem tree_digest_binds_tree_witness:
  "tree_digest id [sample_entry ''a'', sample_entry ''b''] = tree_digest id [sample_entry ''b'', sample_entry ''a'']
   \<and> tree_digest id [sample_entry ''a''] \<noteq> tree_digest id [sample_entry ''b'']"
proof
  let ?ab = "[sample_entry ''a'', sample_entry ''b'']" and ?ba = "[sample_entry ''b'', sample_entry ''a'']"
  let ?out = "\<lambda>p q. sample_record p @ [CHR 0x00] @ sample_record q @ [CHR 0x00]"
  have p: "parse_ls_tree (?out ''a'' ''b'') = Inr ?ab" "parse_ls_tree (?out ''b'' ''a'') = Inr ?ba"
    by code_simp+
  obtain d e where d: "tree_digest id ?ab = Inr d" and e: "tree_digest id ?ba = Inr e"
    by (simp add: tree_digest_def sample_entry_def)
  from tree_digest_binds_tree [OF p d e] d e
  show "tree_digest id ?ab = tree_digest id ?ba" by (simp add: add_mset_commute)
  have p1: "parse_ls_tree (sample_record ''a'') = Inr [sample_entry ''a'']"
    "parse_ls_tree (sample_record ''b'') = Inr [sample_entry ''b'']"
    by code_simp+
  obtain d e where d: "tree_digest id [sample_entry ''a''] = Inr d" and e: "tree_digest id [sample_entry ''b''] = Inr e"
    by (simp add: tree_digest_def)
  from tree_digest_binds_tree [OF p1 d e] d e
  show "tree_digest id [sample_entry ''a''] \<noteq> tree_digest id [sample_entry ''b'']"
    by (auto simp: collides_def sample_entry_def)
qed

text \<open>\<^verbatim>\<open>filter_tree\<close>: exclusion first, and an inclusion never brings an excluded path back.\<close>

lemma filter_tree_in:
  "e \<in> set (filter_tree es ex inc) \<longleftrightarrow> e \<in> set es \<and> \<not> under_any (te_path e) (as_prefixes ex) (as_exact ex) \<and>
     (inc = [] \<or> under_any (te_path e) (as_prefixes inc) (as_exact inc))"
  by (auto simp: filter_tree_def Let_def)

end
