(* ===== verification/Strict.thy ===== *)
theory Strict
  imports Digests
begin

text \<open>
  \<^verbatim>\<open>strict_yaml.py\<close>: the input boundary. The tokenizers are parameters: \<open>parse\<close> gives the node tree
  PyYAML's composer would build from a YAML text (or that there is none), \<open>scalar\<close> is its constructor
  for one scalar of a core tag, and \<open>loads\<close> is the text as \<^verbatim>\<open>json.loads\<close> tokenizes it, before the hooks run. What is modelled is every check the module adds around them.
\<close>

record limits =
  max_bytes :: nat
  max_depth :: nat
  max_scalar_len :: nat
  max_collection :: nat
  max_nodes :: nat

definition default_limits :: limits where
  "default_limits = \<lparr>max_bytes = 8 * 1024 * 1024, max_depth = 32, max_scalar_len = 256 * 1024,
     max_collection = 8192, max_nodes = 200000\<rparr>"

definition event_limits :: limits where
  "event_limits = \<lparr>max_bytes = 64 * 1024, max_depth = 16, max_scalar_len = 8192,
     max_collection = 512, max_nodes = 2000\<rparr>"

definition untrusted_limits :: limits where
  "untrusted_limits = \<lparr>max_bytes = 1024 * 1024, max_depth = 24, max_scalar_len = 64 * 1024,
     max_collection = 4096, max_nodes = 200000\<rparr>"

datatype strict_error =
    TooManyBytes nat
  | EmptyDocument
  | Malformed
  | AliasNotAllowed string
  | AnchorNotAllowed string
  | TooManyNodes
  | TooDeep
  | MergeKey
  | TagNotAllowed string
  | ScalarTooLong
  | CollectionTooLarge
  | NotAMapping
  | KeyNotString
  | DuplicateKey string
  | SpecialFloat
  | TopLevelNotMapping

text \<open>\<^verbatim>\<open>len(s)\<close> of a string: its code points, the bytes that are not UTF-8 continuation bytes.\<close>

definition code_points :: "string \<Rightarrow> nat" where
  "code_points s = length (filter (\<lambda>c. (of_char c :: nat) div 64 \<noteq> 2) s)"

section \<open>YAML\<close>

text \<open>A node of the composer, with its anchor and its resolved tag; an alias names an anchor.\<close>

datatype ynode =
    YAlias string
  | YScalar "string option" string string
  | YSeq "string option" string "ynode list"
  | YMap "string option" string "(ynode \<times> ynode) list"

definition core_tag :: "string \<Rightarrow> string" where
  "core_tag t = ''tag:yaml.org,2002:'' @ t"

definition allowed_tags :: "string list" where
  "allowed_tags = map core_tag [''map'', ''seq'', ''str'', ''int'', ''float'', ''bool'', ''null'']"

definition check_tag :: "string \<Rightarrow> strict_error option" where
  "check_tag t = (if t = core_tag ''merge'' then Some MergeKey
     else if t \<notin> set allowed_tags then Some (TagNotAllowed t) else None)"

text \<open>What \<^verbatim>\<open>compose_node\<close> does before its children: anchor, node count, depth.\<close>

definition enter_node :: "limits \<Rightarrow> nat \<Rightarrow> nat \<Rightarrow> string option \<Rightarrow> strict_error + nat" where
  "enter_node lim depth nodes anchor =
     (case anchor of
        Some a \<Rightarrow> Inl (AnchorNotAllowed a)
      | None \<Rightarrow>
          if Suc nodes > max_nodes lim then Inl TooManyNodes
          else if Suc depth > max_depth lim then Inl TooDeep
          else Inr (Suc nodes))"

text \<open>What it does after them: tag, scalar length, collection size.\<close>

definition leave_node :: "limits \<Rightarrow> string \<Rightarrow> strict_error option \<Rightarrow> nat \<Rightarrow> strict_error + nat" where
  "leave_node lim tag oversize nodes =
     (case check_tag tag of
        Some e \<Rightarrow> Inl e
      | None \<Rightarrow> (case oversize of Some e \<Rightarrow> Inl e | None \<Rightarrow> Inr nodes))"

function (sequential) compose :: "limits \<Rightarrow> nat \<Rightarrow> nat \<Rightarrow> ynode \<Rightarrow> strict_error + nat"
  and compose_seq :: "limits \<Rightarrow> nat \<Rightarrow> nat \<Rightarrow> ynode list \<Rightarrow> strict_error + nat"
  and compose_map :: "limits \<Rightarrow> nat \<Rightarrow> nat \<Rightarrow> (ynode \<times> ynode) list \<Rightarrow> strict_error + nat" where
  "compose lim depth n (YAlias a) = Inl (AliasNotAllowed a)"
| "compose lim depth n (YScalar anchor tag v) =
     bind_err (enter_node lim depth n anchor)
       (leave_node lim tag (if code_points v > max_scalar_len lim then Some ScalarTooLong else None))"
| "compose lim depth n (YSeq anchor tag xs) =
     bind_err (enter_node lim depth n anchor) (\<lambda>n1. bind_err (compose_seq lim (Suc depth) n1 xs)
       (leave_node lim tag (if length xs > max_collection lim then Some CollectionTooLarge else None)))"
| "compose lim depth n (YMap anchor tag kvs) =
     bind_err (enter_node lim depth n anchor) (\<lambda>n1. bind_err (compose_map lim (Suc depth) n1 kvs)
       (leave_node lim tag (if length kvs > max_collection lim then Some CollectionTooLarge else None)))"
| "compose_seq lim depth n [] = Inr n"
| "compose_seq lim depth n (x # xs) = bind_err (compose lim depth n x) (\<lambda>n1. compose_seq lim depth n1 xs)"
| "compose_map lim depth n [] = Inr n"
| "compose_map lim depth n ((k, v) # kvs) =
     bind_err (compose lim depth n k) (\<lambda>n1. bind_err (compose lim depth n1 v) (\<lambda>n2. compose_map lim depth n2 kvs))"
  by pat_completeness auto
termination
  by (relation "measure (case_sum (\<lambda>(_, _, _, y). size y) (case_sum (\<lambda>(_, _, _, xs). size_list size xs)
    (\<lambda>(_, _, _, kvs). size_list (size_prod size size) kvs)))") auto

definition merge_key :: "ynode \<Rightarrow> bool" where
  "merge_key k = (case k of
      YAlias _ \<Rightarrow> False
    | YScalar _ tag v \<Rightarrow> tag = core_tag ''merge'' \<or> v = ''<<''
    | YSeq _ tag _ \<Rightarrow> tag = core_tag ''merge''
    | YMap _ tag _ \<Rightarrow> tag = core_tag ''merge'')"

text \<open>\<^verbatim>\<open>construct_object\<close>, with \<^verbatim>\<open>construct_mapping\<close> building a mapping entry by entry. The constructor is chosen by the kind of the
  node: a tag of another kind on it, which PyYAML refuses, is not looked at.\<close>

function (sequential) construct :: "(string \<Rightarrow> string \<Rightarrow> strict_error + json) \<Rightarrow> ynode \<Rightarrow> strict_error + json"
  and construct_seq :: "(string \<Rightarrow> string \<Rightarrow> strict_error + json) \<Rightarrow> ynode list \<Rightarrow> strict_error + json list"
  and construct_mapping :: "(string \<Rightarrow> string \<Rightarrow> strict_error + json) \<Rightarrow> jobj \<Rightarrow> (ynode \<times> ynode) list \<Rightarrow>
    strict_error + jobj" where
  "construct scalar (YAlias a) = Inl (AliasNotAllowed a)"
| "construct scalar (YScalar _ tag v) = scalar tag v"
| "construct scalar (YSeq _ _ xs) = bind_err (construct_seq scalar xs) (\<lambda>vs. Inr (JArr vs))"
| "construct scalar (YMap _ _ kvs) = bind_err (construct_mapping scalar [] kvs) (\<lambda>m. Inr (JObj m))"
| "construct_seq scalar [] = Inr []"
| "construct_seq scalar (x # xs) =
     bind_err (construct scalar x) (\<lambda>v. bind_err (construct_seq scalar xs) (\<lambda>vs. Inr (v # vs)))"
| "construct_mapping scalar m [] = Inr m"
| "construct_mapping scalar m ((k, v) # kvs) =
     (if merge_key k then Inl MergeKey
      else bind_err (construct scalar k) (\<lambda>key.
        case key of
          JStr s \<Rightarrow>
            if s \<in> fst ` set m then Inl (DuplicateKey s)
            else bind_err (construct scalar v) (\<lambda>x. construct_mapping scalar (m @ [(s, x)]) kvs)
        | _ \<Rightarrow> Inl KeyNotString))"
  by pat_completeness auto
termination
  by (relation "measure (case_sum (\<lambda>(_, y). size y) (case_sum (\<lambda>(_, xs). size_list size xs)
    (\<lambda>(_, _, kvs). size_list (size_prod size size) kvs)))") auto

text \<open>\<^verbatim>\<open>_reject_special_floats\<close>: the loop pops from a stack; its answer does not depend on the order.\<close>

definition reject_special_floats :: "json \<Rightarrow> strict_error option" where
  "reject_special_floats v = (if finite_floats v then None else Some SpecialFloat)"

definition yaml_load ::
  "(string \<Rightarrow> string \<Rightarrow> strict_error + json) \<Rightarrow> (string \<Rightarrow> ynode option option) \<Rightarrow> limits \<Rightarrow> string \<Rightarrow>
   strict_error + json" where
  "yaml_load scalar parse lim txt =
     (if length txt > max_bytes lim then Inl (TooManyBytes (length txt))
      else case parse txt of
        None \<Rightarrow> Inl Malformed
      | Some None \<Rightarrow> Inl EmptyDocument
      | Some (Some node) \<Rightarrow>
          bind_err (compose lim 0 0 node) (\<lambda>_. bind_err (construct scalar node) (\<lambda>v.
            case reject_special_floats v of Some e \<Rightarrow> Inl e | None \<Rightarrow> Inr v)))"

definition require_mapping :: "json \<Rightarrow> strict_error + jobj" where
  "require_mapping v = (case v of JObj m \<Rightarrow> Inr m | _ \<Rightarrow> Inl TopLevelNotMapping)"

definition yaml_load_mapping ::
  "(string \<Rightarrow> string \<Rightarrow> strict_error + json) \<Rightarrow> (string \<Rightarrow> ynode option option) \<Rightarrow> limits \<Rightarrow> string \<Rightarrow>
   strict_error + jobj" where
  "yaml_load_mapping scalar parse lim txt = bind_err (yaml_load scalar parse lim txt) require_mapping"

section \<open>JSON\<close>

text \<open>\<^verbatim>\<open>_no_duplicates\<close>, the pairs hook of one object.\<close>

fun no_duplicates :: "jobj \<Rightarrow> (string \<times> json) list \<Rightarrow> strict_error + jobj" where
  "no_duplicates seen [] = Inr seen"
| "no_duplicates seen ((k, v) # kvs) =
     (if k \<in> fst ` set seen then Inl (DuplicateKey k) else no_duplicates (seen @ [(k, v)]) kvs)"

text \<open>A text as the JSON tokenizer delivers it: an object is still its list of pairs, and the three
  words \<^verbatim>\<open>NaN\<close>, \<^verbatim>\<open>Infinity\<close>, \<^verbatim>\<open>-Infinity\<close> are \<open>RConst\<close>. A numeral is \<open>RVal\<close> with the float it denotes,
  so an overflowing one carries an infinity.\<close>

datatype jraw =
    RVal json
  | RConst string
  | RArr "jraw list"
  | RObj "(string \<times> jraw) list"

text \<open>The hooks over it, innermost object first: \<^verbatim>\<open>_parse_constant\<close> and \<^verbatim>\<open>_no_duplicates\<close>.\<close>

fun run_hooks :: "jraw \<Rightarrow> strict_error + json"
  and hooks_list :: "jraw list \<Rightarrow> strict_error + json list"
  and hooks_pairs :: "(string \<times> jraw) list \<Rightarrow> strict_error + (string \<times> json) list" where
  "run_hooks (RVal v) = Inr v"
| "run_hooks (RConst c) = Inl SpecialFloat"
| "run_hooks (RArr xs) = bind_err (hooks_list xs) (\<lambda>vs. Inr (JArr vs))"
| "run_hooks (RObj kvs) = bind_err (hooks_pairs kvs) (\<lambda>ps. bind_err (no_duplicates [] ps) (\<lambda>m. Inr (JObj m)))"
| "hooks_list [] = Inr []"
| "hooks_list (x # xs) = bind_err (run_hooks x) (\<lambda>v. bind_err (hooks_list xs) (\<lambda>vs. Inr (v # vs)))"
| "hooks_pairs [] = Inr []"
| "hooks_pairs ((k, x) # kvs) = bind_err (run_hooks x) (\<lambda>v. bind_err (hooks_pairs kvs) (\<lambda>ps. Inr ((k, v) # ps)))"

fun raw_ok :: "jraw \<Rightarrow> bool" where
  "raw_ok (RVal v) = (jwf v \<and> (\<forall>xs. v \<noteq> JArr xs) \<and> (\<forall>kvs. v \<noteq> JObj kvs))"
| "raw_ok (RConst c) = True"
| "raw_ok (RArr xs) = (\<forall>x \<in> set xs. raw_ok x)"
| "raw_ok (RObj kvs) = (\<forall>kv \<in> set kvs. raw_ok (snd kv))"

text \<open>The nodes of a value; the measure of the structural check's stack.\<close>

fun jnodes :: "json \<Rightarrow> nat" where
  "jnodes (JArr xs) = Suc (sum_list (map jnodes xs))"
| "jnodes (JObj kvs) = Suc (sum_list (map (\<lambda>kv. jnodes (snd kv)) kvs))"
| "jnodes v = 1"

lemma jnodes_pos: "0 < jnodes v"
  by (cases v) auto

text \<open>\<^verbatim>\<open>_depth_and_size\<close>: a stack of values with their depth (top at the head), and the nodes popped.\<close>

function depth_and_size :: "limits \<Rightarrow> (json \<times> nat) list \<Rightarrow> nat \<Rightarrow> strict_error option" where
  "depth_and_size lim [] nodes = None"
| "depth_and_size lim ((cur, depth) # stack) nodes =
     (if Suc nodes > max_nodes lim then Some TooManyNodes
      else if depth > max_depth lim then Some TooDeep
      else case cur of
          JStr s \<Rightarrow>
            if code_points s > max_scalar_len lim then Some ScalarTooLong
            else depth_and_size lim stack (Suc nodes)
        | JObj kvs \<Rightarrow>
            if length kvs > max_collection lim then Some CollectionTooLarge
            else depth_and_size lim (rev (map (\<lambda>kv. (snd kv, Suc depth)) kvs) @ stack) (Suc nodes)
        | JArr xs \<Rightarrow>
            if length xs > max_collection lim then Some CollectionTooLarge
            else depth_and_size lim (rev (map (\<lambda>x. (x, Suc depth)) xs) @ stack) (Suc nodes)
        | _ \<Rightarrow> depth_and_size lim stack (Suc nodes))"
  by pat_completeness auto
termination
  by (relation "measure (\<lambda>(lim, stack, n). sum_list (map (\<lambda>p. jnodes (fst p)) stack))")
    (auto simp: comp_def rev_map [symmetric] sum_list_rev)

definition load_json :: "(string \<Rightarrow> jraw option) \<Rightarrow> limits \<Rightarrow> string \<Rightarrow> strict_error + json" where
  "load_json loads lim txt =
     (if length txt > max_bytes lim then Inl (TooManyBytes (length txt))
      else case loads txt of
        None \<Rightarrow> Inl Malformed
      | Some raw \<Rightarrow> bind_err (run_hooks raw) (\<lambda>v.
          case depth_and_size lim [(v, 1)] 0 of Some e \<Rightarrow> Inl e | None \<Rightarrow> Inr v))"

definition load_json_mapping :: "(string \<Rightarrow> jraw option) \<Rightarrow> limits \<Rightarrow> string \<Rightarrow> strict_error + jobj" where
  "load_json_mapping loads lim txt = bind_err (load_json loads lim txt) require_mapping"

section \<open>What an accepted document satisfies\<close>

text \<open>The reference definition of the limits: depth, scalar lengths and collection sizes of a value.\<close>

fun jdepth :: "json \<Rightarrow> nat" where
  "jdepth (JArr xs) = Suc (fold max (map jdepth xs) 0)"
| "jdepth (JObj kvs) = Suc (fold max (map (\<lambda>kv. jdepth (snd kv)) kvs) 0)"
| "jdepth v = 1"

fun fits :: "limits \<Rightarrow> json \<Rightarrow> bool" where
  "fits lim (JStr s) = (code_points s \<le> max_scalar_len lim)"
| "fits lim (JArr xs) = (length xs \<le> max_collection lim \<and> (\<forall>x \<in> set xs. fits lim x))"
| "fits lim (JObj kvs) = (length kvs \<le> max_collection lim \<and> (\<forall>kv \<in> set kvs. fits lim (snd kv)))"
| "fits lim v = True"

definition within :: "limits \<Rightarrow> json \<Rightarrow> bool" where
  "within lim v \<longleftrightarrow> jnodes v \<le> max_nodes lim \<and> jdepth v \<le> max_depth lim \<and> fits lim v"

lemma fold_max_le: "fold max xs (a::nat) \<le> m \<longleftrightarrow> a \<le> m \<and> (\<forall>x \<in> set xs. x \<le> m)"
  by (induction xs arbitrary: a) auto

definition stack_ok :: "limits \<Rightarrow> (json \<times> nat) list \<Rightarrow> nat \<Rightarrow> bool" where
  "stack_ok lim stack n \<longleftrightarrow>
     (stack = [] \<or> n + sum_list (map (\<lambda>p. jnodes (fst p)) stack) \<le> max_nodes lim) \<and>
     (\<forall>p \<in> set stack. snd p + jdepth (fst p) \<le> Suc (max_depth lim) \<and> fits lim (fst p))"

lemma stack_ok_push:
  assumes "Suc n \<le> max_nodes lim"
  shows "stack_ok lim (rev (map (\<lambda>x. (x, Suc d)) ch) @ stack) (Suc n) \<longleftrightarrow>
    n + (Suc (sum_list (map jnodes ch)) + sum_list (map (\<lambda>p. jnodes (fst p)) stack)) \<le> max_nodes lim \<and>
    (\<forall>x \<in> set ch. Suc (d + jdepth x) \<le> Suc (max_depth lim) \<and> fits lim x) \<and>
    (\<forall>p \<in> set stack. snd p + jdepth (fst p) \<le> Suc (max_depth lim) \<and> fits lim (fst p))"
proof -
  have sum: "sum_list (map (\<lambda>p. jnodes (fst p)) (rev (map (\<lambda>x. (x, Suc d)) ch))) = sum_list (map jnodes ch)"
    by (simp add: rev_map [symmetric] sum_list_rev comp_def)
  show ?thesis
    unfolding stack_ok_def using assms by (auto simp: sum ball_Un)
qed

lemma stack_ok_pop:
  "Suc n \<le> max_nodes lim \<Longrightarrow> stack_ok lim stack (Suc n) \<longleftrightarrow>
     n + (1 + sum_list (map (\<lambda>p. jnodes (fst p)) stack)) \<le> max_nodes lim \<and>
     (\<forall>p \<in> set stack. snd p + jdepth (fst p) \<le> Suc (max_depth lim) \<and> fits lim (fst p))"
  using stack_ok_push [of n lim d "[]" stack] by simp

lemma jdepth_pos: "0 < jdepth v"
  by (cases v) auto

lemma stack_ok_Cons:
  "stack_ok lim ((cur, depth) # stack) n \<longleftrightarrow>
     n + (jnodes cur + sum_list (map (\<lambda>p. jnodes (fst p)) stack)) \<le> max_nodes lim \<and>
     depth + jdepth cur \<le> Suc (max_depth lim) \<and> fits lim cur \<and>
     (\<forall>p \<in> set stack. snd p + jdepth (fst p) \<le> Suc (max_depth lim) \<and> fits lim (fst p))"
  by (auto simp: stack_ok_def)

lemma depth_add_le: "depth \<le> D \<Longrightarrow> depth + fold max xs (0::nat) \<le> D \<longleftrightarrow> (\<forall>x \<in> set xs. depth + x \<le> D)"
  using fold_max_le [of xs 0 "D - depth"] by auto

lemma depth_and_size_iff: "depth_and_size lim stack n = None \<longleftrightarrow> stack_ok lim stack n"
proof (induction lim stack n rule: depth_and_size.induct)
  case (2 lim cur depth stack n)
  show ?case
  proof (cases "Suc n \<le> max_nodes lim \<and> depth \<le> max_depth lim")
    case False
    then show ?thesis
      using jnodes_pos [of cur] jdepth_pos [of cur] by (auto simp: stack_ok_Cons)
  next
    case True
    then have n: "Suc n \<le> max_nodes lim" and d: "depth \<le> max_depth lim"
      and nn: "\<not> Suc n > max_nodes lim" "\<not> depth > max_depth lim" by auto
    have push: "depth_and_size lim (rev (map (\<lambda>x. (x, Suc depth)) ch) @ stack) (Suc n) = None \<longleftrightarrow>
        stack_ok lim (rev (map (\<lambda>x. (x, Suc depth)) ch) @ stack) (Suc n)"
      if "cur = JArr ch \<and> length ch \<le> max_collection lim \<or>
        cur = JObj kvs \<and> ch = map snd kvs \<and> length kvs \<le> max_collection lim" for ch kvs
      using that "2.IH" nn by (auto simp: comp_def)
    have pop: "depth_and_size lim stack (Suc n) = None \<longleftrightarrow> stack_ok lim stack (Suc n)"
      if "\<forall>xs. cur \<noteq> JArr xs" "\<forall>kvs. cur \<noteq> JObj kvs" "fits lim cur"
      using that "2.IH" nn by (cases cur) auto
    show ?thesis
    proof (cases cur)
      case (JArr xs)
      show ?thesis
      proof (cases "length xs \<le> max_collection lim")
        case True
        then have "depth_and_size lim ((cur, depth) # stack) n = None \<longleftrightarrow>
            stack_ok lim (rev (map (\<lambda>x. (x, Suc depth)) xs) @ stack) (Suc n)"
          using push [of xs] JArr n d by simp
        also have "\<dots> \<longleftrightarrow> stack_ok lim ((cur, depth) # stack) n"
          unfolding stack_ok_push [OF n] using d True
          by (auto simp add: JArr stack_ok_Cons depth_add_le)
        finally show ?thesis .
      qed (use n d JArr in \<open>simp add: stack_ok_Cons\<close>)
    next
      case (JObj kvs)
      have eq: "map (\<lambda>kv. (snd kv, Suc depth)) kvs = map (\<lambda>x. (x, Suc depth)) (map snd kvs)"
        by simp
      show ?thesis
      proof (cases "length kvs \<le> max_collection lim")
        case True
        then have "depth_and_size lim ((cur, depth) # stack) n = None \<longleftrightarrow>
            stack_ok lim (rev (map (\<lambda>x. (x, Suc depth)) (map snd kvs)) @ stack) (Suc n)"
          using push [of "map snd kvs" kvs] JObj n d by (simp add: eq [symmetric] del: map_map)
        also have "\<dots> \<longleftrightarrow> stack_ok lim ((cur, depth) # stack) n"
          unfolding stack_ok_push [OF n] using d True
          by (auto simp add: JObj stack_ok_Cons depth_add_le comp_def)
        finally show ?thesis .
      qed (use n d JObj in \<open>simp add: stack_ok_Cons\<close>)
    next
      case (JStr s)
      with n d pop show ?thesis
        by (cases "code_points s \<le> max_scalar_len lim") (auto simp: stack_ok_Cons stack_ok_pop [OF n])
    qed (use n d pop in \<open>simp_all add: stack_ok_Cons stack_ok_pop [OF n]\<close>)
  qed
qed (simp add: stack_ok_def)

declare depth_and_size.simps [simp del]

lemma no_duplicates_ok:
  "no_duplicates seen kvs = Inr m \<Longrightarrow> distinct (map fst seen) \<Longrightarrow> m = seen @ kvs \<and> distinct (map fst m)"
proof (induction seen kvs rule: no_duplicates.induct)
  case (2 seen k v kvs)
  from "2.prems"(1) have k: "k \<notin> fst ` set seen" and r: "no_duplicates (seen @ [(k, v)]) kvs = Inr m"
    by (simp_all split: if_splits)
  from "2.prems"(2) k have "distinct (map fst (seen @ [(k, v)]))" by simp
  from "2.IH" [OF k r this] show ?case unfolding append_assoc append_Cons append_Nil .
qed simp

lemma run_hooks_ok:
  "run_hooks v = Inr w \<Longrightarrow> raw_ok v \<Longrightarrow> jwf w"
  "hooks_list xs = Inr ys \<Longrightarrow> \<forall>x \<in> set xs. raw_ok x \<Longrightarrow> \<forall>y \<in> set ys. jwf y"
  "hooks_pairs kvs = Inr ps \<Longrightarrow> \<forall>p \<in> set kvs. raw_ok (snd p) \<Longrightarrow> \<forall>p \<in> set ps. jwf (snd p)"
proof (induction v and xs and kvs arbitrary: w and ys and ps rule: run_hooks_hooks_list_hooks_pairs.induct)
  case (4 kvs)
  from "4.prems"(1) obtain ps m where ps: "hooks_pairs kvs = Inr ps" and m: "no_duplicates [] ps = Inr m"
    and w: "w = JObj m" by auto
  from "4.IH" [OF ps] "4.prems"(2) no_duplicates_ok [OF m] w show ?case by auto
next
  case (8 k x kvs)
  from "8.prems" obtain v ps' where v: "run_hooks x = Inr v" and ps': "hooks_pairs kvs = Inr ps'"
    and ps: "ps = (k, v) # ps'" by auto
  from "8.IH"(1) [OF v] "8.IH"(2) [OF ps'] ps "8.prems"(2) show ?case by auto
qed auto

text \<open>The JSON boundary is strict about structure: a document \<^verbatim>\<open>load_json\<close> returns came from a text
  within the byte limit, has no duplicate key at any depth, and lies within every structural limit
  (node count, depth, string length, collection size), whatever the tokenizer delivered.\<close>

theorem load_json_accepts:
  assumes "\<And>raw. loads txt = Some raw \<Longrightarrow> raw_ok raw"
    and "load_json loads lim txt = Inr v"
  shows "length txt \<le> max_bytes lim \<and> jwf v \<and> within lim v"
proof -
  obtain raw where raw: "loads txt = Some raw" "run_hooks raw = Inr v"
    and d: "depth_and_size lim [(v, 1)] 0 = None" and len: "length txt \<le> max_bytes lim"
    using assms(2) by (auto simp: load_json_def split: if_splits option.splits)
  from d have "within lim v"
    by (simp add: depth_and_size_iff stack_ok_def within_def)
  with run_hooks_ok(1) [OF raw(2) assms(1) [OF raw(1)]] len show ?thesis by simp
qed

theorem load_json_accepts_witness:
  "\<exists>v. load_json (\<lambda>_. Some (RObj [(''a'', RArr [RVal (JInt 1), RVal (JStr ''x'')])])) event_limits ''{...}'' = Inr v
     \<and> v = JObj [(''a'', JArr [JInt 1, JStr ''x''])] \<and> within event_limits v"
proof -
  let ?l = "\<lambda>_. Some (RObj [(''a'', RArr [RVal (JInt 1), RVal (JStr ''x'')])])"
  have *: "load_json ?l event_limits ''{...}'' = Inr (JObj [(''a'', JArr [JInt 1, JStr ''x''])])"
    by (simp add: load_json_def event_limits_def depth_and_size.simps code_points_def)
  have "raw_ok raw" if "?l ''{...}'' = Some raw" for raw
    using that by auto
  with load_json_accepts [OF _ *] * show ?thesis by simp
qed

text \<open>It is not strict about floats: unlike the YAML boundary, \<^verbatim>\<open>load_json\<close> has no check of the values,
  only of the three words, and a numeral that overflows is accepted as an infinity.\<close>

lemma load_json_overflow:
  "run_hooks (RConst c) = Inl SpecialFloat"
  "load_json (\<lambda>_. Some (RObj [(''n'', RVal (JFloat FInf))])) event_limits ''{}'' = Inr (JObj [(''n'', JFloat FInf)])"
  by (simp_all add: load_json_def event_limits_def depth_and_size.simps)

text \<open>A text is refused for its structure exactly when its value is outside the limits.\<close>

lemma load_json_structural:
  "length txt \<le> max_bytes lim \<Longrightarrow> loads txt = Some raw \<Longrightarrow> run_hooks raw = Inr v \<Longrightarrow>
   (\<exists>e. load_json loads lim txt = Inl e) \<longleftrightarrow> \<not> within lim v"
  using depth_and_size_iff [of lim "[(v, 1)]" 0]
  by (cases "depth_and_size lim [(v, 1)] 0") (auto simp: load_json_def bind_err_def stack_ok_def within_def)

lemma construct_mapping_step:
  assumes "construct_mapping scalar m ((k, x) # kvs) = Inr m'"
  obtains s z where "\<not> merge_key k" "construct scalar k = Inr (JStr s)" "s \<notin> fst ` set m"
    "construct scalar x = Inr z" "construct_mapping scalar (m @ [(s, z)]) kvs = Inr m'"
proof -
  from assms obtain key where key: "\<not> merge_key k" "construct scalar k = Inr key"
    by (auto split: if_splits)
  with assms that show ?thesis
    by (cases key) (auto split: if_splits)
qed

lemma construct_mapping_ok:
  "construct scalar y = Inr v \<Longrightarrow> \<forall>t s x. scalar t s = Inr x \<longrightarrow> jwf x \<Longrightarrow> jwf v"
  "construct_seq scalar ys = Inr vs \<Longrightarrow> \<forall>t s x. scalar t s = Inr x \<longrightarrow> jwf x \<Longrightarrow> \<forall>v \<in> set vs. jwf v"
  "construct_mapping scalar m kvs = Inr m' \<Longrightarrow> \<forall>t s x. scalar t s = Inr x \<longrightarrow> jwf x \<Longrightarrow>
     distinct (map fst m) \<Longrightarrow> \<forall>kv \<in> set m. jwf (snd kv) \<Longrightarrow>
     distinct (map fst m') \<and> (\<forall>kv \<in> set m'. jwf (snd kv))"
proof (induction scalar y and scalar ys and scalar m kvs arbitrary: v and vs and m'
    rule: construct_construct_seq_construct_mapping.induct)
  case (8 scalar m k x kvs)
  obtain s z where s: "\<not> merge_key k" "construct scalar k = Inr (JStr s)" "s \<notin> fst ` set m"
      "construct scalar x = Inr z" "construct_mapping scalar (m @ [(s, z)]) kvs = Inr m'"
    using "8.prems"(1) by (rule construct_mapping_step)
  have "jwf z" using "8.IH"(2) [OF s(1) s(3) s(4)] "8.prems"(2) by blast
  with "8.IH"(3) [OF s(1) s(3) s(5)] "8.prems"(2-4) s(3) show ?case by auto
qed auto

text \<open>Every node an accepted composition visited is plain: no alias, no anchor, a core tag.\<close>

fun plain_node :: "ynode \<Rightarrow> bool" where
  "plain_node (YAlias _) = False"
| "plain_node (YScalar a tag _) = (a = None \<and> tag \<in> set allowed_tags)"
| "plain_node (YSeq a tag xs) = (a = None \<and> tag \<in> set allowed_tags \<and> (\<forall>x \<in> set xs. plain_node x))"
| "plain_node (YMap a tag kvs) = (a = None \<and> tag \<in> set allowed_tags \<and>
     (\<forall>kv \<in> set kvs. plain_node (fst kv) \<and> plain_node (snd kv)))"

lemma enter_leave:
  "enter_node lim d n a = Inr n' \<Longrightarrow> a = None \<and> n' = Suc n \<and> n' \<le> max_nodes lim \<and> Suc d \<le> max_depth lim"
  "leave_node lim tag over n = Inr n' \<Longrightarrow> tag \<in> set allowed_tags \<and> over = None \<and> n' = n"
  by (auto simp: enter_node_def leave_node_def check_tag_def split: option.splits if_splits)

lemma compose_plain:
  "compose lim d n y = Inr n' \<Longrightarrow> plain_node y"
  "compose_seq lim d n ys = Inr n' \<Longrightarrow> (\<forall>y \<in> set ys. plain_node y)"
  "compose_map lim d n kvs = Inr n' \<Longrightarrow> (\<forall>kv \<in> set kvs. plain_node (fst kv) \<and> plain_node (snd kv))"
proof (induction lim d n y and lim d n ys and lim d n kvs arbitrary: n' and n' and n'
    rule: compose_compose_seq_compose_map.induct)
  case (8 lim d n k v kvs)
  from "8.prems" obtain n1 n2 where *: "compose lim d n k = Inr n1" "compose lim d n1 v = Inr n2"
    "compose_map lim d n2 kvs = Inr n'" by auto
  from "8.IH"(1) [OF *(1)] "8.IH"(2) [OF *(2)] "8.IH"(3) [OF *(3)] show ?case by simp
qed (auto dest!: enter_leave)

text \<open>C38: The YAML boundary is strict: a document \<^verbatim>\<open>load\<close> returns was composed of nodes without alias or
  anchor and with core tags only, and its value has no duplicate key and no NaN or infinity, given
  that the scalar constructor yields scalars.\<close>

theorem yaml_load_accepts:
  assumes scalars: "\<And>t s x. scalar t s = Inr x \<Longrightarrow> jwf x"
    and "yaml_load scalar parse lim txt = Inr v"
  shows "(\<exists>node. parse txt = Some (Some node) \<and> plain_node node) \<and> jwf v \<and> finite_floats v"
proof -
  obtain node n where "parse txt = Some (Some node)" "compose lim 0 0 node = Inr n"
      "construct scalar node = Inr v" "finite_floats v"
    using assms(2) by (auto simp: yaml_load_def reject_special_floats_def split: if_splits option.splits)
  moreover from this have "plain_node node" and "jwf v"
    using scalars by (auto intro: compose_plain(1) construct_mapping_ok(1))
  ultimately show ?thesis by blast
qed

theorem yaml_load_accepts_witness:
  "\<exists>v. yaml_load (\<lambda>_ s. Inr (JStr s))
      (\<lambda>_. Some (Some (YMap None (core_tag ''map'') [(YScalar None (core_tag ''str'') ''on'', YScalar None (core_tag ''str'') ''no'')])))
      default_limits ''on: no'' = Inr v \<and> v = JObj [(''on'', JStr ''no'')] \<and> jwf v"
proof -
  let ?n = "YMap None (core_tag ''map'') [(YScalar None (core_tag ''str'') ''on'', YScalar None (core_tag ''str'') ''no'')]"
  have "yaml_load (\<lambda>_ s. Inr (JStr s)) (\<lambda>_. Some (Some ?n)) default_limits ''on: no'' = Inr (JObj [(''on'', JStr ''no'')])"
    by (simp add: yaml_load_def default_limits_def enter_node_def leave_node_def check_tag_def allowed_tags_def
      core_tag_def code_points_def merge_key_def reject_special_floats_def)
  from this yaml_load_accepts [OF _ this] show ?thesis by auto
qed

end
