(* ===== verification/Paths.thy ===== *)
theory Paths
  imports Strict
begin

text \<open>
  \<^verbatim>\<open>common.py\<close>: the rule for "does this pattern cover that path", shared by \<^verbatim>\<open>guard.paths\<close>, task scopes
  and owners, with the scope test and the most specific cover built on it; the integer coercion; and
  the failure summary (its salience expression is a parameter).
\<close>

text \<open>\<^verbatim>\<open>as_int\<close>: a bool is not an int here.\<close>

definition as_int :: "json \<Rightarrow> int \<Rightarrow> int" where
  "as_int v d = (case v of JInt i \<Rightarrow> i | _ \<Rightarrow> d)"

section \<open>Coverage\<close>

definition rstrip_slash :: "string \<Rightarrow> string" where
  "rstrip_slash p = rev (dropWhile (\<lambda>c. c = CHR ''/'') (rev p))"

definition path_covered :: "string \<Rightarrow> string \<Rightarrow> bool" where
  "path_covered path pattern \<longleftrightarrow>
     (let pre = rstrip_slash pattern in pre \<noteq> [] \<and> (path = pre \<or> prefix (pre @ ''/'') path))"

definition outside_scope :: "string list \<Rightarrow> string list \<Rightarrow> string list \<Rightarrow> string list" where
  "outside_scope paths include exclude =
     sort (filter (\<lambda>path. (\<exists>p \<in> set exclude. path_covered path p) \<or>
        include \<noteq> [] \<and> \<not> (\<exists>p \<in> set include. path_covered path p)) paths)"

definition longer_cover :: "string \<Rightarrow> string \<Rightarrow> string option \<Rightarrow> string option" where
  "longer_cover path pattern best =
     (if path_covered path pattern \<and>
         (case best of None \<Rightarrow> True | Some b \<Rightarrow> length (rstrip_slash pattern) > length (rstrip_slash b))
      then Some pattern else best)"

definition longest_cover :: "string \<Rightarrow> string list \<Rightarrow> string option" where
  "longest_cover path patterns = fold (longer_cover path) patterns None"

lemma rstrip_slash_snoc [simp]: "rstrip_slash (p @ ''/'') = rstrip_slash p"
  by (simp add: rstrip_slash_def)

lemma rstrip_slash_last: "rstrip_slash p \<noteq> [] \<Longrightarrow> last (rstrip_slash p) \<noteq> CHR ''/''"
  using hd_dropWhile [of "\<lambda>c. c = CHR ''/''" "rev p"] by (simp add: rstrip_slash_def last_rev)

lemma rstrip_slash_id: "rstrip_slash p = p" if "p = [] \<or> last p \<noteq> CHR ''/''"
  using that by (cases p rule: rev_cases) (auto simp: rstrip_slash_def)

lemma rstrip_slash_idem [simp]: "rstrip_slash (rstrip_slash p) = rstrip_slash p"
  using rstrip_slash_id rstrip_slash_last by blast

lemma path_covered_slash [simp]: "path_covered path (p @ ''/'') = path_covered path p"
  by (simp add: path_covered_def)

lemma path_covered_rstrip [simp]: "path_covered path (rstrip_slash p) = path_covered path p"
  by (simp add: path_covered_def)

lemma path_covered_refl: "p \<noteq> [] \<Longrightarrow> last p \<noteq> CHR ''/'' \<Longrightarrow> path_covered p p"
  by (simp add: path_covered_def rstrip_slash_id)

lemma path_covered_prefix: "path_covered path p \<Longrightarrow> prefix (rstrip_slash p) path"
  by (auto simp: path_covered_def Let_def intro: append_prefixD)

lemma path_covered_trans:
  assumes "path_covered x p" and "path_covered (rstrip_slash p) q"
  shows "path_covered x q"
proof -
  let ?p = "rstrip_slash p" and ?q = "rstrip_slash q"
  from assms(2) have q: "?q \<noteq> []" "?p = ?q \<or> prefix (?q @ ''/'') ?p"
    by (auto simp: path_covered_def Let_def)
  from path_covered_prefix [OF assms(1)] have "prefix ?p x" .
  with q assms(1) show ?thesis
    by (auto simp: path_covered_def Let_def intro: prefix_order.trans)
qed

text \<open>A cover of a path with the same bare length is the same pattern up to trailing slashes.\<close>

lemma path_covered_length_eq:
  assumes "path_covered path p" "path_covered path q" "length (rstrip_slash p) = length (rstrip_slash q)"
  shows "rstrip_slash p = rstrip_slash q"
  using path_covered_prefix [OF assms(1)] path_covered_prefix [OF assms(2)] assms(3)
  by (auto simp: prefix_def append_eq_append_conv)

lemma rstrip_slash_split: "\<exists>k. p = rstrip_slash p @ replicate k (CHR ''/'')"
proof -
  let ?P = "\<lambda>c. c = CHR ''/''"
  have "p = rev (dropWhile ?P (rev p)) @ rev (takeWhile ?P (rev p))"
    by (metis rev_append rev_rev_ident takeWhile_dropWhile_id)
  moreover have "takeWhile ?P (rev p) = replicate (length (takeWhile ?P (rev p))) (CHR ''/'')"
    by (rule replicate_eqI [symmetric, OF refl, symmetric]) (auto dest: set_takeWhileD)
  ultimately show ?thesis unfolding rstrip_slash_def by (metis rev_replicate)
qed

lemma prefix_replicate:
  assumes "prefix (q @ ''/'') (r @ replicate k (CHR ''/''))" "q \<noteq> []" "last q \<noteq> CHR ''/''" "r = [] \<or> last r \<noteq> CHR ''/''"
  shows "q = r \<or> prefix (q @ ''/'') r"
proof (cases "length q < length r")
  case True
  then have "length (q @ ''/'') \<le> length r" by simp
  then have "prefix (q @ ''/'') r" by (rule prefix_length_prefix [OF assms(1) prefixI [OF refl]])
  then show ?thesis ..
next
  case False
  from assms(1) obtain z where z: "q @ CHR ''/'' # z = r @ replicate k (CHR ''/'')" by (auto simp: prefix_def)
  with False obtain u where u: "q = r @ u" "u @ CHR ''/'' # z = replicate k (CHR ''/'')"
    by (auto simp: append_eq_append_conv2)
  have "u = []"
  proof (rule ccontr)
    assume "u \<noteq> []"
    then have "last u \<in> set (replicate k (CHR ''/''))" using u(2) by (metis last_in_set in_set_conv_decomp append_assoc UnI1 set_append)
    then have "last q = CHR ''/''" using u(1) \<open>u \<noteq> []\<close> by simp
    with assms(3) show False ..
  qed
  with u show ?thesis by simp
qed

lemma path_covered_path_rstrip:
  assumes "rstrip_slash e \<noteq> []"
  shows "path_covered e q \<longleftrightarrow> path_covered (rstrip_slash e) q"
proof -
  obtain k where e: "e = rstrip_slash e @ replicate k (CHR ''/'')" using rstrip_slash_split by blast
  let ?r = "rstrip_slash e" and ?q = "rstrip_slash q"
  show ?thesis
  proof (cases "?q = []")
    case False
    note last_q = rstrip_slash_last [OF False]
    have last_r: "last ?r \<noteq> CHR ''/''" by (rule rstrip_slash_last [OF assms])
    have "(e = ?q \<or> prefix (?q @ ''/'') e) \<longleftrightarrow> (?r = ?q \<or> prefix (?q @ ''/'') ?r)"
    proof
      assume "e = ?q \<or> prefix (?q @ ''/'') e"
      then show "?r = ?q \<or> prefix (?q @ ''/'') ?r"
      proof
        assume "e = ?q"
        then show ?thesis by (metis rstrip_slash_idem)
      next
        assume "prefix (?q @ ''/'') e"
        then have "prefix (?q @ ''/'') (?r @ replicate k (CHR ''/''))" using e by metis
        from prefix_replicate [OF this False last_q] last_r show ?thesis by auto
      qed
    next
      assume "?r = ?q \<or> prefix (?q @ ''/'') ?r"
      then show "e = ?q \<or> prefix (?q @ ''/'') e"
      proof
        assume r: "?r = ?q"
        show ?thesis
        proof (cases k)
          case 0
          with e r show ?thesis by simp
        next
          case (Suc n)
          with e r have "e = ?q @ CHR ''/'' # replicate n (CHR ''/'')" by simp
          then show ?thesis by (simp add: prefix_def)
        qed
      next
        assume "prefix (?q @ ''/'') ?r"
        then have "prefix (?q @ ''/'') (?r @ replicate k (CHR ''/''))" by simp
        with e show ?thesis by metis
      qed
    qed
    with False show ?thesis by (simp add: path_covered_def)
  qed (simp add: path_covered_def)
qed

text \<open>Of two covers of one path the longer lies under the shorter.\<close>

lemma path_covered_chain:
  assumes "path_covered x p" "path_covered x q" "length (rstrip_slash q) \<le> length (rstrip_slash p)"
  shows "path_covered (rstrip_slash p) q"
proof -
  let ?p = "rstrip_slash p" and ?q = "rstrip_slash q"
  have q: "?q \<noteq> []" using assms(2) by (auto simp: path_covered_def Let_def)
  show ?thesis
  proof (cases "?p = ?q")
    case False
    have "prefix ?p x" by (rule path_covered_prefix [OF assms(1)])
    then obtain z where z: "x = ?p @ z" by (auto simp: prefix_def)
    have lt: "length ?q < length ?p"
    proof (rule ccontr)
      assume "\<not> ?thesis"
      with assms(3) have "length ?p = length ?q" by simp
      from path_covered_length_eq [OF assms(1,2) this] False show False by contradiction
    qed
    have "x \<noteq> ?q"
    proof
      assume "x = ?q"
      then have "length ?q = length ?p + length z" using z by (metis length_append)
      with lt show False by simp
    qed
    with assms(2) have "prefix (?q @ ''/'') x" by (auto simp: path_covered_def Let_def)
    with lt z have "prefix (?q @ ''/'') ?p"
      by (metis length_append_singleton prefix_length_prefix Suc_leI prefixI)
    with q show ?thesis by (simp add: path_covered_def)
  qed (use q in \<open>simp add: path_covered_def\<close>)
qed

definition best_cover :: "string \<Rightarrow> string set \<Rightarrow> string option \<Rightarrow> bool" where
  "best_cover path P best \<longleftrightarrow> (case best of
      None \<Rightarrow> (\<forall>p \<in> P. \<not> path_covered path p)
    | Some p \<Rightarrow> p \<in> P \<and> path_covered path p \<and>
        (\<forall>q \<in> P. path_covered path q \<longrightarrow> length (rstrip_slash q) \<le> length (rstrip_slash p)))"

lemma best_cover_step: "best_cover path P best \<Longrightarrow> best_cover path (insert a P) (longer_cover path a best)"
  by (cases best) (auto simp: best_cover_def longer_cover_def)

lemma best_cover_fold: "best_cover path P best \<Longrightarrow> best_cover path (P \<union> set ps) (fold (longer_cover path) ps best)"
proof (induction ps arbitrary: P best)
  case (Cons a ps)
  from Cons.IH [OF best_cover_step [OF Cons.prems]] show ?case by simp
qed simp

lemma best_cover: "best_cover path (set ps) (longest_cover path ps)"
  using best_cover_fold [of path "{}" None ps] by (simp add: longest_cover_def best_cover_def)

text \<open>The owner of a path is its most specific cover: it is one of the patterns, it covers the path,
  no other covering pattern is longer, and there is no owner exactly when no pattern covers the path.\<close>

theorem longest_cover_spec:
  "case longest_cover path ps of
      None \<Rightarrow> (\<forall>p \<in> set ps. \<not> path_covered path p)
    | Some p \<Rightarrow> p \<in> set ps \<and> path_covered path p \<and>
        (\<forall>q \<in> set ps. \<not> path_covered path q \<or> length (rstrip_slash q) \<le> length (rstrip_slash p))"
  using best_cover [of path ps] by (auto simp: best_cover_def split: option.splits)

theorem longest_cover_spec_witness:
  "longest_cover ''src/a/b.py'' [''src/'', ''src/a'', ''src/ab''] = Some ''src/a'' \<and>
   path_covered ''src/a/b.py'' ''src/a'' \<and> length (rstrip_slash ''src/'') \<le> length (rstrip_slash ''src/a'')"
  using longest_cover_spec [of "[''src/'', ''src/a'', ''src/ab'']" "''src/a/b.py''"]
  by (simp add: longest_cover_def longer_cover_def path_covered_def rstrip_slash_def)

text \<open>The owner does not depend on the order the patterns are iterated in, nor on duplicates among
  them: two lists of the same patterns give owners that are equal up to trailing slashes.\<close>

theorem longest_cover_order:
  assumes "set ps = set qs"
  shows "map_option rstrip_slash (longest_cover path ps) = map_option rstrip_slash (longest_cover path qs)"
proof (cases "longest_cover path ps"; cases "longest_cover path qs")
  fix a b
  assume a: "longest_cover path ps = Some a" and b: "longest_cover path qs = Some b"
  then have "path_covered path a" "path_covered path b" "length (rstrip_slash a) = length (rstrip_slash b)"
    using best_cover [of path ps] best_cover [of path qs] assms
    by (auto simp: best_cover_def intro: order.antisym)
  then have "rstrip_slash a = rstrip_slash b" by (rule path_covered_length_eq)
  with a b show ?thesis by simp
qed (use best_cover [of path ps] best_cover [of path qs] assms in \<open>auto simp: best_cover_def\<close>)

theorem longest_cover_order_witness:
  "map_option rstrip_slash (longest_cover ''a/b'' [''a'', ''a/b/'']) =
   map_option rstrip_slash (longest_cover ''a/b'' [''a/b/'', ''a'', ''a''])"
  by (rule longest_cover_order) auto

lemma outside_scope_in:
  "path \<in> set (outside_scope paths include exclude) \<longleftrightarrow> path \<in> set paths \<and>
     ((\<exists>p \<in> set exclude. path_covered path p) \<or>
      include \<noteq> [] \<and> (\<forall>p \<in> set include. \<not> path_covered path p))"
  by (auto simp: outside_scope_def)

lemma outside_scope_unbounded: "outside_scope paths [] [] = []"
  by (simp add: outside_scope_def)

section \<open>Failure summaries\<close>

definition failure_max_lines :: nat where
  "failure_max_lines = 40"

definition failure_max_chars :: nat where
  "failure_max_chars = 1500"

definition newline :: string where
  "newline = [CHR 0x0A]"

text \<open>\<^verbatim>\<open>kept[-n:]\<close>.\<close>

definition last_n :: "nat \<Rightarrow> 'a list \<Rightarrow> 'a list" where
  "last_n n xs = drop (length xs - n) xs"

text \<open>The loop that drops whole leading lines while the text is over the budget.\<close>

fun drop_lines :: "string list \<Rightarrow> string list" where
  "drop_lines (x # y # r) =
     (if code_points (join newline (x # y # r)) > failure_max_chars then drop_lines (y # r) else x # y # r)"
| "drop_lines xs = xs"

text \<open>What \<^verbatim>\<open>summarize_failure\<close> keeps of the lines, and how many it omits; \<open>salient\<close> is its expression's search
  and \<open>nonblank\<close> is \<^verbatim>\<open>ln.strip()\<close>'s truth.\<close>

definition failure_lines :: "(string \<Rightarrow> bool) \<Rightarrow> (string \<Rightarrow> bool) \<Rightarrow> string list \<Rightarrow> string list \<times> string \<times> nat" where
  "failure_lines salient nonblank lines =
     (let found = filter salient lines;
          (kept, note) = (if found \<noteq> [] then (found, ''salient lines only'') else (filter nonblank lines, ''tail''));
          kept = drop_lines (last_n failure_max_lines kept)
      in (kept, note, length lines - length kept))"

lemma drop_lines_suffix: "suffix (drop_lines xs) xs"
  by (induction xs rule: drop_lines.induct) (auto intro: suffix_ConsI)

lemma drop_lines_bound: "code_points (join newline (drop_lines xs)) \<le> failure_max_chars \<or> length (drop_lines xs) \<le> 1"
  by (induction xs rule: drop_lines.induct) auto

lemma drop_lines_nonempty: "xs \<noteq> [] \<Longrightarrow> drop_lines xs \<noteq> []"
  by (induction xs rule: drop_lines.induct) auto

text \<open>A failure summary keeps the end of what it selected: the kept lines are a suffix of the salient
  lines (of the non-blank ones when none is salient), at most forty, within the character budget unless
  a single line alone exceeds it, never empty when a line was selected, and the omitted count it
  discloses with them accounts for every line of the output.\<close>

theorem failure_lines_bounds:
  "case failure_lines salient nonblank lines of (kept, note, omitted) \<Rightarrow>
     suffix kept (if filter salient lines = [] then filter nonblank lines else filter salient lines) \<and>
     length kept \<le> 40 \<and> (code_points (join newline kept) \<le> 1500 \<or> length kept \<le> 1) \<and>
     (kept = [] \<longleftrightarrow> filter salient lines = [] \<and> filter nonblank lines = []) \<and>
     omitted + length kept = length lines"
proof -
  define sel where "sel = (if filter salient lines = [] then filter nonblank lines else filter salient lines)"
  define kept where "kept = drop_lines (last_n 40 sel)"
  have last: "suffix (last_n 40 sel) sel" "length (last_n 40 sel) \<le> 40"
      "sel \<noteq> [] \<Longrightarrow> last_n 40 sel \<noteq> []"
    by (auto simp: last_n_def suffix_drop) (cases sel; simp)
  have suf: "suffix kept (last_n 40 sel)"
    by (simp add: kept_def drop_lines_suffix)
  then have "suffix kept sel" "length kept \<le> 40"
    using last suffix_order.trans suffix_length_le [OF suf] by auto
  moreover have "code_points (join newline kept) \<le> 1500 \<or> length kept \<le> 1"
    using drop_lines_bound [of "last_n 40 sel"] by (simp add: kept_def failure_max_chars_def)
  moreover have "kept = [] \<longleftrightarrow> sel = []"
    using drop_lines_nonempty [of "last_n 40 sel"] last(3) \<open>suffix kept sel\<close> by (auto simp: kept_def)
  moreover have "length kept \<le> length lines"
    using suffix_length_le [OF \<open>suffix kept sel\<close>]
    by (auto simp: sel_def split: if_splits intro: le_trans [OF _ length_filter_le])
  moreover have "failure_lines salient nonblank lines =
      (kept, if filter salient lines = [] then ''tail'' else ''salient lines only'', length lines - length kept)"
    by (simp add: failure_lines_def kept_def sel_def failure_max_lines_def Let_def)
  ultimately show ?thesis by (auto simp: sel_def split: if_splits)
qed

end
