(* ===== verification/Vocabulary.thy ===== *)
theory Vocabulary
  imports Paths
begin

text \<open>
  The vocabulary of \<^verbatim>\<open>models.py\<close>: risk ladder, gate names, identifier shapes, names of stacked branches,
  task kinds and statuses, and the setup command derived from a config's unsandboxed profiles. A
  lookup that raises \<^verbatim>\<open>ValueError\<close> is an option.
\<close>

section \<open>Risk\<close>

definition risk_order :: "string list" where
  "risk_order = [''low'', ''medium'', ''high'', ''critical'']"

fun index_of :: "'a list \<Rightarrow> 'a \<Rightarrow> nat option" where
  "index_of [] x = None"
| "index_of (y # ys) x = (if x = y then Some 0 else map_option Suc (index_of ys x))"

lemma index_of_None: "index_of xs x = None \<longleftrightarrow> x \<notin> set xs"
  by (induction xs) auto

lemma index_of_nth: "index_of xs x = Some i \<Longrightarrow> i < length xs \<and> xs ! i = x"
  by (induction xs arbitrary: i) (auto split: if_splits)

lemma index_of_inj: "index_of xs x = Some i \<Longrightarrow> index_of xs y = Some i \<Longrightarrow> x = y"
  using index_of_nth by metis

definition risk_at_least :: "string \<Rightarrow> string \<Rightarrow> bool option" where
  "risk_at_least risk floor =
     (case (index_of risk_order risk, index_of risk_order floor) of
        (Some i, Some j) \<Rightarrow> Some (i \<ge> j)
      | _ \<Rightarrow> None)"

text \<open>\<^verbatim>\<open>max(risks, key=RISK_ORDER.index, default="low")\<close>: the first of the greatest.\<close>

fun max_by :: "('a \<Rightarrow> nat) \<Rightarrow> 'a \<Rightarrow> 'a list \<Rightarrow> 'a" where
  "max_by f best [] = best"
| "max_by f best (x # xs) = max_by f (if f x > f best then x else best) xs"

definition max_risk :: "string list \<Rightarrow> string option" where
  "max_risk risks =
     (case risks of
        [] \<Rightarrow> Some ''low''
      | r # rs \<Rightarrow>
          if \<forall>x \<in> set risks. index_of risk_order x \<noteq> None
          then Some (max_by (\<lambda>x. the (index_of risk_order x)) r rs) else None)"

lemma max_by_mem: "max_by f best xs \<in> insert best (set xs)"
proof (induction xs arbitrary: best)
  case (Cons x xs)
  from Cons.IH [of x] Cons.IH [of best] show ?case by auto
qed simp

lemma max_by_start: "f best \<le> f (max_by f best xs)"
proof (induction xs arbitrary: best)
  case (Cons x xs)
  show ?case using Cons.IH [of x] Cons.IH [of best] by auto
qed simp

lemma max_by_ge: "y \<in> insert best (set xs) \<Longrightarrow> f y \<le> f (max_by f best xs)"
proof (induction xs arbitrary: best)
  case (Cons x xs)
  show ?case
  proof (cases "y \<in> set xs")
    case True
    with Cons.IH show ?thesis by simp
  next
    case False
    with Cons.prems have "f y \<le> f (if f x > f best then x else best)" by auto
    also have "\<dots> \<le> f (max_by f (if f x > f best then x else best) xs)" by (rule max_by_start)
    finally show ?thesis by simp
  qed
qed (use max_by_start [of f best "[]"] in simp)

text \<open>The effective risk is built from one maximum: over known risk values it is one of them (the
  lowest when there are none) and sits at or above every one of them on the ladder, and a value
  outside the ladder is an error rather than a risk.\<close>

theorem max_risk_spec:
  "case max_risk risks of
      None \<Rightarrow> \<not> set risks \<subseteq> set risk_order
    | Some m \<Rightarrow> (m \<in> set risks \<or> risks = [] \<and> m = ''low'') \<and> m \<in> set risk_order \<and>
        filter (\<lambda>r. risk_at_least m r \<noteq> Some True) risks = []"
proof (cases risks)
  case (Cons r rs)
  let ?f = "\<lambda>x. the (index_of risk_order x)"
  show ?thesis
  proof (cases "\<forall>x \<in> set risks. index_of risk_order x \<noteq> None")
    case True
    let ?m = "max_by ?f r rs"
    have m: "?m \<in> set risks" using max_by_mem [of ?f r rs] Cons by simp
    have "risk_at_least ?m x = Some True" if x: "x \<in> set risks" for x
    proof -
      obtain i j where "index_of risk_order ?m = Some i" "index_of risk_order x = Some j"
        using True m x by blast
      with max_by_ge [of x r rs ?f] x Cons show ?thesis by (simp add: risk_at_least_def)
    qed
    with m True Cons show ?thesis
      by (auto simp: max_risk_def index_of_None filter_empty_conv)
  qed (auto simp: max_risk_def Cons index_of_None)
qed (simp add: max_risk_def risk_order_def)

section \<open>Gates\<close>

definition gate_first :: string where
  "gate_first = ''mandate''"

definition gate_last :: string where
  "gate_last = ''acceptance''"

definition gate_ends :: "string list" where
  "gate_ends = [gate_first, gate_last]"

text \<open>\<^verbatim>\<open>^T-[0-9]+$\<close> with \<^verbatim>\<open>re.match\<close>, whose \<^verbatim>\<open>$\<close> also matches before one final newline.\<close>

definition digits_then :: "nat \<Rightarrow> string \<Rightarrow> bool" where
  "digits_then n s \<longleftrightarrow>
     (let d = takeWhile is_digit s in length d \<ge> n \<and> (dropWhile is_digit s = [] \<or> dropWhile is_digit s = newline))"

definition crossing_gate_name :: "string \<Rightarrow> bool" where
  "crossing_gate_name s \<longleftrightarrow> prefix ''T-'' s \<and> digits_then 1 (drop 2 s)"

definition gate_name_ok :: "string \<Rightarrow> bool" where
  "gate_name_ok gate \<longleftrightarrow> gate \<in> set gate_ends \<or> crossing_gate_name gate"

definition task_order_keys :: "string list" where
  "task_order_keys = [''blocked_by'']"

section \<open>Identifiers\<close>

text \<open>\<^verbatim>\<open>ID_PATTERNS\<close>: a letter, a dash, at least so many digits (\<^verbatim>\<open>\d\<close>, read as an ASCII digit here).\<close>

definition id_patterns :: "(string \<times> string \<times> nat) list" where
  "id_patterns = [(''claim'', ''C-'', 3), (''issue'', ''I-'', 3), (''task'', ''T-'', 3), (''acceptance'', ''A-'', 1),
     (''premise'', ''P-'', 1), (''statement'', ''STMT-'', 3), (''actual_statement'', ''AST-'', 3),
     (''decision_card'', ''DC-'', 3), (''finding'', ''F-'', 3), (''extra_behavior'', ''EXTRA-'', 3)]"

definition id_matches :: "string \<Rightarrow> string \<Rightarrow> bool" where
  "id_matches kind s = (case map_of id_patterns kind of
      None \<Rightarrow> False
    | Some (p, n) \<Rightarrow> prefix p s \<and> digits_then n (drop (length p) s))"

text \<open>A task id names a crossing gate: every identifier of the task shape is a well-formed gate name,
  and none of them is one of the two ends, so a crossing never shadows the mandate or acceptance.\<close>

theorem task_id_is_gate_name:
  assumes "id_matches ''task'' tid"
  shows "gate_name_ok tid \<and> tid \<notin> set gate_ends"
proof -
  from assms have t: "prefix ''T-'' tid" and d: "digits_then 3 (drop 2 tid)"
    by (auto simp: id_matches_def id_patterns_def numeral_2_eq_2)
  from d have "digits_then 1 (drop 2 tid)" by (auto simp: digits_then_def Let_def)
  with t show ?thesis
    by (auto simp: gate_name_ok_def crossing_gate_name_def gate_ends_def gate_first_def gate_last_def prefix_def)
qed

theorem task_id_is_gate_name_witness: "gate_name_ok ''T-004'' \<and> ''T-004'' \<notin> set gate_ends"
  by (rule task_id_is_gate_name) (simp add: id_matches_def id_patterns_def digits_then_def is_digit_def)

text \<open>The shape tolerates one trailing newline, which the comment on the pattern does not say.\<close>

lemma gate_name_newline: "gate_name_ok (''T-1'' @ newline)"
  by (simp add: gate_name_ok_def crossing_gate_name_def digits_then_def is_digit_def newline_def)

section \<open>Stacked branches\<close>

definition stack_branch_infix :: string where
  "stack_branch_infix = ''-pr-''"

definition stack_tail_suffix :: string where
  "stack_tail_suffix = ''tail''"

text \<open>\<^verbatim>\<open>{index:02d}\<close>.\<close>

definition two_digits :: "nat \<Rightarrow> string" where
  "two_digits n = (if n < 10 then CHR ''0'' # dec_nat n else dec_nat n)"

definition stack_branch :: "string \<Rightarrow> string \<Rightarrow> nat \<Rightarrow> string \<Rightarrow> string" where
  "stack_branch work_branch cycle_id idx task_id =
     (let cyc = (if cycle_id = [] then ''cycle'' else cycle_id)
      in work_branch @ stack_branch_infix @ cyc @ ''-'' @ two_digits idx @ ''-'' @
         (if task_id = [] then stack_tail_suffix else task_id))"

definition is_stack_branch :: "string \<Rightarrow> bool" where
  "is_stack_branch ref \<longleftrightarrow> sublist stack_branch_infix ref"

lemma dec_nat_small: "n < 10 \<Longrightarrow> dec_nat n = [digit n]"
  by (simp add: dec_nat.simps)

lemma dec_nat_big: "10 \<le> n \<Longrightarrow> hd (dec_nat n) \<noteq> CHR ''0''"
proof (induction n rule: dec_nat.induct)
  case (1 n)
  show ?case
  proof (cases "n div 10 < 10")
    case True
    with 1 have "0 < n div 10" "n div 10 < 10" by auto
    then have "digit (n div 10) \<noteq> digit 0" using digit_inj [of "n div 10" 0] by auto
    moreover have "digit 0 = CHR ''0''" by code_simp
    ultimately show ?thesis using 1 True
      by (simp add: dec_nat.simps [of n] dec_nat_small)
  next
    case False
    with 1 show ?thesis by (simp add: dec_nat.simps [of n])
  qed
qed

lemma two_digits_inj: "two_digits m = two_digits n \<Longrightarrow> m = n"
proof (cases "m < 10"; cases "n < 10")
  assume "two_digits m = two_digits n" "m < 10" "\<not> n < 10"
  then have "hd (dec_nat n) = CHR ''0''" by (metis list.sel(1) two_digits_def)
  with dec_nat_big [of n] \<open>\<not> n < 10\<close> show ?thesis by simp
next
  assume "two_digits m = two_digits n" "\<not> m < 10" "n < 10"
  then have "hd (dec_nat m) = CHR ''0''" by (metis list.sel(1) two_digits_def)
  with dec_nat_big [of m] \<open>\<not> m < 10\<close> show ?thesis by simp
qed (auto simp: two_digits_def dec_nat_inj)

lemma two_digits_digits: "c \<in> set (two_digits n) \<Longrightarrow> is_digit c"
  by (auto simp: two_digits_def is_digit_def dest: dec_nat_digits split: if_splits)

text \<open>Every slice branch the stack creates is recognised as one, so the base-side check never takes a
  base the head's author created for a trusted one.\<close>

theorem stack_branch_recognised: "is_stack_branch (stack_branch work_branch cycle_id idx task_id)"
  by (auto simp: is_stack_branch_def stack_branch_def Let_def sublist_def)

text \<open>The last dash-free run of a text is determined by it.\<close>

lemma split_last_delim:
  fixes a b x y :: "'a list"
  assumes "a @ d # x = b @ d # y" "d \<notin> set x" "d \<notin> set y"
  shows "a = b \<and> x = y"
proof -
  from assms(1) have "rev x @ d # rev a = rev y @ d # rev b"
  proof -
    have "rev (a @ d # x) = rev (b @ d # y)" by (simp only: assms(1))
    then show ?thesis by (simp del: append_eq_append_conv)
  qed
  moreover have "\<forall>c \<in> set (rev x). c \<noteq> d" "\<forall>c \<in> set (rev y). c \<noteq> d" using assms(2,3) by auto
  ultimately have "rev x = rev y \<and> d # rev a = d # rev b"
    using split_at_delim [of "rev x" "\<lambda>c. c \<noteq> d" "rev y" "d # rev a" "d # rev b"] by simp
  then show ?thesis by simp
qed

lemma two_digits_no_dash: "CHR ''-'' \<notin> set (two_digits n)"
  using two_digits_digits [of "CHR ''-''" n] not_digit_minus by blast

text \<open>Two cycles never share a slice name: with task ids that hold no dash after their letter, the
  branch name of one work branch determines the cycle, the index and the task.\<close>

theorem stack_branch_inj:
  assumes "stack_branch w c i (''T-'' @ t) = stack_branch w c' i' (''T-'' @ t')"
    and "c \<noteq> []" "c' \<noteq> []" "CHR ''-'' \<notin> set t" "CHR ''-'' \<notin> set t'"
  shows "c = c' \<and> i = i' \<and> t = t'"
proof -
  let ?d = "CHR ''-''"
  from assms(1-3) have "(c @ ?d # two_digits i @ ?d # ''T'') @ ?d # t = (c' @ ?d # two_digits i' @ ?d # ''T'') @ ?d # t'"
    by (simp add: stack_branch_def)
  from split_last_delim [OF this assms(4,5)]
  have "(c @ ?d # two_digits i) @ ?d # ''T'' = (c' @ ?d # two_digits i') @ ?d # ''T''" and t: "t = t'" by simp_all
  then have "c @ ?d # two_digits i = c' @ ?d # two_digits i'" by simp
  from split_last_delim [OF this two_digits_no_dash two_digits_no_dash] t show ?thesis
    by (simp add: two_digits_inj)
qed

theorem stack_branch_inj_witness: "\<exists>t. stack_branch ''main'' ''c1'' 3 (''T-'' @ t) = ''main-pr-c1-03-T-001'' \<and> t = ''001''"
proof -
  have d: "dec_nat 3 = ''3''" by code_simp
  have s: "stack_branch ''main'' ''c1'' 3 (''T-'' @ ''001'') = ''main-pr-c1-03-T-001''"
    by (simp add: stack_branch_def stack_branch_infix_def two_digits_def d)
  with stack_branch_inj [of "''main''" "''c1''" 3 "''001''" "''c1''" 3 "''001''"] show ?thesis by auto
qed

section \<open>Tasks\<close>

definition task_kind_order :: "string list" where
  "task_kind_order = [''foundation'', ''parallel'', ''integration'']"

definition task_status_order :: "string list" where
  "task_status_order = [''todo'', ''in-progress'', ''blocked'', ''needs-revision'', ''awaiting-evidence'', ''done'']"

definition local_decision_fields :: "string list" where
  "local_decision_fields = [''statement'', ''rationale'', ''undo'', ''anchor'']"

definition local_decision_id :: "(string \<Rightarrow> string) \<Rightarrow> string \<Rightarrow> string" where
  "local_decision_id sha event_id = ''LD-'' @ take 8 (sha event_id)"

definition observation_id :: "(string \<Rightarrow> string) \<Rightarrow> string \<Rightarrow> string" where
  "observation_id sha event_id = ''OB-'' @ take 8 (sha event_id)"

definition change_request_statuses :: "string list" where
  "change_request_statuses = [''open'', ''addressed'', ''resolved'']"

definition expansion_statuses :: "string list" where
  "expansion_statuses = [''proposed'', ''adopted'', ''refused'']"

section \<open>The setup command\<close>

definition sandbox_setup_command :: "string list \<Rightarrow> string" where
  "sandbox_setup_command build_targets =
     (if length build_targets > 1 then ''rein oci build --all --write-config''
      else case build_targets of
        [] \<Rightarrow> ''''
      | target # _ \<Rightarrow>
          ''rein oci build --profile '' @ target @
          (if target = ''agent'' then '' --build-arg AGENT_CLI=<npm package>'' else '''') @ '' --write-config'')"

end
