(* ===== verification/PlanDoc.thy ===== *)
theory PlanDoc
  imports Vocabulary
begin

text \<open>
  The typed views of \<^verbatim>\<open>models.py\<close> over the plan: claims, issues, sub-issues (tasks), decisions,
  premises, and \<^verbatim>\<open>Plan\<close> itself. A view is a function of the raw entry; the only view that carries more
  is a task, beside which the plan's constructor puts what its issue says. The index
  \<^verbatim>\<open>__post_init__\<close> builds is a dictionary per section (a repeated id keeps its place and the last
  entry, as a dict comprehension does).
\<close>

section \<open>Element views\<close>

definition el_id :: "jobj \<Rightarrow> string" where
  "el_id raw = str_field raw ''id'' ''''"

definition claim_requirement_ids :: "jobj \<Rightarrow> string list" where
  "claim_requirement_ids raw = ids_field raw ''requirement_ids''"

definition el_risk :: "jobj \<Rightarrow> string" where
  "el_risk raw = str_field raw ''risk'' ''low''"

definition issue_kind :: "jobj \<Rightarrow> string" where
  "issue_kind raw = str_field raw ''kind'' ''parallel''"

definition issue_blocked_by :: "jobj \<Rightarrow> string list" where
  "issue_blocked_by raw = ids_field raw ''blocked_by''"

definition sub_issue_ids :: "jobj \<Rightarrow> string list" where
  "sub_issue_ids raw = map el_id (maps_field raw ''sub_issues'')"

text \<open>A task: the sub-issue's own entry and what its issue gives it.\<close>

record ptask =
  t_raw :: jobj
  t_issue :: string
  t_kind :: string
  t_upstream :: "string list"

definition pt_id :: "ptask \<Rightarrow> string" where
  "pt_id t = el_id (t_raw t)"

definition pt_title :: "ptask \<Rightarrow> string" where
  "pt_title t = str_field (t_raw t) ''title'' ''''"

definition pt_produced_by :: "ptask \<Rightarrow> string" where
  "pt_produced_by t = str_field (t_raw t) ''produced_by'' ''agent''"

definition pt_requires :: "ptask \<Rightarrow> jobj list" where
  "pt_requires t = objs_in (as_arr (jget (t_raw t) ''requires''))"

definition pt_env :: "ptask \<Rightarrow> (string \<times> string) list" where
  "pt_env t = map (\<lambda>kv. (fst kv, py_str (snd kv))) (obj_field (obj_field (t_raw t) ''environment'') ''env'')"

definition pt_allow :: "ptask \<Rightarrow> string list" where
  "pt_allow t = ids_field (obj_field (t_raw t) ''environment'') ''allow''"

definition pt_operate :: "ptask \<Rightarrow> jobj list" where
  "pt_operate t = maps_field (t_raw t) ''operate''"

definition pt_own_blocked_by :: "ptask \<Rightarrow> string list" where
  "pt_own_blocked_by t = ids_field (t_raw t) ''blocked_by''"

definition pt_blocked_by :: "ptask \<Rightarrow> string list" where
  "pt_blocked_by t = dedup (pt_own_blocked_by t @ t_upstream t)"

definition pt_claim_ids :: "ptask \<Rightarrow> string list" where
  "pt_claim_ids t = ids_field (t_raw t) ''claim_ids''"

definition pt_risk :: "ptask \<Rightarrow> string" where
  "pt_risk t = el_risk (t_raw t)"

definition pt_domains :: "ptask \<Rightarrow> string list" where
  "pt_domains t = ids_field (t_raw t) ''domains''"

definition pt_scope_include :: "ptask \<Rightarrow> string list" where
  "pt_scope_include t = ids_field (obj_field (t_raw t) ''scope'') ''include''"

definition pt_scope_exclude :: "ptask \<Rightarrow> string list" where
  "pt_scope_exclude t = ids_field (obj_field (t_raw t) ''scope'') ''exclude''"

definition pt_acceptance :: "ptask \<Rightarrow> jobj list" where
  "pt_acceptance t = objs_in (as_arr (jget (t_raw t) ''acceptance''))"

text \<open>The evidence of one criterion, when it is a mapping.\<close>

definition evidence_of :: "jobj \<Rightarrow> jobj option" where
  "evidence_of entry = (case jget entry ''evidence'' of JObj ev \<Rightarrow> Some ev | _ \<Rightarrow> None)"

definition artifact_paths_of :: "jobj \<Rightarrow> string list" where
  "artifact_paths_of ev = (if str_field ev ''kind'' '''' = ''artifact'' then ids_field ev ''paths'' else [])"

definition produces_of :: "jobj \<Rightarrow> string list" where
  "produces_of ev = artifact_paths_of ev @ ids_field ev ''produces''"

definition pt_produces :: "ptask \<Rightarrow> string list" where
  "pt_produces t = dedup (concat (map (\<lambda>e. case evidence_of e of None \<Rightarrow> [] | Some ev \<Rightarrow> produces_of ev) (pt_acceptance t)))"

definition pt_reads :: "ptask \<Rightarrow> string list" where
  "pt_reads t = dedup (concat (map (\<lambda>e. case evidence_of e of None \<Rightarrow> [] | Some ev \<Rightarrow> ids_field ev ''reads'') (pt_acceptance t)))"

definition pt_operator_surface :: "ptask \<Rightarrow> jobj list" where
  "pt_operator_surface t = objs_in (as_arr (jget (t_raw t) ''operator_surface''))"

definition pt_rehearsal :: "ptask \<Rightarrow> jobj" where
  "pt_rehearsal t = obj_field (t_raw t) ''rehearsal''"

definition pt_attempt_max :: "ptask \<Rightarrow> int" where
  "pt_attempt_max t = (case as_pyint (jget (obj_field (t_raw t) ''attempts'') ''max'') of Some n \<Rightarrow> n | None \<Rightarrow> 0)"

definition pt_attempt_cost :: "ptask \<Rightarrow> string" where
  "pt_attempt_cost t = str_field (obj_field (t_raw t) ''attempts'') ''cost'' ''''"

definition pt_irreversible_surfaces :: "ptask \<Rightarrow> jobj list" where
  "pt_irreversible_surfaces t = filter (\<lambda>e. jget e ''reversible'' = JBool False) (pt_operator_surface t)"

section \<open>Decisions and premises\<close>

definition decision_reach :: "jobj \<Rightarrow> string" where
  "decision_reach raw = (let v = str_field raw ''reach'' ''''
     in if v \<in> set [''mandate'', ''local''] then v else ''mandate'')"

definition decision_status :: "jobj \<Rightarrow> string" where
  "decision_status raw = (let v = str_field raw ''status'' ''''
     in if v \<in> set [''settled'', ''unknown''] then v else ''unknown'')"

definition decision_settled_by :: "jobj \<Rightarrow> string" where
  "decision_settled_by raw = (let v = str_field raw ''settled_by'' ''''
     in if v \<in> set [''human'', ''loop''] then v else '''')"

definition decision_unasked :: "jobj \<Rightarrow> bool" where
  "decision_unasked raw \<longleftrightarrow> decision_status raw = ''settled'' \<and> decision_settled_by raw \<noteq> ''human''"

definition decision_is_local :: "jobj \<Rightarrow> bool" where
  "decision_is_local raw \<longleftrightarrow> decision_reach raw = ''local''"

definition decision_blocks_mandate :: "jobj \<Rightarrow> bool" where
  "decision_blocks_mandate raw \<longleftrightarrow>
     (if decision_reach raw \<noteq> ''mandate'' then False
      else decision_status raw = ''unknown'' \<or> decision_settled_by raw = ''loop'')"

definition decision_settled_without_asking :: "jobj \<Rightarrow> bool" where
  "decision_settled_without_asking raw \<longleftrightarrow>
     decision_reach raw = ''mandate'' \<and> decision_status raw = ''settled'' \<and> decision_settled_by raw \<noteq> ''human''"

text \<open>A decision record fails closed. The mandate's readiness refuses a decision that blocks it and
  one settled without asking; whatever its fields hold, a record passes both only when it says exactly
  that its reach is local, or exactly that it is settled and that a human settled it. A missing or
  unrecognised reach, status or settler always stops the gate.\<close>

theorem decision_fail_closed:
  "(\<not> decision_blocks_mandate raw \<and> \<not> decision_settled_without_asking raw) =
     (map_of raw ''reach'' = Some (JStr ''local'') \<or>
      map_of raw ''status'' = Some (JStr ''settled'') \<and> map_of raw ''settled_by'' = Some (JStr ''human''))"
  by (auto simp: decision_blocks_mandate_def decision_settled_without_asking_def decision_reach_def
      decision_status_def decision_settled_by_def str_field_eq Let_def split: option.splits json.splits if_splits)

text \<open>Neither test alone is enough: a settled record that names nobody does not block by itself.\<close>

lemma decision_nobody_settled:
  "decision_settled_without_asking [(''reach'', JStr ''mandate''), (''status'', JStr ''settled'')] \<and>
   \<not> decision_blocks_mandate [(''reach'', JStr ''mandate''), (''status'', JStr ''settled'')]"
  by (simp add: decision_settled_without_asking_def decision_blocks_mandate_def decision_reach_def
      decision_status_def decision_settled_by_def str_field_eq)

definition premise_observed_by :: "jobj \<Rightarrow> string" where
  "premise_observed_by raw = str_field raw ''observed_by'' ''''"

definition premise_probe :: "jobj \<Rightarrow> string list" where
  "premise_probe raw = ids_field raw ''probe''"

definition premise_fallback_criteria :: "jobj \<Rightarrow> jobj list" where
  "premise_fallback_criteria raw = objs_in (as_arr (jget (obj_field raw ''fallback'') ''criteria''))"

section \<open>The plan\<close>

text \<open>\<^verbatim>\<open>index[section]\<close>, \<^verbatim>\<open>_section\<close>, \<^verbatim>\<open>get\<close> and \<^verbatim>\<open>ids\<close> of a section of raw entries.\<close>

definition plan_index :: "jobj \<Rightarrow> string \<Rightarrow> (string \<times> jobj) list" where
  "plan_index raw sec = dict_of (map (\<lambda>e. (el_id e, e)) (maps_field raw sec))"

definition plan_section :: "jobj \<Rightarrow> string \<Rightarrow> jobj list" where
  "plan_section raw sec = map snd (plan_index raw sec)"

definition plan_claims :: "jobj \<Rightarrow> jobj list" where
  "plan_claims raw = plan_section raw ''claims''"

definition plan_issues :: "jobj \<Rightarrow> jobj list" where
  "plan_issues raw = plan_section raw ''issues''"

definition plan_decisions :: "jobj \<Rightarrow> jobj list" where
  "plan_decisions raw = plan_section raw ''decisions''"

definition plan_lenses :: "jobj \<Rightarrow> jobj list" where
  "plan_lenses raw = plan_section raw ''lenses''"

definition plan_premises :: "jobj \<Rightarrow> jobj list" where
  "plan_premises raw = plan_section raw ''premises''"

text \<open>\<^verbatim>\<open>members\<close>: the sub-issues of each issue; and the task a sub-issue entry becomes.\<close>

definition issue_members :: "jobj list \<Rightarrow> (string \<times> string list) list" where
  "issue_members issues = dict_of (map (\<lambda>i. (el_id i, sub_issue_ids i)) issues)"

definition lookup_list :: "('k \<times> 'v list) list \<Rightarrow> 'k \<Rightarrow> 'v list" where
  "lookup_list d k = (case map_of d k of Some vs \<Rightarrow> vs | None \<Rightarrow> [])"

definition issue_upstream :: "jobj list \<Rightarrow> jobj \<Rightarrow> string list" where
  "issue_upstream issues i = dedup (concat (map (lookup_list (issue_members issues)) (issue_blocked_by i)))"

definition task_of_entry :: "jobj list \<Rightarrow> jobj \<Rightarrow> jobj \<Rightarrow> ptask" where
  "task_of_entry issues i e =
     \<lparr>t_raw = e, t_issue = el_id i, t_kind = issue_kind i, t_upstream = issue_upstream issues i\<rparr>"

definition plan_task_index :: "jobj \<Rightarrow> (string \<times> ptask) list" where
  "plan_task_index raw =
     (let issues = plan_issues raw
      in dict_of (concat (map (\<lambda>i. map (\<lambda>e. (el_id e, task_of_entry issues i e)) (maps_field i ''sub_issues'')) issues)))"

definition plan_tasks :: "jobj \<Rightarrow> ptask list" where
  "plan_tasks raw = map snd (plan_task_index raw)"

definition plan_get :: "jobj \<Rightarrow> string \<Rightarrow> string \<Rightarrow> jobj option" where
  "plan_get raw sec eid = map_of (plan_index raw sec) eid"

definition plan_claim :: "jobj \<Rightarrow> string \<Rightarrow> jobj option" where
  "plan_claim raw cid = plan_get raw ''claims'' cid"

definition plan_issue :: "jobj \<Rightarrow> string \<Rightarrow> jobj option" where
  "plan_issue raw iid = plan_get raw ''issues'' iid"

definition plan_task :: "jobj \<Rightarrow> string \<Rightarrow> ptask option" where
  "plan_task raw tid = map_of (plan_task_index raw) tid"

definition plan_ids :: "jobj \<Rightarrow> string \<Rightarrow> string list" where
  "plan_ids raw sec = map fst (plan_index raw sec)"

definition plan_task_ids :: "jobj \<Rightarrow> string list" where
  "plan_task_ids raw = map fst (plan_task_index raw)"

definition plan_digest :: "(string \<Rightarrow> string) \<Rightarrow> jobj \<Rightarrow> digest_error + string" where
  "plan_digest sha raw = digest_of sha (JObj raw) volatile_timestamp_keys"

text \<open>The cycle's scope; the schema makes both fields lists.\<close>

definition plan_scope :: "jobj \<Rightarrow> string list \<times> string list" where
  "plan_scope raw = (let s = obj_field raw ''scope'' in (strs_in (as_arr (jget s ''include'')), strs_in (as_arr (jget s ''exclude''))))"

definition plan_cycle :: "jobj \<Rightarrow> jobj" where
  "plan_cycle raw = obj_field raw ''cycle''"

definition plan_cycle_id :: "jobj \<Rightarrow> string" where
  "plan_cycle_id raw = str_field (plan_cycle raw) ''id'' ''''"

definition plan_base_commit :: "jobj \<Rightarrow> string" where
  "plan_base_commit raw = str_field (plan_cycle raw) ''base_commit'' ''''"

text \<open>\<^verbatim>\<open>sorted\<close> of a set.\<close>

definition sorted_set :: "string list \<Rightarrow> string list" where
  "sorted_set xs = sort (dedup xs)"

lemma set_sorted_set [simp]: "set (sorted_set xs) = set xs"
  by (simp add: sorted_set_def)

lemma distinct_sorted_set [simp]: "distinct (sorted_set xs)"
  by (simp add: sorted_set_def)

lemma sorted_sorted_set [simp]: "sorted (sorted_set xs)"
  by (simp add: sorted_set_def)

lemma sorted_set_eq: "set xs = set ys \<Longrightarrow> sorted_set xs = sorted_set ys"
  by (rule sorted_distinct_set_unique) simp_all

definition plan_artifact_paths :: "jobj \<Rightarrow> string list" where
  "plan_artifact_paths raw = sorted_set (concat (map (\<lambda>t. concat (map (\<lambda>e.
     case evidence_of e of None \<Rightarrow> [] | Some ev \<Rightarrow> artifact_paths_of ev) (pt_acceptance t))) (plan_tasks raw)))"

definition crossing_task_ids :: "jobj \<Rightarrow> string list" where
  "crossing_task_ids raw = sorted_set (map pt_id (filter (\<lambda>t. pt_irreversible_surfaces t \<noteq> []) (plan_tasks raw)))"

text \<open>\<^verbatim>\<open>crossing_subject\<close>; \<^verbatim>\<open>KeyError\<close> for an unknown task.\<close>

definition crossing_subject :: "jobj \<Rightarrow> string \<Rightarrow> json option" where
  "crossing_subject raw tid =
     (case plan_task raw tid of
        None \<Rightarrow> None
      | Some t \<Rightarrow>
          let claims = dict_of (concat (map (\<lambda>c. case plan_claim raw c of None \<Rightarrow> [] | Some m \<Rightarrow> [(c, JObj m)]) (pt_claim_ids t)));
              own = filter (\<lambda>kv. fst kv \<notin> set task_order_keys) (t_raw t)
          in Some (JObj [(''task'', JObj own), (''claims'', JObj claims)]))"

section \<open>Facts of the index\<close>

lemma update_subset: "set (AList.update k v d) \<subseteq> insert (k, v) (set d)"
  by (induction d) auto

lemma fold_update_subset: "set (fold (\<lambda>(k, v). AList.update k v) ps d) \<subseteq> set d \<union> set ps"
proof (induction ps arbitrary: d)
  case (Cons p ps)
  obtain k v where p: "p = (k, v)" by (cases p)
  show ?case using Cons.IH [of "AList.update k v d"] update_subset [of k v d] p by auto
qed simp

lemma dict_of_subset: "set (dict_of ps) \<subseteq> set ps"
  using fold_update_subset [of ps "[]"] by (simp add: dict_of_def)

lemma map_id_dict_of:
  assumes "\<forall>(k, v) \<in> set ps. f v = k"
  shows "map f (map snd (dict_of ps)) = map fst (dict_of ps)"
proof -
  have "f v = k" if "(k, v) \<in> set (dict_of ps)" for k v
    using assms dict_of_subset [of ps] that by blast
  then show ?thesis by auto
qed

lemma plan_task_index_ids: "(k, t) \<in> set (plan_task_index raw) \<Longrightarrow> pt_id t = k"
  using dict_of_subset by (fastforce simp: plan_task_index_def Let_def pt_id_def task_of_entry_def)

lemma map_pt_id_plan_tasks: "map pt_id (plan_tasks raw) = plan_task_ids raw"
  unfolding plan_tasks_def plan_task_ids_def by (auto simp: plan_task_index_ids)

lemma distinct_plan_tasks: "distinct (map pt_id (plan_tasks raw))"
  unfolding map_pt_id_plan_tasks plan_task_ids_def plan_task_index_def by (simp add: dict_simps Let_def)

lemma plan_task_in: "plan_task raw tid = Some t \<longleftrightarrow> t \<in> set (plan_tasks raw) \<and> pt_id t = tid"
proof
  assume "plan_task raw tid = Some t"
  then have "(tid, t) \<in> set (plan_task_index raw)" by (simp add: plan_task_def map_of_SomeD)
  then show "t \<in> set (plan_tasks raw) \<and> pt_id t = tid"
    by (force simp: plan_tasks_def plan_task_index_ids)
next
  assume t: "t \<in> set (plan_tasks raw) \<and> pt_id t = tid"
  then obtain k where "(k, t) \<in> set (plan_task_index raw)" by (auto simp: plan_tasks_def)
  moreover from this have "k = tid" using plan_task_index_ids t by blast
  moreover have "distinct (map fst (plan_task_index raw))" by (simp add: plan_task_index_def Let_def dict_simps)
  ultimately show "plan_task raw tid = Some t" by (simp add: plan_task_def)
qed

definition reorder_task :: "json option \<Rightarrow> jobj \<Rightarrow> jobj" where
  "reorder_task edges raw = (case edges of None \<Rightarrow> jpop ''blocked_by'' raw | Some v \<Rightarrow> jset ''blocked_by'' v raw)"

lemma filter_update_key: "P k \<Longrightarrow> filter (\<lambda>kv. \<not> P (fst kv)) (AList.update k v d) = filter (\<lambda>kv. \<not> P (fst kv)) d"
  by (induction d) auto

lemma filter_delete_key: "P k \<Longrightarrow> filter (\<lambda>kv. \<not> P (fst kv)) (AList.delete k d) = filter (\<lambda>kv. \<not> P (fst kv)) d"
  by (induction d) (auto simp: AList.delete_eq)

text \<open>What a crossing approval binds is blind to the order of the work: changing, adding or removing
  the dependency edges of the crossing task leaves its subject, and so the digest of the approval,
  exactly where it was.\<close>

theorem crossing_subject_order_blind:
  assumes "plan_task raw tid = Some t" and "plan_task raw' tid = Some t'"
    and "t_raw t' = reorder_task edges (t_raw t)"
    and "plan_index raw' ''claims'' = plan_index raw ''claims''"
  shows "crossing_subject raw' tid = crossing_subject raw tid"
proof -
  have own: "filter (\<lambda>kv. fst kv \<notin> set task_order_keys) (t_raw t') = filter (\<lambda>kv. fst kv \<notin> set task_order_keys) (t_raw t)"
    using filter_update_key [of "\<lambda>k. k \<in> set task_order_keys" "''blocked_by''"]
      filter_delete_key [of "\<lambda>k. k \<in> set task_order_keys" "''blocked_by''"] assms(3)
    by (simp add: reorder_task_def task_order_keys_def split: option.splits)
  have "ids_field (t_raw t') ''claim_ids'' = ids_field (t_raw t) ''claim_ids''"
    using assms(3) by (auto simp: reorder_task_def ids_field_eq split: option.splits)
  with own assms(1,2,4) show ?thesis
    by (simp add: crossing_subject_def Let_def pt_claim_ids_def plan_claim_def plan_get_def)
qed

theorem crossing_subject_order_blind_witness:
  "\<exists>raw raw'. raw' \<noteq> raw \<and> plan_task raw ''T-001'' \<noteq> None \<and>
     crossing_subject raw' ''T-001'' = crossing_subject raw ''T-001''"
proof -
  let ?e = "[(''id'', JStr ''T-001''), (''blocked_by'', JArr [JStr ''T-002'']), (''title'', JStr ''x'')]"
  let ?e' = "[(''id'', JStr ''T-001''), (''title'', JStr ''x'')]"
  let ?raw = "\<lambda>e. [(''issues'', JArr [JObj [(''id'', JStr ''I-001''), (''sub_issues'', JArr [JObj e])]])]"
  have t: "plan_task (?raw ?e) ''T-001'' = Some \<lparr>t_raw = ?e, t_issue = ''I-001'', t_kind = ''parallel'', t_upstream = []\<rparr>"
    and t': "plan_task (?raw ?e') ''T-001'' = Some \<lparr>t_raw = ?e', t_issue = ''I-001'', t_kind = ''parallel'', t_upstream = []\<rparr>"
    by code_simp+
  have "crossing_subject (?raw ?e') ''T-001'' = crossing_subject (?raw ?e) ''T-001''"
    by (rule crossing_subject_order_blind [OF t t', of None])
      (simp_all add: reorder_task_def plan_index_def maps_field_eq)
  with t show ?thesis by (intro exI [of _ "?raw ?e"] exI [of _ "?raw ?e'"]) simp
qed

end
