(* ===== verification/StateDoc.thy ===== *)
theory StateDoc
  imports PlanDoc
begin

text \<open>
  \<^verbatim>\<open>models.State\<close>: the views over \<^verbatim>\<open>state.yaml\<close>, and above all the gates. What is upstream of what is a
  fan (the mandate, then the crossings beside each other, then acceptance); the laws that make a fan
  safe to approve and to withdraw in are stated once for any approval order, as a locale, and
  interpreted on the code's gates.
\<close>

section \<open>Approval orders\<close>

locale approval_order =
  fixes ok :: "'s \<Rightarrow> bool"
    and gates :: "'s \<Rightarrow> 'g list"
    and upstream :: "'s \<Rightarrow> 'g \<Rightarrow> 'g list"
    and approved :: "'s \<Rightarrow> 'g \<Rightarrow> bool"
    and rank :: "'g \<Rightarrow> nat"
    and put :: "'g \<Rightarrow> 'a \<Rightarrow> 's \<Rightarrow> 's"
    and yes :: "'a \<Rightarrow> bool"
  assumes upstream_gates: "g \<in> set (gates s) \<Longrightarrow> u \<in> set (upstream s g) \<Longrightarrow> u \<in> set (gates s)"
    and upstream_rank: "g \<in> set (gates s) \<Longrightarrow> u \<in> set (upstream s g) \<Longrightarrow> rank u < rank g"
    and upstream_trans: "g \<in> set (gates s) \<Longrightarrow> u \<in> set (upstream s g) \<Longrightarrow> v \<in> set (upstream s u) \<Longrightarrow>
      v \<in> set (upstream s g)"
    and ok_put: "ok s \<Longrightarrow> ok (put g a s)"
    and gates_put: "ok s \<Longrightarrow> g \<in> set (gates s) \<Longrightarrow> gates (put g a s) = gates s"
    and upstream_put: "ok s \<Longrightarrow> g \<in> set (gates s) \<Longrightarrow> upstream (put g a s) h = upstream s h"
    and approved_put: "ok s \<Longrightarrow> approved (put g a s) h = (if h = g then yes a else approved s h)"
begin

definition clear :: "'s \<Rightarrow> bool" where
  "clear s \<longleftrightarrow> (\<forall>g \<in> set (gates s). approved s g \<longrightarrow> (\<forall>u \<in> set (upstream s g). approved s u))"

text \<open>Somebody always has something to decide: a gate of least rank among the open ones.\<close>

lemma decidable_exists:
  assumes "h \<in> set (gates s)" "\<not> approved s h"
  shows "\<exists>g \<in> set (gates s). \<not> approved s g \<and> (\<forall>u \<in> set (upstream s g). approved s u)"
  using assms
proof (induction "rank h" arbitrary: h rule: less_induct)
  case less
  show ?case
  proof (cases "\<forall>u \<in> set (upstream s h). approved s u")
    case False
    then obtain u where u: "u \<in> set (upstream s h)" "\<not> approved s u" by blast
    show ?thesis
      by (rule less.hyps [OF upstream_rank [OF less.prems(1) u(1)] upstream_gates [OF less.prems(1) u(1)] u(2)])
  qed (use less.prems in blast)
qed

lemma approve_clear:
  assumes "ok s" "clear s" "g \<in> set (gates s)" "\<forall>u \<in> set (upstream s g). approved s u" "yes a"
  shows "clear (put g a s)"
  unfolding clear_def gates_put [OF assms(1,3)] upstream_put [OF assms(1,3)] approved_put [OF assms(1)]
proof (intro ballI impI)
  fix h u
  assume h: "h \<in> set (gates s)" "if h = g then yes a else approved s h" and u: "u \<in> set (upstream s h)"
  have "approved s u"
  proof (cases "h = g")
    case True
    with assms(4) u show ?thesis by blast
  next
    case False
    with h assms(2) u show ?thesis unfolding clear_def by simp
  qed
  with assms(5) show "if u = g then yes a else approved s u" by simp
qed

lemma fold_put:
  assumes "ok s" "set gs \<subseteq> set (gates s)"
  shows "ok (fold (\<lambda>g. put g a) gs s)"
    and "gates (fold (\<lambda>g. put g a) gs s) = gates s"
    and "upstream (fold (\<lambda>g. put g a) gs s) h = upstream s h"
    and "approved (fold (\<lambda>g. put g a) gs s) h = (if h \<in> set gs then yes a else approved s h)"
  using assms by (induction gs arbitrary: s) (simp_all add: ok_put gates_put upstream_put approved_put)

text \<open>Withdrawing a gate with everything approved that stands on it leaves nothing standing on air.\<close>

lemma withdraw_clear:
  assumes s: "ok s" "clear s" and no: "\<not> yes a" and t: "t \<in> set (gates s)"
    and gs: "set gs = {g \<in> set (gates s). (g = t \<or> t \<in> set (upstream s g)) \<and> approved s g}"
  shows "clear (fold (\<lambda>g. put g a) gs s)"
proof -
  have sub: "set gs \<subseteq> set (gates s)" using gs by auto
  have "approved s u \<and> u \<notin> set gs"
    if g: "g \<in> set (gates s)" "approved s g" "g \<notin> set gs" and u: "u \<in> set (upstream s g)" for g u
  proof
    show "approved s u" using s(2) g u unfolding clear_def by blast
    show "u \<notin> set gs"
    proof
      assume "u \<in> set gs"
      then have "u = t \<or> t \<in> set (upstream s u)" using gs by auto
      then have "t \<in> set (upstream s g)" using u upstream_trans [OF g(1) u] by blast
      with g have "g \<in> set gs" unfolding gs by blast
      with g(3) show False ..
    qed
  qed
  then show ?thesis
    unfolding clear_def fold_put [OF s(1) sub] using no by (metis (full_types))
qed

end

section \<open>Gates of a state\<close>

definition st_gates :: "jobj \<Rightarrow> (string \<times> jobj) list" where
  "st_gates raw = obj_items (obj_field raw ''gates'')"

text \<open>An unreadable gate, or an empty entry, reads as pending.\<close>

definition gate_status :: "jobj \<Rightarrow> string \<Rightarrow> string" where
  "gate_status raw gate = (case map_of (st_gates raw) gate of
      None \<Rightarrow> ''pending''
    | Some entry \<Rightarrow> str_field entry ''status'' ''pending'')"

definition gate_receipt :: "jobj \<Rightarrow> string \<Rightarrow> jobj option" where
  "gate_receipt raw gate = (case map_of (st_gates raw) gate of
      None \<Rightarrow> None
    | Some entry \<Rightarrow> (case jget entry ''receipt'' of JObj r \<Rightarrow> Some r | _ \<Rightarrow> None))"

definition gate_approved :: "jobj \<Rightarrow> string \<Rightarrow> bool" where
  "gate_approved raw gate \<longleftrightarrow> gate_status raw gate = ''approved''"

definition st_stage :: "jobj \<Rightarrow> string" where
  "st_stage raw =
     (if gate_status raw gate_last = ''approved'' then ''done''
      else if gate_status raw gate_first = ''approved'' then ''building'' else ''drafting'')"

definition crossing_gates :: "jobj \<Rightarrow> string list" where
  "crossing_gates raw = sort (filter (\<lambda>g. g \<notin> set gate_ends) (map fst (st_gates raw)))"

definition gate_ids :: "jobj \<Rightarrow> string list" where
  "gate_ids raw = gate_first # crossing_gates raw @ [gate_last]"

definition upstream_of :: "jobj \<Rightarrow> string \<Rightarrow> string list" where
  "upstream_of raw gate =
     (if gate = gate_first then []
      else if gate = gate_last then gate_first # crossing_gates raw
      else [gate_first])"

definition pending_upstream :: "jobj \<Rightarrow> string \<Rightarrow> string option" where
  "pending_upstream raw gate = find (\<lambda>u. gate_status raw u \<noteq> ''approved'') (upstream_of raw gate)"

definition approved_gates :: "jobj \<Rightarrow> string list" where
  "approved_gates raw = filter (gate_approved raw) (gate_ids raw)"

definition decidable_gates :: "jobj \<Rightarrow> string list" where
  "decidable_gates raw = filter (\<lambda>g. gate_status raw g \<noteq> ''approved'' \<and> pending_upstream raw g = None) (gate_ids raw)"

fun gate_chain_violations_from :: "jobj \<Rightarrow> string list \<Rightarrow> (string \<times> string) list" where
  "gate_chain_violations_from raw [] = []"
| "gate_chain_violations_from raw (gate # gs) =
     (if gate_status raw gate \<noteq> ''approved'' then gate_chain_violations_from raw gs
      else case pending_upstream raw gate of
        None \<Rightarrow> gate_chain_violations_from raw gs
      | Some p \<Rightarrow> (gate, p) # gate_chain_violations_from raw gs)"

definition gate_chain_violations :: "jobj \<Rightarrow> (string \<times> string) list" where
  "gate_chain_violations raw = gate_chain_violations_from raw (gate_ids raw)"

text \<open>\<^verbatim>\<open>gate_absence_reason\<close>: whether the gate is one of the cycle's, and if not which of the two refusals.\<close>

datatype gate_absence = UnknownGate string | NoSuchGate string

definition gate_absence_reason :: "jobj \<Rightarrow> string \<Rightarrow> gate_absence option" where
  "gate_absence_reason raw gate =
     (if gate \<in> set (gate_ids raw) then None
      else if \<not> gate_name_ok gate then Some (UnknownGate gate) else Some (NoSuchGate gate))"

text \<open>\<^verbatim>\<open>raw["gates"][gate] = entry\<close>, as approving and revising write it.\<close>

definition set_gate :: "string \<Rightarrow> jobj \<Rightarrow> jobj \<Rightarrow> jobj" where
  "set_gate gate entry raw = jset ''gates'' (JObj (jset gate (JObj entry) (obj_field raw ''gates''))) raw"

definition state_ok :: "jobj \<Rightarrow> bool" where
  "state_ok raw \<longleftrightarrow> distinct (map fst (obj_field raw ''gates''))"

definition gate_rank :: "string \<Rightarrow> nat" where
  "gate_rank g = (if g = gate_first then 0 else if g = gate_last then 2 else 1)"

lemma gate_ends_neq [simp]: "gate_first \<noteq> gate_last" "gate_last \<noteq> gate_first"
  by (simp_all add: gate_first_def gate_last_def)

lemma set_crossing_gates: "set (crossing_gates raw) = fst ` set (st_gates raw) - {gate_first, gate_last}"
  by (auto simp: crossing_gates_def gate_ends_def)

lemma set_gate_ids: "set (gate_ids raw) = insert gate_first (insert gate_last (fst ` set (st_gates raw)))"
  by (auto simp: gate_ids_def set_crossing_gates)

lemma st_gates_set_gate:
  "map_of (st_gates (set_gate g e raw)) h = (if h = g then Some e else map_of (st_gates raw) h)" if "state_ok raw"
  using that by (auto simp: st_gates_def set_gate_def obj_field_eq map_of_obj_items state_ok_def distinct_update
      split: option.splits json.splits)

lemma state_ok_set_gate: "state_ok raw \<Longrightarrow> state_ok (set_gate g e raw)"
  by (simp add: state_ok_def set_gate_def obj_field_eq distinct_update)

lemma st_gates_keys: "state_ok raw \<Longrightarrow> distinct (map fst (st_gates raw))"
  by (simp add: st_gates_def state_ok_def distinct_obj_items)

lemma crossing_gates_set_gate:
  assumes "state_ok raw" "g \<in> set (gate_ids raw)"
  shows "crossing_gates (set_gate g e raw) = crossing_gates raw"
proof -
  have d: "distinct (crossing_gates r)" if "state_ok r" for r
    using st_gates_keys [OF that] by (simp add: crossing_gates_def)
  have "fst ` set (st_gates (set_gate g e raw)) = insert g (fst ` set (st_gates raw))"
    using st_gates_set_gate [OF assms(1), of g e] by (force simp: dom_map_of_conv_image_fst [symmetric] dom_def)
  with assms(2) have "set (crossing_gates (set_gate g e raw)) = set (crossing_gates raw)"
    by (auto simp: set_crossing_gates set_gate_ids)
  then show ?thesis
    using d [OF assms(1)] d [OF state_ok_set_gate [OF assms(1)]]
    by (intro sorted_distinct_set_unique) (auto simp: crossing_gates_def)
qed

interpretation fan: approval_order state_ok gate_ids upstream_of gate_approved gate_rank set_gate
  "\<lambda>e. str_field e ''status'' ''pending'' = ''approved''"
proof unfold_locales
  show "g \<in> set (gate_ids s) \<Longrightarrow> u \<in> set (upstream_of s g) \<Longrightarrow> u \<in> set (gate_ids s)" for g s u
    by (auto simp: upstream_of_def set_gate_ids set_crossing_gates split: if_splits)
  show "g \<in> set (gate_ids s) \<Longrightarrow> u \<in> set (upstream_of s g) \<Longrightarrow> gate_rank u < gate_rank g" for g s u
    by (auto simp: upstream_of_def gate_rank_def set_crossing_gates split: if_splits)
  show "g \<in> set (gate_ids s) \<Longrightarrow> u \<in> set (upstream_of s g) \<Longrightarrow> v \<in> set (upstream_of s u) \<Longrightarrow>
      v \<in> set (upstream_of s g)" for g s u v
    by (auto simp: upstream_of_def set_crossing_gates split: if_splits)
  show "state_ok s \<Longrightarrow> state_ok (set_gate g a s)" for s g a
    by (rule state_ok_set_gate)
  show "state_ok s \<Longrightarrow> g \<in> set (gate_ids s) \<Longrightarrow> gate_ids (set_gate g a s) = gate_ids s" for s g a
    by (simp add: gate_ids_def [of "set_gate g a s"] gate_ids_def [of s] crossing_gates_set_gate)
  show "state_ok s \<Longrightarrow> g \<in> set (gate_ids s) \<Longrightarrow> upstream_of (set_gate g a s) h = upstream_of s h" for s g a h
    by (simp add: upstream_of_def crossing_gates_set_gate)
  show "state_ok s \<Longrightarrow> gate_approved (set_gate g a s) h =
      (if h = g then str_field a ''status'' ''pending'' = ''approved'' else gate_approved s h)" for s g a h
    by (simp add: gate_approved_def gate_status_def st_gates_set_gate)
qed

lemma pending_upstream_None: "pending_upstream raw g = None \<longleftrightarrow> (\<forall>u \<in> set (upstream_of raw g). gate_approved raw u)"
  by (auto simp: pending_upstream_def find_None_iff gate_approved_def)

lemma gate_chain_violations_clear: "gate_chain_violations raw = [] \<longleftrightarrow> fan.clear raw"
proof -
  have "gate_chain_violations_from raw gs = [] \<longleftrightarrow>
      (\<forall>g \<in> set gs. gate_approved raw g \<longrightarrow> pending_upstream raw g = None)" for gs
    by (induction gs) (auto simp: gate_approved_def split: option.splits)
  then show ?thesis
    by (simp add: gate_chain_violations_def fan.clear_def pending_upstream_None)
qed

text \<open>C33: No cycle is ever stuck on order alone: as long as one of the cycle's gates is not approved,
  some gate is open for a human to decide right now, and every gate listed as decidable is a pending
  gate of the cycle with everything upstream of it approved.\<close>

theorem decidable_gates_progress:
  "(decidable_gates raw = [] \<longleftrightarrow> approved_gates raw = gate_ids raw) \<and>
   filter (\<lambda>g. g \<in> set (gate_ids raw) \<and> \<not> gate_approved raw g \<and>
      filter (\<lambda>u. \<not> gate_approved raw u) (upstream_of raw g) = []) (decidable_gates raw) = decidable_gates raw"
proof
  have dec: "g \<in> set (decidable_gates raw) \<longleftrightarrow>
      g \<in> set (gate_ids raw) \<and> \<not> gate_approved raw g \<and> (\<forall>u \<in> set (upstream_of raw g). gate_approved raw u)" for g
    by (auto simp: decidable_gates_def pending_upstream_None gate_approved_def [symmetric])
  have "decidable_gates raw = [] \<longleftrightarrow> (\<forall>g \<in> set (gate_ids raw). gate_approved raw g)"
    using dec fan.decidable_exists [of _ raw] by (metis list.set_intros(1) list.exhaust set_empty emptyE)
  also have "\<dots> \<longleftrightarrow> approved_gates raw = gate_ids raw"
    by (auto simp: approved_gates_def filter_id_conv)
  finally show "decidable_gates raw = [] \<longleftrightarrow> approved_gates raw = gate_ids raw" .
  show "filter (\<lambda>g. g \<in> set (gate_ids raw) \<and> \<not> gate_approved raw g \<and>
      filter (\<lambda>u. \<not> gate_approved raw u) (upstream_of raw g) = []) (decidable_gates raw) = decidable_gates raw"
    by (auto simp: filter_id_conv dec filter_empty_conv)
qed

text \<open>Approving a decidable gate keeps the chain clear: when no approval stands on a pending gate and
  a gate a human could open is approved, still no approval stands on a pending gate, and the gate is
  approved.\<close>

theorem approve_decidable:
  assumes "state_ok raw" and "gate_chain_violations raw = []" and "gate \<in> set (decidable_gates raw)"
  shows "gate_chain_violations (set_gate gate ((''status'', JStr ''approved'') # rest) raw) = [] \<and>
    gate_approved (set_gate gate ((''status'', JStr ''approved'') # rest) raw) gate"
proof -
  have y: "str_field ((''status'', JStr ''approved'') # rest) ''status'' ''pending'' = ''approved''"
    by (simp add: str_field_eq)
  from assms(3) have "gate \<in> set (gate_ids raw)" "\<forall>u \<in> set (upstream_of raw gate). gate_approved raw u"
    by (auto simp: decidable_gates_def pending_upstream_None)
  with assms y fan.approve_clear [of raw gate] fan.approved_put [of raw gate] show ?thesis
    by (simp add: gate_chain_violations_clear)
qed

theorem approve_decidable_witness:
  "\<exists>raw. crossing_gates raw = [''T-004''] \<and> st_stage raw = ''building'' \<and>
     gate_chain_violations (set_gate ''T-004'' [(''status'', JStr ''approved'')] raw) = []"
proof -
  let ?raw = "[(''gates'', JObj [(''mandate'', JObj [(''status'', JStr ''approved'')]),
     (''T-004'', JObj [(''status'', JStr ''pending'')]), (''acceptance'', JObj [(''status'', JStr ''pending'')])])]"
  have "state_ok ?raw" "gate_chain_violations ?raw = []" "''T-004'' \<in> set (decidable_gates ?raw)"
    "crossing_gates ?raw = [''T-004'']" "st_stage ?raw = ''building''"
    by (code_simp, code_simp, code_simp, code_simp, code_simp)
  with approve_decidable [of ?raw "''T-004''" "[]"] show ?thesis by blast
qed

text \<open>The stage cannot disagree with the gates: when no approval stands on a pending gate, a cycle is
  done exactly when every one of its gates is approved, and it is drafting exactly when none is.\<close>

theorem stage_of_clear_gates:
  assumes "gate_chain_violations raw = []"
  shows "(st_stage raw = ''done'' \<longleftrightarrow> approved_gates raw = gate_ids raw) \<and>
    (st_stage raw = ''drafting'' \<longleftrightarrow> approved_gates raw = [])"
proof -
  from assms have c: "gate_approved raw g \<Longrightarrow> g \<in> set (gate_ids raw) \<Longrightarrow> u \<in> set (upstream_of raw g) \<Longrightarrow>
      gate_approved raw u" for g u
    by (auto simp: gate_chain_violations_clear fan.clear_def)
  have "gate_approved raw gate_last \<Longrightarrow> g \<in> set (gate_ids raw) \<Longrightarrow> gate_approved raw g" for g
    using c [of gate_last g] by (cases "g = gate_last") (auto simp: set_gate_ids upstream_of_def set_crossing_gates)
  moreover have "gate_approved raw g \<Longrightarrow> g \<in> set (gate_ids raw) \<Longrightarrow> gate_approved raw gate_first" for g
    using c [of g gate_first] by (cases "g = gate_first") (auto simp: upstream_of_def)
  moreover have "gate_first \<in> set (gate_ids raw)" "gate_last \<in> set (gate_ids raw)" by (simp_all add: set_gate_ids)
  ultimately show ?thesis
    by (auto simp: st_stage_def gate_approved_def [symmetric] approved_gates_def filter_id_conv filter_empty_conv)
qed

theorem stage_of_clear_gates_witness:
  "\<exists>raw. st_stage raw = ''done'' \<and> approved_gates raw = [''mandate'', ''acceptance'']"
proof -
  let ?raw = "[(''gates'', JObj [(''mandate'', JObj [(''status'', JStr ''approved'')]),
     (''acceptance'', JObj [(''status'', JStr ''approved'')])])]"
  have "gate_chain_violations ?raw = []" "st_stage ?raw = ''done''" "gate_ids ?raw = [''mandate'', ''acceptance'']"
    by (code_simp, code_simp, code_simp)
  with stage_of_clear_gates [of ?raw] show ?thesis by (intro exI [of _ ?raw]) simp
qed

section \<open>The rest of the state\<close>

definition st_project :: "jobj \<Rightarrow> string" where
  "st_project raw = str_field raw ''project'' ''''"

definition st_cycle_id :: "jobj \<Rightarrow> string" where
  "st_cycle_id raw = str_field raw ''cycle_id'' ''''"

definition st_plan_status :: "jobj \<Rightarrow> string" where
  "st_plan_status raw = str_field (obj_field raw ''plan'') ''status'' ''draft''"

definition st_plan_digest :: "jobj \<Rightarrow> string" where
  "st_plan_digest raw = str_field (obj_field raw ''plan'') ''digest'' ''''"

definition st_plan_config_digest :: "jobj \<Rightarrow> string" where
  "st_plan_config_digest raw = str_field (obj_field raw ''plan'') ''config_digest'' ''''"

definition st_plan_environment_digest :: "jobj \<Rightarrow> string" where
  "st_plan_environment_digest raw = str_field (obj_field raw ''plan'') ''environment_digest'' ''''"

definition str_items :: "jobj \<Rightarrow> (string \<times> string) list" where
  "str_items kvs = concat (map (\<lambda>kv. case snd kv of JStr s \<Rightarrow> [(fst kv, s)] | _ \<Rightarrow> []) kvs)"

definition frozen_sources :: "jobj \<Rightarrow> (string \<times> string) list" where
  "frozen_sources raw = str_items (obj_field (obj_field raw ''plan'') ''sources'')"

definition change_requests :: "jobj \<Rightarrow> jobj list" where
  "change_requests raw = objs_in (as_arr (jget raw ''change_requests''))"

definition change_requests_for :: "jobj \<Rightarrow> string \<Rightarrow> string list \<Rightarrow> jobj list" where
  "change_requests_for raw gate statuses =
     (let wanted = (if statuses \<noteq> [] then statuses else change_request_statuses)
      in filter (\<lambda>cr. jget cr ''gate'' = JStr gate \<and> (\<exists>w \<in> set wanted. jget cr ''status'' = JStr w)) (change_requests raw))"

definition st_baseline :: "jobj \<Rightarrow> jobj" where
  "st_baseline raw = obj_field raw ''baseline''"

definition baseline_red :: "jobj \<Rightarrow> (string \<times> string) list" where
  "baseline_red raw = dict_of (map (\<lambda>row. (str_get row ''name'' '''', str_get row ''failure'' ''''))
     (filter (\<lambda>row. truthy (jget row ''name'')) (objs_in (as_arr (jget (st_baseline raw) ''red_steps'')))))"

definition disputed_findings :: "jobj \<Rightarrow> (string \<times> jobj) list" where
  "disputed_findings raw = obj_items (obj_field raw ''disputed_findings'')"

definition scope_expansions :: "jobj \<Rightarrow> (string \<times> jobj) list" where
  "scope_expansions raw = filter (\<lambda>kv. \<exists>w \<in> set expansion_statuses. jget (snd kv) ''status'' = JStr w)
     (obj_items (obj_field raw ''scope_expansions''))"

definition st_tasks :: "jobj \<Rightarrow> (string \<times> jobj) list" where
  "st_tasks raw = obj_items (obj_field raw ''tasks'')"

definition task_status :: "jobj \<Rightarrow> (string \<times> string) list" where
  "task_status raw = map (\<lambda>kv. (fst kv, str_field (snd kv) ''status'' ''todo'')) (st_tasks raw)"

definition st_premises :: "jobj \<Rightarrow> (string \<times> jobj) list" where
  "st_premises raw = obj_items (obj_field raw ''premises'')"

definition task_ids_field :: "string \<Rightarrow> jobj \<Rightarrow> (string \<times> string list) list" where
  "task_ids_field k raw = filter (\<lambda>kv. snd kv \<noteq> []) (map (\<lambda>kv. (fst kv, ids_field (snd kv) k)) (st_tasks raw))"

definition task_after :: "jobj \<Rightarrow> (string \<times> string list) list" where
  "task_after raw = task_ids_field ''after'' raw"

definition task_scope_added :: "jobj \<Rightarrow> (string \<times> string list) list" where
  "task_scope_added raw = task_ids_field ''scope_added'' raw"

definition task_attempts_max :: "jobj \<Rightarrow> (string \<times> int) list" where
  "task_attempts_max raw = concat (map (\<lambda>kv. case as_pyint (jget (snd kv) ''attempts_max'') of
     Some n \<Rightarrow> [(fst kv, n)] | None \<Rightarrow> []) (st_tasks raw))"

definition task_unbundled :: "jobj \<Rightarrow> (string \<times> string) list" where
  "task_unbundled raw = filter (\<lambda>kv. snd kv \<noteq> []) (map (\<lambda>kv. (fst kv, str_field (snd kv) ''unbundled'' '''')) (st_tasks raw))"

definition st_deferred :: "jobj \<Rightarrow> (string \<times> jobj) list" where
  "st_deferred raw = obj_items (obj_field raw ''deferred'')"

definition recorded_acceptance :: "jobj \<Rightarrow> string \<Rightarrow> jobj list" where
  "recorded_acceptance raw tid = objs_in (as_arr (jget (obj_field (obj_field raw ''tasks'') tid) ''acceptance''))"

end
