(* ===== verification/Kahn.thy ===== *)
theory Kahn
  imports StateDoc
begin

text \<open>
  Kahn's algorithm as \<^verbatim>\<open>Graph._topo_order\<close> runs it (the ready list re-sorted after every extraction),
  over any ordered type of ids, with its correctness: what it extracts is in order, and it extracts
  everything exactly when the graph has no cycle. The locale holds what follows from such an order
  alone: induction along the dependencies, tables filled in order, longest chains.
\<close>

section \<open>The algorithm\<close>

definition decr :: "'a \<Rightarrow> ('a \<times> int) list \<Rightarrow> ('a \<times> int) list" where
  "decr c d = map (\<lambda>kn. if fst kn = c then (fst kn, snd kn - 1) else kn) d"

text \<open>The inner loop: one decrement per child, and the children that reach zero.\<close>

fun relax :: "'a list \<Rightarrow> ('a \<times> int) list \<Rightarrow> 'a list \<Rightarrow> ('a \<times> int) list \<times> 'a list" where
  "relax [] indeg newly = (indeg, newly)"
| "relax (c # cs) indeg newly =
     (let indeg' = decr c indeg
      in relax cs indeg' (if map_of indeg' c = Some 0 then newly @ [c] else newly))"

fun positive :: "('a \<times> int) list \<Rightarrow> nat" where
  "positive [] = 0"
| "positive (kn # d) = (if 0 < snd kn then 1 else 0) + positive d"

lemma positive_decr_le: "positive (decr c d) \<le> positive d"
  by (induction d) (auto simp: decr_def)

lemma positive_decr: "map_of (decr c d) c = Some 0 \<Longrightarrow> Suc (positive (decr c d)) \<le> positive d"
proof (induction d)
  case (Cons kn d)
  show ?case
  proof (cases "fst kn = c")
    case True
    with Cons.prems have "snd kn = 1" by (simp add: decr_def)
    with True show ?thesis using positive_decr_le [of c d] by (simp add: decr_def)
  next
    case False
    with Cons show ?thesis by (simp add: decr_def)
  qed
qed (simp add: decr_def)

lemma relax_measure: "relax cs indeg newly = (i, n) \<Longrightarrow> length n + positive i \<le> length newly + positive indeg"
proof (induction cs indeg newly rule: relax.induct)
  case (2 c cs indeg newly)
  show ?case
  proof (cases "map_of (decr c indeg) c = Some 0")
    case True
    with "2.IH" [OF refl] "2.prems" positive_decr [OF True] show ?thesis by (simp add: Let_def)
  next
    case False
    with "2.IH" [OF refl] "2.prems" positive_decr_le [of c indeg] show ?thesis by (simp add: Let_def)
  qed
qed simp

definition children_of :: "('a \<times> 'a list) list \<Rightarrow> 'a \<Rightarrow> 'a list" where
  "children_of dependents x = (case map_of dependents x of Some cs \<Rightarrow> cs | None \<Rightarrow> [])"

function kahn :: "('a::linorder \<times> 'a list) list \<Rightarrow> ('a \<times> int) list \<Rightarrow> 'a list \<Rightarrow> 'a list \<Rightarrow> 'a list" where
  "kahn dependents indeg [] order = order"
| "kahn dependents indeg (tid # ready) order =
     (case relax (children_of dependents tid) indeg [] of
        (indeg', newly) \<Rightarrow> kahn dependents indeg' (sort (ready @ newly)) (order @ [tid]))"
  by pat_completeness auto
termination
proof (relation "measure (\<lambda>(_, indeg, ready, _). length ready + positive indeg)", goal_cases)
  case (2 dependents indeg tid ready order indeg' newly)
  from relax_measure [OF 2 [symmetric]] show ?case by simp
qed simp

definition topological_order :: "('a::linorder \<times> 'a list) list \<Rightarrow> ('a \<times> 'a list) list \<Rightarrow> 'a list" where
  "topological_order blocked dependents =
     (let indeg = map (\<lambda>(k, ds). (k, int (length ds))) blocked
      in kahn dependents indeg (sort (map fst (filter (\<lambda>(k, n). n = 0) indeg))) [])"

section \<open>Its correctness\<close>

lemma map_of_decr: "map_of (decr c d) x = (if x = c then map_option (\<lambda>n. n - 1) (map_of d x) else map_of d x)"
  by (induction d) (auto simp: decr_def)

lemma keys_decr [simp]: "map fst (decr c d) = map fst d"
  by (auto simp: decr_def)

lemma relax_spec:
  assumes "relax cs indeg newly = (i', n')"
    and "\<forall>c \<in> set cs. \<exists>n. map_of indeg c = Some n \<and> int (count_list cs c) \<le> n"
  shows "map fst i' = map fst indeg \<and>
    (\<forall>x. map_of i' x = map_option (\<lambda>n. n - int (count_list cs x)) (map_of indeg x)) \<and>
    (\<exists>new. n' = newly @ new \<and> distinct new \<and>
      set new = {c \<in> set cs. map_of indeg c = Some (int (count_list cs c))})"
  using assms
proof (induction cs arbitrary: indeg newly)
  case (Cons c cs)
  let ?d = "decr c indeg"
  let ?hit = "map_of ?d c = Some 0"
  from Cons.prems(2) obtain n where n: "map_of indeg c = Some n" "int (Suc (count_list cs c)) \<le> n" by auto
  have pre: "\<forall>x \<in> set cs. \<exists>m. map_of ?d x = Some m \<and> int (count_list cs x) \<le> m"
  proof
    fix x assume "x \<in> set cs"
    with Cons.prems(2) obtain m where m: "map_of indeg x = Some m" "int (count_list (c # cs) x) \<le> m" by auto
    then show "\<exists>m. map_of ?d x = Some m \<and> int (count_list cs x) \<le> m" by (auto simp: map_of_decr)
  qed
  from Cons.prems(1) have "relax cs ?d (if ?hit then newly @ [c] else newly) = (i', n')" by (simp add: Let_def)
  from Cons.IH [OF this pre] obtain new where
    keys: "map fst i' = map fst indeg" and
    vals: "\<forall>x. map_of i' x = map_option (\<lambda>n. n - int (count_list cs x)) (map_of ?d x)" and
    new: "n' = (if ?hit then newly @ [c] else newly) @ new" "distinct new"
      "set new = {x \<in> set cs. map_of ?d x = Some (int (count_list cs x))}" by auto
  have hit: "?hit \<longleftrightarrow> n = 1" using n(1) by (simp add: map_of_decr)
  have "map_of i' x = map_option (\<lambda>n. n - int (count_list (c # cs) x)) (map_of indeg x)" for x
    using vals by (cases "map_of indeg x") (auto simp: map_of_decr)
  moreover have "\<exists>new. n' = newly @ new \<and> distinct new \<and>
      set new = {x \<in> set (c # cs). map_of indeg x = Some (int (count_list (c # cs) x))}"
  proof (cases "n = 1")
    case True
    with n(2) have zero: "count_list cs c = 0" by simp
    then have c: "c \<notin> set cs" by (simp add: count_list_0_iff)
    then have "c \<notin> set new" using new(3) by auto
    moreover have "set (c # new) = {x \<in> set (c # cs). map_of indeg x = Some (int (count_list (c # cs) x))}"
    proof (rule set_eqI)
      fix x
      show "x \<in> set (c # new) \<longleftrightarrow> x \<in> {x \<in> set (c # cs). map_of indeg x = Some (int (count_list (c # cs) x))}"
      proof (cases "x = c")
        case x: True
        show ?thesis unfolding x using n(1) True zero by simp
      next
        case False
        then show ?thesis using new(3) by (simp add: map_of_decr)
      qed
    qed
    ultimately show ?thesis using new(1,2) True hit by (intro exI [of _ "c # new"]) simp
  next
    case False
    have "set new = {x \<in> set (c # cs). map_of indeg x = Some (int (count_list (c # cs) x))}"
    proof (rule set_eqI)
      fix x
      show "x \<in> set new \<longleftrightarrow> x \<in> {x \<in> set (c # cs). map_of indeg x = Some (int (count_list (c # cs) x))}"
      proof (cases "x = c")
        case x: True
        have "c \<notin> set cs \<Longrightarrow> count_list cs c = 0" by (simp add: count_list_0_iff)
        then show ?thesis unfolding x new(3) using n(1) False by (cases "c \<in> set cs") (simp_all add: map_of_decr, linarith)
      next
        case False
        then show ?thesis unfolding new(3) by (simp add: map_of_decr)
      qed
    qed
    with new False hit show ?thesis by (intro exI [of _ new]) simp
  qed
  ultimately show ?case using keys by blast
qed (simp add: option.map_ident)

text \<open>What holds whenever the outer loop tests its condition.\<close>

definition kahn_inv :: "'a list \<Rightarrow> ('a \<Rightarrow> 'a list) \<Rightarrow> ('a \<times> int) list \<Rightarrow> 'a list \<Rightarrow> 'a list \<Rightarrow> bool" where
  "kahn_inv ids B indeg ready order \<longleftrightarrow>
     (\<forall>x \<in> set ids. map_of indeg x = Some (int (length (filter (\<lambda>d. d \<notin> set order) (B x))))) \<and>
     distinct order \<and> set order \<subseteq> set ids \<and> distinct ready \<and>
     set ready = {x \<in> set ids. x \<notin> set order \<and> set (B x) \<subseteq> set order} \<and>
     (\<forall>i < length order. set (B (order ! i)) \<subseteq> set (take i order))"

definition children_ok :: "'a list \<Rightarrow> ('a \<Rightarrow> 'a list) \<Rightarrow> ('a \<times> 'a list) list \<Rightarrow> bool" where
  "children_ok ids B dependents \<longleftrightarrow> (\<forall>x \<in> set ids. set (children_of dependents x) \<subseteq> set ids \<and>
     (\<forall>c \<in> set ids. count_list (children_of dependents x) c = count_list (B c) x))"

lemma filter_insert_count:
  "x \<notin> S \<Longrightarrow> length (filter (\<lambda>d. d \<notin> S) xs) = length (filter (\<lambda>d. d \<notin> insert x S) xs) + count_list xs x"
  by (induction xs) auto

lemma topological_prefix:
  assumes "\<forall>i < length order. set (B (order ! i)) \<subseteq> set (take i order)" and "c \<in> set order"
  shows "set (B c) \<subseteq> set order"
proof -
  from assms(2) obtain i where "i < length order" "order ! i = c" by (auto simp: in_set_conv_nth)
  with assms(1) set_take_subset [of i order] show ?thesis by blast
qed

lemma kahn_inv_step:
  assumes inv: "kahn_inv ids B indeg (x # r) order" and ch: "children_ok ids B dependents"
    and rel: "relax (children_of dependents x) indeg [] = (indeg', newly)"
  shows "kahn_inv ids B indeg' (r @ newly) (order @ [x])"
proof -
  let ?cs = "children_of dependents x"
  have deg: "map_of indeg y = Some (int (length (filter (\<lambda>d. d \<notin> set order) (B y))))" if "y \<in> set ids" for y
    using inv that by (simp add: kahn_inv_def)
  from inv have ready: "set (x # r) = {x \<in> set ids. x \<notin> set order \<and> set (B x) \<subseteq> set order}"
    and dis: "distinct order" "distinct (x # r)" and sub: "set order \<subseteq> set ids"
    and topo: "\<forall>i < length order. set (B (order ! i)) \<subseteq> set (take i order)"
    by (auto simp: kahn_inv_def)
  from ready have x: "x \<in> set ids" "x \<notin> set order" "set (B x) \<subseteq> set order" by auto
  from ch x(1) have cs: "set ?cs \<subseteq> set ids" "\<And>c. c \<in> set ids \<Longrightarrow> count_list ?cs c = count_list (B c) x"
    by (auto simp: children_ok_def)
  have split: "length (filter (\<lambda>d. d \<notin> set order) (B y)) =
      length (filter (\<lambda>d. d \<notin> insert x (set order)) (B y)) + count_list (B y) x" for y
    by (rule filter_insert_count [OF x(2)])
  have "\<forall>c \<in> set ?cs. \<exists>n. map_of indeg c = Some n \<and> int (count_list ?cs c) \<le> n"
  proof
    fix c assume c: "c \<in> set ?cs"
    then have "c \<in> set ids" using cs(1) by auto
    then show "\<exists>n. map_of indeg c = Some n \<and> int (count_list ?cs c) \<le> n"
      using deg [of c] cs(2) [of c] split [of c] by simp
  qed
  from relax_spec [OF rel this] have
    vals: "\<And>y. map_of indeg' y = map_option (\<lambda>n. n - int (count_list ?cs y)) (map_of indeg y)" and
    new: "distinct newly" "set newly = {c \<in> set ?cs. map_of indeg c = Some (int (count_list ?cs c))}" by auto
  have deg': "map_of indeg' y = Some (int (length (filter (\<lambda>d. d \<notin> set (order @ [x])) (B y))))"
    if "y \<in> set ids" for y
    using vals [of y] deg [OF that] cs(2) [OF that] split [of y] by simp
  have child: "c \<in> set ?cs \<longleftrightarrow> x \<in> set (B c)" if "c \<in> set ids" for c
    using cs(2) [OF that] count_list_0_iff [of ?cs c] count_list_0_iff [of "B c" x] by metis
  have newly: "set newly = {c \<in> set ids. x \<in> set (B c) \<and> set (B c) \<subseteq> insert x (set order)}"
  proof -
    have "(c \<in> set ?cs \<and> map_of indeg c = Some (int (count_list ?cs c))) \<longleftrightarrow>
        (c \<in> set ids \<and> x \<in> set (B c) \<and> set (B c) \<subseteq> insert x (set order))" for c
    proof (cases "c \<in> set ids")
      case True
      then show ?thesis
        using child [OF True] deg [OF True] cs(2) [OF True] split [of c]
        by (auto simp: filter_empty_conv subset_iff)
    qed (use cs(1) in auto)
    then show ?thesis using new(2) by auto
  qed
  have disj: "set newly \<inter> set (x # r) = {}"
    using newly ready x by auto
  have "c \<notin> set order" if "c \<in> set newly" for c
    using topological_prefix [OF topo, of c] that newly x(2) by auto
  moreover have "c \<noteq> x" if "c \<in> set newly" for c
    using that newly x(2,3) by auto
  ultimately have "set (r @ newly) = {y \<in> set ids. y \<notin> set (order @ [x]) \<and> set (B y) \<subseteq> set (order @ [x])}"
    using ready dis(2) newly by auto
  moreover have "distinct (r @ newly)"
    using dis(2) new(1) disj by auto
  moreover have "set (B ((order @ [x]) ! i)) \<subseteq> set (take i (order @ [x]))" if "i < length (order @ [x])" for i
    using topo x(3) that by (cases "i < length order") (auto simp: nth_append less_Suc_eq)
  ultimately show ?thesis
    unfolding kahn_inv_def using deg' dis(1) x sub by auto
qed

lemma kahn_inv_sort: "kahn_inv ids B indeg (sort r) order = kahn_inv ids B indeg r order"
  by (simp add: kahn_inv_def)

lemma kahn_correct:
  "kahn_inv ids B indeg ready order \<Longrightarrow> children_ok ids B dependents \<Longrightarrow>
   \<exists>indeg'. kahn_inv ids B indeg' [] (kahn dependents indeg ready order)"
proof (induction dependents indeg ready order rule: kahn.induct)
  case (2 dependents indeg tid ready order)
  obtain i' n' where rel: "relax (children_of dependents tid) indeg [] = (i', n')" by fastforce
  from kahn_inv_step [OF "2.prems" rel] have "kahn_inv ids B i' (sort (ready @ n')) (order @ [tid])"
    by (simp only: kahn_inv_sort)
  from "2.IH" [OF rel [symmetric] this "2.prems"(2)] rel show ?case by simp
qed auto

text \<open>A list in which every node comes after what it waits for.\<close>

definition topological :: "('a \<Rightarrow> 'a list) \<Rightarrow> 'a list \<Rightarrow> bool" where
  "topological B order \<longleftrightarrow> distinct order \<and> (\<forall>i < length order. set (B (order ! i)) \<subseteq> set (take i order))"

definition edges_of :: "'a list \<Rightarrow> ('a \<Rightarrow> 'a list) \<Rightarrow> ('a \<times> 'a) set" where
  "edges_of ids B = {(d, x). x \<in> set ids \<and> d \<in> set (B x)}"

lemma topological_acyclic:
  assumes "topological B order" "set order = set ids"
  shows "acyclic (edges_of ids B)"
proof -
  have "\<exists>i j. i < j \<and> j < length order \<and> order ! i = d \<and> order ! j = x" if "(d, x) \<in> (edges_of ids B)\<^sup>+" for d x
    using that
  proof (induction rule: trancl_induct)
    case (base y)
    then have "y \<in> set order" "d \<in> set (B y)" using assms(2) by (auto simp: edges_of_def)
    then obtain j where j: "j < length order" "order ! j = y" "d \<in> set (B y)"
      by (auto simp: in_set_conv_nth)
    with assms(1) have "d \<in> set (take j order)" by (auto simp: topological_def)
    then obtain i where "i < j" "order ! i = d" using j(1) by (auto simp: in_set_conv_nth)
    with j show ?case by blast
  next
    case (step y z)
    then have "z \<in> set order" "y \<in> set (B z)" using assms(2) by (auto simp: edges_of_def)
    then obtain k where k: "k < length order" "order ! k = z" "y \<in> set (B z)"
      by (auto simp: in_set_conv_nth)
    with assms(1) have "y \<in> set (take k order)" by (auto simp: topological_def)
    then obtain j' where j': "j' < k" "order ! j' = y" by (auto simp: in_set_conv_nth)
    from step.IH obtain i j where ij: "i < j" "j < length order" "order ! i = d" "order ! j = y" by blast
    have "j = j'"
      using assms(1) ij(2,4) j' k(1) by (auto simp: topological_def nth_eq_iff_index_eq)
    with ij j' k show ?case by (metis less_trans)
  qed
  then have "(x, x) \<notin> (edges_of ids B)\<^sup>+" for x
    using assms(1) by (fastforce simp: topological_def nth_eq_iff_index_eq)
  then show ?thesis by (simp add: acyclic_def)
qed

lemma kahn_complete:
  assumes inv: "kahn_inv ids B indeg [] order" and known: "\<forall>x \<in> set ids. set (B x) \<subseteq> set ids"
  shows "topological B order" and "set order \<subseteq> set ids"
    and "set order = set ids \<longleftrightarrow> acyclic (edges_of ids B)"
proof -
  show topo: "topological B order" and sub: "set order \<subseteq> set ids"
    using inv by (auto simp: kahn_inv_def topological_def)
  show "set order = set ids \<longleftrightarrow> acyclic (edges_of ids B)"
  proof
    assume "acyclic (edges_of ids B)"
    moreover have "edges_of ids B \<subseteq> set ids \<times> set ids"
      using known unfolding edges_of_def by blast
    then have "finite (edges_of ids B)" by (rule finite_subset) simp
    ultimately have wf: "wf (edges_of ids B)" by (simp add: finite_acyclic_wf)
    show "set order = set ids"
    proof (rule ccontr)
      assume "set order \<noteq> set ids"
      with sub obtain y where "y \<in> set ids - set order" by auto
      from wfE_min [OF wf this] obtain z where z: "z \<in> set ids - set order"
        and min: "\<And>y. (y, z) \<in> edges_of ids B \<Longrightarrow> y \<notin> set ids - set order" by blast
      have "set (B z) \<subseteq> set order"
        using z min known by (auto simp: edges_of_def)
      with z inv show False by (auto simp: kahn_inv_def)
    qed
  qed (use topological_acyclic topo in blast)
qed

lemma topological_order_correct:
  fixes blocked :: "('a::linorder \<times> 'a list) list"
  assumes dist: "distinct (map fst blocked)" and known: "\<forall>x \<in> fst ` set blocked. set (children_of blocked x) \<subseteq> fst ` set blocked"
    and ch: "children_ok (map fst blocked) (children_of blocked) dependents"
  shows "topological (children_of blocked) (topological_order blocked dependents)"
    and "set (topological_order blocked dependents) \<subseteq> fst ` set blocked"
    and "set (topological_order blocked dependents) = fst ` set blocked \<longleftrightarrow>
      acyclic (edges_of (map fst blocked) (children_of blocked))"
proof -
  let ?ids = "map fst blocked" and ?B = "children_of blocked"
  let ?indeg = "map (\<lambda>(k, ds). (k, int (length ds))) blocked"
  have B: "?B k = ds" if "(k, ds) \<in> set blocked" for k ds
    using dist that by (simp add: children_of_def)
  have deg: "map_of ?indeg x = Some (int (length (?B x)))" if "x \<in> set ?ids" for x
    using that by (induction blocked) (auto simp: children_of_def)
  have "set (map fst (filter (\<lambda>(k, n). n = 0) ?indeg)) = {x \<in> set ?ids. ?B x = []}"
    using B by (force simp: image_iff)
  moreover have "distinct (map fst (filter (\<lambda>(k, n). n = 0) ?indeg))"
    using dist by (simp add: filter_map distinct_map comp_def split_def inj_on_def)
  ultimately have "kahn_inv ?ids ?B ?indeg (map fst (filter (\<lambda>(k, n). n = 0) ?indeg)) []"
    using deg by (auto simp: kahn_inv_def)
  then have "kahn_inv ?ids ?B ?indeg (sort (map fst (filter (\<lambda>(k, n). n = 0) ?indeg))) []"
    by (simp only: kahn_inv_sort)
  from kahn_correct [OF this ch] obtain i' where
    inv: "kahn_inv ?ids ?B i' [] (topological_order blocked dependents)"
    by (auto simp: topological_order_def Let_def)
  have known': "\<forall>x \<in> set ?ids. set (?B x) \<subseteq> set ?ids" using known by simp
  show "topological ?B (topological_order blocked dependents)"
    and "set (topological_order blocked dependents) \<subseteq> fst ` set blocked"
    and "set (topological_order blocked dependents) = fst ` set blocked \<longleftrightarrow> acyclic (edges_of ?ids ?B)"
    using kahn_complete [OF inv known'] by simp_all
qed

section \<open>What an order gives\<close>

text \<open>Any structure with an order of its nodes in which each comes after what it waits for.\<close>

locale ordered_dag =
  fixes ok :: "'s \<Rightarrow> bool" and nodes :: "'s \<Rightarrow> 'a list" and deps :: "'s \<Rightarrow> 'a \<Rightarrow> 'a list"
    and order :: "'s \<Rightarrow> 'a list"
  assumes order_topological: "ok s \<Longrightarrow> topological (deps s) (order s)"
    and order_nodes: "ok s \<Longrightarrow> set (order s) = set (nodes s)"
begin

lemma distinct_order: "ok s \<Longrightarrow> distinct (order s)"
  using order_topological by (simp add: topological_def)

lemma deps_before:
  assumes "ok s" "order s = as @ x # bs"
  shows "set (deps s x) \<subseteq> set as"
proof -
  have i: "length as < length (order s)" using assms(2) by simp
  from order_topological [OF assms(1)] i
  have "set (deps s (order s ! length as)) \<subseteq> set (take (length as) (order s))"
    unfolding topological_def by blast
  then show ?thesis unfolding assms(2) by simp
qed

lemma deps_nodes: "ok s \<Longrightarrow> x \<in> set (nodes s) \<Longrightarrow> d \<in> set (deps s x) \<Longrightarrow> d \<in> set (nodes s)"
  using deps_before [of s] order_nodes [of s] split_list [of x "order s"] by fastforce

lemma dag_acyclic: "ok s \<Longrightarrow> acyclic (edges_of (nodes s) (deps s))"
  using topological_acyclic order_topological order_nodes by blast

text \<open>Induction along the order: what holds of a node once it holds of all it waits for, holds of all.\<close>

lemma dep_induct [consumes 2, case_names step]:
  assumes ok: "ok s" and x: "x \<in> set (nodes s)"
    and step: "\<And>x. x \<in> set (nodes s) \<Longrightarrow> (\<And>d. d \<in> set (deps s x) \<Longrightarrow> P d) \<Longrightarrow> P x"
  shows "P x"
proof -
  have "\<forall>y \<in> set as. P y" if "order s = as @ bs" for as bs
    using that
  proof (induction as arbitrary: bs rule: rev_induct)
    case (snoc y as)
    then have as: "\<forall>z \<in> set as. P z" by simp
    have eq: "order s = as @ y # bs" using snoc.prems by simp
    then have "y \<in> set (nodes s)" using order_nodes [OF ok] by (metis in_set_conv_decomp)
    then have "P y" using step as deps_before [OF ok eq] by blast
    with as show ?case by simp
  qed simp
  from this [of "order s" "[]"] x order_nodes [OF ok] show ?thesis by simp
qed

text \<open>A non-empty set of nodes has one that waits for none of the others: nothing deadlocks.\<close>

lemma minimal_node:
  assumes "ok s" "x \<in> S" "S \<subseteq> set (nodes s)"
  shows "\<exists>y \<in> S. set (deps s y) \<inter> S = {}"
proof (rule ccontr)
  assume no: "\<not> ?thesis"
  have "x \<notin> S" if "x \<in> set (nodes s)" for x
    using assms(1) that
  proof (rule dep_induct)
    fix x assume "x \<in> set (nodes s)" "\<And>d. d \<in> set (deps s x) \<Longrightarrow> d \<notin> S"
    with no show "x \<notin> S" by auto
  qed
  with assms show False by auto
qed

end

text \<open>A table filled along a list: each entry is computed from the entries before it.\<close>

definition tabulate :: "('a \<Rightarrow> ('a \<times> 'v) list \<Rightarrow> 'v) \<Rightarrow> 'a list \<Rightarrow> ('a \<times> 'v) list" where
  "tabulate F xs = foldl (\<lambda>d x. AList.update x (F x d) d) [] xs"

lemma tabulate_snoc: "tabulate F (xs @ [x]) = AList.update x (F x (tabulate F xs)) (tabulate F xs)"
  by (simp add: tabulate_def)

lemma tabulate_keys: "distinct xs \<Longrightarrow> map fst (tabulate F xs) = xs"
proof (induction xs rule: rev_induct)
  case (snoc x xs)
  then have keys: "map fst (tabulate F xs) = xs" by simp
  then have "x \<notin> fst ` set (tabulate F xs)" using snoc.prems by (metis distinct_append image_set
    list.set_intros(1) not_distinct_conv_prefix)
  then show ?case using keys by (simp add: tabulate_snoc update_fresh)
qed (simp add: tabulate_def)

lemma tabulate_prefix:
  "distinct (xs @ ys) \<Longrightarrow> x \<in> set xs \<Longrightarrow> map_of (tabulate F (xs @ ys)) x = map_of (tabulate F xs) x"
proof (induction ys rule: rev_induct)
  case (snoc y ys)
  then have "x \<noteq> y" by auto
  with snoc show ?case by (simp add: tabulate_snoc update_conv' flip: append_assoc)
qed simp

lemma tabulate_at:
  assumes "distinct (xs @ x # ys)"
  shows "map_of (tabulate F (xs @ x # ys)) x = Some (F x (tabulate F xs))"
proof -
  have "distinct ((xs @ [x]) @ ys)" using assms by simp
  from tabulate_prefix [OF this, of x F] show ?thesis by (simp add: tabulate_snoc update_conv')
qed

context ordered_dag
begin

text \<open>A table whose entries read only the entries of what a node waits for satisfies its own equation.\<close>

lemma tabulate_equation:
  assumes ok: "ok s" and x: "x \<in> set (nodes s)"
    and local: "\<And>d d'. (\<And>y. y \<in> set (deps s x) \<Longrightarrow> map_of d y = map_of d' y) \<Longrightarrow> F x d = F x d'"
  shows "map_of (tabulate F (order s)) x = Some (F x (tabulate F (order s)))"
proof -
  from x order_nodes [OF ok] obtain as bs where eq: "order s = as @ x # bs" by (metis split_list)
  have d: "distinct (as @ x # bs)" using distinct_order [OF ok] eq by simp
  have "F x (tabulate F as) = F x (tabulate F (order s))"
    by (rule local) (use deps_before [OF ok eq] tabulate_prefix [of as "x # bs" _ F] d eq in auto)
  with tabulate_at [OF d, of F] eq show ?thesis by simp
qed

end

end
