(* ===== verification/Dag.thy ===== *)
theory Dag
  imports Kahn
begin

text \<open>
  \<^verbatim>\<open>dag.py\<close>: the validated task graph. A graph is the list of its tasks in plan order; \<open>from_tasks\<close> is
  the constructor with its checks in the code's order, and everything derived from a graph (the
  topological order by Kahn's algorithm with a sorted ready list, frontier, layers, critical path,
  consumption order, closures, chains) is a function of it. The facts that only need an order
  in which every task comes after what it waits for are proved in a locale, which the accepted graphs
  interpret.
\<close>

section \<open>Tasks\<close>

record dtask =
  d_id :: string
  d_title :: string
  d_kind :: string
  d_blocked_by :: "string list"
  d_status :: string
  d_risk :: string
  d_claim_ids :: "string list"
  d_domains :: "string list"
  d_attempts :: int
  d_scope_include :: "string list"
  d_scope_exclude :: "string list"
  d_acceptance :: "jobj list"
  d_produced_by :: string
  d_requires :: "jobj list"
  d_assumes :: "string list"
  d_env :: "(string \<times> string) list"
  d_allow :: "string list"
  d_operate :: "jobj list"
  d_attempt_max :: int
  d_attempt_cost :: string
  d_issue_id :: string
  d_irreversible :: bool
  d_unbundled :: string
  d_members :: "string list"

text \<open>The dataclass defaults.\<close>

definition default_task :: "string \<Rightarrow> string \<Rightarrow> string \<Rightarrow> dtask" where
  "default_task tid title kind =
     \<lparr>d_id = tid, d_title = title, d_kind = kind, d_blocked_by = [], d_status = ''todo'', d_risk = ''low'',
      d_claim_ids = [], d_domains = [], d_attempts = 0, d_scope_include = [], d_scope_exclude = [],
      d_acceptance = [], d_produced_by = ''agent'', d_requires = [], d_assumes = [], d_env = [], d_allow = [],
      d_operate = [], d_attempt_max = 0, d_attempt_cost = '''', d_issue_id = '''', d_irreversible = False,
      d_unbundled = '''', d_members = []\<rparr>"

definition is_done :: "dtask \<Rightarrow> bool" where
  "is_done t \<longleftrightarrow> d_status t = ''done''"

type_synonym graph = "dtask list"

definition g_ids :: "graph \<Rightarrow> string list" where
  "g_ids g = map d_id g"

text \<open>\<^verbatim>\<open>self.get(task_id)\<close>.\<close>

definition g_get :: "graph \<Rightarrow> string \<Rightarrow> dtask option" where
  "g_get g tid = find (\<lambda>t. d_id t = tid) g"

definition g_deps :: "graph \<Rightarrow> string \<Rightarrow> string list" where
  "g_deps g tid = (case g_get g tid of Some t \<Rightarrow> d_blocked_by t | None \<Rightarrow> [])"

section \<open>The constructor\<close>

datatype dag_error =
    DuplicateTask string
  | InvalidKind string string
  | InvalidStatus string string
  | InvalidRisk string string
  | UnknownDependency string string
  | SelfDependency string
  | CyclicGraph
  | OrphanStatuses "string list"

fun check_fields :: "string list \<Rightarrow> dtask list \<Rightarrow> dag_error option" where
  "check_fields seen [] = None"
| "check_fields seen (t # ts) =
     (if d_id t \<in> set seen then Some (DuplicateTask (d_id t))
      else if d_kind t \<notin> set task_kind_order then Some (InvalidKind (d_id t) (d_kind t))
      else if d_status t \<notin> set task_status_order then Some (InvalidStatus (d_id t) (d_status t))
      else if d_risk t \<notin> set risk_order then Some (InvalidRisk (d_id t) (d_risk t))
      else check_fields (seen @ [d_id t]) ts)"

fun check_deps_of :: "string list \<Rightarrow> string \<Rightarrow> string list \<Rightarrow> dag_error option" where
  "check_deps_of ids tid [] = None"
| "check_deps_of ids tid (d # ds) =
     (if d \<notin> set ids then Some (UnknownDependency tid d)
      else if d = tid then Some (SelfDependency tid)
      else check_deps_of ids tid ds)"

fun check_deps :: "string list \<Rightarrow> dtask list \<Rightarrow> dag_error option" where
  "check_deps ids [] = None"
| "check_deps ids (t # ts) =
     (case check_deps_of ids (d_id t) (d_blocked_by t) of Some e \<Rightarrow> Some e | None \<Rightarrow> check_deps ids ts)"

text \<open>\<^verbatim>\<open>_dependents_map\<close>: under each id, the tasks waiting for it in plan order, once per mention.\<close>

definition children :: "graph \<Rightarrow> string \<Rightarrow> string list" where
  "children g tid = concat (map (\<lambda>u. map (\<lambda>_. d_id u) (filter (\<lambda>d. d = tid) (d_blocked_by u))) g)"

definition dependents_map :: "graph \<Rightarrow> (string \<times> string list) list" where
  "dependents_map g = map (\<lambda>t. (d_id t, children g (d_id t))) g"

definition blocked_map :: "graph \<Rightarrow> (string \<times> string list) list" where
  "blocked_map g = map (\<lambda>t. (d_id t, d_blocked_by t)) g"

definition topo_order :: "graph \<Rightarrow> string list" where
  "topo_order g = topological_order (blocked_map g) (dependents_map g)"

definition from_tasks :: "dtask list \<Rightarrow> dag_error + graph" where
  "from_tasks ts =
     (case check_fields [] ts of
        Some e \<Rightarrow> Inl e
      | None \<Rightarrow>
          (case check_deps (g_ids ts) ts of
             Some e \<Rightarrow> Inl e
           | None \<Rightarrow> if length (topo_order ts) \<noteq> length ts then Inl CyclicGraph else Inr ts))"

definition accepted :: "graph \<Rightarrow> bool" where
  "accepted g \<longleftrightarrow> from_tasks g = Inr g"

text \<open>What the constructor is to accept, without an algorithm.\<close>

definition valid_fields :: "dtask \<Rightarrow> bool" where
  "valid_fields t \<longleftrightarrow> d_kind t \<in> set task_kind_order \<and> d_status t \<in> set task_status_order \<and> d_risk t \<in> set risk_order"

definition waits_for :: "graph \<Rightarrow> (string \<times> string) set" where
  "waits_for g = {(d, d_id t) |d t. t \<in> set g \<and> d \<in> set (d_blocked_by t)}"

definition well_formed_dag :: "graph \<Rightarrow> bool" where
  "well_formed_dag g \<longleftrightarrow> distinct (g_ids g) \<and> (\<forall>t \<in> set g. valid_fields t) \<and>
     (\<forall>t \<in> set g. set (d_blocked_by t) \<subseteq> set (g_ids g)) \<and> acyclic (waits_for g)"

lemma check_fields_None:
  "check_fields seen ts = None \<longleftrightarrow> distinct (map d_id ts) \<and> set seen \<inter> set (map d_id ts) = {} \<and> (\<forall>t \<in> set ts. valid_fields t)"
  by (induction seen ts rule: check_fields.induct) (auto simp: valid_fields_def)

lemma check_deps_of_None: "check_deps_of ids tid ds = None \<longleftrightarrow> set ds \<subseteq> set ids \<and> tid \<notin> set ds"
  by (induction ds) auto

lemma check_deps_None:
  "check_deps ids ts = None \<longleftrightarrow> (\<forall>t \<in> set ts. set (d_blocked_by t) \<subseteq> set ids \<and> d_id t \<notin> set (d_blocked_by t))"
proof (induction ts)
  case (Cons t ts)
  then show ?case
    using check_deps_of_None [of ids "d_id t" "d_blocked_by t"]
    by (cases "check_deps_of ids (d_id t) (d_blocked_by t)") auto
qed simp

lemma g_get_map_of: "g_get g x = map_of (map (\<lambda>t. (d_id t, t)) g) x"
  by (induction g) (auto simp: g_get_def)

lemma g_deps_children: "children_of (blocked_map g) x = g_deps g x"
  by (induction g) (auto simp: children_of_def blocked_map_def g_deps_def g_get_def)

lemma g_get_in: "distinct (g_ids g) \<Longrightarrow> g_get g x = Some t \<longleftrightarrow> t \<in> set g \<and> d_id t = x"
  by (auto simp: g_get_map_of g_ids_def comp_def dest!: map_of_SomeD intro!: map_of_is_SomeI)

lemma g_get_Some: "g_get g x = Some t \<Longrightarrow> t \<in> set g \<and> d_id t = x"
  by (auto simp: g_get_def find_Some_iff)

lemma g_get_ids: "x \<in> set (g_ids g) \<Longrightarrow> \<exists>t. g_get g x = Some t"
  by (induction g) (auto simp: g_get_def g_ids_def)

lemma g_deps_task: "distinct (g_ids g) \<Longrightarrow> t \<in> set g \<Longrightarrow> g_deps g (d_id t) = d_blocked_by t"
  using g_get_in [of g "d_id t" t] by (simp add: g_deps_def)

lemma waits_for_edges: "distinct (g_ids g) \<Longrightarrow> waits_for g = edges_of (g_ids g) (g_deps g)"
  by (fastforce simp: waits_for_def edges_of_def g_ids_def g_deps_task [unfolded g_ids_def])

lemma children_subset: "set (children g x) \<subseteq> set (g_ids g)"
  by (auto simp: children_def g_ids_def)

lemma in_children: "c \<in> set (children g x) \<longleftrightarrow> (\<exists>u \<in> set g. d_id u = c \<and> x \<in> set (d_blocked_by u))"
  by (auto simp: children_def)

lemma count_const: "count_list (map (\<lambda>_. a) (filter (\<lambda>d. d = x) ds)) c = (if a = c then count_list ds x else 0)"
  by (induction ds) auto

lemma count_children:
  "distinct (g_ids g) \<Longrightarrow> c \<in> set (g_ids g) \<Longrightarrow> count_list (children g x) c = count_list (g_deps g c) x"
proof (induction g)
  case (Cons u g)
  have step: "children (u # g) x = map (\<lambda>_. d_id u) (filter (\<lambda>d. d = x) (d_blocked_by u)) @ children g x"
    by (simp add: children_def)
  show ?case
  proof (cases "d_id u = c")
    case True
    then have "c \<notin> set (children g x)" using Cons.prems(1) children_subset [of g x] by (auto simp: g_ids_def)
    then have "count_list (children g x) c = 0" by (simp add: count_list_0_iff)
    with True show ?thesis by (simp add: step count_const g_deps_def g_get_def)
  next
    case False
    with Cons have "count_list (children g x) c = count_list (g_deps g c) x" by (simp add: g_ids_def)
    with False show ?thesis by (simp add: step count_const g_deps_def g_get_def)
  qed
qed (simp add: g_ids_def)

lemma dependents_children: "x \<in> set (g_ids g) \<Longrightarrow> children_of (dependents_map g) x = children g x"
proof -
  have "x \<in> set (map d_id ts) \<Longrightarrow> map_of (map (\<lambda>t. (d_id t, children g (d_id t))) ts) x = Some (children g x)" for ts
    by (induction ts) auto
  from this [of g] show "x \<in> set (g_ids g) \<Longrightarrow> children_of (dependents_map g) x = children g x"
    by (simp add: children_of_def dependents_map_def g_ids_def)
qed

lemma keys_blocked_map [simp]: "map fst (blocked_map g) = g_ids g" "fst ` set (blocked_map g) = set (g_ids g)"
  by (force simp: blocked_map_def g_ids_def)+

lemma topo_order_correct:
  assumes "distinct (g_ids g)" and "\<forall>t \<in> set g. set (d_blocked_by t) \<subseteq> set (g_ids g)"
  shows "topological (g_deps g) (topo_order g)" and "set (topo_order g) \<subseteq> set (g_ids g)"
    and "set (topo_order g) = set (g_ids g) \<longleftrightarrow> acyclic (waits_for g)"
proof -
  have dm: "distinct (map fst (blocked_map g))" using assms(1) by simp
  have kn: "\<forall>x \<in> fst ` set (blocked_map g). set (children_of (blocked_map g) x) \<subseteq> fst ` set (blocked_map g)"
  proof
    fix x
    show "set (children_of (blocked_map g) x) \<subseteq> fst ` set (blocked_map g)"
    proof (cases "g_get g x")
      case (Some t)
      with assms(2) g_get_Some [OF Some] show ?thesis by (simp add: g_deps_children g_deps_def)
    qed (simp add: g_deps_children g_deps_def)
  qed
  have ch: "children_ok (map fst (blocked_map g)) (children_of (blocked_map g)) (dependents_map g)"
    using children_subset [of g] assms(1)
    by (auto simp: children_ok_def dependents_children count_children g_deps_children)
  note correct = topological_order_correct [OF dm kn ch]
  have eq: "children_of (blocked_map g) = g_deps g" by (rule ext) (rule g_deps_children)
  show "topological (g_deps g) (topo_order g)" and "set (topo_order g) \<subseteq> set (g_ids g)"
    and "set (topo_order g) = set (g_ids g) \<longleftrightarrow> acyclic (waits_for g)"
    using correct by (simp_all add: topo_order_def eq waits_for_edges [OF assms(1)])
qed

lemma from_tasks_iff: "from_tasks ts = Inr g \<longleftrightarrow> g = ts \<and> well_formed_dag ts"
proof (cases "check_fields [] ts = None \<and> check_deps (g_ids ts) ts = None")
  case True
  then have d: "distinct (g_ids ts)" and v: "\<forall>t \<in> set ts. valid_fields t"
    and k: "\<forall>t \<in> set ts. set (d_blocked_by t) \<subseteq> set (g_ids ts)"
    by (auto simp: check_fields_None check_deps_None g_ids_def)
  note topo = topo_order_correct [OF d k]
  have "length (topo_order ts) = length ts \<longleftrightarrow> set (topo_order ts) = set (g_ids ts)"
  proof
    assume "length (topo_order ts) = length ts"
    then have "card (set (topo_order ts)) = card (set (g_ids ts))"
      using topo(1) d distinct_card [of "topo_order ts"] distinct_card [of "g_ids ts"]
      by (simp add: topological_def g_ids_def del: set_map)
    then show "set (topo_order ts) = set (g_ids ts)" using topo(2) by (simp add: card_subset_eq)
  next
    assume "set (topo_order ts) = set (g_ids ts)"
    then show "length (topo_order ts) = length ts"
      using topo(1) d distinct_card [of "topo_order ts"] distinct_card [of "g_ids ts"]
      by (simp add: topological_def g_ids_def del: set_map)
  qed
  with True topo(3) d v k show ?thesis
    by (auto simp: from_tasks_def well_formed_dag_def)
next
  case False
  have self: "\<forall>t \<in> set ts. d_id t \<notin> set (d_blocked_by t)" if "acyclic (waits_for ts)"
    using that by (auto simp: acyclic_def waits_for_def)
  from False self show ?thesis
    by (auto simp: from_tasks_def well_formed_dag_def check_fields_None check_deps_None g_ids_def split: option.splits)
qed

text \<open>C11: The graph constructor is exact: it accepts a list of tasks precisely when the ids are unique,
  every kind, status and risk is in its vocabulary, every dependency names a task of the list, and the
  dependency relation has no cycle; and then the graph is that list.\<close>

theorem from_tasks_exact: "(from_tasks ts = Inr g) = (g = ts \<and> well_formed_dag ts)"
  by (rule from_tasks_iff)

lemma accepted_iff: "accepted g \<longleftrightarrow> well_formed_dag g"
  by (simp add: accepted_def from_tasks_iff)

lemma accepted_ids: "accepted g \<Longrightarrow> distinct (g_ids g)"
  by (simp add: accepted_iff well_formed_dag_def)

lemma accepted_known: "accepted g \<Longrightarrow> t \<in> set g \<Longrightarrow> set (d_blocked_by t) \<subseteq> set (g_ids g)"
  by (simp add: accepted_iff well_formed_dag_def)

interpretation dag: ordered_dag accepted g_ids g_deps topo_order
proof unfold_locales
  fix g assume "accepted g"
  then have wf: "well_formed_dag g" by (simp add: accepted_iff)
  show "topological (g_deps g) (topo_order g)"
    using wf topo_order_correct(1) by (simp add: well_formed_dag_def)
  show "set (topo_order g) = set (g_ids g)"
    using wf topo_order_correct(3) by (simp add: well_formed_dag_def)
qed

section \<open>Closures\<close>

text \<open>\<^verbatim>\<open>dependents_closure\<close>'s loop: the children not yet found are added and pushed (the stack's top is the
  list's head).\<close>

function ripple :: "(string \<times> string list) list \<Rightarrow> string list \<Rightarrow> string list \<Rightarrow> string list" where
  "ripple dependents [] result = result"
| "ripple dependents (current # stack) result =
     (let new = dedup (filter (\<lambda>c. c \<notin> set result) (children_of dependents current))
      in ripple dependents (rev new @ stack) (result @ new))"
  by pat_completeness auto
termination
proof (relation "measures [\<lambda>(b, st, r). card (\<Union> (set ` snd ` set b) - set r), \<lambda>(b, st, r). length st]", goal_cases)
  case (2 b cur st r new)
  let ?U = "\<Union> (set ` snd ` set b)"
  show ?case
  proof (cases "new = []")
    case False
    have "set new \<subseteq> ?U"
      using 2 by (auto simp: children_of_def split: option.splits dest!: map_of_SomeD)
    moreover have "set new \<inter> set r = {}" using 2 by auto
    ultimately have "?U - set (r @ new) \<subset> ?U - set r" using False by (cases new) auto
    then have "card (?U - set (r @ new)) < card (?U - set r)" by (rule psubset_card_mono [rotated]) auto
    then show ?thesis by simp
  qed simp
qed simp

definition dependents_closure :: "graph \<Rightarrow> string list \<Rightarrow> string list" where
  "dependents_closure g seeds =
     filter (\<lambda>x. x \<notin> set seeds) (ripple (dependents_map g) (rev (filter (\<lambda>s. s \<in> set (g_ids g)) seeds)) [])"

definition dependencies_closure :: "graph \<Rightarrow> string list \<Rightarrow> string list" where
  "dependencies_closure g seeds =
     worklist (blocked_map g) (rev (filter (\<lambda>s. s \<in> set (g_ids g)) seeds)) []"

lemma ripple_inv:
  assumes "set r \<subseteq> R" "set st \<subseteq> S \<union> R"
    and "\<And>t. t \<in> S \<union> R \<Longrightarrow> set (children_of b t) \<subseteq> R"
    and "\<And>t. t \<in> S \<union> set r \<Longrightarrow> t \<in> set st \<or> set (children_of b t) \<subseteq> set r"
  shows "set (ripple b st r) \<subseteq> R \<and> (\<forall>t \<in> S \<union> set (ripple b st r). set (children_of b t) \<subseteq> set (ripple b st r))"
  using assms
proof (induction b st r rule: ripple.induct)
  case (2 b cur st r)
  let ?new = "dedup (filter (\<lambda>c. c \<notin> set r) (children_of b cur))"
  have "set (children_of b cur) \<subseteq> R" using "2.prems"(2,3) by auto
  then have "set ?new \<subseteq> R" by auto
  then have "set (ripple b (rev ?new @ st) (r @ ?new)) \<subseteq> R \<and>
      (\<forall>t \<in> S \<union> set (ripple b (rev ?new @ st) (r @ ?new)).
        set (children_of b t) \<subseteq> set (ripple b (rev ?new @ st) (r @ ?new)))"
  proof (intro "2.IH" [OF refl])
    show "\<And>t. t \<in> S \<union> R \<Longrightarrow> set (children_of b t) \<subseteq> R" by (rule "2.prems"(3))
    fix t assume t: "t \<in> S \<union> set (r @ ?new)"
    show "t \<in> set (rev ?new @ st) \<or> set (children_of b t) \<subseteq> set (r @ ?new)"
    proof (cases "t = cur \<or> t \<in> set ?new")
      case False
      with t "2.prems"(4) [of t] show ?thesis by auto
    qed auto
  qed (use "2.prems" in auto)
  then show ?case by (simp add: Let_def)
qed auto

lemma ripple_reach: "set (ripple b st []) = {x. \<exists>s \<in> set st. (s, x) \<in> {(t, c). c \<in> set (children_of b t)}\<^sup>+}"
proof -
  let ?E = "{(t, c). c \<in> set (children_of b t)}"
  let ?R = "{x. \<exists>s \<in> set st. (s, x) \<in> ?E\<^sup>+}"
  have "set (children_of b t) \<subseteq> ?R" if "t \<in> set st \<union> ?R" for t
    using that by (auto intro: trancl_into_trancl)
  from ripple_inv [of "[]" ?R st "set st" b, OF _ _ this]
  have sub: "set (ripple b st []) \<subseteq> ?R"
    and cl: "\<And>t. t \<in> set st \<union> set (ripple b st []) \<Longrightarrow> set (children_of b t) \<subseteq> set (ripple b st [])" by auto
  have "x \<in> set (ripple b st [])" if "(s, x) \<in> ?E\<^sup>+" "s \<in> set st" for s x
    using that by (induction rule: trancl_induct) (use cl in blast)+
  with sub show ?thesis by auto
qed

lemma children_edges: "{(t, c). c \<in> set (children_of (dependents_map g) t)} = waits_for g" if "accepted g"
proof -
  have "c \<in> set (children_of (dependents_map g) t) \<longleftrightarrow> (t, c) \<in> waits_for g" for t c
  proof (cases "t \<in> set (g_ids g)")
    case True
    then show ?thesis by (auto simp: dependents_children in_children waits_for_def)
  next
    case False
    have "(t, c) \<notin> waits_for g" using accepted_known [OF that] False by (auto simp: waits_for_def)
    moreover have "map_of (dependents_map g) t = None"
      using False by (force simp: map_of_eq_None_iff dependents_map_def g_ids_def)
    ultimately show ?thesis by (simp add: children_of_def)
  qed
  then show ?thesis by auto
qed

lemma blocked_edges: "dict_edges (blocked_map g) = waits_for g" if "distinct (g_ids g)"
proof -
  have "distinct (map fst (blocked_map g))" using that by simp
  then show ?thesis
    by (auto simp: dict_edges_def waits_for_def blocked_map_def)
qed

lemma waits_for_ids:
  assumes "accepted g" "(a, b) \<in> (waits_for g)\<^sup>+"
  shows "a \<in> set (g_ids g) \<and> b \<in> set (g_ids g)"
proof -
  have "waits_for g \<subseteq> set (g_ids g) \<times> set (g_ids g)"
    using accepted_known [OF assms(1)] by (auto simp: waits_for_def g_ids_def)
  from trancl_subset_Sigma [OF this] assms(2) show ?thesis by auto
qed

lemma dependents_closure_set:
  "accepted g \<Longrightarrow> set (dependents_closure g seeds) = {x. \<exists>s \<in> set seeds. (s, x) \<in> (waits_for g)\<^sup>+} - set seeds"
  using waits_for_ids [of g] by (auto simp: dependents_closure_def ripple_reach children_edges)

text \<open>The ripple of a roll back is complete and no wider: over an accepted graph the dependents closure of
  the seeds is exactly the tasks that wait, directly or through others, for one of them, the seeds
  themselves left out; and the dependencies closure is exactly the seeds and everything they stand on.\<close>

theorem closures_exact:
  assumes "accepted g"
  shows "set (dependents_closure g seeds) = {x. \<exists>s \<in> set seeds. (s, x) \<in> (waits_for g)\<^sup>+} - set seeds \<and>
    set (dependencies_closure g seeds) = {x. \<exists>s \<in> set seeds \<inter> set (g_ids g). (x, s) \<in> (waits_for g)\<^sup>*}"
proof
  show "set (dependents_closure g seeds) = {x. \<exists>s \<in> set seeds. (s, x) \<in> (waits_for g)\<^sup>+} - set seeds"
    by (rule dependents_closure_set [OF assms])
  show "set (dependencies_closure g seeds) = {x. \<exists>s \<in> set seeds \<inter> set (g_ids g). (x, s) \<in> (waits_for g)\<^sup>*}"
    by (auto simp: dependencies_closure_def worklist_reach blocked_edges [OF accepted_ids [OF assms]])
qed

text \<open>A small graph used by the witnesses: a foundation, two tasks on it, and one that joins them.\<close>

definition diamond :: graph where
  "diamond = [(default_task ''T-001'' ''base'' ''foundation'')\<lparr>d_status := ''done''\<rparr>,
     (default_task ''T-002'' ''left'' ''parallel'')\<lparr>d_blocked_by := [''T-001'']\<rparr>,
     (default_task ''T-003'' ''right'' ''parallel'')\<lparr>d_blocked_by := [''T-001'']\<rparr>,
     (default_task ''T-004'' ''join'' ''integration'')\<lparr>d_blocked_by := [''T-002'', ''T-003'']\<rparr>]"

lemma diamond_accepted: "accepted diamond"
  unfolding accepted_def by code_simp

theorem closures_exact_witness:
  "set (dependents_closure diamond [''T-002'']) = {''T-004''} \<and>
   set (dependents_closure diamond [''T-002'']) = {x. \<exists>s \<in> {''T-002''}. (s, x) \<in> (waits_for diamond)\<^sup>+} - {''T-002''}"
proof -
  have "dependents_closure diamond [''T-002''] = [''T-004'']" by code_simp
  with closures_exact [OF diamond_accepted, of "[''T-002'']"] show ?thesis by simp
qed

end
