(* ===== verification/Schedule.thy ===== *)
theory Schedule
  imports Dag
begin

text \<open>
  What \<^verbatim>\<open>dag.Graph\<close> derives for the loop: the frontier and its consumption order, the structural layers,
  the critical path, the counts and the claims nobody answers for. Depths and lengths are tables filled
  along the topological order, as the code fills its dictionaries.
\<close>

section \<open>The frontier\<close>

definition dep_done :: "graph \<Rightarrow> string \<Rightarrow> bool" where
  "dep_done g d = (case g_get g d of Some u \<Rightarrow> is_done u | None \<Rightarrow> False)"

definition startable :: "graph \<Rightarrow> dtask \<Rightarrow> bool" where
  "startable g t \<longleftrightarrow> d_status t = ''todo'' \<and> (\<forall>d \<in> set (d_blocked_by t). dep_done g d)"

definition frontier :: "graph \<Rightarrow> dtask list" where
  "frontier g = sort_key d_id (filter (startable g) g)"

lemma set_frontier: "set (frontier g) = {t \<in> set g. startable g t}"
  by (simp add: frontier_def)

lemma dep_done_task: "accepted g \<Longrightarrow> u \<in> set g \<Longrightarrow> dep_done g (d_id u) = is_done u"
  using g_get_in [OF accepted_ids, of g "d_id u" u] by (simp add: dep_done_def)

lemma dep_done_known:
  assumes "accepted g" "t \<in> set g" "d \<in> set (d_blocked_by t)"
  shows "dep_done g d \<longleftrightarrow> (\<exists>v \<in> set g. d_id v = d \<and> d_status v = ''done'')"
proof -
  from accepted_known [OF assms(1,2)] assms(3) obtain u where u: "u \<in> set g" "d_id u = d" by (auto simp: g_ids_def)
  show ?thesis
  proof
    assume "dep_done g d"
    with u dep_done_task [OF assms(1)] show "\<exists>v \<in> set g. d_id v = d \<and> d_status v = ''done''" by (auto simp: is_done_def)
  next
    assume "\<exists>v \<in> set g. d_id v = d \<and> d_status v = ''done''"
    then show "dep_done g d" using dep_done_task [OF assms(1)] by (auto simp: is_done_def)
  qed
qed

lemma stuck_between:
  assumes "accepted g" and "t \<in> set g" and "d_status t = ''todo''" and "frontier g = []"
  shows "\<exists>u \<in> set g. d_status u \<in> {''in-progress'', ''blocked'', ''needs-revision'', ''awaiting-evidence''}"
proof -
  let ?S = "d_id ` {u \<in> set g. d_status u = ''todo''}"
  have "d_id t \<in> ?S" "?S \<subseteq> set (g_ids g)" using assms(2,3) by (auto simp: g_ids_def)
  from dag.minimal_node [OF assms(1) this] obtain v where v: "v \<in> set g" "d_status v = ''todo''"
    and no: "set (g_deps g (d_id v)) \<inter> ?S = {}" by auto
  from assms(4) v have "\<not> startable g v" using set_frontier [of g] by auto
  with v obtain d where d: "d \<in> set (d_blocked_by v)" "\<not> dep_done g d" by (auto simp: startable_def)
  with accepted_known [OF assms(1) v(1)] obtain u where u: "u \<in> set g" "d_id u = d" by (auto simp: g_ids_def)
  have "d_status u \<noteq> ''done''" using d u dep_done_task [OF assms(1) u(1)] by (simp add: is_done_def)
  moreover have "d_status u \<noteq> ''todo''"
  proof
    assume "d_status u = ''todo''"
    then have "d \<in> ?S" using u by auto
    with no d g_deps_task [OF accepted_ids [OF assms(1)] v(1)] show False by auto
  qed
  moreover have "d_status u \<in> set task_status_order"
    using assms(1) u(1) by (auto simp: accepted_iff well_formed_dag_def valid_fields_def)
  ultimately show ?thesis using u(1) by (auto simp: task_status_order_def)
qed

text \<open>C40: The frontier offers what can start, and never deadlocks: in an accepted graph it holds, in the order of their ids,
  exactly the tasks to do whose every blocker is a task of the graph that is done; and when it is empty while a task is still
  to do, some task is in a state between the two (in progress, blocked, in need of revision, or awaiting evidence).\<close>

theorem frontier_progress:
  assumes "accepted g"
  shows "set (frontier g) = {u \<in> set g. d_status u = ''todo'' \<and>
      (\<forall>d \<in> set (d_blocked_by u). \<exists>v \<in> set g. d_id v = d \<and> d_status v = ''done'')} \<and>
    sorted (map d_id (frontier g)) \<and>
    (frontier g = [] \<and> (\<exists>t \<in> set g. d_status t = ''todo'') \<longrightarrow>
       (\<exists>u \<in> set g. d_status u \<in> {''in-progress'', ''blocked'', ''needs-revision'', ''awaiting-evidence''}))"
proof (intro conjI impI)
  show "set (frontier g) = {u \<in> set g. d_status u = ''todo'' \<and>
      (\<forall>d \<in> set (d_blocked_by u). \<exists>v \<in> set g. d_id v = d \<and> d_status v = ''done'')}"
    using dep_done_known [OF assms] by (auto simp: set_frontier startable_def)
  show "sorted (map d_id (frontier g))" by (simp add: frontier_def)
  show "\<exists>u \<in> set g. d_status u \<in> {''in-progress'', ''blocked'', ''needs-revision'', ''awaiting-evidence''}"
    if "frontier g = [] \<and> (\<exists>t \<in> set g. d_status t = ''todo'')"
    using that stuck_between [OF assms] by blast
qed

definition stalled :: graph where
  "stalled = map (\<lambda>t. if d_id t = ''T-001'' then t\<lparr>d_status := ''blocked''\<rparr> else t) diamond"

theorem frontier_progress_witness:
  "\<exists>u \<in> set stalled. d_status u \<in> {''in-progress'', ''blocked'', ''needs-revision'', ''awaiting-evidence''}"
proof -
  have t: "(default_task ''T-002'' ''left'' ''parallel'')\<lparr>d_blocked_by := [''T-001'']\<rparr> \<in> set stalled"
    by (simp add: stalled_def diamond_def default_task_def)
  have a: "accepted stalled" unfolding accepted_def by code_simp
  moreover have "frontier stalled = []" by code_simp
  moreover have "d_status ((default_task ''T-002'' ''left'' ''parallel'')\<lparr>d_blocked_by := [''T-001'']\<rparr>) = ''todo''"
    by (simp add: default_task_def)
  ultimately show ?thesis
    using frontier_progress [OF a] t by blast
qed

section \<open>Layers\<close>

text \<open>\<^verbatim>\<open>max(xs, default=d)\<close>.\<close>

definition max_default :: "int \<Rightarrow> int list \<Rightarrow> int" where
  "max_default d xs = (case xs of [] \<Rightarrow> d | y # ys \<Rightarrow> fold max ys y)"

definition entry :: "('a \<times> int) list \<Rightarrow> 'a \<Rightarrow> int" where
  "entry d x = (case map_of d x of Some n \<Rightarrow> n | None \<Rightarrow> 0)"

definition depth_of :: "graph \<Rightarrow> string \<Rightarrow> (string \<times> int) list \<Rightarrow> int" where
  "depth_of g tid depth = 1 + max_default (- 1) (map (entry depth) (g_deps g tid))"

definition depth_table :: "graph \<Rightarrow> (string \<times> int) list" where
  "depth_table g = tabulate (depth_of g) (topo_order g)"

definition layers :: "graph \<Rightarrow> string list list" where
  "layers g =
     (let depth = depth_table g; max_depth = max_default (- 1) (map snd depth)
      in map (\<lambda>level. sort (map fst (filter (\<lambda>kd. snd kd = int level) depth))) [0..<nat (max_depth + 1)])"

lemma fold_max_int: "fold max xs (a::int) \<le> m \<longleftrightarrow> a \<le> m \<and> (\<forall>x \<in> set xs. x \<le> m)"
  by (induction xs arbitrary: a) auto

lemma fold_max_in: "fold max xs (a::int) \<in> insert a (set xs)"
proof (induction xs arbitrary: a)
  case (Cons x xs)
  from Cons.IH [of "max x a"] show ?case by (auto simp: max_def split: if_splits)
qed simp

lemma max_default_le: "x \<in> set xs \<Longrightarrow> x \<le> max_default d xs"
  using fold_max_int [of "tl xs" "hd xs" "max_default d xs"] by (cases xs) (auto simp: max_default_def)

lemma max_default_in: "xs \<noteq> [] \<Longrightarrow> max_default d xs \<in> set xs"
  using fold_max_in [of "tl xs" "hd xs"] by (cases xs) (auto simp: max_default_def)

lemma max_default_Nil [simp]: "max_default d [] = d"
  by (simp add: max_default_def)

lemma keys_table: "accepted g \<Longrightarrow> map fst (tabulate F (topo_order g)) = topo_order g"
  by (rule tabulate_keys [OF dag.distinct_order])

definition depth :: "graph \<Rightarrow> string \<Rightarrow> int" where
  "depth g x = entry (depth_table g) x"

lemma depth_equation:
  assumes "accepted g" "x \<in> set (g_ids g)"
  shows "map_of (depth_table g) x = Some (depth g x)"
    and "depth g x = 1 + max_default (- 1) (map (depth g) (g_deps g x))"
proof -
  have "map_of (depth_table g) x = Some (depth_of g x (depth_table g))"
    unfolding depth_table_def
    by (rule dag.tabulate_equation [OF assms])
      (simp add: depth_of_def entry_def cong: map_cong)
  then show "map_of (depth_table g) x = Some (depth g x)"
    and "depth g x = 1 + max_default (- 1) (map (depth g) (g_deps g x))"
    by (simp_all add: depth_def [abs_def] entry_def [of _ x] depth_of_def)
qed

lemma depth_nonneg:
  assumes g: "accepted g" and "x \<in> set (g_ids g)"
  shows "0 \<le> depth g x"
  using assms
proof (induction rule: dag.dep_induct [consumes 2, case_names step])
  case (step x)
  show ?case
  proof (cases "g_deps g x")
    case (Cons d ds)
    then have "0 \<le> depth g d" using step.IH by simp
    also have "depth g d \<le> max_default (- 1) (map (depth g) (g_deps g x))"
      by (rule max_default_le) (simp add: Cons)
    finally show ?thesis using depth_equation(2) [OF g step.hyps] by simp
  qed (use depth_equation(2) [OF g step.hyps] in simp)
qed

lemma depth_dep:
  assumes "accepted g" "x \<in> set (g_ids g)" "d \<in> set (g_deps g x)"
  shows "depth g d < depth g x"
  using depth_equation(2) [OF assms(1,2)] max_default_le [of "depth g d" "map (depth g) (g_deps g x)" "- 1"] assms(3)
  by simp

lemma depth_witness:
  assumes "accepted g" "x \<in> set (g_ids g)" "0 < depth g x"
  shows "\<exists>d \<in> set (g_deps g x). depth g d = depth g x - 1"
proof -
  have "g_deps g x \<noteq> []" using depth_equation(2) [OF assms(1,2)] assms(3) by auto
  then have "max_default (- 1) (map (depth g) (g_deps g x)) \<in> set (map (depth g) (g_deps g x))"
    by (intro max_default_in) simp
  then show ?thesis using depth_equation(2) [OF assms(1,2)] by auto
qed

lemma depth_below:
  assumes g: "accepted g" and "x \<in> set (g_ids g)" "0 \<le> n" "n \<le> depth g x"
  shows "\<exists>y \<in> set (g_ids g). depth g y = n"
  using assms
proof (induction rule: dag.dep_induct [consumes 2, case_names step])
  case (step x)
  show ?case
  proof (cases "n = depth g x")
    case False
    with step.prems obtain d where d: "d \<in> set (g_deps g x)" "depth g d = depth g x - 1"
      using depth_witness [OF g step.hyps] by auto
    with step.IH [OF d(1)] step.prems False show ?thesis by simp
  qed (use step.hyps in blast)
qed

text \<open>The layer table, seen through \<open>depth\<close>.\<close>

definition height :: "graph \<Rightarrow> int" where
  "height g = max_default (- 1) (map snd (depth_table g))"

lemma depth_table_items: "accepted g \<Longrightarrow> depth_table g = map (\<lambda>x. (x, depth g x)) (topo_order g)"
proof -
  assume g: "accepted g"
  have keys: "map fst (depth_table g) = topo_order g" by (simp add: depth_table_def keys_table [OF g])
  have "snd kd = depth g (fst kd)" if "kd \<in> set (depth_table g)" for kd
  proof -
    have "distinct (map fst (depth_table g))" by (simp only: keys dag.distinct_order [OF g])
    with that have "map_of (depth_table g) (fst kd) = Some (snd kd)" by (intro map_of_is_SomeI) simp_all
    then show ?thesis by (simp add: depth_def entry_def)
  qed
  then have "depth_table g = map (\<lambda>kd. (fst kd, depth g (fst kd))) (depth_table g)"
    by (intro map_idI [symmetric]) (simp add: prod_eq_iff)
  also have "\<dots> = map (\<lambda>x. (x, depth g x)) (topo_order g)"
    by (simp add: keys [symmetric] comp_def)
  finally show ?thesis .
qed

lemma height_ge: "accepted g \<Longrightarrow> x \<in> set (g_ids g) \<Longrightarrow> depth g x \<le> height g"
  unfolding height_def by (rule max_default_le) (auto simp: depth_table_items dag.order_nodes)

lemma height_in: "accepted g \<Longrightarrow> 0 \<le> height g \<Longrightarrow> \<exists>x \<in> set (g_ids g). depth g x = height g"
  using max_default_in [of "map snd (depth_table g)" "- 1"]
  by (cases "depth_table g = []") (auto simp: height_def depth_table_items dag.order_nodes)

lemma length_layers: "length (layers g) = nat (height g + 1)"
  by (simp add: layers_def height_def Let_def)

lemma layers_nth:
  "accepted g \<Longrightarrow> i < length (layers g) \<Longrightarrow> layers g ! i = sort (filter (\<lambda>x. depth g x = int i) (topo_order g))"
  by (simp add: layers_def Let_def depth_table_items filter_map comp_def)

lemma in_layer:
  "accepted g \<Longrightarrow> i < length (layers g) \<Longrightarrow> x \<in> set (layers g ! i) \<longleftrightarrow> x \<in> set (g_ids g) \<and> depth g x = int i"
  by (simp add: layers_nth dag.order_nodes)

lemma layer_of: "accepted g \<Longrightarrow> x \<in> set (g_ids g) \<Longrightarrow> nat (depth g x) < length (layers g) \<and> x \<in> set (layers g ! nat (depth g x))"
  using height_ge [of g x] depth_nonneg [of g x] by (simp add: in_layer length_layers)

lemma distinct_concat_layers: "accepted g \<Longrightarrow> distinct (concat (layers g))"
  unfolding distinct_concat_iff
proof (intro conjI allI impI ballI)
  assume g: "accepted g"
  show "distinct (removeAll [] (layers g))"
  proof -
    have "distinct (filter (\<lambda>l. l \<noteq> []) (map (\<lambda>i. layers g ! i) [0..<length (layers g)]))"
      unfolding filter_map comp_def distinct_map
    proof (intro conjI inj_onI)
      fix i j assume ij: "i \<in> set (filter (\<lambda>i. layers g ! i \<noteq> []) [0..<length (layers g)])"
        "j \<in> set (filter (\<lambda>i. layers g ! i \<noteq> []) [0..<length (layers g)])" "layers g ! i = layers g ! j"
      then have "set (layers g ! i) \<noteq> {}" by simp
      then obtain x where "x \<in> set (layers g ! i)" unfolding ex_in_conv [symmetric] ..
      then have x: "x \<in> set (layers g ! i)" "x \<in> set (layers g ! j)" by (simp_all only: ij(3))
      have "i < length (layers g)" "j < length (layers g)" using ij(1,2) by simp_all
      from in_layer [OF g this(1), of x] in_layer [OF g this(2), of x] x show "i = j" by simp
    qed simp
    then have "distinct (filter (\<lambda>l. l \<noteq> []) (layers g))" by (simp only: map_nth)
    then show ?thesis by (simp add: removeAll_filter_not_eq eq_commute [of "[]"])
  qed
  show "distinct l" if "l \<in> set (layers g)" for l
    using that dag.distinct_order [OF g] by (auto simp: in_set_conv_nth layers_nth [OF g])
  show "set l \<inter> set l' = {}" if "l \<in> set (layers g) \<and> l' \<in> set (layers g) \<and> l \<noteq> l'" for l l'
  proof -
    from that obtain i j where i: "i < length (layers g)" "layers g ! i = l"
      and j: "j < length (layers g)" "layers g ! j = l'" by (auto simp: in_set_conv_nth)
    have "i \<noteq> j" using i j that by auto
    then show ?thesis using in_layer [OF g i(1)] in_layer [OF g j(1)] i(2) j(2) by auto
  qed
qed

lemma layers_facts:
  assumes "accepted g"
  shows "mset (concat (layers g)) = mset (g_ids g)"
    and "[] \<notin> set (layers g)"
    and "\<And>i x d. i < length (layers g) \<Longrightarrow> x \<in> set (layers g ! i) \<Longrightarrow> d \<in> set (g_deps g x) \<Longrightarrow>
      \<exists>j < i. d \<in> set (layers g ! j)"
    and "\<And>i x. Suc i < length (layers g) \<Longrightarrow> x \<in> set (layers g ! Suc i) \<Longrightarrow>
      \<exists>d \<in> set (g_deps g x). d \<in> set (layers g ! i)"
proof -
  have "set (concat (layers g)) = set (g_ids g)"
    using layer_of [OF assms] in_layer [OF assms] by (fastforce simp: in_set_conv_nth [of _ "layers g"])
  then show "mset (concat (layers g)) = mset (g_ids g)"
    using distinct_concat_layers [OF assms] accepted_ids [OF assms] set_eq_iff_mset_eq_distinct by blast
  show "[] \<notin> set (layers g)"
  proof
    assume "[] \<in> set (layers g)"
    then obtain i where i: "i < length (layers g)" "layers g ! i = []" by (auto simp: in_set_conv_nth)
    then have "int i \<le> height g" by (simp add: length_layers)
    moreover from this obtain x where "x \<in> set (g_ids g)" "depth g x = height g"
      using height_in [OF assms] by fastforce
    ultimately obtain y where "y \<in> set (g_ids g)" "depth g y = int i"
      using depth_below [OF assms, of x "int i"] by auto
    with in_layer [OF assms i(1)] i(2) show False by auto
  qed
  show "\<exists>j < i. d \<in> set (layers g ! j)" if "i < length (layers g)" "x \<in> set (layers g ! i)" "d \<in> set (g_deps g x)" for i x d
  proof -
    from that in_layer [OF assms] have x: "x \<in> set (g_ids g)" "depth g x = int i" by auto
    then have d: "d \<in> set (g_ids g)" using dag.deps_nodes [OF assms] that(3) by blast
    from depth_dep [OF assms x(1) that(3)] depth_nonneg [OF assms d] x(2) layer_of [OF assms d]
    show ?thesis by (intro exI [of _ "nat (depth g d)"]) simp
  qed
  show "\<exists>d \<in> set (g_deps g x). d \<in> set (layers g ! i)" if "Suc i < length (layers g)" "x \<in> set (layers g ! Suc i)" for i x
  proof -
    from that in_layer [OF assms] have x: "x \<in> set (g_ids g)" "depth g x = int (Suc i)" by auto
    with depth_witness [OF assms x(1)] obtain d where d: "d \<in> set (g_deps g x)" "depth g d = int i" by auto
    with dag.deps_nodes [OF assms x(1)] layer_of [OF assms, of d] show ?thesis by auto
  qed
qed

text \<open>The layers are the structural execution levels: they hold every task exactly once, none is empty,
  everything a task waits for lies in a strictly earlier layer, and a task above the first layer waits
  for something in the layer right below it, so its level is the length of its longest chain.\<close>

theorem layers_spec:
  assumes "accepted g"
  shows "mset (concat (layers g)) = mset (g_ids g) \<and> [] \<notin> set (layers g) \<and>
    (\<forall>i < length (layers g). \<forall>x \<in> set (layers g ! i). \<forall>d \<in> set (g_deps g x). \<exists>j < i. d \<in> set (layers g ! j)) \<and>
    (\<forall>i. Suc i < length (layers g) \<longrightarrow>
      (\<forall>x \<in> set (layers g ! Suc i). \<exists>d \<in> set (g_deps g x). d \<in> set (layers g ! i)))"
  using layers_facts [OF assms] by blast

theorem layers_spec_witness:
  "layers diamond = [[''T-001''], [''T-002'', ''T-003''], [''T-004'']] \<and>
   mset (concat (layers diamond)) = mset (g_ids diamond)"
  proof
  show "layers diamond = [[''T-001''], [''T-002'', ''T-003''], [''T-004'']]" by code_simp
qed (use layers_spec [OF diamond_accepted] in blast)

section \<open>The critical path\<close>

definition path_len :: "(string \<times> int \<times> string option) list \<Rightarrow> string \<Rightarrow> int" where
  "path_len tab t = (case map_of tab t of Some (n, _) \<Rightarrow> n | None \<Rightarrow> 0)"

text \<open>The inner loop over a task's dependencies: the longest so far and where it came from.\<close>

fun best_pred :: "(string \<times> int \<times> string option) list \<Rightarrow> string list \<Rightarrow> int \<times> string option \<Rightarrow> int \<times> string option" where
  "best_pred tab [] best = best"
| "best_pred tab (dep # ds) best =
     (let n = path_len tab dep in best_pred tab ds (if n > fst best then (n, Some dep) else best))"

definition path_entry :: "graph \<Rightarrow> string \<Rightarrow> (string \<times> int \<times> string option) list \<Rightarrow> int \<times> string option" where
  "path_entry g tid tab = (let (n, p) = best_pred tab (sort (g_deps g tid)) (0, None) in (n + 1, p))"

definition path_table :: "graph \<Rightarrow> (string \<times> int \<times> string option) list" where
  "path_table g = tabulate (path_entry g) (topo_order g)"

text \<open>\<^verbatim>\<open>min(length, key=lambda t: (-length[t], t))\<close>.\<close>

fun min_by_key :: "('a \<Rightarrow> 'k::linorder) \<Rightarrow> 'a \<Rightarrow> 'a list \<Rightarrow> 'a" where
  "min_by_key f best [] = best"
| "min_by_key f best (x # xs) = min_by_key f (if f x < f best then x else best) xs"

text \<open>The walk back along the predecessors, with fuel for the nodes of the table: \<open>None\<close> is not ending.\<close>

fun walk_back :: "(string \<times> int \<times> string option) list \<Rightarrow> nat \<Rightarrow> string option \<Rightarrow> string list \<Rightarrow> string list option" where
  "walk_back tab fuel None acc = Some acc"
| "walk_back tab 0 (Some x) acc = None"
| "walk_back tab (Suc fuel) (Some x) acc =
     (case map_of tab x of
        None \<Rightarrow> None
      | Some (_, p) \<Rightarrow> walk_back tab fuel p (x # acc))"

definition critical_path :: "graph \<Rightarrow> string list option" where
  "critical_path g =
     (let tab = path_table g
      in case map fst tab of
          [] \<Rightarrow> Some []
        | x # xs \<Rightarrow> walk_back tab (length tab) (Some (min_by_key (\<lambda>t. (- path_len tab t, t)) x xs)) [])"

definition is_chain :: "graph \<Rightarrow> string list \<Rightarrow> bool" where
  "is_chain g q \<longleftrightarrow> set q \<subseteq> set (g_ids g) \<and> successively (\<lambda>x y. x \<in> set (g_deps g y)) q"

lemma best_pred_spec:
  "best_pred tab ds best = (n, p) \<Longrightarrow>
   fst best \<le> n \<and> (\<forall>d \<in> set ds. path_len tab d \<le> n) \<and> ((n, p) = best \<or> (\<exists>d \<in> set ds. p = Some d \<and> n = path_len tab d))"
proof (induction ds arbitrary: best)
  case (Cons d ds)
  let ?best = "if path_len tab d > fst best then (path_len tab d, Some d) else best"
  have "best_pred tab ds ?best = (n, p)" using Cons.prems by (simp only: best_pred.simps Let_def)
  from Cons.IH [OF this] show ?case by (auto split: if_splits)
qed simp

lemma min_by_key_spec:
  "min_by_key f best xs \<in> insert best (set xs) \<and> (\<forall>y \<in> insert best (set xs). f (min_by_key f best xs) \<le> f y)"
proof (induction xs arbitrary: best)
  case (Cons x xs)
  let ?b = "if f x < f best then x else best"
  have b: "f ?b \<le> f x" "f ?b \<le> f best" "?b \<in> {x, best}" by auto
  from Cons.IH [of ?b] b show ?case by (auto intro: order_trans simp del: min_by_key.simps simp: min_by_key.simps(2))
qed simp

definition plen :: "graph \<Rightarrow> string \<Rightarrow> int" where
  "plen g x = path_len (path_table g) x"

lemma path_entry_local:
  assumes "\<And>y. y \<in> set (g_deps g x) \<Longrightarrow> map_of d y = map_of d' y"
  shows "path_entry g x d = path_entry g x d'"
proof -
  have "best_pred d ds best = best_pred d' ds best" if "set ds \<subseteq> set (g_deps g x)" for ds best
    using that by (induction ds arbitrary: best) (simp_all add: assms path_len_def)
  from this [of "sort (g_deps g x)"] show ?thesis by (simp add: path_entry_def)
qed

lemma path_at:
  assumes g: "accepted g" and x: "x \<in> set (g_ids g)"
  shows "\<exists>p. map_of (path_table g) x = Some (plen g x, p) \<and> (\<forall>d \<in> set (g_deps g x). plen g d < plen g x) \<and>
    (case p of None \<Rightarrow> plen g x = 1 | Some d \<Rightarrow> d \<in> set (g_deps g x) \<and> plen g x = plen g d + 1)"
proof -
  obtain n p where np: "best_pred (path_table g) (sort (g_deps g x)) (0, None) = (n, p)" by fastforce
  have "map_of (path_table g) x = Some (path_entry g x (path_table g))"
    unfolding path_table_def by (rule dag.tabulate_equation [OF g x path_entry_local])
  then have m: "map_of (path_table g) x = Some (n + 1, p)" by (simp add: path_entry_def np)
  then have len: "plen g x = n + 1" by (simp add: plen_def path_len_def)
  from best_pred_spec [OF np] have "\<forall>d \<in> set (g_deps g x). plen g d \<le> n"
    and "p = None \<and> n = 0 \<or> (\<exists>d \<in> set (g_deps g x). p = Some d \<and> n = plen g d)"
    by (auto simp: plen_def)
  with m len show ?thesis by (auto split: option.splits)
qed

lemma plen_pos: "accepted g \<Longrightarrow> x \<in> set (g_ids g) \<Longrightarrow> 1 \<le> plen g x"
proof -
  assume g: "accepted g" and x: "x \<in> set (g_ids g)"
  show "1 \<le> plen g x"
    using g x
  proof (induction rule: dag.dep_induct [consumes 2, case_names step])
    case (step x)
    from path_at [OF g step.hyps] step.IH show ?case by (fastforce split: option.splits)
  qed
qed

lemma plen_chain:
  assumes g: "accepted g" and x: "x \<in> set (g_ids g)"
  shows "\<exists>q. is_chain g q \<and> q \<noteq> [] \<and> last q = x \<and> int (length q) = plen g x \<and>
    (\<forall>fuel acc. length q \<le> fuel \<longrightarrow> walk_back (path_table g) fuel (Some x) acc = Some (q @ acc))"
  using assms
proof (induction rule: dag.dep_induct [consumes 2, case_names step])
  case (step x)
  from path_at [OF g step.hyps] obtain p where p: "map_of (path_table g) x = Some (plen g x, p)"
    "case p of None \<Rightarrow> plen g x = 1 | Some d \<Rightarrow> d \<in> set (g_deps g x) \<and> plen g x = plen g d + 1" by blast
  show ?case
  proof (cases p)
    case None
    have "walk_back (path_table g) fuel (Some x) acc = Some ([x] @ acc)" if "length [x] \<le> fuel" for fuel acc
      using that p(1) None by (cases fuel) auto
    with None p step.hyps show ?thesis by (intro exI [of _ "[x]"]) (auto simp: is_chain_def)
  next
    case (Some d)
    with p have d: "d \<in> set (g_deps g x)" "plen g x = plen g d + 1" by auto
    from step.IH [OF d(1)] obtain q where q: "is_chain g q" "q \<noteq> []" "last q = d" "int (length q) = plen g d"
      "\<And>fuel acc. length q \<le> fuel \<Longrightarrow> walk_back (path_table g) fuel (Some d) acc = Some (q @ acc)" by blast
    have "walk_back (path_table g) fuel (Some x) acc = Some ((q @ [x]) @ acc)" if "length (q @ [x]) \<le> fuel" for fuel acc
      using that p(1) Some q(5) by (cases fuel) auto
    moreover have "is_chain g (q @ [x])"
      using q d step.hyps by (auto simp: is_chain_def successively_append_iff)
    ultimately show ?thesis using q(4) d(2) by (intro exI [of _ "q @ [x]"]) auto
  qed
qed

lemma chain_plen:
  assumes g: "accepted g"
  shows "is_chain g q \<Longrightarrow> q \<noteq> [] \<Longrightarrow> int (length q) \<le> plen g (last q) \<and> (\<forall>y \<in> set q. plen g y \<le> plen g (last q)) \<and> distinct q"
proof (induction q rule: rev_induct)
  case (snoc x q)
  then have x: "x \<in> set (g_ids g)" by (simp add: is_chain_def)
  show ?case
  proof (cases "q = []")
    case True
    then show ?thesis using plen_pos [OF g x] by simp
  next
    case False
    have c: "is_chain g q" "last q \<in> set (g_deps g x)"
      using snoc.prems False by (auto simp: is_chain_def successively_append_iff)
    from path_at [OF g x] c(2) have lt: "plen g (last q) < plen g x" by blast
    from snoc.IH [OF c(1) False] lt show ?thesis by fastforce
  qed
qed simp

text \<open>The critical path is the longest chain: the walk always ends, what it returns is a chain of the
  accepted graph (each task waits for the one before it), and no chain of dependencies is longer.\<close>

theorem critical_path_longest:
  assumes "accepted g"
  shows "\<exists>p. critical_path g = Some p \<and> is_chain g p \<and> (\<forall>q. is_chain g q \<longrightarrow> length q \<le> length p)"
proof -
  let ?tab = "path_table g"
  have keys: "map fst ?tab = topo_order g" by (simp add: path_table_def keys_table [OF assms])
  have ids: "set (topo_order g) = set (g_ids g)" by (rule dag.order_nodes [OF assms])
  show ?thesis
  proof (cases "topo_order g")
    case Nil
    then have "g_ids g = []" using ids by simp
    with Nil keys show ?thesis by (auto simp: critical_path_def Let_def is_chain_def)
  next
    case (Cons x xs)
    let ?e = "min_by_key (\<lambda>t. (- path_len ?tab t, t)) x xs"
    from min_by_key_spec [of "\<lambda>t. (- path_len ?tab t, t)" x xs] Cons ids
    have e: "?e \<in> set (g_ids g)" and best: "\<And>y. y \<in> set (g_ids g) \<Longrightarrow> plen g y \<le> plen g ?e"
      by (auto simp: plen_def less_eq_prod_def less_le)
    from plen_chain [OF assms e] obtain p where p: "is_chain g p" "p \<noteq> []" "last p = ?e" "int (length p) = plen g ?e"
      and walk: "\<And>fuel acc. length p \<le> fuel \<Longrightarrow> walk_back ?tab fuel (Some ?e) acc = Some (p @ acc)" by blast
    have "distinct p" using chain_plen [OF assms p(1,2)] by simp
    then have "length p \<le> card (set (g_ids g))"
      using p(1) card_mono [of "set (g_ids g)" "set p"] by (simp add: is_chain_def distinct_card)
    also have "\<dots> = length ?tab"
      using keys ids dag.distinct_order [OF assms] by (metis distinct_card length_map)
    finally have "critical_path g = Some p"
      using walk [of "length ?tab" "[]"] keys Cons by (simp add: critical_path_def Let_def)
    moreover have "length q \<le> length p" if "is_chain g q" for q
    proof (cases "q = []")
      case False
      then have "last q \<in> set (g_ids g)" using that last_in_set [of q] by (auto simp: is_chain_def)
      then show ?thesis using chain_plen [OF assms that False] best [of "last q"] p(4) by linarith
    qed simp
    ultimately show ?thesis using p(1) by blast
  qed
qed

theorem critical_path_longest_witness:
  "\<exists>p. critical_path diamond = Some p \<and> p = [''T-001'', ''T-002'', ''T-004''] \<and>
     (\<forall>q. is_chain diamond q \<longrightarrow> length q \<le> length p)"
proof -
  have "critical_path diamond = Some [''T-001'', ''T-002'', ''T-004'']" by code_simp
  with critical_path_longest [OF diamond_accepted] show ?thesis by auto
qed

section \<open>The order of consumption\<close>

definition fan_out :: "graph \<Rightarrow> (string \<times> nat) list" where
  "fan_out g = map (\<lambda>kc. (fst kc, length (snd kc))) (dependents_map g)"

definition fan_of :: "graph \<Rightarrow> string \<Rightarrow> nat" where
  "fan_of g tid = (case map_of (fan_out g) tid of Some n \<Rightarrow> n | None \<Rightarrow> 0)"

definition on_critical :: "graph \<Rightarrow> string \<Rightarrow> bool" where
  "on_critical g tid \<longleftrightarrow> (case critical_path g of Some p \<Rightarrow> tid \<in> set p | None \<Rightarrow> False)"

definition consumption_key :: "graph \<Rightarrow> dtask \<Rightarrow> int \<times> int \<times> int \<times> string" where
  "consumption_key g t =
     (if d_kind t = ''foundation'' then 0 else 1, - int (fan_of g (d_id t)),
      if on_critical g (d_id t) then 0 else 1, d_id t)"

definition order_frontier :: "graph \<Rightarrow> dtask list" where
  "order_frontier g = sort_key (consumption_key g) (frontier g)"

lemma sorted_first_filter: "sorted_wrt (\<lambda>t u. F t \<or> \<not> F u) xs \<Longrightarrow> dropWhile F xs = filter (\<lambda>t. \<not> F t) xs"
  by (induction xs) (auto simp: filter_id_conv)

text \<open>The consumption order is the frontier, in a total order the code fixes: a permutation of what is
  startable, every foundation before everything else, within those the task more others wait for first,
  then the critical path, and ties by id; so two runs over one graph schedule identically.\<close>

theorem order_frontier_spec:
  "mset (order_frontier g) = mset (filter (startable g) g) \<and>
   sorted_wrt (\<lambda>t u. consumption_key g t \<le> consumption_key g u) (order_frontier g) \<and>
   dropWhile (\<lambda>t. d_kind t = ''foundation'') (order_frontier g) = filter (\<lambda>t. d_kind t \<noteq> ''foundation'') (order_frontier g)"
proof -
  have s: "sorted_wrt (\<lambda>t u. consumption_key g t \<le> consumption_key g u) (order_frontier g)"
    using sorted_sort_key [of "consumption_key g" "frontier g"] by (simp add: order_frontier_def sorted_map)
  have "sorted_wrt (\<lambda>t u. d_kind t = ''foundation'' \<or> d_kind u \<noteq> ''foundation'') (order_frontier g)"
    by (rule sorted_wrt_mono_rel [OF _ s]) (auto simp: consumption_key_def split: if_splits)
  from sorted_first_filter [OF this]
  have d: "dropWhile (\<lambda>t. d_kind t = ''foundation'') (order_frontier g) = filter (\<lambda>t. d_kind t \<noteq> ''foundation'') (order_frontier g)" .
  have "mset (order_frontier g) = mset (filter (startable g) g)" by (simp add: order_frontier_def frontier_def)
  with s d show ?thesis by blast
qed

section \<open>Counts\<close>

definition counts :: "graph \<Rightarrow> (string \<times> nat) list" where
  "counts g = map (\<lambda>s. (s, length (filter (\<lambda>t. d_status t = s) g))) task_status_order"

definition claims_without_a_task :: "graph \<Rightarrow> jobj \<Rightarrow> string list" where
  "claims_without_a_task g plan =
     sort (map el_id (filter (\<lambda>c. \<not> (\<exists>t \<in> set g. el_id c \<in> set (d_claim_ids t))) (plan_claims plan)))"

text \<open>The counts lose nobody: over an accepted graph the numbers by status add up to the number of
  tasks.\<close>

theorem counts_total:
  assumes "accepted g"
  shows "sum_list (map snd (counts g)) = length g"
proof -
  have "\<forall>t \<in> set g. d_status t \<in> set task_status_order"
    using assms by (simp add: accepted_iff well_formed_dag_def valid_fields_def)
  then show ?thesis
    by (induction g) (auto simp: counts_def task_status_order_def)
qed

theorem counts_total_witness: "sum_list (map snd (counts diamond)) = 4"
  using counts_total [OF diamond_accepted] by (simp add: diamond_def)

end
