(* ===== verification/Bundle.thy ===== *)
theory Bundle
  imports Schedule
begin

text \<open>
  The rest of \<^verbatim>\<open>dag.py\<close>: joining the frozen plan with the mutable state into a graph, rolling sub-issue
  statuses up to their issue, and sharing one launch among the sub-issues of an issue (bundles).
\<close>

section \<open>Joining plan and state\<close>

text \<open>\<^verbatim>\<open>_assumed\<close>.\<close>

definition assumed :: "jobj list \<Rightarrow> string list" where
  "assumed acceptance = dedup (concat (map (\<lambda>e. map py_str (as_arr (jget e ''assumes''))) acceptance))"

definition falsified_premises :: "jobj \<Rightarrow> string list" where
  "falsified_premises st = map fst (filter (\<lambda>kv. jget (snd kv) ''status'' = JStr ''falsified'') (st_premises st))"

definition fallback_replacements :: "jobj \<Rightarrow> string list \<Rightarrow> ((string \<times> string) \<times> jobj) list" where
  "fallback_replacements plan falsified =
     dict_of (concat (map (\<lambda>p. if el_id p \<in> set falsified
       then map (\<lambda>c. ((str_get c ''task'' '''', str_get c ''id'' ''''), filter (\<lambda>kv. fst kv \<noteq> ''task'') c))
         (premise_fallback_criteria p)
       else []) (plan_premises plan)))"

definition effective_acceptance :: "((string \<times> string) \<times> jobj) list \<Rightarrow> string \<Rightarrow> jobj list \<Rightarrow> jobj list" where
  "effective_acceptance repl tid acceptance =
     map (\<lambda>e. case map_of repl (tid, str_get e ''id'' '''') of Some c \<Rightarrow> c | None \<Rightarrow> e) acceptance"

definition attempts_map :: "jobj \<Rightarrow> (string \<times> int) list" where
  "attempts_map st = concat (map (\<lambda>kv. case as_pyint (jget (snd kv) ''attempts'') of Some n \<Rightarrow> [(fst kv, n)] | None \<Rightarrow> [])
     (st_tasks st))"

definition or_else :: "('k \<times> 'v) list \<Rightarrow> 'k \<Rightarrow> 'v \<Rightarrow> 'v" where
  "or_else d k v = (case map_of d k of Some x \<Rightarrow> x | None \<Rightarrow> v)"

definition join_task :: "jobj \<Rightarrow> ((string \<times> string) \<times> jobj) list \<Rightarrow> ptask \<Rightarrow> dtask" where
  "join_task st repl t =
     (let tid = pt_id t; acc = effective_acceptance repl tid (pt_acceptance t)
      in \<lparr>d_id = tid, d_title = pt_title t, d_kind = t_kind t,
          d_blocked_by = dedup (pt_blocked_by t @ lookup_list (task_after st) tid),
          d_status = or_else (task_status st) tid ''todo'',
          d_risk = pt_risk t, d_claim_ids = pt_claim_ids t, d_domains = pt_domains t,
          d_attempts = or_else (attempts_map st) tid 0,
          d_scope_include = dedup (pt_scope_include t @ lookup_list (task_scope_added st) tid),
          d_scope_exclude = pt_scope_exclude t, d_acceptance = acc, d_produced_by = pt_produced_by t,
          d_requires = pt_requires t, d_assumes = assumed acc, d_env = pt_env t, d_allow = pt_allow t,
          d_operate = pt_operate t, d_attempt_max = or_else (task_attempts_max st) tid (pt_attempt_max t),
          d_attempt_cost = pt_attempt_cost t, d_issue_id = t_issue t,
          d_irreversible = (pt_irreversible_surfaces t \<noteq> []), d_unbundled = or_else (task_unbundled st) tid '''',
          d_members = []\<rparr>)"

text \<open>A missing state reads as the empty one: every map it feeds is then empty.\<close>

definition join_graph :: "jobj \<Rightarrow> jobj option \<Rightarrow> dag_error + graph" where
  "join_graph plan state =
     (let st = (case state of Some s \<Rightarrow> s | None \<Rightarrow> []);
          repl = fallback_replacements plan (falsified_premises st);
          orphans = sort (filter (\<lambda>tid. tid \<notin> set (plan_task_ids plan)) (map fst (task_status st)))
      in if orphans \<noteq> [] then Inl (OrphanStatuses orphans)
         else from_tasks (map (join_task st repl) (plan_tasks plan)))"

lemma join_task_fields:
  "d_id (join_task st repl t) = pt_id t"
  "set (d_blocked_by (join_task st repl t)) = set (pt_blocked_by t) \<union> set (lookup_list (task_after st) (pt_id t))"
  "set (d_scope_include (join_task st repl t)) = set (pt_scope_include t) \<union> set (lookup_list (task_scope_added st) (pt_id t))"
  by (simp_all add: join_task_def Let_def)

text \<open>A joined graph is the frozen plan with the state beside it: when the join succeeds it holds one
  task per sub-issue in plan order, accepted as a graph, no status in the state is left without a task,
  every task waits for what the plan says and for the order added after the mandate and for nothing
  else, and its status is the state's (to do when the state has none).\<close>

theorem join_graph_spec:
  assumes "join_graph plan (Some st) = Inr g"
  shows "accepted g \<and> g_ids g = plan_task_ids plan \<and> fst ` set (task_status st) \<subseteq> set (g_ids g) \<and>
    list_all2 (\<lambda>t u. set (d_blocked_by u) = set (pt_blocked_by t) \<union> set (lookup_list (task_after st) (pt_id t)) \<and>
      d_status u = or_else (task_status st) (pt_id t) ''todo'') (plan_tasks plan) g"
proof -
  let ?repl = "fallback_replacements plan (falsified_premises st)"
  have no: "filter (\<lambda>tid. tid \<notin> set (plan_task_ids plan)) (map fst (task_status st)) = []"
    and f: "from_tasks (map (join_task st ?repl) (plan_tasks plan)) = Inr g"
    using assms by (auto simp: join_graph_def Let_def split: if_splits)
      (metis set_empty set_sort)
  from f have g: "g = map (join_task st ?repl) (plan_tasks plan)" and a: "accepted g"
    by (auto simp: from_tasks_iff accepted_iff)
  have "g_ids g = plan_task_ids plan"
    unfolding g g_ids_def map_pt_id_plan_tasks [symmetric] by (simp add: join_task_fields)
  moreover have "list_all2 (\<lambda>t u. set (d_blocked_by u) = set (pt_blocked_by t) \<union> set (lookup_list (task_after st) (pt_id t)) \<and>
      d_status u = or_else (task_status st) (pt_id t) ''todo'') (plan_tasks plan) g"
    unfolding g by (simp add: list_all2_map2 list.rel_refl join_task_def Let_def)
  ultimately show ?thesis using a no by (auto simp: filter_empty_conv)
qed

definition small_plan :: jobj where
  "small_plan = [(''issues'', JArr [JObj [(''id'', JStr ''I-001''), (''kind'', JStr ''foundation''),
       (''sub_issues'', JArr [JObj [(''id'', JStr ''T-001'')], JObj [(''id'', JStr ''T-002'')]])],
     JObj [(''id'', JStr ''I-002''), (''blocked_by'', JArr [JStr ''I-001'']),
       (''sub_issues'', JArr [JObj [(''id'', JStr ''T-003'')]])]])]"

definition small_state :: jobj where
  "small_state = [(''tasks'', JObj [(''T-001'', JObj [(''status'', JStr ''done'')]),
     (''T-002'', JObj [(''after'', JArr [JStr ''T-001''])])])]"

lemma small_join: "\<exists>g. join_graph small_plan (Some small_state) = Inr g"
proof -
  have "\<not> isl (join_graph small_plan (Some small_state))" by code_simp
  then show ?thesis by (cases "join_graph small_plan (Some small_state)") auto
qed

theorem join_graph_spec_witness:
  "\<exists>g. join_graph small_plan (Some small_state) = Inr g \<and> accepted g \<and> g_ids g = [''T-001'', ''T-002'', ''T-003'']"
proof -
  obtain g where g: "join_graph small_plan (Some small_state) = Inr g" using small_join by blast
  moreover have "plan_task_ids small_plan = [''T-001'', ''T-002'', ''T-003'']" by code_simp
  ultimately show ?thesis using join_graph_spec [OF g] by auto
qed

section \<open>Issues\<close>

definition rollup_status :: "string list \<Rightarrow> string" where
  "rollup_status statuses =
     (if set statuses = {''done''} then ''done''
      else if set statuses \<subseteq> {''todo''} then ''todo''
      else case filter (\<lambda>w. w \<in> set statuses) [''blocked'', ''needs-revision'', ''awaiting-evidence''] of
          w # _ \<Rightarrow> w
        | [] \<Rightarrow> ''in-progress'')"

text \<open>An issue's status never hides work: it is done exactly when there are sub-issues and every one is
  done, to do exactly when none has left to-do, and when one is stuck the status says so (blocked before
  needs-revision before awaiting-evidence); it depends only on which statuses occur.\<close>

theorem rollup_status_spec:
  "(rollup_status ss = ''done'') = (ss \<noteq> [] \<and> filter (\<lambda>s. s \<noteq> ''done'') ss = []) \<and>
   (rollup_status ss = ''todo'') = (filter (\<lambda>s. s \<noteq> ''todo'') ss = []) \<and>
   (rollup_status ss = ''blocked'') = (''blocked'' \<in> set ss) \<and>
   (rollup_status ss = ''needs-revision'') = (''needs-revision'' \<in> set ss \<and> ''blocked'' \<notin> set ss) \<and>
   rollup_status ss \<in> set task_status_order \<and> rollup_status (remdups (rev ss)) = rollup_status ss"
proof -
  have d: "set ss = {''done''} \<longleftrightarrow> ss \<noteq> [] \<and> filter (\<lambda>s. s \<noteq> ''done'') ss = []"
    by (cases ss) (auto simp: filter_empty_conv)
  have t: "set ss \<subseteq> {''todo''} \<longleftrightarrow> filter (\<lambda>s. s \<noteq> ''todo'') ss = []"
    by (auto simp: filter_empty_conv)
  have "rollup_status (remdups (rev ss)) = rollup_status ss" by (simp add: rollup_status_def)
  then show ?thesis
    unfolding d [symmetric] t [symmetric] by (auto simp: rollup_status_def task_status_order_def)
qed

definition statuses_of_issue :: "graph \<Rightarrow> string \<Rightarrow> string list" where
  "statuses_of_issue g iid = map d_status (filter (\<lambda>t. d_issue_id t = iid) g)"

definition issue_graph :: "jobj \<Rightarrow> graph \<Rightarrow> dag_error + graph" where
  "issue_graph plan g = from_tasks (map (\<lambda>i. (default_task (el_id i) (str_field i ''title'' '''') (issue_kind i))
       \<lparr>d_blocked_by := issue_blocked_by i, d_status := rollup_status (statuses_of_issue g (el_id i))\<rparr>) (plan_issues plan))"

section \<open>Bundles\<close>

text \<open>Why a task has to be launched alone; \<open>None\<close> is the code's empty string.\<close>

datatype alone = PersonProduces | Crosses | Operates | HasPreconditions | WasSplit

definition bundleable :: "dtask \<Rightarrow> alone option" where
  "bundleable t =
     (if d_produced_by t \<noteq> ''agent'' then Some PersonProduces
      else if d_irreversible t \<or> d_attempt_max t \<noteq> 0 then Some Crosses
      else if d_operate t \<noteq> [] then Some Operates
      else if d_requires t \<noteq> [] then Some HasPreconditions
      else if d_unbundled t \<noteq> [] then Some WasSplit
      else None)"

lemma bundleable_None: "bundleable t = None \<longleftrightarrow> d_produced_by t = ''agent'' \<and> \<not> d_irreversible t \<and> d_attempt_max t = 0 \<and>
    d_operate t = [] \<and> d_requires t = [] \<and> d_unbundled t = []"
  by (simp add: bundleable_def)

definition may_follow :: "graph \<Rightarrow> dtask \<Rightarrow> string list \<Rightarrow> string list \<Rightarrow> dtask \<Rightarrow> bool" where
  "may_follow g leader taken ids t \<longleftrightarrow>
     \<not> (d_status t \<noteq> ''todo'' \<or> d_id t \<in> set taken \<or> bundleable t \<noteq> None \<or>
        (d_env t, d_allow t) \<noteq> (d_env leader, d_allow leader) \<or>
        \<not> (\<forall>dep \<in> set (d_blocked_by t). dep \<in> set ids \<or> dep_done g dep))"

fun take_members :: "graph \<Rightarrow> dtask \<Rightarrow> string list \<Rightarrow> dtask list \<Rightarrow> dtask list \<Rightarrow> dtask list" where
  "take_members g leader taken members [] = members"
| "take_members g leader taken members (t # ts) =
     (if is_done t then take_members g leader taken members ts
      else if \<not> may_follow g leader taken (map d_id members) t then members
      else take_members g leader taken (members @ [t]) ts)"

text \<open>\<^verbatim>\<open>siblings[siblings.index(leader) + 1 :]\<close>.\<close>

definition siblings_after :: "graph \<Rightarrow> dtask \<Rightarrow> dtask list" where
  "siblings_after g leader = tl (dropWhile (\<lambda>t. t \<noteq> leader) (filter (\<lambda>t. d_issue_id t = d_issue_id leader) g))"

definition bundle_members :: "graph \<Rightarrow> dtask \<Rightarrow> string list \<Rightarrow> dtask list" where
  "bundle_members g leader taken =
     (if bundleable leader \<noteq> None then [leader] else take_members g leader taken [leader] (siblings_after g leader))"

definition union_of :: "'a list list \<Rightarrow> 'a list" where
  "union_of values = dedup (concat values)"

definition member_sep :: string where
  "member_sep = ''/''"

definition member_criterion :: "string \<Rightarrow> jobj \<Rightarrow> jobj" where
  "member_criterion m e = jset ''id'' (JStr (m @ member_sep @ str_get e ''id'' ''?'')) e"

definition outside :: "string \<Rightarrow> dtask \<Rightarrow> bool" where
  "outside path m \<longleftrightarrow> outside_scope [path] (d_scope_include m) (d_scope_exclude m) \<noteq> []"

definition merged :: "dtask list \<Rightarrow> dtask option" where
  "merged members =
     (case members of
        [] \<Rightarrow> None
      | leader # _ \<Rightarrow>
          let ids = map d_id members;
              include = (if \<exists>m \<in> set members. d_scope_include m = [] then [] else union_of (map d_scope_include members));
              exclude = filter (\<lambda>p. \<forall>m \<in> set members. outside p m) (union_of (map d_scope_exclude members))
          in map_option (\<lambda>risk. leader\<lparr>
               d_title := d_issue_id leader @ '': '' @ join '', '' ids,
               d_blocked_by := filter (\<lambda>d. d \<notin> set ids) (union_of (map d_blocked_by members)),
               d_risk := risk,
               d_claim_ids := union_of (map d_claim_ids members),
               d_domains := union_of (map d_domains members),
               d_scope_include := include,
               d_scope_exclude := exclude,
               d_acceptance := concat (map (\<lambda>m. map (member_criterion (d_id m)) (d_acceptance m)) members),
               d_assumes := union_of (map d_assumes members),
               d_members := ids\<rparr>) (max_risk (map d_risk members)))"

definition bundle_of :: "graph \<Rightarrow> dtask \<Rightarrow> string list \<Rightarrow> dtask option" where
  "bundle_of g leader taken =
     (let members = bundle_members g leader taken in if length members = 1 then Some leader else merged members)"

definition of_member :: "jobj list \<Rightarrow> string \<Rightarrow> jobj list" where
  "of_member entries m =
     (let pre = m @ member_sep
      in map (\<lambda>e. jset ''id'' (JStr (drop (length pre) (str_get e ''id'' ''''))) e)
           (filter (\<lambda>e. prefix pre (str_get e ''id'' '''')) entries))"

section \<open>What a bundle may carry\<close>

text \<open>Each member after the lead stands only on done work and on members before it.\<close>

definition carries_in_order :: "graph \<Rightarrow> dtask list \<Rightarrow> bool" where
  "carries_in_order g ms \<longleftrightarrow>
     (\<forall>i < length ms. \<forall>d \<in> set (d_blocked_by (ms ! i)). dep_done g d \<or> d \<in> set (map d_id (take i ms)))"

lemma take_members_inv:
  assumes "carries_in_order g members"
    and "\<forall>m \<in> set members. d_status m = ''todo'' \<and> bundleable m = None \<and> (d_env m, d_allow m) = (d_env leader, d_allow leader)"
  shows "carries_in_order g (take_members g leader taken members ts) \<and>
    (\<forall>m \<in> set (take_members g leader taken members ts). d_status m = ''todo'' \<and> bundleable m = None \<and>
       (d_env m, d_allow m) = (d_env leader, d_allow leader)) \<and>
    (\<exists>more. take_members g leader taken members ts = members @ more \<and>
       (\<exists>k \<le> length ts. more = filter (\<lambda>t. \<not> is_done t) (take k ts)) \<and> (\<forall>m \<in> set more. d_id m \<notin> set taken))"
  using assms
proof (induction g leader taken members ts rule: take_members.induct)
  case (2 g leader taken members t ts)
  show ?case
  proof (cases "is_done t")
    case True
    from "2.IH"(1) [OF True "2.prems"] obtain more k where
      "take_members g leader taken members ts = members @ more" "k \<le> length ts"
      "more = filter (\<lambda>t. \<not> is_done t) (take k ts)" "\<forall>m \<in> set more. d_id m \<notin> set taken" by blast
    moreover from this(2,3) True have "\<exists>k \<le> length (t # ts). more = filter (\<lambda>t. \<not> is_done t) (take k (t # ts))"
      by (intro exI [of _ "Suc k"]) simp
    ultimately show ?thesis using "2.IH"(1) [OF True "2.prems"] True by (simp only: take_members.simps if_True) blast
  next
    case nd: False
    show ?thesis
    proof (cases "may_follow g leader taken (map d_id members) t")
      case False
      have "\<exists>k \<le> length (t # ts). [] = filter (\<lambda>t. \<not> is_done t) (take k (t # ts))"
        by (rule exI [of _ 0]) simp
      with nd False "2.prems" show ?thesis by auto
    next
      case True
      then have t: "d_status t = ''todo''" "bundleable t = None" "(d_env t, d_allow t) = (d_env leader, d_allow leader)"
        "d_id t \<notin> set taken"
        and deps: "\<forall>d \<in> set (d_blocked_by t). d \<in> set (map d_id members) \<or> dep_done g d"
        by (auto simp: may_follow_def)
      have c: "carries_in_order g (members @ [t])"
        using "2.prems"(1) deps by (auto simp: carries_in_order_def nth_append less_Suc_eq)
      have m: "\<forall>m \<in> set (members @ [t]). d_status m = ''todo'' \<and> bundleable m = None \<and>
          (d_env m, d_allow m) = (d_env leader, d_allow leader)"
        using "2.prems"(2) t by auto
      have tr: "\<not> \<not> may_follow g leader taken (map d_id members) t" using True by simp
      note IH = "2.IH"(2) [OF nd tr c m]
      from IH obtain more k where more: "take_members g leader taken (members @ [t]) ts = (members @ [t]) @ more"
        "k \<le> length ts" "more = filter (\<lambda>t. \<not> is_done t) (take k ts)" "\<forall>m \<in> set more. d_id m \<notin> set taken" by blast
      have "\<exists>k \<le> length (t # ts). t # more = filter (\<lambda>t. \<not> is_done t) (take k (t # ts))"
        using more(2,3) nd by (intro exI [of _ "Suc k"]) simp
      then have "\<exists>more. take_members g leader taken (members @ [t]) ts = members @ more \<and>
          (\<exists>k \<le> length (t # ts). more = filter (\<lambda>t. \<not> is_done t) (take k (t # ts))) \<and> (\<forall>m \<in> set more. d_id m \<notin> set taken)"
        using more(1,4) t(4) by (intro exI [of _ "t # more"]) simp
      with IH nd True show ?thesis by simp
    qed
  qed
qed (auto intro: exI [of _ 0])

section \<open>Launching a bundle\<close>

lemma dropWhile_neq: "x \<in> set xs \<Longrightarrow> \<exists>as bs. xs = as @ x # bs \<and> dropWhile (\<lambda>t. t \<noteq> x) xs = x # bs"
proof (induction xs)
  case (Cons y xs)
  show ?case
  proof (cases "y = x")
    case False
    with Cons obtain as bs where "xs = as @ x # bs" "dropWhile (\<lambda>t. t \<noteq> x) xs = x # bs" by auto
    with False show ?thesis by (intro exI [of _ "y # as"] exI [of _ bs]) simp
  qed (intro exI [of _ "[]"] exI [of _ xs], simp)
qed simp

lemma siblings_after_in:
  assumes "leader \<in> set g" "t \<in> set (siblings_after g leader)"
  shows "t \<in> set g \<and> d_issue_id t = d_issue_id leader"
proof -
  let ?sib = "filter (\<lambda>t. d_issue_id t = d_issue_id leader) g"
  have "leader \<in> set ?sib" using assms(1) by simp
  from dropWhile_neq [OF this] obtain as bs where sib: "?sib = as @ leader # bs"
    and "siblings_after g leader = bs" by (auto simp: siblings_after_def)
  with assms(2) have "t \<in> set (as @ leader # bs)" by simp
  then have "t \<in> set ?sib" by (simp only: sib)
  then show ?thesis by simp
qed

lemma bundle_members_spec:
  assumes "startable g leader"
  shows "carries_in_order g (bundle_members g leader taken) \<and>
    (\<forall>m \<in> set (bundle_members g leader taken). d_status m = ''todo'') \<and>
    (bundle_members g leader taken = [leader] \<or> (\<forall>m \<in> set (bundle_members g leader taken).
       bundleable m = None \<and> (d_env m, d_allow m) = (d_env leader, d_allow leader))) \<and>
    (\<exists>k \<le> length (siblings_after g leader).
       bundle_members g leader taken = leader # filter (\<lambda>t. \<not> is_done t) (take k (siblings_after g leader)))"
proof -
  have l: "d_status leader = ''todo''" "carries_in_order g [leader]"
    using assms by (auto simp: startable_def carries_in_order_def)
  show ?thesis
  proof (cases "bundleable leader = None")
    case False
    have "\<exists>k \<le> length (siblings_after g leader). [leader] = leader # filter (\<lambda>t. \<not> is_done t) (take k (siblings_after g leader))"
      by (rule exI [of _ 0]) simp
    with False l show ?thesis by (simp add: bundle_members_def)
  next
    case True
    then have b: "bundle_members g leader taken = take_members g leader taken [leader] (siblings_after g leader)"
      by (simp add: bundle_members_def)
    have "\<forall>m \<in> set [leader]. d_status m = ''todo'' \<and> bundleable m = None \<and> (d_env m, d_allow m) = (d_env leader, d_allow leader)"
      using l True by simp
    from take_members_inv [OF l(2) this, of taken "siblings_after g leader"] show ?thesis
      unfolding b by auto
  qed
qed

text \<open>C32: A bundle is safe to launch whenever its lead is: over an accepted graph it always exists, it is the
  lead followed by a contiguous run of its issue's sub-issues (done ones passed over), all of them to do
  and, when there is more than one, each an agent's to produce, crossing nothing, operating nothing, with no
  preconditions and never split before, all in one environment; each
  member waits only for done tasks and members before it, and the launch itself waits for nothing that
  is not done.\<close>

theorem bundle_safe:
  assumes "accepted g" and "leader \<in> set g" and "startable g leader"
  shows "\<exists>b. bundle_of g leader taken = Some b \<and>
    carries_in_order g (bundle_members g leader taken) \<and>
    (\<exists>k. bundle_members g leader taken = leader # filter (\<lambda>t. \<not> is_done t) (take k (siblings_after g leader))) \<and>
    (\<forall>m \<in> set (bundle_members g leader taken). m \<in> set g \<and> d_issue_id m = d_issue_id leader \<and> d_status m = ''todo'') \<and>
    (bundle_members g leader taken = [leader] \<or> (\<forall>m \<in> set (bundle_members g leader taken).
       d_produced_by m = ''agent'' \<and> \<not> d_irreversible m \<and> d_attempt_max m = 0 \<and> d_operate m = [] \<and>
       d_requires m = [] \<and> d_unbundled m = [] \<and> (d_env m, d_allow m) = (d_env leader, d_allow leader))) \<and>
    (\<forall>d \<in> set (d_blocked_by b). dep_done g d)"
proof -
  let ?ms = "bundle_members g leader taken"
  note spec = bundle_members_spec [OF assms(3), of taken]
  from spec obtain k where k: "?ms = leader # filter (\<lambda>t. \<not> is_done t) (take k (siblings_after g leader))" by blast
  have ing: "m \<in> set g \<and> d_issue_id m = d_issue_id leader" if "m \<in> set ?ms" for m
  proof -
    from that k have "m = leader \<or> m \<in> set (siblings_after g leader)" by (auto dest: in_set_takeD)
    with assms(2) siblings_after_in [OF assms(2)] show ?thesis by auto
  qed
  have "\<exists>b. bundle_of g leader taken = Some b \<and> (\<forall>d \<in> set (d_blocked_by b). dep_done g d)"
  proof (cases "length ?ms = 1")
    case True
    with assms(3) show ?thesis by (simp add: bundle_of_def startable_def)
  next
    case False
    have "\<forall>r \<in> set (map d_risk ?ms). index_of risk_order r \<noteq> None"
      using assms(1) ing by (auto simp: accepted_iff well_formed_dag_def valid_fields_def index_of_None)
    then obtain r where "max_risk (map d_risk ?ms) = Some r"
      using k by (auto simp: max_risk_def)
    then obtain b where b: "merged ?ms = Some b"
      and blocked: "d_blocked_by b = filter (\<lambda>d. d \<notin> set (map d_id ?ms)) (union_of (map d_blocked_by ?ms))"
      using k by (auto simp: merged_def Let_def)
    have "dep_done g d" if "d \<in> set (d_blocked_by b)" for d
    proof -
      from that blocked obtain m where m: "m \<in> set ?ms" "d \<in> set (d_blocked_by m)" "d \<notin> set (map d_id ?ms)"
        by (auto simp: union_of_def)
      then obtain i where i: "i < length ?ms" "?ms ! i = m" by (auto simp: in_set_conv_nth)
      with spec m(2) have "dep_done g d \<or> d \<in> set (map d_id (take i ?ms))" by (auto simp: carries_in_order_def)
      moreover have "set (map d_id (take i ?ms)) \<subseteq> set (map d_id ?ms)" by (auto dest: in_set_takeD)
      ultimately show ?thesis using m(3) by blast
    qed
    with b False show ?thesis by (auto simp: bundle_of_def Let_def)
  qed
  with spec ing show ?thesis unfolding bundleable_None by blast
qed

definition two_step :: graph where
  "two_step = [(default_task ''T-001'' ''a'' ''parallel'')\<lparr>d_issue_id := ''I-001''\<rparr>,
     (default_task ''T-002'' ''b'' ''parallel'')\<lparr>d_issue_id := ''I-001'', d_blocked_by := [''T-001'']\<rparr>]"

theorem bundle_safe_witness:
  "\<exists>b. bundle_of two_step (hd two_step) [] = Some b \<and> map d_id (bundle_members two_step (hd two_step) []) = [''T-001'', ''T-002''] \<and>
     (\<forall>d \<in> set (d_blocked_by b). dep_done two_step d)"
proof -
  have a: "accepted two_step" unfolding accepted_def by code_simp
  have l: "hd two_step \<in> set two_step" by (simp add: two_step_def)
  have s: "startable two_step (hd two_step)" by code_simp
  have m: "map d_id (bundle_members two_step (hd two_step) []) = [''T-001'', ''T-002'']" by code_simp
  from bundle_safe [OF a l s, of "[]"] obtain b where "bundle_of two_step (hd two_step) [] = Some b"
    "\<forall>d \<in> set (d_blocked_by b). dep_done two_step d" by (elim exE conjE) (rule that)
  with m show ?thesis by (intro exI [of _ b] conjI)
qed

section \<open>A bundle's criteria\<close>

text \<open>The acceptance list a bundle carries.\<close>

definition merged_acceptance :: "dtask list \<Rightarrow> jobj list" where
  "merged_acceptance ms = concat (map (\<lambda>m. map (member_criterion (d_id m)) (d_acceptance m)) ms)"

lemma member_criterion_id: "str_get (member_criterion x e) ''id'' '''' = x @ member_sep @ str_get e ''id'' ''?''"
  by (simp add: member_criterion_def str_get_def jget_or_def)

lemma member_prefix:
  assumes "CHR ''/'' \<notin> set x" "CHR ''/'' \<notin> set y"
  shows "prefix (y @ member_sep) (x @ member_sep @ s) \<longleftrightarrow> x = y"
proof
  assume "prefix (y @ member_sep) (x @ member_sep @ s)"
  then obtain r where "x @ CHR ''/'' # s = y @ CHR ''/'' # r" by (auto simp: prefix_def member_sep_def)
  moreover have "\<forall>c \<in> set x. c \<noteq> CHR ''/''" "\<forall>c \<in> set y. c \<noteq> CHR ''/''" using assms by auto
  ultimately show "x = y"
    using split_at_delim [of x "\<lambda>c. c \<noteq> CHR ''/''" y "CHR ''/'' # s" "CHR ''/'' # r"] by simp
qed (simp add: prefix_def)

lemma update_update_id: "map_of e k = Some v \<Longrightarrow> AList.update k v (AList.update k w e) = e"
  by (induction e) auto

lemma member_criterion_back:
  assumes "map_of e ''id'' = Some (JStr i)"
  shows "jset ''id'' (JStr (drop (length (x @ member_sep)) (str_get (member_criterion x e) ''id'' ''''))) (member_criterion x e) = e"
proof -
  have i: "str_get e ''id'' ''?'' = i" using assms by (simp add: str_get_def jget_or_def)
  show ?thesis
    unfolding member_criterion_id using update_update_id [OF assms] by (simp add: member_criterion_def i)
qed

lemma of_member_merged:
  assumes "\<forall>x \<in> set ms. CHR ''/'' \<notin> set (d_id x)" "CHR ''/'' \<notin> set y"
    and "\<forall>x \<in> set ms. d_id x = y \<longrightarrow> (\<forall>e \<in> set (d_acceptance x). \<exists>i. map_of e ''id'' = Some (JStr i))"
  shows "of_member (merged_acceptance ms) y = concat (map d_acceptance (filter (\<lambda>x. d_id x = y) ms))"
  using assms(1,3)
proof (induction ms)
  case (Cons m ms)
  have split: "of_member (merged_acceptance (m # ms)) y =
      of_member (map (member_criterion (d_id m)) (d_acceptance m)) y @ of_member (merged_acceptance ms) y"
    by (simp add: merged_acceptance_def of_member_def Let_def)
  have "of_member (map (member_criterion (d_id m)) (d_acceptance m)) y = (if d_id m = y then d_acceptance m else [])"
  proof (cases "d_id m = y")
    case True
    with Cons.prems have "\<forall>e \<in> set (d_acceptance m). \<exists>i. map_of e ''id'' = Some (JStr i)" by simp
    then have "map (\<lambda>e. jset ''id'' (JStr (drop (length (y @ member_sep)) (str_get e ''id'' ''''))) e)
        (map (member_criterion y) (d_acceptance m)) = d_acceptance m"
      using member_criterion_back [of _ _ y] by (auto intro!: map_idI simp del: length_append)
    moreover have "filter (\<lambda>e. prefix (y @ member_sep) (str_get e ''id'' '''')) (map (member_criterion y) (d_acceptance m)) =
        map (member_criterion y) (d_acceptance m)"
      using member_prefix [OF assms(2,2)] by (simp add: filter_id_conv member_criterion_id)
    ultimately show ?thesis using True by (simp add: of_member_def Let_def)
  next
    case False
    have "filter (\<lambda>e. prefix (y @ member_sep) (str_get e ''id'' '''')) (map (member_criterion (d_id m)) (d_acceptance m)) = []"
      using member_prefix [of "d_id m" y] Cons.prems(1) assms(2) False by (simp add: filter_empty_conv member_criterion_id)
    with False show ?thesis by (simp add: of_member_def Let_def)
  qed
  with split Cons show ?case by simp
qed (simp add: merged_acceptance_def of_member_def)

lemma filter_distinct_key: "distinct (map f ms) \<Longrightarrow> m \<in> set ms \<Longrightarrow> filter (\<lambda>x. f x = f m) ms = [m]"
proof (induction ms)
  case (Cons a ms)
  show ?case
  proof (cases "a = m")
    case True
    with Cons.prems(1) have "f m \<notin> f ` set ms" by simp
    then have "filter (\<lambda>x. f x = f m) ms = []" unfolding filter_empty_conv by (metis image_eqI)
    with True show ?thesis by simp
  next
    case False
    with Cons.prems have "f a \<noteq> f m" by auto
    with Cons False show ?thesis by simp
  qed
qed simp

text \<open>A bundle loses no criterion and mixes none up: taking a member's entries back out of the bundle's
  acceptance list gives exactly that member's own criteria, under their own ids, however many members
  use the same ones, as long as member ids are distinct and hold no separator and the member's criteria
  carry string ids.\<close>

theorem bundle_criteria_roundtrip:
  assumes "merged ms = Some b" and "distinct (map d_id ms)" and "m \<in> set ms"
    and "\<forall>x \<in> set ms. CHR ''/'' \<notin> set (d_id x)"
    and "\<forall>e \<in> set (d_acceptance m). \<exists>i. map_of e ''id'' = Some (JStr i)"
  shows "of_member (d_acceptance b) (d_id m) = d_acceptance m"
proof -
  have "d_acceptance b = merged_acceptance ms"
    using assms(1) by (auto simp: merged_def Let_def merged_acceptance_def split: list.splits)
  moreover have "\<forall>x \<in> set ms. d_id x = d_id m \<longrightarrow> (\<forall>e \<in> set (d_acceptance x). \<exists>i. map_of e ''id'' = Some (JStr i))"
    using assms(2,3,5) by (metis distinct_map inj_on_eq_iff)
  ultimately show ?thesis
    using of_member_merged [OF assms(4), of "d_id m"] filter_distinct_key [OF assms(2,3)] assms(3,4) by simp
qed

theorem bundle_criteria_roundtrip_witness:
  "\<exists>b. merged (map (\<lambda>t. t\<lparr>d_acceptance := [[(''id'', JStr ''A-1''), (''n'', JStr (d_id t))]]\<rparr>) two_step) = Some b \<and>
     of_member (d_acceptance b) ''T-002'' = [[(''id'', JStr ''A-1''), (''n'', JStr ''T-002'')]]"
proof -
  let ?ms = "map (\<lambda>t. t\<lparr>d_acceptance := [[(''id'', JStr ''A-1''), (''n'', JStr (d_id t))]]\<rparr>) two_step"
  let ?m = "?ms ! 1"
  have "merged ?ms \<noteq> None" by code_simp
  then obtain b where b: "merged ?ms = Some b" by blast
  have "of_member (d_acceptance b) (d_id ?m) = d_acceptance ?m"
    by (rule bundle_criteria_roundtrip [OF b]) (auto simp: two_step_def default_task_def)
  moreover have "d_id ?m = ''T-002''" "d_acceptance ?m = [[(''id'', JStr ''A-1''), (''n'', JStr ''T-002'')]]"
    by (simp_all add: two_step_def default_task_def)
  ultimately show ?thesis using b by auto
qed

section \<open>A bundle's scope\<close>

lemma ex_max_if_finite_measure:
  fixes f :: "'a \<Rightarrow> nat"
  assumes "finite E" "E \<noteq> {}"
  shows "\<exists>e \<in> E. \<forall>e' \<in> E. f e' \<le> f e"
proof -
  have "Max (f ` E) \<in> f ` E" using assms by simp
  then obtain e where e: "e \<in> E" "f e = Max (f ` E)" by auto
  have "f e' \<le> f e" if "e' \<in> E" for e' using e(2) that assms(1) by simp
  with e(1) show ?thesis by blast
qed

lemma outside_iff:
  "outside p m \<longleftrightarrow> (\<exists>e \<in> set (d_scope_exclude m). path_covered p e) \<or>
     d_scope_include m \<noteq> [] \<and> (\<forall>i \<in> set (d_scope_include m). \<not> path_covered p i)"
  by (auto simp: outside_def outside_scope_def filter_empty_conv)

lemma path_covered_nonempty: "path_covered x p \<Longrightarrow> rstrip_slash p \<noteq> []"
  by (auto simp: path_covered_def Let_def)

text \<open>The most specific exclude over a path outside every member is one no member's scope reaches.\<close>

lemma longest_exclude_kept:
  assumes out: "\<forall>m \<in> set ms. outside x m" and e: "path_covered x e"
    and longest: "\<And>m e'. m \<in> set ms \<Longrightarrow> e' \<in> set (d_scope_exclude m) \<Longrightarrow> path_covered x e' \<Longrightarrow>
      length (rstrip_slash e') \<le> length (rstrip_slash e)"
    and m: "m \<in> set ms"
  shows "outside e m"
proof -
  note r = path_covered_path_rstrip [OF path_covered_nonempty [OF e]]
  from out m have "outside x m" by blast
  then show ?thesis
    unfolding outside_iff
  proof
    assume "\<exists>e' \<in> set (d_scope_exclude m). path_covered x e'"
    then obtain e' where e': "e' \<in> set (d_scope_exclude m)" "path_covered x e'" by blast
    from path_covered_chain [OF e e'(2) longest [OF m e']] have "path_covered e e'" using r by simp
    with e'(1) show "(\<exists>e' \<in> set (d_scope_exclude m). path_covered e e') \<or>
        d_scope_include m \<noteq> [] \<and> (\<forall>i \<in> set (d_scope_include m). \<not> path_covered e i)" by blast
  next
    assume i: "d_scope_include m \<noteq> [] \<and> (\<forall>i \<in> set (d_scope_include m). \<not> path_covered x i)"
    have "\<not> path_covered e i" if "i \<in> set (d_scope_include m)" for i
    proof
      assume "path_covered e i"
      then have "path_covered x i" using r [of i] path_covered_trans [OF e] by simp
      with i that show False by blast
    qed
    with i show "(\<exists>e' \<in> set (d_scope_exclude m). path_covered e e') \<or>
        d_scope_include m \<noteq> [] \<and> (\<forall>i \<in> set (d_scope_include m). \<not> path_covered e i)" by blast
  qed
qed

lemma merged_scope:
  assumes "merged ms = Some b"
  shows "d_scope_include b = (if \<exists>m \<in> set ms. d_scope_include m = [] then [] else union_of (map d_scope_include ms))"
    and "d_scope_exclude b = filter (\<lambda>p. \<forall>m \<in> set ms. outside p m) (union_of (map d_scope_exclude ms))"
    and "ms \<noteq> []"
  using assms by (auto simp: merged_def Let_def split: list.splits)

text \<open>A bundle's scope never widens what its members were approved for: a path outside every member's
  own scope is outside the bundle's, although the bundle drops the excludes that a sibling's scope
  reaches into.\<close>

theorem merged_scope_sound:
  assumes "merged ms = Some b" and "\<forall>m \<in> set ms. outside x m"
  shows "outside x b"
proof (cases "\<exists>m \<in> set ms. \<exists>e \<in> set (d_scope_exclude m). path_covered x e")
  case True
  define E where "E = {e. \<exists>m \<in> set ms. e \<in> set (d_scope_exclude m) \<and> path_covered x e}"
  have "finite E"
    by (rule finite_subset [of _ "\<Union>m \<in> set ms. set (d_scope_exclude m)"]) (auto simp: E_def)
  moreover have "E \<noteq> {}" using True by (auto simp: E_def)
  ultimately obtain e where e: "e \<in> E" and max: "\<And>e'. e' \<in> E \<Longrightarrow> length (rstrip_slash e') \<le> length (rstrip_slash e)"
    using ex_max_if_finite_measure [of E "\<lambda>e. length (rstrip_slash e)"] by blast
  from e have x: "path_covered x e" by (simp add: E_def)
  have "outside e m" if "m \<in> set ms" for m
    by (rule longest_exclude_kept [OF assms(2) x _ that]) (rule max, auto simp: E_def)
  moreover have "e \<in> set (union_of (map d_scope_exclude ms))" using e by (auto simp: E_def union_of_def)
  ultimately have "e \<in> set (d_scope_exclude b)" using merged_scope(2) [OF assms(1)] by simp
  with x show ?thesis by (auto simp: outside_iff)
next
  case False
  then have no: "\<forall>m \<in> set ms. d_scope_include m \<noteq> [] \<and> (\<forall>i \<in> set (d_scope_include m). \<not> path_covered x i)"
    using assms(2) by (auto simp: outside_iff)
  then have inc: "d_scope_include b = union_of (map d_scope_include ms)" using merged_scope(1) [OF assms(1)] by auto
  obtain m where m: "m \<in> set ms" using merged_scope(3) [OF assms(1)] by (cases ms) auto
  with no have "set (d_scope_include m) \<noteq> {}" by simp
  with m have "set (d_scope_include b) \<noteq> {}" using inc by (auto simp: union_of_def)
  moreover have "\<forall>i \<in> set (d_scope_include b). \<not> path_covered x i" using no inc by (auto simp: union_of_def)
  ultimately show ?thesis by (auto simp: outside_iff)
qed

definition scope_members :: graph where
  "scope_members = [(default_task ''T-001'' ''a'' ''parallel'')\<lparr>d_scope_include := [''docs''], d_scope_exclude := [''src'']\<rparr>,
     (default_task ''T-002'' ''b'' ''parallel'')\<lparr>d_scope_include := [''src/x'']\<rparr>]"

theorem merged_scope_sound_witness:
  "\<exists>b. merged scope_members = Some b \<and> outside ''lib/y.py'' b"
proof -
  obtain b where b: "merged scope_members = Some b"
    by (auto simp: merged_def scope_members_def default_task_def max_risk_def risk_order_def Let_def)
  have "\<forall>m \<in> set scope_members. outside ''lib/y.py'' m" by code_simp
  with merged_scope_sound [OF b] b show ?thesis by blast
qed

text \<open>The other direction fails where an exclude of one member is a directory above a sibling's include:
  no member's scope reaches the exclude itself, so it is kept, and what the sibling was to write is
  outside the bundle.\<close>

lemma merged_scope_narrows:
  "\<exists>b. merged scope_members = Some b \<and> \<not> outside ''src/x/f.py'' (scope_members ! 1) \<and> outside ''src/x/f.py'' b"
proof -
  have "\<not> outside ''src/x/f.py'' (scope_members ! 1)" by code_simp
  moreover have "case merged scope_members of Some b \<Rightarrow> outside ''src/x/f.py'' b | None \<Rightarrow> False" by code_simp
  ultimately show ?thesis by (auto split: option.splits)
qed

end
