(* ===== verification/Text.thy ===== *)
theory Text
  imports Bundle
begin

text \<open>
  The text operations the program takes from \<^verbatim>\<open>str\<close>: a string is its UTF-8 bytes, a character one lead
  byte with the continuation bytes after it. \<^verbatim>\<open>strip\<close> drops the characters Python counts as white space
  from both ends.
\<close>

definition is_cont :: "char \<Rightarrow> bool" where
  "is_cont c \<longleftrightarrow> (of_char c :: nat) div 64 = 2"

function chars_of :: "string \<Rightarrow> string list" where
  "chars_of [] = []"
| "chars_of (c # r) = (c # takeWhile is_cont r) # chars_of (dropWhile is_cont r)"
  by pat_completeness auto
termination
  by (relation "measure length") (auto simp: less_Suc_eq_le length_dropWhile_le)

text \<open>White space: the ASCII controls and the blank, U+0085, U+00A0, U+1680, U+2000 to U+200A, U+2028,
  U+2029, U+202F, U+205F and U+3000.\<close>

definition space_char :: "string \<Rightarrow> bool" where
  "space_char cs \<longleftrightarrow>
     (case cs of
        [c] \<Rightarrow> is_space c
      | [c, d] \<Rightarrow> c = CHR 0xC2 \<and> d \<in> {CHR 0x85, CHR 0xA0}
      | [c, d, e] \<Rightarrow> cs \<in> {[CHR 0xE1, CHR 0x9A, CHR 0x80], [CHR 0xE2, CHR 0x81, CHR 0x9F], [CHR 0xE3, CHR 0x80, CHR 0x80]} \<or>
          c = CHR 0xE2 \<and> d = CHR 0x80 \<and>
            (128 \<le> (of_char e :: nat) \<and> (of_char e :: nat) \<le> 138 \<or> e \<in> {CHR 0xA8, CHR 0xA9, CHR 0xAF})
      | _ \<Rightarrow> False)"

definition strip_chars :: "string list \<Rightarrow> string list" where
  "strip_chars cs = rev (dropWhile space_char (rev (dropWhile space_char cs)))"

definition py_strip :: "string \<Rightarrow> string" where
  "py_strip s = concat (strip_chars (chars_of s))"

definition blank :: "string \<Rightarrow> bool" where
  "blank s \<longleftrightarrow> py_strip s = []"

section \<open>Characters\<close>

lemma concat_chars_of [simp]: "concat (chars_of s) = s"
  by (induction s rule: chars_of.induct) simp_all

definition uchar :: "string \<Rightarrow> bool" where
  "uchar cs \<longleftrightarrow> cs \<noteq> [] \<and> (\<forall>c \<in> set (tl cs). is_cont c)"

lemma chars_of_uchar: "cs \<in> set (chars_of s) \<Longrightarrow> uchar cs"
  by (induction s rule: chars_of.induct) (auto simp: uchar_def dest: set_takeWhileD)

text \<open>Every character but the first starts with a lead byte.\<close>

definition leads :: "string list \<Rightarrow> bool" where
  "leads css \<longleftrightarrow> (\<forall>cs \<in> set (tl css). \<not> is_cont (hd cs))"

lemma chars_of_leads: "leads (chars_of s)"
proof (induction s rule: chars_of.induct)
  case (2 c r)
  have "\<not> is_cont (hd (hd (chars_of (dropWhile is_cont r))))" if "chars_of (dropWhile is_cont r) \<noteq> []"
    using that hd_dropWhile [of is_cont r] by (cases "dropWhile is_cont r") auto
  with 2 show ?case by (cases "chars_of (dropWhile is_cont r)") (auto simp: leads_def)
qed (simp add: leads_def)

lemma chars_of_concat: "\<forall>cs \<in> set css. uchar cs \<Longrightarrow> leads css \<Longrightarrow> chars_of (concat css) = css"
proof (induction css)
  case (Cons cs css)
  then obtain c r where cs: "cs = c # r" "\<forall>x \<in> set r. is_cont x" by (cases cs) (auto simp: uchar_def)
  have hd: "concat css = [] \<or> \<not> is_cont (hd (concat css))"
  proof (cases css)
    case (Cons d ds)
    with Cons.prems show ?thesis by (cases d) (auto simp: leads_def uchar_def)
  qed simp
  have "leads css" using Cons.prems(2) by (cases css) (auto simp: leads_def)
  with Cons have IH: "chars_of (concat css) = css" by simp
  have "takeWhile is_cont xs = [] \<and> dropWhile is_cont xs = xs" if "xs = [] \<or> \<not> is_cont (hd xs)" for xs
    using that by (cases xs) simp_all
  from this [OF hd] have "takeWhile is_cont (concat css) = []" "dropWhile is_cont (concat css) = concat css"
    by blast+
  moreover have "takeWhile is_cont (r @ concat css) = r @ takeWhile is_cont (concat css)"
    by (rule takeWhile_append2) (use cs(2) in blast)
  moreover have "dropWhile is_cont (r @ concat css) = dropWhile is_cont (concat css)"
    by (rule dropWhile_append2) (use cs(2) in blast)
  ultimately have "takeWhile is_cont (r @ concat css) = r" "dropWhile is_cont (r @ concat css) = concat css" by simp_all
  with IH cs show ?case by simp
qed (simp add: leads_def)

section \<open>Stripping\<close>

lemma strip_chars_split:
  obtains a b where "css = a @ strip_chars css @ b" "\<forall>cs \<in> set a. space_char cs" "\<forall>cs \<in> set b. space_char cs"
proof -
  let ?d = "dropWhile space_char css"
  have "rev ?d = takeWhile space_char (rev ?d) @ rev (strip_chars css)" by (simp add: strip_chars_def)
  then have "?d = strip_chars css @ rev (takeWhile space_char (rev ?d))" by (metis rev_append rev_rev_ident)
  then have "css = takeWhile space_char css @ strip_chars css @ rev (takeWhile space_char (rev ?d))"
    by (metis takeWhile_dropWhile_id)
  then show ?thesis by (rule that) (auto dest: set_takeWhileD)
qed

lemma strip_chars_ends:
  assumes "strip_chars css \<noteq> []"
  shows "\<not> space_char (hd (strip_chars css))" and "\<not> space_char (last (strip_chars css))"
proof -
  let ?d = "dropWhile space_char css"
  from assms show "\<not> space_char (last (strip_chars css))"
    using hd_dropWhile [of space_char "rev ?d"] by (simp add: strip_chars_def last_rev)
  have "rev ?d = takeWhile space_char (rev ?d) @ rev (strip_chars css)" by (simp add: strip_chars_def)
  then have "?d = strip_chars css @ rev (takeWhile space_char (rev ?d))" by (metis rev_append rev_rev_ident)
  with assms have "hd (strip_chars css) = hd ?d" "?d \<noteq> []" by (metis hd_append2, metis append_is_Nil_conv)
  then show "\<not> space_char (hd (strip_chars css))" using hd_dropWhile [of space_char css] by simp
qed

lemma strip_chars_sub: "set (strip_chars css) \<subseteq> set css"
  by (rule strip_chars_split [of css]) (metis Un_iff set_append subsetI)

lemma strip_chars_leads: "leads css \<Longrightarrow> leads (strip_chars css)"
proof (rule strip_chars_split [of css])
  fix a b
  assume l: "leads css" and css: "css = a @ strip_chars css @ b"
  have "set (tl (strip_chars css)) \<subseteq> set (tl css)"
    by (subst (2) css) (cases a; cases "strip_chars css"; auto)
  with l show ?thesis by (auto simp: leads_def)
qed

lemma strip_chars_fix: "css = [] \<or> \<not> space_char (hd css) \<and> \<not> space_char (last css) \<Longrightarrow> strip_chars css = css"
proof (cases css rule: rev_cases)
  case (snoc cs c)
  assume "css = [] \<or> \<not> space_char (hd css) \<and> \<not> space_char (last css)"
  then have "dropWhile space_char css = css" by (cases css) auto
  with snoc \<open>css = [] \<or> _\<close> show ?thesis by (simp add: strip_chars_def)
qed (simp add: strip_chars_def)

lemma strip_chars_idem [simp]: "strip_chars (strip_chars css) = strip_chars css"
  using strip_chars_ends [of css] by (blast intro: strip_chars_fix)

lemma chars_of_strip: "chars_of (py_strip s) = strip_chars (chars_of s)"
  unfolding py_strip_def
  by (rule chars_of_concat) (use strip_chars_sub chars_of_uchar chars_of_leads strip_chars_leads in blast)+

lemma py_strip_idem [simp]: "py_strip (py_strip s) = py_strip s"
  by (simp add: py_strip_def [of "py_strip s"] chars_of_strip) (simp add: py_strip_def)

lemma blank_iff: "blank s \<longleftrightarrow> (\<forall>cs \<in> set (chars_of s). space_char cs)"
proof -
  have "py_strip s = [] \<longleftrightarrow> strip_chars (chars_of s) = []"
    by (metis chars_of.simps(1) chars_of_strip concat.simps(1) py_strip_def)
  also have "\<dots> \<longleftrightarrow> (\<forall>cs \<in> set (chars_of s). space_char cs)"
  proof
    assume "strip_chars (chars_of s) = []"
    then show "\<forall>cs \<in> set (chars_of s). space_char cs"
      using strip_chars_split [of "chars_of s"] by (metis Un_iff append_Nil set_append)
  next
    assume "\<forall>cs \<in> set (chars_of s). space_char cs"
    then have "dropWhile space_char (chars_of s) = []" by (simp only: dropWhile_eq_Nil_conv)
    then show "strip_chars (chars_of s) = []" by (metis dropWhile.simps(1) rev.simps(1) strip_chars_def)
  qed
  finally show ?thesis by (simp add: blank_def)
qed

lemma blank_bytes: "blank s \<Longrightarrow> c \<in> set s \<Longrightarrow> is_space c \<or> 128 \<le> (of_char c :: nat)"
proof -
  assume "blank s" "c \<in> set s"
  then obtain cs where "cs \<in> set (chars_of s)" "c \<in> set cs"
    by (metis UN_E concat_chars_of set_concat)
  moreover from this \<open>blank s\<close> have "space_char cs" by (simp add: blank_iff)
  ultimately show ?thesis by (auto simp: space_char_def split: list.splits)
qed

end
