(* ===== verification/Chain.thy ===== *)
theory Chain
  imports Text
begin

text \<open>
  \<^verbatim>\<open>models.Event\<close> and \<^verbatim>\<open>event_chain.py\<close>: the hash-chained audit log as the text of a file. Reading a log is
  splitting it into lines as \<^verbatim>\<open>str.splitlines\<close> does, parsing each at the strict boundary, and checking
  sequence numbers, ids, links and digests; writing one is canonical serialization, one record per
  line. \<open>sha\<close>, the JSON tokenizer and the event schema are parameters. \<^verbatim>\<open>scan\<close> keeps the previous event and
  the seen numbers and ids; they are read off the events it has collected. An exception of the digest
  layer escapes \<^verbatim>\<open>scan_text\<close>, which is a sum for that reason.
\<close>

section \<open>Events\<close>

record event =
  ev_seq :: int
  ev_id :: string
  ev_tx :: string
  ev_ts :: string
  ev_kind :: string
  ev_cycle :: string
  ev_actor :: string
  ev_subjects :: "string list"
  ev_prev :: string
  ev_digest :: string
  ev_detail :: jobj

definition payload :: "event \<Rightarrow> jobj" where
  "payload e =
     [(''seq'', JInt (ev_seq e)), (''id'', JStr (ev_id e)), (''tx_id'', JStr (ev_tx e)), (''ts'', JStr (ev_ts e)),
      (''event'', JStr (ev_kind e)), (''cycle_id'', JStr (ev_cycle e)), (''actor'', JStr (ev_actor e)),
      (''subject_ids'', JArr (map JStr (ev_subjects e))), (''prev_event_digest'', JStr (ev_prev e)),
      (''detail'', JObj (ev_detail e))]"

definition to_mapping :: "event \<Rightarrow> jobj" where
  "to_mapping e = payload e @ [(''event_digest'', JStr (ev_digest e))]"

text \<open>\<^verbatim>\<open>from_mapping\<close>, on a mapping the event schema accepted (so the required keys are there).\<close>

definition from_mapping :: "jobj \<Rightarrow> event" where
  "from_mapping raw =
     \<lparr>ev_seq = (case as_pyint (jget raw ''seq'') of Some n \<Rightarrow> n | None \<Rightarrow> 0),
      ev_id = py_str (jget raw ''id''), ev_tx = str_get raw ''tx_id'' '''', ev_ts = str_get raw ''ts'' '''',
      ev_kind = py_str (jget raw ''event''), ev_cycle = str_get raw ''cycle_id'' '''', ev_actor = str_get raw ''actor'' '''',
      ev_subjects = map py_str (as_arr (py_or (jget raw ''subject_ids'') (JArr []))),
      ev_prev = str_get raw ''prev_event_digest'' '''', ev_digest = str_get raw ''event_digest'' '''',
      ev_detail = as_obj (py_or (jget raw ''detail'') (JObj []))\<rparr>"

section \<open>Digest and link\<close>

definition event_digest :: "(string \<Rightarrow> string) \<Rightarrow> event \<Rightarrow> digest_error + string" where
  "event_digest sha e = digest_of sha (JObj (payload e)) []"

definition sealed :: "(string \<Rightarrow> string) \<Rightarrow> event \<Rightarrow> digest_error + event" where
  "sealed sha e = bind_err (event_digest sha e) (\<lambda>d. Inr (e\<lparr>ev_digest := d\<rparr>))"

definition next_seq :: "event option \<Rightarrow> int" where
  "next_seq previous = (case previous of Some p \<Rightarrow> ev_seq p + 1 | None \<Rightarrow> 1)"

definition prev_digest :: "event option \<Rightarrow> string" where
  "prev_digest previous = (case previous of Some p \<Rightarrow> ev_digest p | None \<Rightarrow> '''')"

definition link :: "(string \<Rightarrow> string) \<Rightarrow> event option \<Rightarrow> event \<Rightarrow> digest_error + event" where
  "link sha previous e = sealed sha (e\<lparr>ev_seq := next_seq previous, ev_prev := prev_digest previous\<rparr>)"

definition chain_root :: "(string \<Rightarrow> string) \<Rightarrow> event list \<Rightarrow> string" where
  "chain_root sha es = of_texts sha (map ev_digest es)"

definition verify_root :: "(string \<Rightarrow> string) \<Rightarrow> event list \<Rightarrow> string \<Rightarrow> bool" where
  "verify_root sha es expected = matches (chain_root sha es) expected"

definition last_event :: "event list \<Rightarrow> event option" where
  "last_event es = (if es = [] then None else Some (last es))"

section \<open>Lines\<close>

text \<open>The length of the line boundary at the head of a text: line feed, return (with a line feed as one),
  vertical tab, form feed, the ASCII separators, and, in UTF-8, next line, line separator and paragraph
  separator.\<close>

fun line_break :: "string \<Rightarrow> nat" where
  "line_break [] = 0"
| "line_break (c # r) =
     (if c = CHR 0x0D then (case r of d # _ \<Rightarrow> if d = CHR 0x0A then 2 else 1 | [] \<Rightarrow> 1)
      else if c \<in> {CHR 0x0A, CHR 0x0B, CHR 0x0C, CHR 0x1C, CHR 0x1D, CHR 0x1E} then 1
      else if c = CHR 0xC2 then (case r of d # _ \<Rightarrow> if d = CHR 0x85 then 2 else 0 | [] \<Rightarrow> 0)
      else if c = CHR 0xE2 then
        (case r of d # e # _ \<Rightarrow> if d = CHR 0x80 \<and> e \<in> {CHR 0xA8, CHR 0xA9} then 3 else 0 | _ \<Rightarrow> 0)
      else 0)"

function split_from :: "string \<Rightarrow> string \<Rightarrow> string list" where
  "split_from cur [] = (if cur = [] then [] else [cur])"
| "split_from cur (c # r) =
     (case line_break (c # r) of 0 \<Rightarrow> split_from (cur @ [c]) r | Suc k \<Rightarrow> cur # split_from [] (drop k r))"
  by pat_completeness auto
termination by (relation "measure (\<lambda>(cur, t). length t)") auto

definition splitlines :: "string \<Rightarrow> string list" where
  "splitlines t = split_from [] t"

section \<open>Writing\<close>

datatype chain_error =
    BadDigest digest_error
  | LineRejected strict_error
  | LineInvalid

definition dumps :: "event \<Rightarrow> digest_error + string" where
  "dumps e = canonical (JObj (to_mapping e)) []"

definition line_for :: "(string \<Rightarrow> jraw option) \<Rightarrow> (jobj \<Rightarrow> bool) \<Rightarrow> event \<Rightarrow> chain_error + string" where
  "line_for loads schema e =
     (case dumps e of
        Inl err \<Rightarrow> Inl (BadDigest err)
      | Inr line \<Rightarrow>
          (case load_json_mapping loads event_limits line of
             Inl err \<Rightarrow> Inl (LineRejected err)
           | Inr raw \<Rightarrow> if schema raw then Inr line else Inl LineInvalid))"

fun lines_for :: "(string \<Rightarrow> jraw option) \<Rightarrow> (jobj \<Rightarrow> bool) \<Rightarrow> event list \<Rightarrow> chain_error + string list" where
  "lines_for loads schema [] = Inr []"
| "lines_for loads schema (e # es) =
     bind_err (line_for loads schema e) (\<lambda>l. bind_err (lines_for loads schema es) (\<lambda>ls. Inr (l # ls)))"

text \<open>\<^verbatim>\<open>append_lines\<close>: every line is made before the file is touched.\<close>

definition append_lines :: "(string \<Rightarrow> jraw option) \<Rightarrow> (jobj \<Rightarrow> bool) \<Rightarrow> string \<Rightarrow> event list \<Rightarrow> chain_error + string" where
  "append_lines loads schema log es =
     bind_err (lines_for loads schema es) (\<lambda>ls. Inr (log @ concat (map (\<lambda>l. l @ newline) ls)))"

section \<open>Reading\<close>

datatype defect_kind =
    LogUnreadable | BlankLine | Unparseable | SchemaInvalid | DuplicateSeq | DuplicateId | SeqGap | BrokenLink | DigestMismatch

type_synonym defect = "nat \<times> defect_kind"

definition event_defects :: "(string \<Rightarrow> string) \<Rightarrow> event list \<Rightarrow> event \<Rightarrow> digest_error + defect_kind list" where
  "event_defects sha es e =
     bind_err (event_digest sha e) (\<lambda>d. Inr (
       (if ev_seq e \<in> ev_seq ` set es then [DuplicateSeq] else []) @
       (if ev_id e \<in> ev_id ` set es then [DuplicateId] else []) @
       (if ev_seq e \<noteq> next_seq (last_event es) then [SeqGap] else []) @
       (if ev_prev e \<noteq> prev_digest (last_event es) then [BrokenLink] else []) @
       (if ev_digest e \<noteq> d then [DigestMismatch] else [])))"

definition scan_line :: "(string \<Rightarrow> string) \<Rightarrow> (string \<Rightarrow> jraw option) \<Rightarrow> (jobj \<Rightarrow> bool) \<Rightarrow> string \<Rightarrow> nat \<Rightarrow>
    event list \<times> defect list \<Rightarrow> digest_error + event list \<times> defect list" where
  "scan_line sha loads schema line number st =
     (case st of (es, ds) \<Rightarrow>
        if blank line then Inr (es, ds @ [(number, BlankLine)])
        else case load_json_mapping loads event_limits line of
            Inl _ \<Rightarrow> Inr (es, ds @ [(number, Unparseable)])
          | Inr raw \<Rightarrow>
              if \<not> schema raw then Inr (es, ds @ [(number, SchemaInvalid)])
              else let e = from_mapping raw
                   in bind_err (event_defects sha es e) (\<lambda>ks. Inr (es @ [e], ds @ map (\<lambda>k. (number, k)) ks)))"

fun scan_lines :: "(string \<Rightarrow> string) \<Rightarrow> (string \<Rightarrow> jraw option) \<Rightarrow> (jobj \<Rightarrow> bool) \<Rightarrow> string list \<Rightarrow> nat \<Rightarrow>
    event list \<times> defect list \<Rightarrow> digest_error + event list \<times> defect list" where
  "scan_lines sha loads schema [] number st = Inr st"
| "scan_lines sha loads schema (l # ls) number st =
     bind_err (scan_line sha loads schema l number st) (scan_lines sha loads schema ls (Suc number))"

definition scan_text :: "(string \<Rightarrow> string) \<Rightarrow> (string \<Rightarrow> jraw option) \<Rightarrow> (jobj \<Rightarrow> bool) \<Rightarrow> string \<Rightarrow>
    digest_error + event list \<times> defect list" where
  "scan_text sha loads schema log = scan_lines sha loads schema (splitlines log) 1 ([], [])"

text \<open>\<^verbatim>\<open>load\<close>: the events, or a refusal naming the defects.\<close>

datatype load_error = Damaged "defect list" | DigestRaised digest_error

definition load_log :: "(string \<Rightarrow> string) \<Rightarrow> (string \<Rightarrow> jraw option) \<Rightarrow> (jobj \<Rightarrow> bool) \<Rightarrow> string \<Rightarrow> load_error + event list" where
  "load_log sha loads schema log =
     (case scan_text sha loads schema log of
        Inl err \<Rightarrow> Inl (DigestRaised err)
      | Inr (es, ds) \<Rightarrow> if ds \<noteq> [] then Inl (Damaged ds) else Inr es)"

definition tail_event :: "(string \<Rightarrow> jraw option) \<Rightarrow> (jobj \<Rightarrow> bool) \<Rightarrow> string \<Rightarrow> chain_error + event option" where
  "tail_event loads schema log =
     (case splitlines log of
        [] \<Rightarrow> Inr None
      | ls \<Rightarrow>
          (case load_json_mapping loads event_limits (last ls) of
             Inl err \<Rightarrow> Inl (LineRejected err)
           | Inr raw \<Rightarrow> if schema raw then Inr (Some (from_mapping raw)) else Inl LineInvalid))"

section \<open>Splitting what was written\<close>

text \<open>No position of the text starts a line boundary.\<close>

fun breakless :: "string \<Rightarrow> bool" where
  "breakless [] = True"
| "breakless (c # r) = (line_break (c # r) = 0 \<and> breakless r)"

lemma line_break_lf: "line_break (c # t @ CHR 0x0A # r) = line_break (c # t @ [CHR 0x0A])"
  by (cases t; cases "tl t") (auto split: list.splits)

lemma line_break_lf0: "line_break (c # t) = 0 \<Longrightarrow> line_break (c # t @ CHR 0x0A # r) = 0"
  by (cases t; cases "tl t") (auto split: if_splits list.splits)

lemma line_break_le: "line_break t \<le> length t"
  by (induction t rule: line_break.induct) (auto split: list.splits)

lemma split_breakless: "breakless l \<Longrightarrow> split_from cur (l @ CHR 0x0A # r) = (cur @ l) # split_from [] r"
proof (induction l arbitrary: cur)
  case (Cons c l)
  then have "line_break ((c # l) @ CHR 0x0A # r) = 0" using line_break_lf0 [of c l r] by simp
  with Cons show ?case by simp
qed simp

lemma split_from_append:
  "split_from cur (t @ CHR 0x0A # r) = split_from cur (t @ [CHR 0x0A]) @ split_from [] r"
proof (induction "length t" arbitrary: cur t rule: less_induct)
  case less
  show ?case
  proof (cases t)
    case (Cons c t')
    show ?thesis
    proof (cases "line_break (c # t' @ [CHR 0x0A])")
      case 0
      with less.hyps [of t' "cur @ [c]"] Cons line_break_lf [of c t' r] show ?thesis by simp
    next
      case (Suc k)
      have k: "k \<le> length (t' @ [CHR 0x0A])" using line_break_le [of "c # t' @ [CHR 0x0A]"] Suc by simp
      show ?thesis
      proof (cases "k \<le> length t'")
        case True
        have "length (drop k t') < length t" using Cons by simp
        from less.hyps [OF this, of "[]"] Cons Suc line_break_lf [of c t' r] True show ?thesis by simp
      next
        case False
        with k have "k = Suc (length t')" by simp
        with Cons Suc line_break_lf [of c t' r] show ?thesis by simp
      qed
    qed
  qed simp
qed

definition ends_line :: "string \<Rightarrow> bool" where
  "ends_line t \<longleftrightarrow> t = [] \<or> last t = CHR 0x0A"

lemma splitlines_append: "ends_line t \<Longrightarrow> splitlines (t @ r) = splitlines t @ splitlines r"
proof (cases t rule: rev_cases)
  case (snoc t' c)
  assume "ends_line t"
  with snoc have "t = t' @ [CHR 0x0A]" by (simp add: ends_line_def)
  then show ?thesis using split_from_append [of "[]" t' r] by (simp add: splitlines_def)
qed (simp add: splitlines_def)

lemma splitlines_lines: "\<forall>l \<in> set ls. breakless l \<Longrightarrow> splitlines (concat (map (\<lambda>l. l @ newline) ls)) = ls"
  by (induction ls) (auto simp: splitlines_def newline_def split_breakless)

lemma ends_line_append: "ends_line t \<Longrightarrow> ends_line (t @ concat (map (\<lambda>l. l @ newline) ls))"
  by (induction ls rule: rev_induct) (auto simp: ends_line_def newline_def)

section \<open>Events through the file\<close>

text \<open>An event as it comes back: the keys of its detail are sorted, at every depth.\<close>

definition norm_event :: "event \<Rightarrow> event" where
  "norm_event e = e\<lparr>ev_detail := as_obj (norm (JObj (ev_detail e)))\<rparr>"

lemma norm_event_fields [simp]:
  "ev_seq (norm_event e) = ev_seq e" "ev_id (norm_event e) = ev_id e" "ev_prev (norm_event e) = ev_prev e"
  "ev_digest (norm_event e) = ev_digest e"
  by (simp_all add: norm_event_def)

lemma map_of_sort_key:
  assumes "distinct (map fst xs)"
  shows "map_of (sort_key fst xs) = map_of xs"
proof -
  have "distinct (map fst (sort_key fst xs))" using assms by (simp add: distinct_map)
  from map_of_inject_set [OF this assms] show ?thesis by simp
qed

lemma map_of_norm:
  assumes "distinct (map fst kvs)"
  shows "map_of (as_obj (norm (JObj kvs))) k = map_option norm (map_of kvs k)"
proof -
  have "distinct (map fst (map (\<lambda>kv. (fst kv, norm (snd kv))) kvs))" using assms by (simp add: comp_def)
  from map_of_sort_key [OF this]
  have "map_of (as_obj (norm (JObj kvs))) k = map_of (map (\<lambda>kv. (fst kv, norm (snd kv))) kvs) k"
    by (simp add: norm.simps(2))
  also have "\<dots> = map_option norm (map_of kvs k)" by (induction kvs) auto
  finally show ?thesis .
qed

lemma keys_to_mapping: "distinct (map fst (to_mapping e))"
  by (simp add: to_mapping_def payload_def)

lemma from_mapping_fields:
  assumes "\<And>k. k \<noteq> ''event_digest'' \<Longrightarrow> map_of m k = map_option norm (map_of (payload e) k)"
    and "map_of m ''event_digest'' = d"
  shows "from_mapping m = (norm_event e)\<lparr>ev_digest := (case d of None \<Rightarrow> '''' | Some v \<Rightarrow> py_str v)\<rparr>"
proof -
  have strs: "map py_str (map norm (map JStr xs)) = xs" for xs by (induction xs) auto
  have det: "as_obj (py_or (norm (JObj d)) (JObj [])) = as_obj (norm (JObj d))" for d
    by (cases d) (simp_all add: py_or_def norm_JObj)
  have arr: "as_arr (py_or (norm (JArr (map JStr xs))) (JArr [])) = map norm (map JStr xs)" for xs
    by (simp add: py_or_def)
  show ?thesis
    unfolding from_mapping_def jget_def str_get_def jget_or_def norm_event_def
    by (rule event.equality)
      (simp_all add: assms payload_def det arr strs del: norm.simps(1,2) map_map split: option.splits)
qed

lemma from_mapping_norm: "from_mapping (as_obj (norm (JObj (to_mapping e)))) = norm_event e"
proof -
  let ?m = "as_obj (norm (JObj (to_mapping e)))"
  have m: "map_of ?m k = map_option norm (map_of (to_mapping e) k)" for k by (rule map_of_norm [OF keys_to_mapping])
  have "map_of (to_mapping e) k = map_of (payload e) k" if "k \<noteq> ''event_digest''" for k
    using that by (simp add: to_mapping_def map_add_def split: option.splits)
  with m have 1: "map_of ?m k = map_option norm (map_of (payload e) k)" if "k \<noteq> ''event_digest''" for k
    using that by metis
  have "map_of (to_mapping e) ''event_digest'' = Some (JStr (ev_digest e))" by (simp add: to_mapping_def payload_def)
  with m have 2: "map_of ?m ''event_digest'' = Some (norm (JStr (ev_digest e)))" by (metis option.map(2))
  from from_mapping_fields [OF 1 2] show ?thesis by (simp add: norm_event_def)
qed

lemma from_mapping_payload: "from_mapping (as_obj (norm (JObj (payload e)))) = (norm_event e)\<lparr>ev_digest := ''''\<rparr>"
proof -
  have "distinct (map fst (payload e))" by (simp add: payload_def)
  note m = map_of_norm [OF this]
  have "map_of (payload e) ''event_digest'' = None" by (simp add: payload_def)
  with m have 2: "map_of (as_obj (norm (JObj (payload e)))) ''event_digest'' = None" by (metis option.map(1))
  from from_mapping_fields [OF m 2] show ?thesis by simp
qed

lemma norm_idem [simp]: "norm (norm v) = norm v"
proof (induction v rule: norm.induct)
  case (1 xs)
  then show ?case by (simp add: comp_def cong: map_cong)
next
  case (2 kvs)
  have "map norm_item (map norm_item (sort_key fst kvs)) = map norm_item (sort_key fst kvs)"
    using 2 by (auto simp: norm_item_def)
  moreover have "sort_key fst (map norm_item (sort_key fst kvs)) = map norm_item (sort_key fst kvs)"
    by (rule sort_key_id_if_sorted) (simp add: comp_def norm_item_def)
  ultimately show ?case by (simp only: norm_JObj)
qed simp_all

lemma finite_floats_norm [simp]: "finite_floats (norm v) = finite_floats v"
  by (induction v rule: norm.induct) (auto simp: norm_JObj norm_item_def sort_key_in)

lemma JObj_norm: "JObj (as_obj (norm (JObj d))) = norm (JObj d)"
  by (simp add: norm_JObj)

lemma norm_payload: "norm (JObj (payload (norm_event e))) = norm (JObj (payload e))"
  unfolding norm.simps(2) by (simp add: payload_def norm_event_def JObj_norm)

definition event_text :: "event \<Rightarrow> string" where
  "event_text e = ser (JObj (payload e))"

lemma finite_floats_digest: "digest_of sha v [] = Inr d \<longleftrightarrow> finite_floats v \<and> d = of_bytes sha (ser v)"
  using check_value_None(1) [of "[]" v]
  by (auto simp: digest_of_def bind_err_def canonical_def prune_def split: option.splits)

lemma event_digest_iff: "event_digest sha e = Inr d \<longleftrightarrow> finite_floats (JObj (ev_detail e)) \<and> d = of_bytes sha (event_text e)"
proof -
  have "finite_floats (JObj (payload e)) \<longleftrightarrow> finite_floats (JObj (ev_detail e))" by (simp add: payload_def)
  then show ?thesis by (simp only: event_digest_def finite_floats_digest event_text_def)
qed

lemma event_text_norm: "event_text (norm_event e) = event_text e"
  unfolding event_text_def by (metis norm_payload ser_norm)

lemma event_digest_norm: "event_digest sha e = Inr d \<Longrightarrow> event_digest sha (norm_event e) = Inr d"
  unfolding event_digest_iff event_text_norm by (simp add: norm_event_def JObj_norm del: finite_floats.simps)

section \<open>The chain\<close>

text \<open>An event is right where it stands: nothing the scan checks is wrong with it.\<close>

definition good_at :: "(string \<Rightarrow> string) \<Rightarrow> event list \<Rightarrow> event \<Rightarrow> bool" where
  "good_at sha es e \<longleftrightarrow> event_digest sha e = Inr (ev_digest e) \<and> ev_seq e \<notin> ev_seq ` set es \<and> ev_id e \<notin> ev_id ` set es \<and>
     ev_seq e = next_seq (last_event es) \<and> ev_prev e = prev_digest (last_event es)"

fun good_chain_from :: "(string \<Rightarrow> string) \<Rightarrow> event list \<Rightarrow> event list \<Rightarrow> bool" where
  "good_chain_from sha es [] = True"
| "good_chain_from sha es (e # r) = (good_at sha es e \<and> good_chain_from sha (es @ [e]) r)"

definition good_chain :: "(string \<Rightarrow> string) \<Rightarrow> event list \<Rightarrow> bool" where
  "good_chain sha es = good_chain_from sha [] es"

lemma good_chain_from_append:
  "good_chain_from sha es (r @ r') \<longleftrightarrow> good_chain_from sha es r \<and> good_chain_from sha (es @ r) r'"
  by (induction r arbitrary: es) auto

lemma good_chain_snoc: "good_chain sha (es @ [e]) \<longleftrightarrow> good_chain sha es \<and> good_at sha es e"
  by (simp add: good_chain_def good_chain_from_append)

text \<open>A line that holds exactly one event.\<close>

definition reads_as :: "(string \<Rightarrow> jraw option) \<Rightarrow> (jobj \<Rightarrow> bool) \<Rightarrow> string \<Rightarrow> event \<Rightarrow> bool" where
  "reads_as loads schema line e \<longleftrightarrow> \<not> blank line \<and>
     (\<exists>raw. load_json_mapping loads event_limits line = Inr raw \<and> schema raw \<and> from_mapping raw = e)"

lemma event_defects_none: "event_defects sha es e = Inr [] \<longleftrightarrow> good_at sha es e"
  by (cases "event_digest sha e") (auto simp: event_defects_def bind_err_def good_at_def)

lemma scan_line_clean:
  "scan_line sha loads schema l n (es, ds) = Inr (es', []) \<longleftrightarrow>
     ds = [] \<and> (\<exists>e. reads_as loads schema l e \<and> good_at sha es e \<and> es' = es @ [e])"
proof (cases "blank l")
  case False
  show ?thesis
  proof (cases "load_json_mapping loads event_limits l")
    case (Inr raw)
    with False show ?thesis
      by (cases "event_defects sha es (from_mapping raw)")
        (auto simp: scan_line_def reads_as_def event_defects_none [symmetric] bind_err_def Let_def)
  qed (use False in \<open>simp add: scan_line_def reads_as_def\<close>)
qed (auto simp: scan_line_def reads_as_def)

lemma scan_line_keeps: "scan_line sha loads schema l n (es, ds) = Inr (es', ds') \<Longrightarrow> \<exists>more. ds' = ds @ more"
  by (auto simp: scan_line_def Let_def split: if_splits sum.splits)

lemma scan_lines_keeps: "scan_lines sha loads schema ls n (es, ds) = Inr (es', ds') \<Longrightarrow> \<exists>more. ds' = ds @ more"
proof (induction ls arbitrary: n es ds)
  case (Cons l ls)
  then obtain es1 ds1 where "scan_line sha loads schema l n (es, ds) = Inr (es1, ds1)"
    "scan_lines sha loads schema ls (Suc n) (es1, ds1) = Inr (es', ds')" by auto
  with Cons.IH [of "Suc n" es1 ds1] scan_line_keeps [of sha loads schema l n es ds es1 ds1] show ?case by auto
qed simp

lemma scan_lines_clean:
  "scan_lines sha loads schema ls n (es, []) = Inr (es', []) \<longleftrightarrow>
     (\<exists>new. es' = es @ new \<and> list_all2 (reads_as loads schema) ls new \<and> good_chain_from sha es new)"
proof (induction ls arbitrary: n es)
  case (Cons l ls)
  show ?case
  proof
    assume "scan_lines sha loads schema (l # ls) n (es, []) = Inr (es', [])"
    then obtain es1 ds1 where 1: "scan_line sha loads schema l n (es, []) = Inr (es1, ds1)"
      and 2: "scan_lines sha loads schema ls (Suc n) (es1, ds1) = Inr (es', [])" by auto
    from scan_lines_keeps [OF 2] have "ds1 = []" by auto
    with 1 2 obtain e new where "reads_as loads schema l e" "good_at sha es e" "es1 = es @ [e]" "es' = es1 @ new"
      "list_all2 (reads_as loads schema) ls new" "good_chain_from sha es1 new"
      unfolding scan_line_clean using Cons.IH [of "Suc n" es1] by (auto simp: scan_line_clean)
    then show "\<exists>new. es' = es @ new \<and> list_all2 (reads_as loads schema) (l # ls) new \<and> good_chain_from sha es new"
      by (intro exI [of _ "e # new"]) simp
  next
    assume "\<exists>new. es' = es @ new \<and> list_all2 (reads_as loads schema) (l # ls) new \<and> good_chain_from sha es new"
    then obtain e new where e: "es' = es @ e # new" "reads_as loads schema l e" "good_at sha es e"
      "list_all2 (reads_as loads schema) ls new" "good_chain_from sha (es @ [e]) new"
      by (auto simp: list_all2_Cons1)
    then have "scan_line sha loads schema l n (es, []) = Inr (es @ [e], [])" unfolding scan_line_clean by blast
    moreover have "scan_lines sha loads schema ls (Suc n) (es @ [e], []) = Inr (es', [])"
      using Cons.IH [of "Suc n" "es @ [e]"] e by auto
    ultimately show "scan_lines sha loads schema (l # ls) n (es, []) = Inr (es', [])" by auto
  qed
qed auto

lemma scan_text_clean:
  "scan_text sha loads schema log = Inr (es, []) \<longleftrightarrow>
     list_all2 (reads_as loads schema) (splitlines log) es \<and> good_chain sha es"
  by (auto simp: scan_text_def scan_lines_clean good_chain_def)

lemma load_log_iff: "load_log sha loads schema log = Inr es \<longleftrightarrow> scan_text sha loads schema log = Inr (es, [])"
  by (auto simp: load_log_def split: sum.splits if_splits)

section \<open>Appending\<close>

text \<open>How a transaction chains its events: each onto the one before it, the first onto the log's last.\<close>

fun link_all :: "(string \<Rightarrow> string) \<Rightarrow> event option \<Rightarrow> event list \<Rightarrow> digest_error + event list" where
  "link_all sha previous [] = Inr []"
| "link_all sha previous (e # es) =
     bind_err (link sha previous e) (\<lambda>l. bind_err (link_all sha (Some l) es) (\<lambda>ls. Inr (l # ls)))"

lemma last_event_snoc [simp]: "last_event (es @ [e]) = Some e"
  by (simp add: last_event_def)

lemma good_chain_seq: "good_chain sha es \<Longrightarrow> map ev_seq es = map (\<lambda>i. int i + 1) [0..<length es]"
proof (induction es rule: rev_induct)
  case (snoc e es)
  then have IH: "map ev_seq es = map (\<lambda>i. int i + 1) [0..<length es]" and g: "good_at sha es e"
    by (simp_all add: good_chain_snoc)
  have "next_seq (last_event es) = int (length es) + 1"
  proof (cases es rule: rev_cases)
    case (snoc as a)
    with IH show ?thesis by (simp add: next_seq_def)
  qed (simp add: last_event_def next_seq_def)
  with g IH show ?case by (simp add: good_at_def)
qed simp

lemma next_seq_fresh: "good_chain sha es \<Longrightarrow> next_seq (last_event es) = int (length es) + 1 \<and> next_seq (last_event es) \<notin> ev_seq ` set es"
proof -
  assume g: "good_chain sha es"
  have n: "next_seq (last_event es) = int (length es) + 1"
  proof (cases es rule: rev_cases)
    case (snoc as a)
    with good_chain_seq [OF g] show ?thesis by (simp add: next_seq_def)
  qed (simp add: last_event_def next_seq_def)
  have "ev_seq ` set es = set (map (\<lambda>i. int i + 1) [0..<length es])"
    by (simp only: good_chain_seq [OF g, symmetric] set_map)
  with n show ?thesis by auto
qed

lemma link_id: "link sha previous e = Inr l \<Longrightarrow> ev_id l = ev_id e"
  by (auto simp: link_def sealed_def)

lemma link_norm: "link sha (Some (norm_event p)) e = link sha (Some p) e"
  by (simp add: link_def next_seq_def prev_digest_def)

lemma link_all_norm: "link_all sha (Some (norm_event p)) es = link_all sha (Some p) es"
  by (cases es) (simp_all add: link_norm)

lemma link_good:
  assumes "good_chain sha es" "link sha (last_event es) e = Inr l" "ev_id e \<notin> ev_id ` set es"
  shows "good_at sha es (norm_event l)"
proof -
  let ?e = "e\<lparr>ev_seq := next_seq (last_event es), ev_prev := prev_digest (last_event es)\<rparr>"
  from assms(2) obtain d where d: "event_digest sha ?e = Inr d" "l = ?e\<lparr>ev_digest := d\<rparr>"
    by (auto simp: link_def sealed_def)
  then have "event_digest sha l = Inr (ev_digest l)" by (simp add: event_digest_def payload_def)
  from event_digest_norm [OF this] d(2) assms(3) conjunct2 [OF next_seq_fresh [OF assms(1)]] show ?thesis
    by (simp add: good_at_def)
qed

lemma link_all_good:
  "good_chain sha es \<Longrightarrow> link_all sha (last_event es) new = Inr new' \<Longrightarrow> distinct (map ev_id new) \<Longrightarrow>
   ev_id ` set new \<inter> ev_id ` set es = {} \<Longrightarrow> good_chain_from sha es (map norm_event new')"
proof (induction new arbitrary: es new')
  case (Cons e new)
  from Cons.prems(2) obtain l ls where l: "link sha (last_event es) e = Inr l"
    and ls: "link_all sha (Some l) new = Inr ls" and new': "new' = l # ls" by auto
  have g: "good_at sha es (norm_event l)" using link_good [OF Cons.prems(1) l] Cons.prems(4) by auto
  then have "good_chain sha (es @ [norm_event l])" using Cons.prems(1) by (simp add: good_chain_snoc)
  moreover have "link_all sha (last_event (es @ [norm_event l])) new = Inr ls"
    using ls by (simp add: link_all_norm)
  moreover have "ev_id ` set new \<inter> ev_id ` set (es @ [norm_event l]) = {}"
    using Cons.prems(3,4) link_id [OF l] by auto
  ultimately have "good_chain_from sha (es @ [norm_event l]) (map norm_event ls)"
    using Cons.IH Cons.prems(3) by simp
  with g new' show ?case by simp
qed simp

text \<open>What the tokenizer must do for an event: read the canonical line back as the value it was made from.\<close>

definition reads_back :: "(string \<Rightarrow> jraw option) \<Rightarrow> event \<Rightarrow> bool" where
  "reads_back loads e \<longleftrightarrow> (case loads (ser (JObj (to_mapping e))) of
      None \<Rightarrow> False
    | Some raw \<Rightarrow> run_hooks raw = Inr (norm (JObj (to_mapping e))))"

definition one_line :: "event \<Rightarrow> bool" where
  "one_line e \<longleftrightarrow> breakless (ser (JObj (to_mapping e)))"

lemma fits_mono:
  "fits lim v \<Longrightarrow> max_scalar_len lim \<le> max_scalar_len lim' \<Longrightarrow> max_collection lim \<le> max_collection lim' \<Longrightarrow> fits lim' v"
  by (induction lim v rule: fits.induct) auto

lemma load_json_mapping_within:
  assumes "loads txt = Some raw" "run_hooks raw = Inr (JObj m)" "within lim (JObj m)" "length txt \<le> max_bytes lim"
    and "max_bytes lim \<le> max_bytes lim'" "max_depth lim \<le> max_depth lim'" "max_scalar_len lim \<le> max_scalar_len lim'"
      "max_collection lim \<le> max_collection lim'" "max_nodes lim \<le> max_nodes lim'"
  shows "load_json_mapping loads lim' txt = Inr m"
proof -
  have "within lim' (JObj m)"
    using assms(3,5-9) fits_mono [of lim "JObj m" lim'] by (auto simp: within_def simp del: fits.simps jnodes.simps jdepth.simps)
  then have "depth_and_size lim' [(JObj m, 1)] 0 = None"
    by (simp add: depth_and_size_iff stack_ok_def within_def del: fits.simps jnodes.simps jdepth.simps)
  with assms(1,2,4,5) show ?thesis
    by (simp add: load_json_mapping_def load_json_def bind_err_def require_mapping_def)
qed

lemma line_for_text:
  assumes "line_for loads schema e = Inr l"
  shows "l = ser (JObj (to_mapping e))"
    and "\<exists>raw. load_json_mapping loads event_limits l = Inr raw \<and> schema raw"
  using assms by (auto simp: line_for_def dumps_def canonical_def prune_def split: sum.splits if_splits option.splits)

lemma line_for_reads:
  assumes l: "line_for loads schema e = Inr l" and r: "reads_back loads e"
  shows "reads_as loads schema l (norm_event e)"
proof -
  from line_for_text [OF l] obtain raw where tx: "l = ser (JObj (to_mapping e))"
    and raw: "load_json_mapping loads event_limits l = Inr raw" "schema raw" by auto
  from r tx obtain t where t: "loads l = Some t" "run_hooks t = Inr (norm (JObj (to_mapping e)))"
    by (auto simp: reads_back_def split: option.splits)
  with raw(1) have "norm (JObj (to_mapping e)) = JObj raw"
    by (auto simp: load_json_mapping_def load_json_def require_mapping_def bind_err_def
        split: if_splits option.splits sum.splits json.splits)
  then have "from_mapping raw = norm_event e" using from_mapping_norm [of e] by simp
  moreover have "CHR ''{'' \<in> set l" "\<not> (is_space (CHR ''{'') \<or> 128 \<le> (of_char (CHR ''{'') :: nat))"
    by (simp_all add: tx ser_JObj is_space_def)
  then have "\<not> blank l" using blank_bytes by blast
  ultimately show ?thesis using raw by (auto simp: reads_as_def)
qed

lemma lines_for_reads:
  "lines_for loads schema es = Inr ls \<Longrightarrow> \<forall>e \<in> set es. reads_back loads e \<and> one_line e \<Longrightarrow>
   list_all2 (reads_as loads schema) ls (map norm_event es) \<and> (\<forall>l \<in> set ls. breakless l)"
  by (induction es arbitrary: ls) (auto simp: line_for_reads one_line_def dest: line_for_text(1))

lemma append_reads:
  assumes "load_log sha loads schema log = Inr es" and "ends_line log"
    and "link_all sha (last_event es) new = Inr new'"
    and "distinct (map ev_id new)" and "ev_id ` set new \<inter> ev_id ` set es = {}"
    and "append_lines loads schema log new' = Inr log'"
    and "\<forall>e \<in> set new'. reads_back loads e \<and> one_line e"
  shows "load_log sha loads schema log' = Inr (es @ map norm_event new') \<and> ends_line log'"
proof -
  from assms(1) have old: "list_all2 (reads_as loads schema) (splitlines log) es" "good_chain sha es"
    by (simp_all add: load_log_iff scan_text_clean)
  from assms(6) obtain ls where ls: "lines_for loads schema new' = Inr ls"
    and log': "log' = log @ concat (map (\<lambda>l. l @ newline) ls)" by (auto simp: append_lines_def)
  from lines_for_reads [OF ls assms(7)] have new: "list_all2 (reads_as loads schema) ls (map norm_event new')"
    and br: "\<forall>l \<in> set ls. breakless l" by auto
  have "splitlines log' = splitlines log @ ls"
    unfolding log' splitlines_append [OF assms(2)] splitlines_lines [OF br] ..
  with old new have "list_all2 (reads_as loads schema) (splitlines log') (es @ map norm_event new')"
    by (simp add: list_all2_appendI)
  moreover have "good_chain sha (es @ map norm_event new')"
    using link_all_good [OF old(2) assms(3-5)] old(2) by (simp add: good_chain_def good_chain_from_append)
  ultimately show ?thesis
    using ends_line_append [OF assms(2)] by (simp add: load_log_iff scan_text_clean log')
qed

text \<open>C7: What is appended is read back: onto a log that loads and whose last line is ended (or that is empty),
  appending chained events with fresh distinct ids gives
  a log that still loads without a defect and ends its last line, and it holds the old events followed by the new ones
  (the keys of their details in canonical order), provided the tokenizer reads the appended lines back and none of
  them contains a character \<^verbatim>\<open>splitlines\<close> breaks at.\<close>

theorem append_then_load:
  assumes "load_log sha loads schema log = Inr es" and "ends_line log"
    and "link_all sha (last_event es) new = Inr new'"
    and "distinct (map ev_id new)" and "ev_id ` set new \<inter> ev_id ` set es = {}"
    and "append_lines loads schema log new' = Inr log'"
    and "\<forall>e \<in> set new'. reads_back loads e \<and> one_line e"
  shows "load_log sha loads schema log' = Inr (es @ map norm_event new') \<and> ends_line log'"
  by (rule append_reads [OF assms])

definition sample_event :: event where
  "sample_event = \<lparr>ev_seq = 0, ev_id = ''e1'', ev_tx = ''t1'', ev_ts = ''now'', ev_kind = ''plan_frozen'', ev_cycle = ''c1'',
     ev_actor = '''', ev_subjects = [], ev_prev = '''', ev_digest = '''', ev_detail = [(''b'', JInt 2), (''a'', JInt 1)]\<rparr>"

definition toy_sha :: "string \<Rightarrow> string" where
  "toy_sha s = dec_nat (length s)"

definition sample_linked :: event where
  "sample_linked = (case link toy_sha None sample_event of Inr l \<Rightarrow> l | Inl _ \<Rightarrow> sample_event)"

definition sample_loads :: "string \<Rightarrow> jraw option" where
  "sample_loads s = (if s = ser (JObj (to_mapping sample_linked))
     then (case norm (JObj (to_mapping sample_linked)) of
        JObj kvs \<Rightarrow> Some (RObj (map (\<lambda>kv. (fst kv, RVal (snd kv))) kvs)) | _ \<Rightarrow> None) else None)"

theorem append_then_load_witness:
  "\<exists>log'. append_lines sample_loads (\<lambda>_. True) '''' [sample_linked] = Inr log' \<and>
     load_log toy_sha sample_loads (\<lambda>_. True) log' = Inr [norm_event sample_linked]"
proof -
  have a: "load_log toy_sha sample_loads (\<lambda>_. True) '''' = Inr []"
    by (simp add: load_log_def scan_text_def splitlines_def)
  have link: "link_all toy_sha (last_event []) [sample_event] = Inr [sample_linked]"
  proof -
    have "\<not> isl (link toy_sha None sample_event)" by code_simp
    then obtain l where "link toy_sha None sample_event = Inr l" by (cases "link toy_sha None sample_event") auto
    then show ?thesis by (simp add: sample_linked_def last_event_def)
  qed
  have r: "reads_back sample_loads sample_linked" by code_simp
  have ol: "one_line sample_linked" by code_simp
  have "\<not> isl (append_lines sample_loads (\<lambda>_. True) '''' [sample_linked])"
  proof -
    let ?l = "ser (JObj (to_mapping sample_linked))"
    let ?lim = "\<lparr>max_bytes = 400, max_depth = 4, max_scalar_len = 100, max_collection = 20, max_nodes = 30\<rparr>"
    obtain m where m: "norm (JObj (to_mapping sample_linked)) = JObj m" by (cases "to_mapping sample_linked") (auto simp: norm_JObj)
    from r m obtain raw where raw: "sample_loads ?l = Some raw" "run_hooks raw = Inr (JObj m)"
      by (auto simp: reads_back_def split: option.splits)
    have w: "within ?lim (JObj m)" unfolding m [symmetric] by code_simp
    have n: "length ?l \<le> max_bytes ?lim" by code_simp
    have "load_json_mapping sample_loads event_limits ?l = Inr m"
      using load_json_mapping_within [of sample_loads ?l raw m ?lim event_limits] raw w n by (simp add: event_limits_def)
    moreover have "dumps sample_linked = Inr ?l" by code_simp
    ultimately show ?thesis by (simp add: append_lines_def line_for_def bind_err_def)
  qed
  then obtain log' where log': "append_lines sample_loads (\<lambda>_. True) '''' [sample_linked] = Inr log'"
    by (cases "append_lines sample_loads (\<lambda>_. True) '''' [sample_linked]") auto
  from append_then_load [OF a _ link _ _ log'] r ol log' show ?thesis by (simp add: ends_line_def)
qed

section \<open>What the head of a chain binds\<close>

lemma floats_ok_payload [simp]: "floats_ok (JObj (payload e)) \<longleftrightarrow> floats_ok (JObj (ev_detail e))"
  by (simp add: payload_def)

lemma event_text_inj:
  assumes "floats_ok (JObj (ev_detail a))" "floats_ok (JObj (ev_detail b))"
    and "event_digest sha a = Inr (ev_digest a)" "event_digest sha b = Inr (ev_digest b)"
    and "event_text a = event_text b"
  shows "norm_event a = norm_event b"
proof -
  have "finite_floats (JObj (payload a))" "finite_floats (JObj (payload b))" "ev_digest a = ev_digest b"
    using assms(3-5) by (simp_all add: event_digest_iff payload_def)
  then have "norm (JObj (payload a)) = norm (JObj (payload b))"
    using ser_prefix_inj [of "JObj (payload a)" "JObj (payload b)" "[]" "[]"] assms(1,2,5)
    by (simp add: event_text_def ends_value_def del: ser.simps norm.simps floats_ok.simps finite_floats.simps)
  with from_mapping_payload [of a] from_mapping_payload [of b]
  have "(norm_event a)\<lparr>ev_digest := ''''\<rparr> = (norm_event b)\<lparr>ev_digest := ''''\<rparr>" by simp
  moreover have "ev_digest (norm_event a) = ev_digest (norm_event b)" using \<open>ev_digest a = ev_digest b\<close> by simp
  ultimately show ?thesis by (cases "norm_event a"; cases "norm_event b") simp
qed

text \<open>C9: The last digest binds the whole log: two logs whose chains hold and whose last events have the
  same digest record the same events (the keys of their details in any order), or two of their event
  payloads are a collision of the hash.\<close>

theorem chain_head_binds:
  assumes "good_chain sha as" "good_chain sha bs" "as \<noteq> []" "bs \<noteq> []"
    and "\<forall>e \<in> set as \<union> set bs. floats_ok (JObj (ev_detail e))"
    and "ev_digest (last as) = ev_digest (last bs)"
  shows "map norm_event as = map norm_event bs \<or>
    (\<exists>a \<in> set as. \<exists>b \<in> set bs. collides sha (event_text a) (event_text b))"
  using assms
proof (induction as arbitrary: bs rule: rev_induct)
  case (snoc a as)
  obtain bs' b where bs: "bs = bs' @ [b]" using snoc.prems(4) by (cases bs rule: rev_cases) auto
  from snoc.prems bs have g: "good_chain sha as" "good_chain sha bs'" "good_at sha as a" "good_at sha bs' b"
    by (simp_all add: good_chain_snoc)
  then have d: "ev_digest a = of_bytes sha (event_text a)" "ev_digest b = of_bytes sha (event_text b)"
    by (auto simp: good_at_def event_digest_iff)
  show ?case
  proof (cases "event_text a = event_text b")
    case False
    with d snoc.prems(6) bs have "collides sha (event_text a) (event_text b)" by (simp add: collides_def of_bytes_def)
    with bs show ?thesis by auto
  next
    case True
    then have ab: "norm_event a = norm_event b"
      using event_text_inj [of a b sha] snoc.prems(5) g bs by (simp add: good_at_def)
    then have seq: "ev_seq a = ev_seq b" and prev: "ev_prev a = ev_prev b" by (metis norm_event_fields)+
    from g seq have len: "length as = length bs'"
      using next_seq_fresh [OF g(1)] next_seq_fresh [OF g(2)] by (simp add: good_at_def)
    show ?thesis
    proof (cases "as = []")
      case False
      with len have "bs' \<noteq> []" by auto
      with False g prev have "ev_digest (last as) = ev_digest (last bs')"
        by (simp add: good_at_def prev_digest_def last_event_def)
      with snoc.IH [of bs'] g False \<open>bs' \<noteq> []\<close> snoc.prems(5) bs ab show ?thesis by auto
    qed (use len ab bs in simp)
  qed
qed simp

lemma chain_root_binds:
  assumes "chain_root sha as = chain_root sha bs"
  shows "map ev_digest as = map ev_digest bs \<or>
    collides sha (concat (map frame (map ev_digest as))) (concat (map frame (map ev_digest bs)))"
  using of_texts_inj assms unfolding chain_root_def by blast

theorem chain_head_binds_witness:
  "good_chain toy_sha [sample_linked] \<and>
   (map norm_event [sample_linked] = map norm_event [sample_linked] \<or>
    (\<exists>a \<in> set [sample_linked]. \<exists>b \<in> set [sample_linked]. collides toy_sha (event_text a) (event_text b)))"
proof
  show g: "good_chain toy_sha [sample_linked]" by code_simp
  have "floats_ok (JObj (ev_detail sample_linked))" by code_simp
  then show "map norm_event [sample_linked] = map norm_event [sample_linked] \<or>
    (\<exists>a \<in> set [sample_linked]. \<exists>b \<in> set [sample_linked]. collides toy_sha (event_text a) (event_text b))"
    using chain_head_binds [OF g g] by simp
qed

section \<open>A line separator inside an event\<close>

text \<open>Canonical text leaves characters outside ASCII as they are, and \<^verbatim>\<open>splitlines\<close> breaks at the Unicode line
  separator: an actor whose name holds U+2028 makes a record that is one line when written and two when read.\<close>

lemma line_separator_splits:
  "\<not> one_line (sample_event\<lparr>ev_actor := [CHR 0xE2, CHR 0x80, CHR 0xA8]\<rparr>) \<and>
   length (splitlines (ser (JObj (to_mapping (sample_event\<lparr>ev_actor := [CHR 0xE2, CHR 0x80, CHR 0xA8]\<rparr>))) @ newline)) = 2"
  by code_simp

end
