(* ===== verification/ReviewsDoc.thy ===== *)
theory ReviewsDoc
  imports Chain
begin

text \<open>
  \<^verbatim>\<open>models.Reviews\<close> (\<^verbatim>\<open>reviews.yaml\<close>: which reviews run, stage by stage, and the normal form that is
  written and recorded) and \<^verbatim>\<open>models.Review\<close> (\<^verbatim>\<open>review.yaml\<close>: the machine half and the human half).
\<close>

section \<open>Stages\<close>

definition builtin_reviews :: "string list" where
  "builtin_reviews = [''adversarial'', ''correctness'', ''simplification'', ''security'']"

definition drafting_stages :: "string list" where
  "drafting_stages = [''requirements'', ''design'', ''tasks'']"

definition review_stages :: "string list" where
  "review_stages = drafting_stages @ [''build'', ''acceptance'']"

definition stage_switches :: "string \<Rightarrow> string list" where
  "stage_switches stage =
     (if stage \<in> set drafting_stages then [''adversarial'']
      else if stage = ''acceptance'' then [''actual_extraction'', ''comparison''] else [])"

section \<open>\<^verbatim>\<open>Reviews\<close>\<close>

datatype reviews_problem =
    ReservedName string
  | SharedName
  | UnknownReview string string
  | StageOwn string string
  | ComparisonAlone

definition rv_custom :: "jobj \<Rightarrow> jobj list" where
  "rv_custom raw = maps_field raw ''custom''"

definition rv_questions :: "jobj \<Rightarrow> (string \<times> string) list" where
  "rv_questions raw = dict_of (map (\<lambda>c. (py_str (jget c ''name''), py_strip (str_get c ''question'' ''''))) (rv_custom raw))"

definition rv_stage :: "jobj \<Rightarrow> string \<Rightarrow> jobj" where
  "rv_stage raw stage = obj_field raw stage"

definition rv_switch :: "jobj \<Rightarrow> string \<Rightarrow> string \<Rightarrow> bool" where
  "rv_switch raw stage name \<longleftrightarrow> jget (rv_stage raw stage) name = JBool True"

definition reviews_at :: "jobj \<Rightarrow> string \<Rightarrow> string list" where
  "reviews_at raw stage = map py_str (as_arr (py_or (jget (rv_stage raw stage) ''reviews'') (JArr [])))"

definition stage_problems :: "string list \<Rightarrow> string \<Rightarrow> string list \<Rightarrow> reviews_problem list" where
  "stage_problems known stage reviews = concat (map (\<lambda>review.
     if review \<notin> set known then [UnknownReview stage review]
     else if review \<in> set (stage_switches stage) then [StageOwn stage review] else []) reviews)"

definition reserved_names :: "string list" where
  "reserved_names = builtin_reviews @ concat (map stage_switches review_stages)"

definition rv_problems :: "jobj \<Rightarrow> reviews_problem list" where
  "rv_problems raw =
     (let custom = map (\<lambda>c. jget c ''name'') (rv_custom raw);
          known = builtin_reviews @ map py_str custom
      in concat (map (\<lambda>v. if v \<in> JStr ` set reserved_names then [ReservedName (py_str v)] else []) custom) @
         (if distinct custom then [] else [SharedName]) @
         concat (map (\<lambda>stage. stage_problems known stage (reviews_at raw stage)) review_stages) @
         (if rv_switch raw ''acceptance'' ''comparison'' \<and> \<not> rv_switch raw ''acceptance'' ''actual_extraction''
          then [ComparisonAlone] else []))"

definition rv_has_stage :: "jobj \<Rightarrow> string \<Rightarrow> bool" where
  "rv_has_stage raw stage \<longleftrightarrow> is_obj (jget raw stage)"

definition normal_stage :: "jobj \<Rightarrow> string \<Rightarrow> jobj" where
  "normal_stage raw stage =
     map (\<lambda>name. (name, JBool (rv_switch raw stage name))) (stage_switches stage) @
     [(''reviews'', JArr (map JStr (reviews_at raw stage)))]"

definition normal_custom :: "jobj \<Rightarrow> json list" where
  "normal_custom raw = map JObj (map (\<lambda>nq. [(''name'', JStr (fst nq)), (''question'', JStr (snd nq))])
     (sort_key fst (rv_questions raw)))"

definition rv_normalized :: "jobj \<Rightarrow> jobj" where
  "rv_normalized raw =
     map (\<lambda>stage. (stage, JObj (normal_stage raw stage))) (filter (rv_has_stage raw) review_stages) @
     (if rv_custom raw \<noteq> [] then [(''custom'', JArr (normal_custom raw))] else [])"

definition rv_adversarial :: "jobj \<Rightarrow> string \<Rightarrow> bool" where
  "rv_adversarial raw stage = rv_switch raw stage ''adversarial''"

record readings =
  rd_extraction :: bool
  rd_comparison :: bool
  rd_reviews :: "string list"
  rd_questions :: "(string \<times> string) list"

definition rv_readings :: "jobj \<Rightarrow> readings" where
  "rv_readings raw =
     \<lparr>rd_extraction = rv_switch raw ''acceptance'' ''actual_extraction'',
      rd_comparison = rv_switch raw ''acceptance'' ''comparison'',
      rd_reviews = reviews_at raw ''acceptance'',
      rd_questions = filter (\<lambda>nq. fst nq \<in> set (reviews_at raw ''acceptance'')) (rv_questions raw)\<rparr>"

definition adversarial_off :: "jobj \<Rightarrow> string list" where
  "adversarial_off raw = filter (\<lambda>stage. \<not> rv_adversarial raw stage) drafting_stages"

section \<open>The normal form\<close>

lemma review_stages_distinct: "distinct review_stages" "''custom'' \<notin> set review_stages"
  by (simp_all add: review_stages_def drafting_stages_def)

lemma switches_plain: "distinct (stage_switches stage)" "''reviews'' \<notin> set (stage_switches stage)"
  by (auto simp: stage_switches_def)

lemma map_of_stages:
  "distinct ss \<Longrightarrow> map_of (map (\<lambda>s. (s, f s)) ss @ r) k = (if k \<in> set ss then Some (f k) else map_of r k)"
  by (induction ss) auto

lemma normal_lookup:
  "map_of (rv_normalized raw) stage =
     (if stage \<in> set review_stages \<and> rv_has_stage raw stage then Some (JObj (normal_stage raw stage))
      else if stage = ''custom'' \<and> rv_custom raw \<noteq> [] then Some (JArr (normal_custom raw)) else None)"
  unfolding rv_normalized_def by (subst map_of_stages) (use review_stages_distinct in auto)

lemma normal_stage_lookup:
  "map_of (normal_stage raw stage) k =
     (if k \<in> set (stage_switches stage) then Some (JBool (rv_switch raw stage k))
      else if k = ''reviews'' then Some (JArr (map JStr (reviews_at raw stage))) else None)"
  unfolding normal_stage_def by (subst map_of_stages) (use switches_plain in auto)

lemma normal_has_stage: "stage \<in> set review_stages \<Longrightarrow> rv_has_stage (rv_normalized raw) stage = rv_has_stage raw stage"
  using review_stages_distinct(2) by (auto simp: rv_has_stage_def jget_def normal_lookup)

lemma normal_switch:
  "stage \<in> set review_stages \<Longrightarrow> name \<in> set (stage_switches stage) \<Longrightarrow>
   rv_switch (rv_normalized raw) stage name = rv_switch raw stage name"
  using review_stages_distinct(2)
  by (auto simp: rv_switch_def rv_stage_def obj_field_eq jget_def normal_lookup normal_stage_lookup rv_has_stage_def
      split: option.splits json.splits)

lemma map_py_str_JStr [simp]: "map (py_str \<circ> JStr) xs = xs"
  by (induction xs) auto

lemma normal_reviews_at: "stage \<in> set review_stages \<Longrightarrow> reviews_at (rv_normalized raw) stage = reviews_at raw stage"
  using review_stages_distinct(2) switches_plain(2) [of stage]
  by (auto simp: reviews_at_def rv_stage_def obj_field_eq jget_def normal_lookup normal_stage_lookup rv_has_stage_def
      py_or_def split: option.splits json.splits)

lemma normal_custom_maps: "rv_custom (rv_normalized raw) =
    map (\<lambda>nq. [(''name'', JStr (fst nq)), (''question'', JStr (snd nq))]) (sort_key fst (rv_questions raw))"
proof -
  have "rv_custom raw = [] \<Longrightarrow> sort_key fst (rv_questions raw) = []" by (simp add: rv_questions_def dict_of_def)
  moreover have "objs_in (normal_custom raw) =
      map (\<lambda>nq. [(''name'', JStr (fst nq)), (''question'', JStr (snd nq))]) (sort_key fst (rv_questions raw))"
    by (simp only: normal_custom_def objs_in_map_JObj)
  ultimately show ?thesis
    using review_stages_distinct(2) by (auto simp: rv_custom_def [of "rv_normalized raw"] maps_field_eq normal_lookup)
qed

lemma questions_distinct: "distinct (map fst (rv_questions raw))"
  by (simp add: rv_questions_def dict_of_distinct)

lemma dict_of_vals: "set (dict_of ps) \<subseteq> set ps"
proof -
  have upd: "set (AList.update k v d) \<subseteq> insert (k, v) (set d)" for k v and d :: "('a \<times> 'b) list"
    by (induction d) auto
  have "set (fold (\<lambda>(k, v). AList.update k v) ps d) \<subseteq> set d \<union> set ps" for d :: "('a \<times> 'b) list"
  proof (induction ps arbitrary: d)
    case (Cons p ps)
    obtain k v where p: "p = (k, v)" by (cases p)
    from Cons.IH [of "AList.update k v d"] upd [of k v d] show ?case unfolding p by auto
  qed simp
  from this [of "[]"] show ?thesis by (simp add: dict_of_def)
qed

lemma questions_stripped: "(n, q) \<in> set (rv_questions raw) \<Longrightarrow> py_strip q = q"
  using dict_of_vals unfolding rv_questions_def by fastforce

lemma normal_questions: "rv_questions (rv_normalized raw) = sort_key fst (rv_questions raw)"
proof -
  let ?qs = "sort_key fst (rv_questions raw)"
  have "rv_questions (rv_normalized raw) = dict_of (map (\<lambda>nq. (fst nq, py_strip (snd nq))) ?qs)"
    by (simp add: rv_questions_def [of "rv_normalized raw"] normal_custom_maps comp_def jget_def str_get_def jget_or_def)
  also have "map (\<lambda>nq. (fst nq, py_strip (snd nq))) ?qs = ?qs"
    by (rule map_idI) (use questions_stripped [of _ _ raw] in auto)
  also have "dict_of ?qs = ?qs"
    by (rule dict_of_id) (use questions_distinct [of raw] in \<open>simp add: distinct_map\<close>)
  finally show ?thesis .
qed

lemma sort_key_set_unique:
  assumes "distinct (map fst xs)" "distinct (map fst ys)" "set xs = set ys"
  shows "sort_key fst xs = sort_key (fst :: 'a::linorder \<times> 'b \<Rightarrow> 'a) ys"
proof (rule map_sorted_distinct_set_unique [where f = fst])
  show "inj_on fst (set (sort_key fst xs) \<union> set (sort_key fst ys))"
    using assms by (simp add: distinct_map)
qed (use assms in \<open>simp_all add: distinct_map\<close>)

text \<open>When two documents run the same reviews: the same stages present, with the same switches and the
  same reviews in the same order, and the same question under each custom name.\<close>

definition runs_same :: "jobj \<Rightarrow> jobj \<Rightarrow> bool" where
  "runs_same a b \<longleftrightarrow>
     (\<forall>stage \<in> set review_stages. rv_has_stage a stage = rv_has_stage b stage \<and>
        (rv_has_stage a stage \<longrightarrow> reviews_at a stage = reviews_at b stage \<and>
           (\<forall>name \<in> set (stage_switches stage). rv_switch a stage name = rv_switch b stage name))) \<and>
     set (rv_questions a) = set (rv_questions b)"

lemma questions_empty: "rv_custom raw = [] \<longleftrightarrow> rv_questions raw = []"
proof (cases "rv_custom raw")
  case (Cons c cs)
  have "fst ` set (rv_questions raw) \<noteq> {}" by (simp add: rv_questions_def dict_of_keys Cons)
  then show ?thesis using Cons by auto
qed (simp add: rv_questions_def dict_of_def)

lemma normalized_eq: "rv_normalized a = rv_normalized b \<longleftrightarrow> runs_same a b"
proof
  assume eq: "rv_normalized a = rv_normalized b"
  have "set (rv_questions a) = set (rv_questions b)"
    using normal_questions [of a] normal_questions [of b] eq by (metis set_sort)
  with eq show "runs_same a b"
    unfolding runs_same_def by (metis normal_has_stage normal_reviews_at normal_switch)
next
  assume same: "runs_same a b"
  then have q: "sort_key fst (rv_questions a) = sort_key fst (rv_questions b)"
    by (intro sort_key_set_unique questions_distinct) (simp add: runs_same_def)
  then have "rv_custom a = [] \<longleftrightarrow> rv_custom b = []"
    using same by (simp add: runs_same_def questions_empty) (metis set_empty)
  moreover have "filter (rv_has_stage a) review_stages = filter (rv_has_stage b) review_stages"
    using same by (intro filter_cong) (auto simp: runs_same_def)
  moreover have "normal_stage a stage = normal_stage b stage" if "stage \<in> set (filter (rv_has_stage b) review_stages)" for stage
    using that same by (auto simp: runs_same_def normal_stage_def)
  ultimately show "rv_normalized a = rv_normalized b"
    using q by (auto simp: rv_normalized_def normal_custom_def)
qed

text \<open>Two documents have the same normal form exactly when they run the same reviews: stage for stage
  the same switches and the same reviews in the same order, and the same question under each custom
  name, however the custom reviews are ordered.\<close>

theorem normalized_iff: "rv_normalized a = rv_normalized b \<longleftrightarrow> runs_same a b"
  by (rule normalized_eq)

text \<open>The normal form is one: it is its own normal form, and it runs the same reviews as the document
  it was made from.\<close>

theorem normalized_idempotent:
  "rv_normalized (rv_normalized raw) = rv_normalized raw \<and> runs_same (rv_normalized raw) raw"
proof -
  have "runs_same (rv_normalized raw) raw"
    by (simp add: runs_same_def normal_has_stage normal_reviews_at normal_switch normal_questions)
  then show ?thesis by (simp add: normalized_eq [symmetric])
qed

section \<open>\<^verbatim>\<open>Review\<close>\<close>

definition rw_machine :: "jobj \<Rightarrow> jobj" where
  "rw_machine raw = obj_field raw ''machine''"

definition rw_human :: "jobj \<Rightarrow> jobj" where
  "rw_human raw = obj_field raw ''human''"

definition machine_digest :: "(string \<Rightarrow> string) \<Rightarrow> jobj \<Rightarrow> digest_error + string" where
  "machine_digest sha raw = digest_of sha (JObj (rw_machine raw)) volatile_timestamp_keys"

definition human_digest :: "(string \<Rightarrow> string) \<Rightarrow> jobj \<Rightarrow> digest_error + string" where
  "human_digest sha raw = digest_of sha (JObj (rw_human raw)) volatile_timestamp_keys"

definition machine_status :: "jobj \<Rightarrow> string" where
  "machine_status raw = str_field (rw_machine raw) ''status'' ''not_generated''"

definition is_generated :: "jobj \<Rightarrow> bool" where
  "is_generated raw \<longleftrightarrow> machine_status raw = ''generated''"

definition rw_binding :: "jobj \<Rightarrow> jobj" where
  "rw_binding raw = obj_field (rw_machine raw) ''binding''"

definition subject_head_sha :: "jobj \<Rightarrow> string" where
  "subject_head_sha raw = str_field (rw_binding raw) ''subject_head_sha'' ''''"

definition rw_change_digest :: "jobj \<Rightarrow> string" where
  "rw_change_digest raw = str_field (rw_binding raw) ''change_digest'' ''''"

definition host_surface_digest :: "jobj \<Rightarrow> string" where
  "host_surface_digest raw = str_field (rw_binding raw) ''host_surface_digest'' ''''"

definition rw_effective_risk :: "jobj \<Rightarrow> string" where
  "rw_effective_risk raw =
     (let recorded = str_field (rw_machine raw) ''effective_risk'' ''''
      in if recorded \<in> set risk_order then recorded else ''high'')"

definition human_status :: "jobj \<Rightarrow> string" where
  "human_status raw = str_field (rw_human raw) ''status'' ''not_started''"

definition actual_statements :: "jobj \<Rightarrow> jobj list" where
  "actual_statements raw = maps_field (rw_machine raw) ''actual_extraction''"

definition claim_results :: "jobj \<Rightarrow> jobj list" where
  "claim_results raw = maps_field (rw_machine raw) ''claims''"

definition extra_behaviors :: "jobj \<Rightarrow> jobj list" where
  "extra_behaviors raw = maps_field (rw_machine raw) ''extra_behaviors''"

definition rw_local_decisions :: "jobj \<Rightarrow> jobj list" where
  "rw_local_decisions raw = maps_field (rw_machine raw) ''local_decisions''"

definition rw_observations :: "jobj \<Rightarrow> jobj list" where
  "rw_observations raw = maps_field (rw_machine raw) ''observations''"

definition review_findings :: "jobj \<Rightarrow> jobj list" where
  "review_findings raw = maps_field (obj_field (rw_machine raw) ''reviews'') ''findings''"

definition extraction_read :: "jobj \<Rightarrow> bool" where
  "extraction_read raw \<longleftrightarrow> jget (obj_field (rw_machine raw) ''acceptance'') ''actual_extraction'' = JBool True"

definition comparison_read :: "jobj \<Rightarrow> bool" where
  "comparison_read raw \<longleftrightarrow> jget (obj_field (rw_machine raw) ''acceptance'') ''comparison'' = JBool True"

definition reviews_read :: "jobj \<Rightarrow> string list" where
  "reviews_read raw = map py_str (as_arr (jget (obj_field (rw_machine raw) ''reviews'') ''read''))"

definition finding_closed :: "jobj \<Rightarrow> bool" where
  "finding_closed f \<longleftrightarrow> jget f ''status'' \<in> {JStr ''resolved'', JStr ''disputed''}"

definition open_findings :: "jobj \<Rightarrow> jobj list" where
  "open_findings raw = filter (\<lambda>f. \<not> finding_closed f) (review_findings raw)"

definition blocking_findings :: "jobj \<Rightarrow> jobj list" where
  "blocking_findings raw = filter (\<lambda>f. jget f ''blocking'' = JBool True \<and> \<not> finding_closed f) (review_findings raw)"

definition rw_coverage :: "jobj \<Rightarrow> jobj" where
  "rw_coverage raw = obj_field (rw_machine raw) ''coverage''"

definition coverage_sufficient :: "jobj \<Rightarrow> bool" where
  "coverage_sufficient raw \<longleftrightarrow> is_generated raw \<and> rw_coverage raw \<noteq> [] \<and>
     str_field (rw_coverage raw) ''coverage_status'' '''' = ''sufficient''"

lemma obj_field_jset_other: "k \<noteq> k' \<Longrightarrow> obj_field (jset k v raw) k' = obj_field raw k'"
  by (simp add: obj_field_eq update_conv')

text \<open>The two halves of a review do not stale each other: recording anything in the human half leaves
  the machine half's digest, its findings and its verdicts on coverage and risk as they were, and
  regenerating the machine half leaves the human half's digest as it was.\<close>

theorem review_halves_independent:
  "machine_digest sha (jset ''human'' h raw) = machine_digest sha raw \<and>
   blocking_findings (jset ''human'' h raw) = blocking_findings raw \<and>
   coverage_sufficient (jset ''human'' h raw) = coverage_sufficient raw \<and>
   rw_effective_risk (jset ''human'' h raw) = rw_effective_risk raw \<and>
   human_digest sha (jset ''machine'' m raw) = human_digest sha raw \<and>
   human_status (jset ''machine'' m raw) = human_status raw"
proof -
  have "rw_machine (jset ''human'' h raw) = rw_machine raw" "rw_human (jset ''machine'' m raw) = rw_human raw"
    by (simp_all add: rw_machine_def rw_human_def obj_field_jset_other)
  then show ?thesis
    by (simp add: machine_digest_def human_digest_def blocking_findings_def review_findings_def coverage_sufficient_def
        is_generated_def machine_status_def rw_coverage_def rw_effective_risk_def human_status_def)
qed

text \<open>What a review that says nothing is worth: not generated, not sufficient, and of high risk.\<close>

lemma empty_review_strict:
  "rw_machine raw = [] \<Longrightarrow> \<not> is_generated raw \<and> \<not> coverage_sufficient raw \<and> rw_effective_risk raw = ''high''"
  by (simp add: is_generated_def machine_status_def coverage_sufficient_def rw_effective_risk_def str_field_eq
      risk_order_def)

lemma blocking_open: "set (blocking_findings raw) \<subseteq> set (open_findings raw)"
  by (auto simp: blocking_findings_def open_findings_def)

end
