(* ===== verification/ConfigDoc.thy ===== *)
theory ConfigDoc
  imports ReviewsDoc
begin

text \<open>
  \<^verbatim>\<open>models.Config\<close>, \<^verbatim>\<open>ExecutorProfile\<close>, \<^verbatim>\<open>GateStep\<close> and \<^verbatim>\<open>FileReaderSpec\<close>: \<^verbatim>\<open>config.yaml\<close>, the part of it the
  mandate freezes and the part it leaves to the environment, and where repository code may run.
  Shell patterns (\<^verbatim>\<open>fnmatch\<close>) are matched character by character. \<^verbatim>\<open>max_cost_usd\<close>, a float, is left out.
\<close>

section \<open>Shell patterns\<close>

datatype glob_token = GStar | GAny | GSet bool "(string \<times> string) list" | GChar string

text \<open>The ranges between the brackets: a character, or two with a hyphen between them.\<close>

fun set_ranges :: "string list \<Rightarrow> (string \<times> string) list" where
  "set_ranges [] = []"
| "set_ranges [c] = [(c, c)]"
| "set_ranges [c, d] = [(c, c), (d, d)]"
| "set_ranges (c # d # e # cs) = (if d = ''-'' then (c, e) # set_ranges cs else (c, c) # set_ranges (d # e # cs))"

text \<open>What stands between the brackets, and what comes after: a closing bracket in the first place (after
  the exclamation mark) is a member, and without a closing one the opening bracket stands for itself.\<close>

definition set_body :: "string list \<Rightarrow> string list option" where
  "set_body r =
     (let neg = (case r of c # _ \<Rightarrow> c = ''!'' | [] \<Rightarrow> False);
          k = (if neg then 1 else 0);
          first = (if k < length r \<and> r ! k = '']'' then Suc k else k);
          body = take first r @ takeWhile (\<lambda>c. c \<noteq> '']'') (drop first r)
      in if length body < length r then Some body else None)"

function glob_tokens :: "string list \<Rightarrow> glob_token list" where
  "glob_tokens [] = []"
| "glob_tokens (c # r) =
     (if c = ''*'' then GStar # glob_tokens r
      else if c = ''?'' then GAny # glob_tokens r
      else if c = ''['' then
        (case set_body r of
           None \<Rightarrow> GChar c # glob_tokens r
         | Some body \<Rightarrow>
             (case body of
                x # xs \<Rightarrow> if x = ''!'' then GSet False (set_ranges xs) else GSet True (set_ranges body)
              | [] \<Rightarrow> GSet True []) # glob_tokens (drop (Suc (length body)) r))
      else GChar c # glob_tokens r)"
  by pat_completeness auto
termination by (relation "measure length") auto

fun glob :: "glob_token list \<Rightarrow> string list \<Rightarrow> bool" where
  "glob [] s = (s = [])"
| "glob (GStar # ts) [] = glob ts []"
| "glob (GStar # ts) (c # s) = (glob ts (c # s) \<or> glob (GStar # ts) s)"
| "glob (t # ts) [] = False"
| "glob (GAny # ts) (c # s) = glob ts s"
| "glob (GSet pos rs # ts) (c # s) = ((list_ex (\<lambda>r. fst r \<le> c \<and> c \<le> snd r) rs = pos) \<and> glob ts s)"
| "glob (GChar d # ts) (c # s) = (c = d \<and> glob ts s)"

definition fnmatch :: "string \<Rightarrow> string \<Rightarrow> bool" where
  "fnmatch path pattern = glob (glob_tokens (chars_of pattern)) (chars_of path)"

section \<open>Profiles, steps, readers\<close>

type_synonym profile = "string \<times> jobj"

definition profile_kind :: "profile \<Rightarrow> string" where
  "profile_kind p = str_field (snd p) ''kind'' ''host''"

definition is_sandboxed :: "profile \<Rightarrow> bool" where
  "is_sandboxed p \<longleftrightarrow> profile_kind p = ''oci''"

definition is_agent_sandbox :: "profile \<Rightarrow> bool" where
  "is_agent_sandbox p \<longleftrightarrow> profile_kind p = ''oci-agent''"

definition runs_contained :: "profile \<Rightarrow> bool" where
  "runs_contained p \<longleftrightarrow> is_sandboxed p \<or> is_agent_sandbox p"

definition profile_image :: "profile \<Rightarrow> string" where
  "profile_image p = str_field (snd p) ''image'' ''''"

definition profile_containerfile :: "profile \<Rightarrow> string" where
  "profile_containerfile p = str_field (snd p) ''containerfile'' ''''"

definition profile_dockerfile :: "profile \<Rightarrow> string" where
  "profile_dockerfile p = str_field (snd p) ''dockerfile'' ''''"

definition build_target :: "profile \<Rightarrow> string" where
  "build_target p = (if profile_containerfile p \<noteq> [] then profile_containerfile p else fst p)"

definition image_digest :: "profile \<Rightarrow> string" where
  "image_digest p = tl (dropWhile (\<lambda>c. c \<noteq> CHR ''@'') (profile_image p))"

definition network_profile :: "profile \<Rightarrow> string" where
  "network_profile p = str_field (snd p) ''network_profile'' ''''"

definition env_allowlist :: "profile \<Rightarrow> string list" where
  "env_allowlist p = ids_field (snd p) ''env_allowlist''"

definition step_name :: "jobj \<Rightarrow> string" where
  "step_name st = str_field st ''name'' ''''"

definition step_command :: "jobj \<Rightarrow> string list" where
  "step_command st = ids_field st ''command''"

definition step_profile :: "jobj \<Rightarrow> string" where
  "step_profile st = str_field st ''executor_profile'' ''''"

definition step_retries :: "jobj \<Rightarrow> int" where
  "step_retries st = (case as_pyint (jget st ''retries'') of Some n \<Rightarrow> n | None \<Rightarrow> 0)"

definition step_required :: "jobj \<Rightarrow> bool" where
  "step_required st = truthy (jget st ''required'')"

definition step_runs_tests :: "jobj \<Rightarrow> bool" where
  "step_runs_tests st \<longleftrightarrow> jget st ''runs_tests'' = JBool True"

definition step_junit :: "jobj \<Rightarrow> string" where
  "step_junit st = str_field st ''junit'' ''''"

definition step_paths :: "jobj \<Rightarrow> string list" where
  "step_paths st = ids_field st ''paths''"

definition step_stage :: "jobj \<Rightarrow> string" where
  "step_stage st =
     (let v = str_field st ''stage'' ''both'' in if v \<in> {''task'', ''integration'', ''both''} then v else ''both'')"

record file_reader =
  fr_name :: string
  fr_paths :: "string list"
  fr_command :: "string list"

definition reader_claims :: "file_reader \<Rightarrow> string \<Rightarrow> bool" where
  "reader_claims r path = list_ex (fnmatch path) (fr_paths r)"

section \<open>The document\<close>

definition cf_project :: "jobj \<Rightarrow> string \<Rightarrow> string \<Rightarrow> string" where
  "cf_project raw k d = str_field (obj_field raw ''project'') k d"

definition work_branch :: "jobj \<Rightarrow> string" where
  "work_branch raw = cf_project raw ''work_branch'' ''''"

definition mainline :: "jobj \<Rightarrow> string" where
  "mainline raw = cf_project raw ''mainline'' ''''"

definition cf_language :: "jobj \<Rightarrow> string" where
  "cf_language raw = cf_project raw ''language'' ''en''"

definition cf_execution :: "jobj \<Rightarrow> jobj" where
  "cf_execution raw = obj_field raw ''execution''"

definition max_parallel :: "jobj \<Rightarrow> int" where
  "max_parallel raw = as_int (jget (cf_execution raw) ''max_parallel'') 3"

definition worktree_dir :: "jobj \<Rightarrow> string" where
  "worktree_dir raw = str_field (cf_execution raw) ''worktree_dir'' ''.worktrees''"

definition command_timeout_sec :: "jobj \<Rightarrow> int" where
  "command_timeout_sec raw = as_int (jget (cf_execution raw) ''command_timeout_sec'') 1800"

definition agent_timeout_sec :: "jobj \<Rightarrow> int" where
  "agent_timeout_sec raw = as_int (jget (cf_execution raw) ''agent_timeout_sec'') 0"

definition launch_retries :: "jobj \<Rightarrow> int" where
  "launch_retries raw = as_int (jget (cf_execution raw) ''launch_retries'') 2"

definition cf_profiles :: "jobj \<Rightarrow> profile list" where
  "cf_profiles raw = obj_items (obj_field raw ''executor_profiles'')"

definition named_profile :: "jobj \<Rightarrow> string \<Rightarrow> profile option" where
  "named_profile raw name = map_option (Pair name) (map_of (cf_profiles raw) name)"

definition quality_gate_profile :: "jobj \<Rightarrow> profile option" where
  "quality_gate_profile raw =
     (case jget raw ''executors'' of JObj ex \<Rightarrow> named_profile raw (str_field ex ''quality_gate_profile'' '''') | _ \<Rightarrow> None)"

definition agent_profile :: "jobj \<Rightarrow> profile option" where
  "agent_profile raw =
     (case jget raw ''executors'' of JObj ex \<Rightarrow> named_profile raw (str_field ex ''agent_profile'' '''') | _ \<Rightarrow> None)"

definition quality_gate :: "jobj \<Rightarrow> jobj list" where
  "quality_gate raw = maps_field raw ''quality_gate''"

definition cf_agents :: "jobj \<Rightarrow> (string \<times> jobj) list" where
  "cf_agents raw = obj_items (obj_field raw ''agents'')"

definition agent_field :: "jobj \<Rightarrow> string \<Rightarrow> string \<Rightarrow> string" where
  "agent_field raw role k = (case map_of (cf_agents raw) role of Some body \<Rightarrow> str_field body k '''' | None \<Rightarrow> '''')"

definition cf_model :: "jobj \<Rightarrow> string \<Rightarrow> string" where
  "cf_model raw role = agent_field raw role ''model''"

definition cf_adapter :: "jobj \<Rightarrow> string \<Rightarrow> string" where
  "cf_adapter raw role = agent_field raw role ''adapter''"

definition independence_group :: "jobj \<Rightarrow> string \<Rightarrow> string" where
  "independence_group raw role =
     (if cf_adapter raw role \<noteq> [] \<and> cf_model raw role \<noteq> [] then cf_adapter raw role @ ''/'' @ cf_model raw role else '''')"

definition template_mode :: "jobj \<Rightarrow> bool" where
  "template_mode raw = truthy (jget (obj_field raw ''guard'') ''template_mode'')"

definition guard_paths :: "jobj \<Rightarrow> string list" where
  "guard_paths raw = filter (\<lambda>p. p \<noteq> []) (strs_in (as_arr (jget (obj_field raw ''guard'') ''paths'')))"

definition scope_additions :: "jobj \<Rightarrow> string list" where
  "scope_additions raw = ids_field (obj_field raw ''guard'') ''scope_additions''"

definition review_policy_field :: "jobj \<Rightarrow> string \<Rightarrow> json" where
  "review_policy_field raw k = jget (obj_field raw ''review_policy'') k"

definition cf_budgets :: "jobj \<Rightarrow> (string \<times> int) list" where
  "cf_budgets raw = (case jget (as_obj (review_policy_field raw ''budgets'')) ''max_diff_bytes'' of
      JInt n \<Rightarrow> [(''max_diff_bytes'', n)] | _ \<Rightarrow> [])"

definition repair_rounds :: "jobj \<Rightarrow> int" where
  "repair_rounds raw = as_int (review_policy_field raw ''repair_rounds'') 2"

text \<open>The schema requires the three keys of an entry.\<close>

definition file_readers :: "jobj \<Rightarrow> file_reader list" where
  "file_readers raw = map (\<lambda>e. \<lparr>fr_name = py_str (jget e ''name''), fr_paths = map py_str (as_arr (jget e ''paths'')),
      fr_command = map py_str (as_arr (jget e ''command''))\<rparr>) (objs_in (as_arr (review_policy_field raw ''file_readers'')))"

definition composition :: "jobj \<Rightarrow> string" where
  "composition raw = (if review_policy_field raw ''composition'' = JStr ''whole'' then ''whole'' else ''auto'')"

definition lens_judgement :: "jobj \<Rightarrow> jobj" where
  "lens_judgement raw = as_obj (review_policy_field raw ''lens_judgement'')"

definition cf_github :: "jobj \<Rightarrow> jobj" where
  "cf_github raw = obj_field raw ''github''"

section \<open>Where repository code runs\<close>

text \<open>The profile a command step runs in: its own when the config has it, otherwise the gate's.\<close>

definition resolved_profile :: "jobj \<Rightarrow> jobj \<Rightarrow> profile option" where
  "resolved_profile raw st =
     (case (if step_profile st \<noteq> [] then named_profile raw (step_profile st) else None) of
        Some p \<Rightarrow> Some p | None \<Rightarrow> quality_gate_profile raw)"

definition unsandboxed_profiles :: "jobj \<Rightarrow> profile list" where
  "unsandboxed_profiles raw = filter (\<lambda>p. \<not> is_sandboxed p)
     (dict_of (concat (map (\<lambda>st. case resolved_profile raw st of Some p \<Rightarrow> [p] | None \<Rightarrow> []) (quality_gate raw))))"

definition unsandboxed_code_profiles :: "jobj \<Rightarrow> string list" where
  "unsandboxed_code_profiles raw = sorted_set (map fst (unsandboxed_profiles raw))"

definition unsandboxed_build_targets :: "jobj \<Rightarrow> string list" where
  "unsandboxed_build_targets raw = sorted_set (map build_target (unsandboxed_profiles raw))"

definition config_setup_command :: "jobj \<Rightarrow> string" where
  "config_setup_command raw = sandbox_setup_command (unsandboxed_build_targets raw)"

datatype config_problem = ReaderNamesRepeated "string list" | ReadersUnsandboxed "profile option"

definition config_problems :: "jobj \<Rightarrow> config_problem list" where
  "config_problems raw =
     (if file_readers raw = [] then []
      else let names = map fr_name (file_readers raw);
               repeated = sorted_set (filter (\<lambda>n. 1 < count_list names n) names);
               profile = quality_gate_profile raw
           in (if repeated \<noteq> [] then [ReaderNamesRepeated repeated] else []) @
              (case profile of
                 None \<Rightarrow> [ReadersUnsandboxed None]
               | Some p \<Rightarrow> if is_sandboxed p then [] else [ReadersUnsandboxed (Some p)]))"

section \<open>What the mandate freezes\<close>

definition strip_pin :: "json \<Rightarrow> json" where
  "strip_pin body = (case body of JObj kvs \<Rightarrow> JObj (filter (\<lambda>kv. fst kv \<noteq> ''image'') kvs) | _ \<Rightarrow> body)"

definition without_mutable :: "jobj \<Rightarrow> jobj" where
  "without_mutable raw =
     (let without = filter (\<lambda>kv. fst kv \<noteq> ''agents'') raw
      in case jget raw ''executor_profiles'' of
           JObj profiles \<Rightarrow> jset ''executor_profiles'' (JObj (map (\<lambda>kv. (fst kv, strip_pin (snd kv))) profiles)) without
         | _ \<Rightarrow> without)"

definition frozen_digest :: "(string \<Rightarrow> string) \<Rightarrow> jobj \<Rightarrow> digest_error + string" where
  "frozen_digest sha raw = digest_of sha (JObj (without_mutable raw)) volatile_timestamp_keys"

definition environment_view :: "jobj \<Rightarrow> jobj" where
  "environment_view raw = [(''executors'', jget raw ''executors''), (''executor_profiles'', jget raw ''executor_profiles''),
     (''agents'', jget raw ''agents'')]"

definition environment_digest :: "(string \<Rightarrow> string) \<Rightarrow> jobj \<Rightarrow> digest_error + string" where
  "environment_digest sha raw = digest_of sha (JObj (environment_view raw)) []"

section \<open>What the frozen digest binds\<close>

abbreviation volatile :: "string list" where
  "volatile \<equiv> volatile_timestamp_keys"

lemma prune_volatile: "prune (JObj kvs) volatile =
    JObj (map (\<lambda>kv. (fst kv, prune_keys volatile (snd kv))) (filter (\<lambda>kv. fst kv \<notin> set volatile) kvs))"
  by (simp add: prune_def volatile_timestamp_keys_def)

lemma map_of_pruned:
  "map_of (map (\<lambda>kv. (fst kv, f (snd kv))) (filter (\<lambda>kv. fst kv \<notin> S) kvs)) k =
     (if k \<in> S then None else map_option f (map_of kvs k))"
  by (induction kvs) auto

lemma map_of_vals: "map_of (map (\<lambda>kv. (fst kv, f (snd kv))) kvs) k = map_option f (map_of kvs k)"
  by (induction kvs) auto

lemma distinct_pruned: "distinct (map fst kvs) \<Longrightarrow>
    distinct (map fst (map (\<lambda>kv. (fst kv, f (snd kv))) (filter P kvs)))"
  by (simp add: comp_def distinct_map_filter)

lemma norm_lookup:
  assumes "norm (JObj a) = norm (JObj b)" "distinct (map fst a)" "distinct (map fst b)"
  shows "map_option norm (map_of a k) = map_option norm (map_of b k)"
  using map_of_norm [OF assms(2), of k] map_of_norm [OF assms(3), of k] assms(1) by simp

lemma floats_ok_prune: "floats_ok v \<Longrightarrow> floats_ok (prune_keys ks v)"
  by (induction ks v rule: prune_keys.induct) auto

lemma floats_ok_filter: "floats_ok (JObj kvs) \<Longrightarrow> floats_ok (JObj (filter P kvs))"
  by simp

lemma floats_ok_strip: "floats_ok v \<Longrightarrow> floats_ok (strip_pin v)"
  by (cases v) (simp_all add: strip_pin_def floats_ok_filter del: floats_ok.simps(3))

lemma floats_ok_vals: "floats_ok (JObj kvs) \<Longrightarrow> (\<And>v. floats_ok v \<Longrightarrow> floats_ok (f v)) \<Longrightarrow>
    floats_ok (JObj (map (\<lambda>kv. (fst kv, f (snd kv))) kvs))"
  by simp

lemma update_set: "set (AList.update k v d) \<subseteq> insert (k, v) (set d)"
  by (induction d) auto

lemma floats_ok_jset: "floats_ok v \<Longrightarrow> floats_ok (JObj d) \<Longrightarrow> floats_ok (JObj (jset k v d))"
  unfolding floats_ok.simps using update_set [of k v d] by (metis insertE snd_conv subsetD)

lemma floats_ok_jget: "floats_ok (JObj raw) \<Longrightarrow> floats_ok (jget raw k)"
  by (auto simp: jget_def split: option.splits dest!: map_of_SomeD)

lemma floats_ok_without: "floats_ok (JObj raw) \<Longrightarrow> floats_ok (JObj (without_mutable raw))"
proof -
  assume ok: "floats_ok (JObj raw)"
  note w = floats_ok_filter [OF ok, of "\<lambda>kv. fst kv \<noteq> ''agents''"]
  show ?thesis
  proof (cases "jget raw ''executor_profiles''")
    case (JObj ps)
    with floats_ok_jget [OF ok] have "floats_ok (JObj ps)" by metis
    from floats_ok_jset [OF floats_ok_vals [OF this floats_ok_strip] w] show ?thesis
      using JObj by (simp add: without_mutable_def Let_def del: floats_ok.simps)
  qed (use w in \<open>simp_all add: without_mutable_def Let_def del: floats_ok.simps\<close>)
qed

lemma distinct_without: "distinct (map fst raw) \<Longrightarrow> distinct (map fst (without_mutable raw))"
  by (cases "jget raw ''executor_profiles''")
    (simp_all add: without_mutable_def Let_def distinct_map_filter distinct_update)

lemma without_profiles:
  "map_of (without_mutable raw) ''executor_profiles'' =
     (case map_of raw ''executor_profiles'' of
        Some (JObj ps) \<Rightarrow> Some (JObj (map (\<lambda>kv. (fst kv, strip_pin (snd kv))) ps)) | r \<Rightarrow> r)"
proof -
  have "map_of (filter (\<lambda>kv. fst kv \<noteq> ''agents'') raw) ''executor_profiles'' = map_of raw ''executor_profiles''"
    by (induction raw) auto
  then show ?thesis
    by (auto simp: without_mutable_def jget_def update_conv' split: option.splits json.splits)
qed

text \<open>A field of a profile body, past pruning, the pin and the order of the keys.\<close>

lemma str_field_view:
  assumes "k \<notin> set volatile" "k \<noteq> ''image''" "distinct (map fst body)"
  shows "str_field (as_obj (norm (prune_keys volatile (strip_pin (JObj body))))) k d = str_field body k d"
proof -
  let ?f = "filter (\<lambda>kv. fst kv \<noteq> ''image'') body"
  let ?b = "map (\<lambda>kv. (fst kv, prune_keys volatile (snd kv))) (filter (\<lambda>kv. fst kv \<notin> set volatile) ?f)"
  have f: "map_of ?f k = map_of body k" using assms(2) by (induction body) auto
  have "distinct (map fst ?b)" using assms(3) by (intro distinct_pruned) (simp add: distinct_map_filter)
  from map_of_norm [OF this, of k]
  have "map_of (as_obj (norm (prune_keys volatile (strip_pin (JObj body))))) k =
      map_option (\<lambda>v. norm (prune_keys volatile v)) (map_of body k)"
    unfolding map_of_pruned using assms(1) f
    by (simp add: strip_pin_def option.map_comp comp_def del: norm.simps filter_filter)
  then show ?thesis
    by (cases "map_of body k") (auto simp: str_field_eq norm_JObj split: json.splits)
qed

definition profile_view :: "jobj \<Rightarrow> string \<Rightarrow> json option" where
  "profile_view raw name = (case map_of raw ''executor_profiles'' of
      Some (JObj ps) \<Rightarrow> map_option (\<lambda>v. norm (prune_keys volatile (strip_pin v))) (map_of ps name)
    | _ \<Rightarrow> None)"

definition frozen_view :: "jobj \<Rightarrow> json" where
  "frozen_view raw = norm (prune (JObj (without_mutable raw)) volatile)"

lemma digest_of_iff:
  "digest_of sha v ks = Inr d \<longleftrightarrow> finite_floats (prune v ks) \<and> d = of_bytes sha (ser (prune v ks))"
  using check_value_None(1) [of "[]" "prune v ks"]
  by (auto simp: digest_of_def canonical_def bind_err_def Let_def split: option.splits)

lemma canonical_iff: "canonical v [] = Inr b \<longleftrightarrow> finite_floats v \<and> b = ser v"
  using check_value_None(1) [of "[]" v] by (auto simp: canonical_def prune_def Let_def split: option.splits)

lemma frozen_digest_view:
  assumes "floats_ok (JObj raw)" "floats_ok (JObj raw')"
    and "frozen_digest sha raw = Inr d" "frozen_digest sha raw' = Inr d"
  shows "frozen_view raw = frozen_view raw' \<or>
    collides sha (ser (prune (JObj (without_mutable raw)) volatile)) (ser (prune (JObj (without_mutable raw')) volatile))"
proof -
  let ?v = "prune (JObj (without_mutable raw)) volatile" and ?w = "prune (JObj (without_mutable raw')) volatile"
  have ok: "floats_ok ?v" "floats_ok ?w"
    using floats_ok_prune [OF floats_ok_without [OF assms(1)], of volatile]
      floats_ok_prune [OF floats_ok_without [OF assms(2)], of volatile]
      floats_ok_without [OF assms(1)] floats_ok_without [OF assms(2)]
    by (simp_all add: prune_def del: floats_ok.simps prune_keys.simps)
  from assms(3,4) have "canonical ?v [] = Inr (ser ?v)" "canonical ?w [] = Inr (ser ?w)" "sha (ser ?v) = sha (ser ?w)"
    by (simp_all add: frozen_digest_def digest_of_iff canonical_iff of_bytes_def)
  with canonical_eq_iff [OF ok this(1,2)] show ?thesis by (auto simp: frozen_view_def collides_def)
qed

lemma frozen_view_profiles:
  assumes "jwf (JObj raw)" "jwf (JObj raw')" "frozen_view raw = frozen_view raw'" "name \<notin> set volatile"
  shows "profile_view raw name = profile_view raw' name"
proof -
  define pick where "pick v = (case v of Some (JObj kvs) \<Rightarrow> map_of kvs name | _ \<Rightarrow> None)" for v
  let ?p = "\<lambda>r. map (\<lambda>kv. (fst kv, prune_keys volatile (snd kv))) (filter (\<lambda>kv. fst kv \<notin> set volatile) (without_mutable r))"
  have look: "map_of (?p r) ''executor_profiles'' = map_option (prune_keys volatile) (map_of (without_mutable r) ''executor_profiles'')" for r
    by (subst map_of_pruned) (simp add: volatile_timestamp_keys_def)
  have sel: "pick (map_option norm (map_of (?p r) ''executor_profiles'')) = profile_view r name" if wf: "jwf (JObj r)" for r
  proof (cases "map_of r ''executor_profiles''")
    case (Some v)
    show ?thesis
    proof (cases v)
      case (JObj ps)
      with Some wf have d: "distinct (map fst ps)" by (auto dest!: map_of_SomeD)
      let ?q = "map (\<lambda>kv. (fst kv, prune_keys volatile (snd kv))) (filter (\<lambda>kv. fst kv \<notin> set volatile)
          (map (\<lambda>kv. (fst kv, strip_pin (snd kv))) ps))"
      have "distinct (map fst ?q)" by (rule distinct_pruned) (simp add: d comp_def)
      from map_of_norm [OF this, of name]
      have "map_of (as_obj (norm (JObj ?q))) name = map_option (\<lambda>v. norm (prune_keys volatile (strip_pin v))) (map_of ps name)"
        unfolding map_of_pruned unfolding map_of_vals using assms(4) by (simp add: option.map_comp comp_def)
      moreover obtain m where m: "norm (JObj ?q) = JObj m" by (simp add: norm_JObj)
      ultimately have "map_of m name = map_option (\<lambda>v. norm (prune_keys volatile (strip_pin v))) (map_of ps name)"
        by simp
      then show ?thesis
        using Some JObj m unfolding look without_profiles by (simp add: pick_def profile_view_def del: norm.simps)
    qed (use Some in \<open>simp_all add: look without_profiles pick_def profile_view_def\<close>)
  qed (simp add: look without_profiles pick_def profile_view_def)
  have dist: "distinct (map fst (?p r))" if "jwf (JObj r)" for r
    by (rule distinct_pruned) (use that distinct_without in simp)
  from assms(3) have "norm (JObj (?p raw)) = norm (JObj (?p raw'))" by (simp only: frozen_view_def prune_volatile)
  from norm_lookup [OF this dist [OF assms(1)] dist [OF assms(2)], of "''executor_profiles''"]
  show ?thesis using sel [OF assms(1)] sel [OF assms(2)] by simp
qed

lemma profile_field_view:
  assumes "jwf (JObj raw)" "k \<notin> set volatile" "k \<noteq> ''image''"
  shows "map_option (\<lambda>p. str_field (snd p) k d) (named_profile raw name) =
    (case profile_view raw name of Some (JObj m) \<Rightarrow> Some (str_field m k d) | _ \<Rightarrow> None)"
proof (cases "map_of raw ''executor_profiles''")
  case (Some v)
  show ?thesis
  proof (cases v)
    case (JObj ps)
    with Some assms(1) have wf: "jwf (JObj ps)" by (metis jwf.simps(2) map_of_SomeD snd_conv)
    have np: "named_profile raw name = map_option (Pair name) (case map_of ps name of Some (JObj m) \<Rightarrow> Some m | _ \<Rightarrow> None)"
      using wf Some JObj by (simp add: named_profile_def cf_profiles_def obj_field_eq map_of_obj_items)
    show ?thesis
    proof (cases "map_of ps name")
      case (Some b)
      then have b: "jwf b" using wf by (auto dest!: map_of_SomeD)
      show ?thesis
      proof (cases b)
        case (JObj body)
        with b have "distinct (map fst body)" by simp
        note f = str_field_view [OF assms(2,3) this, of d]
        obtain m where m: "norm (prune_keys volatile (strip_pin b)) = JObj m"
          by (simp add: JObj strip_pin_def norm_JObj)
        with f JObj have "str_field m k d = str_field body k d" by simp
        with m show ?thesis
          using Some JObj np \<open>map_of raw _ = _\<close> \<open>v = _\<close> by (simp add: profile_view_def)
      qed (use Some np \<open>map_of raw _ = _\<close> \<open>v = _\<close> in \<open>simp_all add: profile_view_def strip_pin_def\<close>)
    qed (use np \<open>map_of raw _ = _\<close> \<open>v = _\<close> in \<open>simp_all add: profile_view_def\<close>)
  qed (use Some in \<open>simp_all add: named_profile_def cf_profiles_def obj_field_eq profile_view_def\<close>)
qed (simp add: named_profile_def cf_profiles_def obj_field_eq profile_view_def)

text \<open>The freeze covers where code may run: two configs with the same frozen digest give every profile
  (whose name is not one of the volatile timestamp keys) the same kind and the same network, whatever
  else they differ in, unless their canonical texts are a collision of the hash. Flipping a profile
  from a sandbox to the host, or opening its network, breaks the freeze.\<close>

theorem frozen_digest_binds_sandbox:
  assumes "jwf (JObj raw)" "jwf (JObj raw')" "floats_ok (JObj raw)" "floats_ok (JObj raw')"
    and "frozen_digest sha raw = Inr d" "frozen_digest sha raw' = Inr d" and "name \<notin> set volatile_timestamp_keys"
  shows "map_option profile_kind (named_profile raw name) = map_option profile_kind (named_profile raw' name) \<and>
      map_option network_profile (named_profile raw name) = map_option network_profile (named_profile raw' name) \<or>
    collides sha (ser (prune (JObj (without_mutable raw)) volatile_timestamp_keys))
      (ser (prune (JObj (without_mutable raw')) volatile_timestamp_keys))"
proof -
  have k: "''kind'' \<notin> set volatile" "''network_profile'' \<notin> set volatile" by (simp_all add: volatile_timestamp_keys_def)
  from frozen_digest_view [OF assms(3-6)] show ?thesis
  proof
    assume "frozen_view raw = frozen_view raw'"
    from frozen_view_profiles [OF assms(1,2) this assms(7)] have v: "profile_view raw name = profile_view raw' name" .
    have "map_option (\<lambda>p. str_field (snd p) f e) (named_profile raw name) =
        map_option (\<lambda>p. str_field (snd p) f e) (named_profile raw' name)"
      if "f \<notin> set volatile" "f \<noteq> ''image''" for f e
      unfolding profile_field_view [OF assms(1) that] profile_field_view [OF assms(2) that] v ..
    from this [OF k(1)] this [OF k(2)] show ?thesis
      unfolding profile_kind_def [abs_def] network_profile_def [abs_def] by simp
  qed simp
qed

text \<open>Pinning an image, as a rebuild of the sandbox does.\<close>

definition set_pin :: "string \<Rightarrow> string \<Rightarrow> jobj \<Rightarrow> jobj" where
  "set_pin name img raw =
     (case jget raw ''executor_profiles'' of
        JObj ps \<Rightarrow> (case map_of ps name of
            Some (JObj body) \<Rightarrow>
              jset ''executor_profiles'' (JObj (jset name (JObj (jset ''image'' (JStr img) body)) ps)) raw
          | _ \<Rightarrow> raw)
      | _ \<Rightarrow> raw)"

lemma filter_update_out: "\<not> P k \<Longrightarrow> filter (\<lambda>kv. P (fst kv)) (AList.update k v d) = filter (\<lambda>kv. P (fst kv)) d"
  by (induction d) auto

lemma filter_update_in: "P k \<Longrightarrow> filter (\<lambda>kv. P (fst kv)) (AList.update k v d) = AList.update k v (filter (\<lambda>kv. P (fst kv)) d)"
  by (induction d) auto

lemma update_absorb: "map_of d k = Some w \<Longrightarrow> f v = f w \<Longrightarrow>
    map (\<lambda>kv. (fst kv, f (snd kv))) (AList.update k v d) = map (\<lambda>kv. (fst kv, f (snd kv))) d"
  by (induction d) (auto split: if_splits)

lemma without_mutable_pin: "without_mutable (set_pin name img raw) = without_mutable raw"
proof (cases "jget raw ''executor_profiles''")
  case (JObj ps)
  show ?thesis
  proof (cases "map_of ps name")
    case (Some b)
    show ?thesis
    proof (cases b)
      case (JObj body)
      let ?ps = "jset name (JObj (jset ''image'' (JStr img) body)) ps"
      have "strip_pin (JObj (jset ''image'' (JStr img) body)) = strip_pin b"
        using filter_update_out [of "\<lambda>k. k \<noteq> ''image''" "''image''" "JStr img" body] by (simp add: strip_pin_def JObj)
      from update_absorb [where f = strip_pin, OF Some this]
      have "map (\<lambda>kv. (fst kv, strip_pin (snd kv))) ?ps = map (\<lambda>kv. (fst kv, strip_pin (snd kv))) ps" .
      moreover have "jget (set_pin name img raw) ''executor_profiles'' = JObj ?ps"
        using \<open>jget raw _ = _\<close> Some JObj by (simp add: set_pin_def jget_def)
      moreover have "filter (\<lambda>kv. fst kv \<noteq> ''agents'') (set_pin name img raw) =
          jset ''executor_profiles'' (JObj ?ps) (filter (\<lambda>kv. fst kv \<noteq> ''agents'') raw)"
        using \<open>jget raw _ = _\<close> Some JObj filter_update_in [of "\<lambda>k. k \<noteq> ''agents''" "''executor_profiles''" "JObj ?ps" raw]
        by (simp add: set_pin_def)
      ultimately show ?thesis using \<open>jget raw _ = _\<close> by (simp add: without_mutable_def Let_def)
    qed (use \<open>jget raw _ = _\<close> Some in \<open>simp_all add: set_pin_def\<close>)
  qed (use JObj in \<open>simp add: set_pin_def\<close>)
qed (simp_all add: set_pin_def)

lemma without_mutable_agents: "without_mutable (jset ''agents'' a raw) = without_mutable raw"
  using filter_update_out [of "\<lambda>k. k \<noteq> ''agents''" "''agents''" a raw]
  by (simp add: without_mutable_def Let_def jget_def update_conv')

text \<open>What may move during a cycle does not move the freeze, and moves the record of the environment:
  pinning another image or naming other agents leaves the frozen digest as it is, whatever the rest of
  the config holds, while two configs with the same environment digest have the same role map, the same
  profiles, pins included, and the same agents, unless their canonical texts are a collision of the hash.\<close>

theorem frozen_digest_scope:
  "frozen_digest sha (set_pin name img raw) = frozen_digest sha raw \<and>
   frozen_digest sha (jset ''agents'' a raw) = frozen_digest sha raw \<and>
   (environment_digest sha raw = Inr d \<and> environment_digest sha raw' = Inr d \<and>
      floats_ok (JObj (environment_view raw)) \<and> floats_ok (JObj (environment_view raw')) \<longrightarrow>
    (\<forall>k \<in> set [''executors'', ''executor_profiles'', ''agents'']. norm (jget raw k) = norm (jget raw' k)) \<or>
    collides sha (ser (JObj (environment_view raw))) (ser (JObj (environment_view raw'))))"
proof (intro conjI impI)
  show "frozen_digest sha (set_pin name img raw) = frozen_digest sha raw"
    by (simp only: frozen_digest_def without_mutable_pin)
  show "frozen_digest sha (jset ''agents'' a raw) = frozen_digest sha raw"
    by (simp only: frozen_digest_def without_mutable_agents)
  let ?v = "JObj (environment_view raw)" and ?w = "JObj (environment_view raw')"
  assume e: "environment_digest sha raw = Inr d \<and> environment_digest sha raw' = Inr d \<and> floats_ok ?v \<and> floats_ok ?w"
  then have "canonical ?v [] = Inr (ser ?v)" "canonical ?w [] = Inr (ser ?w)"
    by (simp_all add: environment_digest_def digest_of_iff canonical_iff prune_def)
  moreover from e have "of_bytes sha (ser ?v) = of_bytes sha (ser ?w)"
    unfolding environment_digest_def digest_of_iff prune_def by metis
  then have "sha (ser ?v) = sha (ser ?w)" by (simp add: of_bytes_def)
  ultimately have "canonical ?v [] = Inr (ser ?v)" "canonical ?w [] = Inr (ser ?w)" "sha (ser ?v) = sha (ser ?w)"
    by blast+
  with canonical_eq_iff [of ?v ?w] e have "norm ?v = norm ?w \<or> collides sha (ser ?v) (ser ?w)"
    by (auto simp: collides_def)
  moreover have "\<forall>k \<in> set [''executors'', ''executor_profiles'', ''agents'']. norm (jget raw k) = norm (jget raw' k)"
    if n: "norm ?v = norm ?w"
  proof
    fix k assume k: "k \<in> set [''executors'', ''executor_profiles'', ''agents'']"
    have "distinct (map fst (environment_view x))" for x by (simp add: environment_view_def)
    from norm_lookup [OF n this this, of k] k show "norm (jget raw k) = norm (jget raw' k)"
      by (auto simp: environment_view_def)
  qed
  ultimately show "(\<forall>k \<in> set [''executors'', ''executor_profiles'', ''agents'']. norm (jget raw k) = norm (jget raw' k)) \<or>
    collides sha (ser ?v) (ser ?w)" by blast
qed

definition pinned_config :: "string \<Rightarrow> jobj" where
  "pinned_config img = [(''executors'', JObj [(''quality_gate_profile'', JStr ''q'')]),
     (''executor_profiles'', JObj [(''q'', JObj [(''kind'', JStr ''oci''), (''image'', JStr img)])])]"

lemma pinned_config_plain:
  "jwf (JObj (pinned_config img))" "floats_ok (JObj (pinned_config img))"
  "floats_ok (JObj (environment_view (pinned_config img)))"
  "frozen_digest sha (pinned_config img) = Inr (of_bytes sha (ser (prune (JObj (without_mutable (pinned_config img))) volatile)))"
  by (simp_all add: pinned_config_def digest_of_iff frozen_digest_def environment_view_def jget_def without_mutable_def
      Let_def strip_pin_def prune_volatile finite_floats.simps del: ser.simps)

lemma pinned_config_repin: "set_pin ''q'' img (pinned_config img') = pinned_config img"
  by (simp add: set_pin_def pinned_config_def jget_def)

theorem frozen_digest_binds_sandbox_witness:
  "map_option profile_kind (named_profile (pinned_config ''a'') ''q'') =
     map_option profile_kind (named_profile (pinned_config ''b'') ''q'')"
proof -
  have m: "without_mutable (pinned_config ''a'') = without_mutable (pinned_config ''b'')"
    using without_mutable_pin [of "''q''" "''b''" "pinned_config ''a''"] by (simp add: pinned_config_repin)
  from frozen_digest_binds_sandbox [OF pinned_config_plain(1) pinned_config_plain(1) pinned_config_plain(2) pinned_config_plain(2)
      pinned_config_plain(4) pinned_config_plain(4) [of id "''b''", folded m], of "''q''"]
  show ?thesis by (simp add: volatile_timestamp_keys_def m collides_def)
qed

theorem frozen_digest_scope_witness:
  "frozen_digest id (pinned_config ''b'') = frozen_digest id (pinned_config ''a'') \<and>
   environment_digest id (pinned_config ''b'') \<noteq> environment_digest id (pinned_config ''a'')"
proof
  show "frozen_digest id (pinned_config ''b'') = frozen_digest id (pinned_config ''a'')"
    using frozen_digest_scope [of id "''q''" "''b''" "pinned_config ''a''"] by (simp add: pinned_config_repin)
  have e: "environment_digest id (pinned_config img) = Inr (of_bytes id (ser (JObj (environment_view (pinned_config img)))))" for img
    by (simp add: environment_digest_def digest_of_iff prune_def environment_view_def jget_def pinned_config_def del: ser.simps)
  show "environment_digest id (pinned_config ''b'') \<noteq> environment_digest id (pinned_config ''a'')"
  proof
    assume "environment_digest id (pinned_config ''b'') = environment_digest id (pinned_config ''a'')"
    then have "\<forall>k \<in> set [''executors'', ''executor_profiles'', ''agents''].
        norm (jget (pinned_config ''b'') k) = norm (jget (pinned_config ''a'') k)"
      using frozen_digest_scope [of id "[]" "[]" "pinned_config ''b''" JNull _ "pinned_config ''a''"] e pinned_config_plain(3)
      by (simp add: collides_def del: norm.simps)
    then show False by (simp add: pinned_config_def jget_def norm_JObj norm_item_def)
  qed
qed

end
