(* ===== verification/EventQueries.thy ===== *)
theory EventQueries
  imports ConfigDoc
begin

text \<open>
  Making an event and asking the log: the closed vocabulary of event kinds (\<^verbatim>\<open>models.EVENT_ORDER\<close>), and
  \<^verbatim>\<open>make\<close>, \<^verbatim>\<open>summarize\<close> and \<^verbatim>\<open>derived_reaches\<close> of \<^verbatim>\<open>event_chain.py\<close>. The fresh ids and the clock are
  arguments.
\<close>

definition event_order :: "string list" where
  "event_order = [
    ''cycle_initialized'', ''knowledge_gap'', ''gate_approved'', ''cycle_integrated'', ''integration_failed'',
    ''gate_carried'', ''gate_revised'', ''changes_requested'', ''changes_addressed'', ''plan_frozen'',
    ''plan_invalidated'', ''task_started'', ''task_failed'', ''task_completed'', ''bundle_landed'',
    ''bundle_split'', ''run_aborted'', ''run_measured'', ''environment_repinned'', ''agents_switched'',
    ''reviews_changed'', ''reviews_restored'', ''reviews_applied'', ''decision_declared'',
    ''decision_overruled'', ''finding_observed'', ''observation_repaired'', ''lens_applied'',
    ''lens_selected'', ''lens_judged'', ''decisions_derived'', ''baseline_measured'', ''dependency_audit_run'',
    ''coverage_generated'', ''actual_extraction_generated'', ''actual_extraction_failed'',
    ''comparison_generated'', ''change_review_generated'', ''finding_resolved'', ''repair_verified'',
    ''repair_unverified'', ''repair_refused'', ''scope_expanded'', ''scope_expansion_reverted'',
    ''review_generated'', ''review_failed'', ''review_aborted'', ''decision_recorded'', ''expertise_declared'',
    ''expert_requested'', ''disposition_recorded'', ''human_review_frozen'', ''release_approved'',
    ''cycle_closed'']"

text \<open>\<^verbatim>\<open>CYCLE_ID_RE\<close>; the dollar sign lets one trailing newline through.\<close>

definition cycle_char :: "char \<Rightarrow> bool" where
  "cycle_char c \<longleftrightarrow> is_digit c \<or> 97 \<le> (of_char c :: nat) \<and> (of_char c :: nat) \<le> 122"

definition cycle_id_ok :: "string \<Rightarrow> bool" where
  "cycle_id_ok s = (case chomp s of [] \<Rightarrow> False | c # r \<Rightarrow> cycle_char c \<and> list_all (\<lambda>x. cycle_char x \<or> x = CHR ''-'') r)"

datatype make_error = UnknownEvent string | BadCycle string

definition make :: "string \<Rightarrow> string \<Rightarrow> string \<Rightarrow> string list \<Rightarrow> jobj \<Rightarrow> string \<Rightarrow> string \<Rightarrow> string \<Rightarrow> make_error + event" where
  "make kind cycle actor subjects detail tx fresh now =
     (if kind \<notin> set event_order then Inl (UnknownEvent kind)
      else if \<not> cycle_id_ok cycle then Inl (BadCycle cycle)
      else Inr \<lparr>ev_seq = 0, ev_id = fresh, ev_tx = tx, ev_ts = now, ev_kind = kind, ev_cycle = cycle, ev_actor = actor,
        ev_subjects = subjects, ev_prev = '''', ev_digest = '''', ev_detail = detail\<rparr>)"

definition summarize :: "event list \<Rightarrow> (string \<times> nat) list" where
  "summarize es = filter (\<lambda>kn. snd kn \<noteq> 0)
     (map (\<lambda>kind. (kind, length (filter (\<lambda>e. ev_kind e = kind) es))) event_order)"

definition derived_reaches :: "event list \<Rightarrow> (string \<times> string) list" where
  "derived_reaches es =
     (case find (\<lambda>e. ev_kind e = ''decisions_derived'') (rev es) of
        None \<Rightarrow> []
      | Some e \<Rightarrow> (case jget (ev_detail e) ''reaches'' of
            JObj kvs \<Rightarrow> dict_of (map (\<lambda>kv. (fst kv, py_str (snd kv))) kvs)
          | _ \<Rightarrow> []))"

lemma event_order_distinct: "distinct event_order"
  by (simp add: event_order_def)

lemma sum_by_kind: "distinct ks \<Longrightarrow>
    sum_list (map (\<lambda>k. length (filter (\<lambda>x. f x = k) xs)) ks) = length (filter (\<lambda>x. f x \<in> set ks) xs)"
proof (induction xs)
  case (Cons x xs)
  have one: "sum_list (map (\<lambda>k. if f x = k then 1 else 0) ks) = (if f x \<in> set ks then 1 else (0::nat))"
    using Cons.prems by (induction ks) auto
  have "sum_list (map (\<lambda>k. length (filter (\<lambda>y. f y = k) (x # xs))) ks) =
      sum_list (map (\<lambda>k. (if f x = k then 1 else 0) + length (filter (\<lambda>y. f y = k) xs)) ks)"
    by (rule arg_cong [where f = sum_list]) simp
  also have "\<dots> = (if f x \<in> set ks then 1 else 0) + length (filter (\<lambda>y. f y \<in> set ks) xs)"
    using Cons one by (simp add: sum_list_addf)
  finally show ?case by simp
qed simp

lemma sum_nonzero: "sum_list (map snd (filter (\<lambda>kn. snd kn \<noteq> (0::nat)) xs)) = sum_list (map snd xs)"
  by (induction xs) auto

text \<open>The summary of a log counts every event of the vocabulary once: the counts are positive, add up to
  the number of events whose kind it knows, and come in the vocabulary's order.\<close>

theorem summarize_counts:
  "sum_list (map snd (summarize es)) = length (filter (\<lambda>e. ev_kind e \<in> set event_order) es) \<and>
   map fst (summarize es) = filter (\<lambda>kind. kind \<in> ev_kind ` set es) event_order \<and> 0 \<notin> set (map snd (summarize es))"
proof (intro conjI)
  show "sum_list (map snd (summarize es)) = length (filter (\<lambda>e. ev_kind e \<in> set event_order) es)"
    unfolding summarize_def sum_nonzero by (simp add: comp_def sum_by_kind [OF event_order_distinct])
  show "map fst (summarize es) = filter (\<lambda>kind. kind \<in> ev_kind ` set es) event_order"
    unfolding summarize_def filter_map map_map comp_def
    by (simp add: filter_empty_conv) (metis (mono_tags, lifting) image_iff)
  show "0 \<notin> set (map snd (summarize es))" by (auto simp: summarize_def)
qed

end
