(* ===== verification/Store.thy ===== *)
theory Store
  imports EventQueries
begin

text \<open>
  \<^verbatim>\<open>store.py\<close>: the one write path. A transaction stages document writes and events; its commit checks
  everything that can refuse it, then moves the repository through a fixed sequence of durable steps
  (journal, documents, journal, log, journal, journal removed). A crash is a prefix of that sequence;
  recovery reads the journal. The files are texts: the documents' YAML text (\<open>en_dump\<close>, \<open>en_load_doc\<close>:
  PyYAML under the strict loader), the log, the journal. The lock, which makes a transaction one
  operation, the lock file's version check (\<open>refusal\<close>) and file system errors are outside the model.
\<close>

section \<open>Files\<close>

record env =
  en_sha :: "string \<Rightarrow> string"
  en_loads :: "string \<Rightarrow> jraw option"
  en_load_doc :: "string \<Rightarrow> strict_error + jobj"
  en_dump :: "jobj \<Rightarrow> string"
  en_schema :: "string \<Rightarrow> jobj \<Rightarrow> bool"
  en_event_ok :: "jobj \<Rightarrow> bool"

record disk =
  dk_docs :: "(string \<times> string) list"
  dk_log :: string
  dk_journal :: "string option"

datatype store_error =
    UnknownDocument string
  | DocumentRejected string
  | Unreadable string strict_error
  | Unexplained
  | StaleWrite string
  | ReviewsUnrecorded
  | LogDamaged load_error
  | EventRefused chain_error
  | NoDigest digest_error
  | JournalCorrupt strict_error
  | NotAnEvent
  | UnknownPhase string
  | Behind string
  | Exhausted

definition map_err :: "('e \<Rightarrow> 'f) \<Rightarrow> 'e + 'a \<Rightarrow> 'f + 'a" where
  "map_err f r = (case r of Inl e \<Rightarrow> Inl (f e) | Inr x \<Rightarrow> Inr x)"

lemma map_err_Inr [simp]: "map_err f r = Inr x \<longleftrightarrow> r = Inr x"
  by (auto simp: map_err_def split: sum.splits)

definition documents :: "string list" where
  "documents = [''plan'', ''state'', ''review'', ''reviews'']"

definition read_raw :: "env \<Rightarrow> disk \<Rightarrow> string \<Rightarrow> store_error + jobj option" where
  "read_raw en dk name =
     (case map_of (dk_docs dk) name of
        None \<Rightarrow> Inr None
      | Some doc \<Rightarrow> bind_err (map_err (Unreadable name) (en_load_doc en doc)) (\<lambda>m. Inr (Some m)))"

text \<open>\<^verbatim>\<open>read_digest\<close>, on the mapping a caller holds, and \<^verbatim>\<open>document_digest\<close>, on what is on disk.\<close>

definition read_digest :: "env \<Rightarrow> jobj option \<Rightarrow> store_error + string" where
  "read_digest en raw = (case raw of None \<Rightarrow> Inr '''' | Some m \<Rightarrow> map_err NoDigest (digest_of (en_sha en) (JObj m) []))"

definition document_digest :: "env \<Rightarrow> disk \<Rightarrow> string \<Rightarrow> store_error + string" where
  "document_digest en dk name = bind_err (read_raw en dk name) (read_digest en)"

section \<open>Transactions\<close>

record txn =
  tx_id :: string
  tx_writes :: "(string \<times> jobj) list"
  tx_expect :: "(string \<times> string) list"
  tx_events :: "event list"

definition begin_tx :: "string \<Rightarrow> txn" where
  "begin_tx fresh = \<lparr>tx_id = fresh, tx_writes = [], tx_expect = [], tx_events = []\<rparr>"

definition tx_write :: "env \<Rightarrow> string \<Rightarrow> jobj \<Rightarrow> string option \<Rightarrow> txn \<Rightarrow> store_error + txn" where
  "tx_write en name m expect tx =
     (if name \<notin> set documents then Inl (UnknownDocument name)
      else if \<not> en_schema en name m \<or> name = ''reviews'' \<and> rv_problems m \<noteq> [] then Inl (DocumentRejected name)
      else Inr (tx\<lparr>tx_writes := AList.update name m (tx_writes tx),
                   tx_expect := (case expect of None \<Rightarrow> tx_expect tx | Some d \<Rightarrow> AList.update name d (tx_expect tx))\<rparr>))"

definition tx_append :: "event \<Rightarrow> txn \<Rightarrow> txn" where
  "tx_append e tx = tx\<lparr>tx_events := tx_events tx @ [e]\<rparr>"

definition with_tx :: "string \<Rightarrow> event \<Rightarrow> event" where
  "with_tx tid e = e\<lparr>ev_tx := tid\<rparr>"

section \<open>Events onto the log\<close>

fun chained :: "env \<Rightarrow> event option \<Rightarrow> event list \<Rightarrow> store_error + event list" where
  "chained en previous [] = Inr []"
| "chained en previous (e # es) =
     bind_err (map_err NoDigest (link (en_sha en) previous e)) (\<lambda>l.
     bind_err (map_err EventRefused (line_for (en_loads en) (en_event_ok en) l)) (\<lambda>_.
     bind_err (chained en (Some l) es) (\<lambda>ls. Inr (l # ls))))"

definition read_events :: "env \<Rightarrow> disk \<Rightarrow> store_error + event list" where
  "read_events en dk = map_err LogDamaged (load_log (en_sha en) (en_loads en) (en_event_ok en) (dk_log dk))"

definition precheck_events :: "env \<Rightarrow> disk \<Rightarrow> event list \<Rightarrow> store_error + unit" where
  "precheck_events en dk es =
     (if es = [] then Inr ()
      else bind_err (read_events en dk) (\<lambda>current. bind_err (chained en (last_event current) es) (\<lambda>_. Inr ())))"

definition write_events :: "env \<Rightarrow> event list \<Rightarrow> string \<Rightarrow> store_error + string" where
  "write_events en es log =
     (if es = [] then Inr log
      else bind_err (map_err EventRefused (tail_event (en_loads en) (en_event_ok en) log)) (\<lambda>previous.
           bind_err (chained en previous es) (\<lambda>ls.
           map_err EventRefused (append_lines (en_loads en) (en_event_ok en) log ls))))"

text \<open>The chain root the log will carry once the staged events land.\<close>

fun link_all_staged :: "(string \<Rightarrow> string) \<Rightarrow> string \<Rightarrow> event option \<Rightarrow> event list \<Rightarrow> digest_error + event list" where
  "link_all_staged sha tid previous [] = Inr []"
| "link_all_staged sha tid previous (e # es) =
     bind_err (link sha previous (with_tx tid e)) (\<lambda>l. bind_err (link_all_staged sha tid (Some l) es) (\<lambda>ls. Inr (l # ls)))"

definition projected_chain_root :: "env \<Rightarrow> disk \<Rightarrow> txn \<Rightarrow> store_error + string" where
  "projected_chain_root en dk tx =
     bind_err (read_events en dk) (\<lambda>current.
     bind_err (map_err NoDigest (link_all_staged (en_sha en) (tx_id tx) (last_event current) (tx_events tx))) (\<lambda>ls.
     Inr (chain_root (en_sha en) (current @ ls))))"

section \<open>Committing\<close>

fun check_expect :: "env \<Rightarrow> disk \<Rightarrow> (string \<times> string) list \<Rightarrow> store_error + unit" where
  "check_expect en dk [] = Inr ()"
| "check_expect en dk ((name, expected) # rest) =
     bind_err (document_digest en dk name) (\<lambda>current.
       if current \<noteq> expected then Inl (StaleWrite name) else check_expect en dk rest)"

definition records_reviews :: "string \<Rightarrow> event \<Rightarrow> bool" where
  "records_reviews written e \<longleftrightarrow>
     ev_kind e \<in> {''reviews_changed'', ''reviews_restored''} \<and> jget (ev_detail e) ''digest'' = JStr written"

definition check_reviews :: "env \<Rightarrow> txn \<Rightarrow> store_error + unit" where
  "check_reviews en tx =
     (case map_of (tx_writes tx) ''reviews'' of
        None \<Rightarrow> Inr ()
      | Some m \<Rightarrow> bind_err (map_err NoDigest (digest_of (en_sha en) (JObj m) [])) (\<lambda>written.
          if list_ex (records_reviews written) (tx_events tx) then Inr () else Inl ReviewsUnrecorded))"

fun write_digests :: "env \<Rightarrow> (string \<times> jobj) list \<Rightarrow> store_error + (string \<times> json) list" where
  "write_digests en [] = Inr []"
| "write_digests en ((name, m) # ws) =
     bind_err (map_err NoDigest (digest_of (en_sha en) (JObj m) [])) (\<lambda>d.
     bind_err (write_digests en ws) (\<lambda>ds. Inr ((name, JStr d) # ds)))"

definition journal_payload :: "txn \<Rightarrow> (string \<times> json) list \<Rightarrow> event list \<Rightarrow> string \<Rightarrow> jobj" where
  "journal_payload tx ds es phase =
     [(''tx_id'', JStr (tx_id tx)), (''phase'', JStr phase),
      (''expected_old_digests'', JObj (map (\<lambda>nd. (fst nd, JStr (snd nd))) (tx_expect tx))),
      (''new_file_digests'', JObj ds), (''temp_paths'', JObj []),
      (''event_payloads'', JArr (map (\<lambda>e. JObj (to_mapping e)) es))]"

definition journal_text :: "jobj \<Rightarrow> store_error + string" where
  "journal_text j = map_err NoDigest (canonical (JObj j) [])"

text \<open>The durable steps, each an atomic replacement or the one append.\<close>

datatype disk_step = PutJournal string | PutDoc string string | PutLog string | DropJournal

fun apply_step :: "disk_step \<Rightarrow> disk \<Rightarrow> disk" where
  "apply_step (PutJournal t) dk = dk\<lparr>dk_journal := Some t\<rparr>"
| "apply_step (PutDoc name t) dk = dk\<lparr>dk_docs := AList.update name t (dk_docs dk)\<rparr>"
| "apply_step (PutLog t) dk = dk\<lparr>dk_log := t\<rparr>"
| "apply_step DropJournal dk = dk\<lparr>dk_journal := None\<rparr>"

definition run_steps :: "disk_step list \<Rightarrow> disk \<Rightarrow> disk" where
  "run_steps = fold apply_step"

text \<open>What a commit checks before it touches anything; nothing to do is no payload.\<close>

definition commit_checks :: "env \<Rightarrow> disk \<Rightarrow> txn \<Rightarrow> store_error + (event list \<times> (string \<times> json) list)" where
  "commit_checks en dk tx =
     (if tx_writes tx \<noteq> [] \<and> tx_events tx = [] then Inl Unexplained
      else bind_err (check_expect en dk (tx_expect tx)) (\<lambda>_.
           bind_err (check_reviews en tx) (\<lambda>_.
           let es = map (with_tx (tx_id tx)) (tx_events tx)
           in bind_err (precheck_events en dk es) (\<lambda>_.
              bind_err (write_digests en (tx_writes tx)) (\<lambda>ds. Inr (es, ds))))))"

definition doc_steps :: "env \<Rightarrow> txn \<Rightarrow> disk_step list" where
  "doc_steps en tx = map (\<lambda>nm. PutDoc (fst nm) (en_dump en (snd nm))) (tx_writes tx)"

text \<open>The steps a commit takes, and the error it stopped with, if any.\<close>

definition commit_run :: "env \<Rightarrow> disk \<Rightarrow> txn \<Rightarrow> disk_step list \<times> store_error option" where
  "commit_run en dk tx =
     (if tx_writes tx = [] \<and> tx_events tx = [] then ([], None)
      else case commit_checks en dk tx of
        Inl err \<Rightarrow> ([], Some err)
      | Inr (es, ds) \<Rightarrow>
          (let text_of = (\<lambda>phase. journal_text (journal_payload tx ds es phase))
           in case text_of ''prepared'' of
                Inl err \<Rightarrow> ([], Some err)
              | Inr j1 \<Rightarrow>
                  (let s1 = PutJournal j1 # doc_steps en tx
                   in case text_of ''files_replaced'' of
                        Inl err \<Rightarrow> (s1, Some err)
                      | Inr j2 \<Rightarrow>
                          (let s2 = s1 @ [PutJournal j2]
                           in case write_events en es (dk_log (run_steps s2 dk)) of
                                Inl err \<Rightarrow> (s2, Some err)
                              | Inr log \<Rightarrow>
                                  (let s3 = s2 @ [PutLog log]
                                   in case text_of ''event_appended'' of
                                        Inl err \<Rightarrow> (s3, Some err)
                                      | Inr j3 \<Rightarrow> (s3 @ [PutJournal j3, DropJournal], None))))))"

definition commit :: "env \<Rightarrow> disk \<Rightarrow> txn \<Rightarrow> disk \<times> store_error option" where
  "commit en dk tx = (case commit_run en dk tx of (steps, err) \<Rightarrow> (run_steps steps dk, err))"

text \<open>A crash leaves what the first \<open>k\<close> steps left.\<close>

definition crash_after :: "nat \<Rightarrow> env \<Rightarrow> disk \<Rightarrow> txn \<Rightarrow> disk" where
  "crash_after k en dk tx = run_steps (take k (fst (commit_run en dk tx))) dk"

section \<open>Recovering\<close>

definition read_journal :: "env \<Rightarrow> disk \<Rightarrow> store_error + jobj option" where
  "read_journal en dk =
     (case dk_journal dk of
        None \<Rightarrow> Inr None
      | Some t \<Rightarrow> bind_err (map_err JournalCorrupt (load_json_mapping (en_loads en) untrusted_limits t)) (\<lambda>j. Inr (Some j)))"

text \<open>\<^verbatim>\<open>Event.from_mapping\<close> on a payload no schema has seen: the required keys may be missing, or the number
  not be one (the writer only puts integers there).\<close>

definition event_of_payload :: "jobj \<Rightarrow> store_error + event" where
  "event_of_payload p =
     (if map_of p ''id'' = None \<or> map_of p ''event'' = None \<or> as_pyint (jget p ''seq'') = None then Inl NotAnEvent
      else Inr (from_mapping p))"

fun events_of_payloads :: "jobj list \<Rightarrow> store_error + event list" where
  "events_of_payloads [] = Inr []"
| "events_of_payloads (p # ps) =
     bind_err (event_of_payload p) (\<lambda>e. bind_err (events_of_payloads ps) (\<lambda>es. Inr (e # es)))"

definition journal_events :: "jobj \<Rightarrow> store_error + event list" where
  "journal_events j = events_of_payloads (objs_in (as_arr (py_or (jget j ''event_payloads'') (JArr []))))"

definition recover :: "env \<Rightarrow> disk \<Rightarrow> store_error + disk" where
  "recover en dk =
     bind_err (read_journal en dk) (\<lambda>journal.
     case journal of
       None \<Rightarrow> Inr dk
     | Some j \<Rightarrow>
         (let phase = str_get j ''phase'' ''''; tid = str_get j ''tx_id'' ''''; done = dk\<lparr>dk_journal := None\<rparr>
          in if phase = ''prepared'' then Inr done
             else if phase = ''files_replaced'' then
               bind_err (map_err NoDigest (scan_text (en_sha en) (en_loads en) (en_event_ok en) (dk_log dk))) (\<lambda>sc.
                 if tid \<in> ev_tx ` set (fst sc) then Inr done
                 else bind_err (journal_events j) (\<lambda>es.
                      bind_err (write_events en es (dk_log dk)) (\<lambda>log. Inr (done\<lparr>dk_log := log\<rparr>))))
             else if phase = ''event_appended'' then Inr done
             else Inl (UnknownPhase phase)))"

text \<open>Why an interrupted transaction cannot be finished.\<close>

definition journal_blocker :: "env \<Rightarrow> disk \<Rightarrow> store_error option" where
  "journal_blocker en dk =
     (case read_journal en dk of
        Inl err \<Rightarrow> Some err
      | Inr None \<Rightarrow> None
      | Inr (Some j) \<Rightarrow>
          if str_get j ''phase'' '''' \<noteq> ''files_replaced'' then None
          else (case journal_events j of
              Inl err \<Rightarrow> Some err
            | Inr es \<Rightarrow>
                if es = [] then None
                else (case bind_err (map_err EventRefused (tail_event (en_loads en) (en_event_ok en) (dk_log dk)))
                        (\<lambda>previous. chained en previous es) of
                    Inl err \<Rightarrow> Some err | Inr _ \<Rightarrow> None)))"

section \<open>The one door\<close>

definition transaction :: "env \<Rightarrow> (store_error \<Rightarrow> 'e) \<Rightarrow> string option \<Rightarrow> bool \<Rightarrow> (disk \<Rightarrow> 'e + txn) \<Rightarrow> disk \<Rightarrow>
    disk \<times> 'e option" where
  "transaction en wrap refusal recovering body dk =
     (case refusal of
        Some why \<Rightarrow> (dk, Some (wrap (Behind why)))
      | None \<Rightarrow>
          (case (if recovering then recover en dk else Inr dk) of
             Inl err \<Rightarrow> (dk, Some (wrap err))
           | Inr dk' \<Rightarrow>
               (case body dk' of
                  Inl err \<Rightarrow> (dk', Some err)
                | Inr tx \<Rightarrow> (fst (commit en dk' tx), map_option wrap (snd (commit en dk' tx))))))"

fun retry_on_stale :: "nat \<Rightarrow> ('s \<Rightarrow> 's \<times> store_error option) \<Rightarrow> 's \<Rightarrow> 's \<times> store_error option" where
  "retry_on_stale 0 operation s = (s, Some Exhausted)"
| "retry_on_stale (Suc n) operation s =
     (case operation s of
        (s', Some (StaleWrite name)) \<Rightarrow> if n = 0 then (s', Some (StaleWrite name)) else retry_on_stale n operation s'
      | r \<Rightarrow> r)"

section \<open>Everything that can refuse a commit refuses it first\<close>

lemma map_err_Inl: "map_err f r = Inl e \<longleftrightarrow> (\<exists>x. r = Inl x \<and> e = f x)"
  by (auto simp: map_err_def split: sum.splits)

lemma chained_iff:
  "chained en previous es = Inr ls \<longleftrightarrow>
     link_all (en_sha en) previous es = Inr ls \<and> (\<exists>lines. lines_for (en_loads en) (en_event_ok en) ls = Inr lines)"
  by (induction es arbitrary: previous ls) auto

lemma tail_event_loaded:
  assumes "load_log sha loads ok log = Inr es"
  shows "tail_event loads ok log = Inr (last_event es)"
proof -
  from assms have r: "list_all2 (reads_as loads ok) (splitlines log) es" by (simp add: load_log_iff scan_text_clean)
  show ?thesis
  proof (cases "splitlines log" rule: rev_cases)
    case (snoc ls l)
    with r obtain es' e where es: "es = es' @ [e]" and e: "reads_as loads ok l e"
      by (auto simp: list_all2_append1 list_all2_Cons1)
    from e obtain raw where "load_json_mapping loads event_limits l = Inr raw" "ok raw" "from_mapping raw = e"
      by (auto simp: reads_as_def)
    moreover have "tail_event loads ok log = (case load_json_mapping loads event_limits (last (splitlines log)) of
        Inl err \<Rightarrow> Inl (LineRejected err) | Inr raw \<Rightarrow> if ok raw then Inr (Some (from_mapping raw)) else Inl LineInvalid)"
      if "splitlines log \<noteq> []" using that by (cases "splitlines log") (simp_all add: tail_event_def)
    ultimately show ?thesis using es snoc by (simp add: last_event_def)
  qed (use r in \<open>simp add: tail_event_def last_event_def\<close>)
qed

lemma precheck_write_events:
  assumes "precheck_events en dk es = Inr ()"
  shows "\<exists>log. write_events en es (dk_log dk) = Inr log"
proof (cases "es = []")
  case False
  with assms obtain current ls where c: "load_log (en_sha en) (en_loads en) (en_event_ok en) (dk_log dk) = Inr current"
    and ls: "chained en (last_event current) es = Inr ls"
    by (auto simp: precheck_events_def read_events_def)
  from ls obtain lines where "lines_for (en_loads en) (en_event_ok en) ls = Inr lines" by (auto simp: chained_iff)
  then show ?thesis
    using False ls tail_event_loaded [OF c]
    by (auto simp: write_events_def append_lines_def bind_err_def map_err_def)
qed (simp add: write_events_def)

lemma link_finite: "link sha previous e = Inr l \<Longrightarrow> finite_floats (JObj (ev_detail e))"
  by (auto simp: link_def sealed_def event_digest_iff)

lemma link_all_finite: "link_all sha previous es = Inr ls \<Longrightarrow> e \<in> set es \<Longrightarrow> finite_floats (JObj (ev_detail e))"
  by (induction es arbitrary: previous ls) (auto dest: link_finite simp del: finite_floats.simps)

lemma write_digests_plain: "write_digests en ws = Inr ds \<Longrightarrow> finite_floats (JObj ds)"
proof (induction en ws arbitrary: ds rule: write_digests.induct)
  case (2 en name m ws)
  then show ?case by (fastforce)
qed simp

lemma precheck_finite:
  "precheck_events en dk es = Inr () \<Longrightarrow> e \<in> set es \<Longrightarrow> finite_floats (JObj (ev_detail e))"
  by (auto simp: precheck_events_def chained_iff intro: link_all_finite split: if_splits simp del: finite_floats.simps)

lemma journal_text_ok:
  assumes "precheck_events en dk es = Inr ()" "write_digests en ws = Inr ds"
  shows "journal_text (journal_payload tx ds es phase) = Inr (ser (JObj (journal_payload tx ds es phase)))"
proof -
  have "finite_floats (JObj (to_mapping e))" if "e \<in> set es" for e
    using precheck_finite [OF assms(1) that] by (simp add: to_mapping_def payload_def)
  then have "finite_floats (JObj (journal_payload tx ds es phase))"
    using write_digests_plain [OF assms(2)] by (simp add: journal_payload_def)
  then show ?thesis unfolding journal_text_def map_err_Inr canonical_iff by blast
qed

lemma run_steps_log: "(\<And>t. PutLog t \<notin> set steps) \<Longrightarrow> dk_log (run_steps steps dk) = dk_log dk"
proof (induction steps arbitrary: dk)
  case (Cons s steps)
  then have "dk_log (apply_step s dk) = dk_log dk" by (cases s) auto
  with Cons show ?case by (simp add: run_steps_def)
qed (simp add: run_steps_def)

text \<open>The whole run of a commit its checks let through.\<close>

lemma commit_run_full:
  assumes "tx_writes tx \<noteq> [] \<or> tx_events tx \<noteq> []" "commit_checks en dk tx = Inr (es, ds)"
  obtains log where
    "write_events en es (dk_log dk) = Inr log"
    "commit_run en dk tx =
       (PutJournal (ser (JObj (journal_payload tx ds es ''prepared''))) # doc_steps en tx @
        [PutJournal (ser (JObj (journal_payload tx ds es ''files_replaced''))), PutLog log,
         PutJournal (ser (JObj (journal_payload tx ds es ''event_appended''))), DropJournal], None)"
proof -
  from assms(2) have pre: "precheck_events en dk es = Inr ()" and wd: "write_digests en (tx_writes tx) = Inr ds"
    by (auto simp: commit_checks_def Let_def split: if_splits)
  from precheck_write_events [OF pre] obtain log where log: "write_events en es (dk_log dk) = Inr log" by auto
  note j = journal_text_ok [OF pre wd]
  have "dk_log (run_steps ((PutJournal a # doc_steps en tx) @ [PutJournal b]) dk) = dk_log dk" for a b
    by (rule run_steps_log) (auto simp: doc_steps_def)
  with log have "write_events en es (dk_log (run_steps ((PutJournal a # doc_steps en tx) @ [PutJournal b]) dk)) = Inr log" for a b
    by simp
  with assms j log that [OF log] show ?thesis by (simp add: commit_run_def Let_def)
qed

lemma refused_clean:
  assumes "snd (commit en dk tx) = Some err"
  shows "fst (commit en dk tx) = dk"
proof (cases "tx_writes tx = [] \<and> tx_events tx = []")
  case False
  then have some: "tx_writes tx \<noteq> [] \<or> tx_events tx \<noteq> []" by blast
  show ?thesis
  proof (cases "commit_checks en dk tx")
    case (Inl e)
    with False show ?thesis by (auto simp: commit_def commit_run_def run_steps_def)
  next
    case (Inr c)
    obtain es ds where c: "c = (es, ds)" by (cases c)
    from commit_run_full [OF some, of en dk es ds] Inr c have "snd (commit_run en dk tx) = None" by (metis snd_conv)
    with assms show ?thesis by (simp add: commit_def split: prod.splits)
  qed
qed (simp add: commit_def commit_run_def run_steps_def)

text \<open>C34: A refused commit changes nothing: whatever makes a commit stop with an error (an unexplained write,
  a stale read, a damaged log, an event the log cannot hold), the documents, the log and the journal are
  exactly what they were, so no document ever moves for a transaction that is then refused.\<close>

theorem commit_refused_clean:
  assumes "snd (commit en dk tx) = Some err"
  shows "fst (commit en dk tx) = dk"
  by (rule refused_clean [OF assms])

section \<open>What a commit leaves behind\<close>

definition docs_after :: "env \<Rightarrow> (string \<times> jobj) list \<Rightarrow> (string \<times> string) list \<Rightarrow> (string \<times> string) list" where
  "docs_after en ws docs = fold (\<lambda>nm. AList.update (fst nm) (en_dump en (snd nm))) ws docs"

lemma run_doc_steps: "run_steps (doc_steps en tx) dk = dk\<lparr>dk_docs := docs_after en (tx_writes tx) (dk_docs dk)\<rparr>"
proof -
  have "fold apply_step (map (\<lambda>nm. PutDoc (fst nm) (en_dump en (snd nm))) ws) dk = dk\<lparr>dk_docs := docs_after en ws (dk_docs dk)\<rparr>" for ws dk
    by (induction ws arbitrary: dk) (simp_all add: docs_after_def)
  then show ?thesis by (simp add: run_steps_def doc_steps_def)
qed

lemma run_steps_append: "run_steps (xs @ ys) dk = run_steps ys (run_steps xs dk)"
  by (simp add: run_steps_def)

lemma docs_after_lookup:
  "distinct (map fst ws) \<Longrightarrow> map_of (docs_after en ws docs) name =
     (case map_of ws name of Some m \<Rightarrow> Some (en_dump en m) | None \<Rightarrow> map_of docs name)"
proof (induction ws arbitrary: docs)
  case (Cons w ws)
  obtain n m where w: "w = (n, m)" by (cases w)
  with Cons.prems have "distinct (map fst ws)" and none: "map_of ws n = None" by (auto simp: map_of_eq_None_iff)
  with Cons.IH [of "AList.update n (en_dump en m) docs"] show ?case
    by (cases "name = n") (simp_all add: docs_after_def w update_conv' split: option.splits)
qed (simp add: docs_after_def)

lemma commit_ok:
  assumes "snd (commit en dk tx) = None" "tx_writes tx \<noteq> [] \<or> tx_events tx \<noteq> []"
  obtains es ds where "commit_checks en dk tx = Inr (es, ds)" "es = map (with_tx (tx_id tx)) (tx_events tx)" "es \<noteq> []"
proof (cases "commit_checks en dk tx")
  case (Inl e)
  with assms show ?thesis by (auto simp: commit_def commit_run_def)
next
  case (Inr c)
  obtain es ds where "c = (es, ds)" by (cases c)
  with Inr assms(2) that show ?thesis by (auto simp: commit_checks_def Let_def split: if_splits)
qed

lemma commit_result:
  assumes "tx_writes tx \<noteq> [] \<or> tx_events tx \<noteq> []" "commit_checks en dk tx = Inr (es, ds)"
  obtains log where "write_events en es (dk_log dk) = Inr log"
    "commit en dk tx = (\<lparr>dk_docs = docs_after en (tx_writes tx) (dk_docs dk), dk_log = log, dk_journal = None\<rparr>, None)"
proof -
  obtain log where log: "write_events en es (dk_log dk) = Inr log" and run: "commit_run en dk tx =
       (PutJournal (ser (JObj (journal_payload tx ds es ''prepared''))) # doc_steps en tx @
        [PutJournal (ser (JObj (journal_payload tx ds es ''files_replaced''))), PutLog log,
         PutJournal (ser (JObj (journal_payload tx ds es ''event_appended''))), DropJournal], None)"
    using commit_run_full [OF assms] .
  have r: "run_steps (PutJournal a # doc_steps en tx @ [PutJournal b, PutLog log, PutJournal c, DropJournal]) dk =
      \<lparr>dk_docs = docs_after en (tx_writes tx) (dk_docs dk), dk_log = log, dk_journal = None\<rparr>" for a b c
  proof -
    have "run_steps (PutJournal a # doc_steps en tx @ [PutJournal b, PutLog log, PutJournal c, DropJournal]) dk =
        run_steps [PutJournal b, PutLog log, PutJournal c, DropJournal] (run_steps (doc_steps en tx) (apply_step (PutJournal a) dk))"
      by (simp add: run_steps_def)
    then show ?thesis by (simp add: run_doc_steps) (simp add: run_steps_def)
  qed
  have "commit en dk tx = (\<lparr>dk_docs = docs_after en (tx_writes tx) (dk_docs dk), dk_log = log, dk_journal = None\<rparr>, None)"
    by (simp only: commit_def run r prod.case)
  with that [OF log] show ?thesis by blast
qed

text \<open>What the environment owes a commit: fresh ids, a tokenizer that reads canonical text back, a journal
  within the parser's limits, and a log that ends in a newline and can be read.\<close>

definition journal_reads :: "env \<Rightarrow> jobj \<Rightarrow> bool" where
  "journal_reads en j \<longleftrightarrow> load_json_mapping (en_loads en) untrusted_limits (ser (JObj j)) = Inr (as_obj (norm (JObj j)))"

definition tx_tagged :: "txn \<Rightarrow> event list" where
  "tx_tagged tx = map (with_tx (tx_id tx)) (tx_events tx)"

definition fresh_for :: "txn \<Rightarrow> event list \<Rightarrow> bool" where
  "fresh_for tx current \<longleftrightarrow> distinct (map ev_id (tx_events tx)) \<and> ev_id ` set (tx_events tx) \<inter> ev_id ` set current = {} \<and>
     tx_id tx \<notin> ev_tx ` set current"

definition log_ready :: "env \<Rightarrow> disk \<Rightarrow> txn \<Rightarrow> event list \<Rightarrow> bool" where
  "log_ready en dk tx current \<longleftrightarrow>
     load_log (en_sha en) (en_loads en) (en_event_ok en) (dk_log dk) = Inr current \<and> ends_line (dk_log dk) \<and>
     fresh_for tx current \<and>
     (\<forall>new. link_all (en_sha en) (last_event current) (tx_tagged tx) = Inr new \<longrightarrow>
        (\<forall>e \<in> set new. reads_back (en_loads en) e \<and> one_line e))"

lemma write_events_loaded:
  assumes "load_log (en_sha en) (en_loads en) (en_event_ok en) log = Inr current" "es \<noteq> []"
  shows "write_events en es log = Inr log' \<longleftrightarrow>
    (\<exists>new. link_all (en_sha en) (last_event current) es = Inr new \<and>
       append_lines (en_loads en) (en_event_ok en) log new = Inr log')"
  using assms(2) by (auto simp: write_events_def tail_event_loaded [OF assms(1)] chained_iff append_lines_def)

lemma link_all_tx: "link_all sha previous es = Inr ls \<Longrightarrow> map ev_tx ls = map ev_tx es"
  by (induction es arbitrary: previous ls) (auto simp: link_def sealed_def)

lemma commit_log:
  assumes "log_ready en dk tx current" "commit_checks en dk tx = Inr (es, ds)" "es = tx_tagged tx" "es \<noteq> []"
    and "write_events en es (dk_log dk) = Inr log"
  obtains new where "link_all (en_sha en) (last_event current) es = Inr new"
    "load_log (en_sha en) (en_loads en) (en_event_ok en) log = Inr (current @ map norm_event new)" "ends_line log"
proof -
  from assms(1) have l: "load_log (en_sha en) (en_loads en) (en_event_ok en) (dk_log dk) = Inr current"
    and e: "ends_line (dk_log dk)" and f: "fresh_for tx current" by (simp_all add: log_ready_def)
  from assms(5) obtain new where new: "link_all (en_sha en) (last_event current) es = Inr new"
    and app: "append_lines (en_loads en) (en_event_ok en) (dk_log dk) new = Inr log"
    by (auto simp: write_events_loaded [OF l assms(4)])
  have ids: "map ev_id es = map ev_id (tx_events tx)" by (simp add: assms(3) tx_tagged_def with_tx_def)
  then have "ev_id ` set es = ev_id ` set (tx_events tx)" by (metis set_map)
  with append_reads [OF l e new _ _ app] ids f assms(1,3) new have
    "load_log (en_sha en) (en_loads en) (en_event_ok en) log = Inr (current @ map norm_event new) \<and> ends_line log"
    by (auto simp: fresh_for_def log_ready_def)
  with that [OF new] show ?thesis by blast
qed

lemma lands_whole:
  assumes "snd (commit en dk tx) = None" and "tx_writes tx \<noteq> [] \<or> tx_events tx \<noteq> []"
    and "distinct (map fst (tx_writes tx))" and "log_ready en dk tx current"
  shows "\<exists>new. link_all (en_sha en) (last_event current) (tx_tagged tx) = Inr new \<and>
    read_events en (fst (commit en dk tx)) = Inr (current @ map norm_event new) \<and>
    new \<noteq> [] \<and> ev_tx ` set new = {tx_id tx} \<and> dk_journal (fst (commit en dk tx)) = None \<and>
    map_of (dk_docs (fst (commit en dk tx))) name =
      (case map_of (tx_writes tx) name of Some m \<Rightarrow> Some (en_dump en m) | None \<Rightarrow> map_of (dk_docs dk) name)"
proof -
  obtain es ds where c: "commit_checks en dk tx = Inr (es, ds)" and es: "es = tx_tagged tx" "es \<noteq> []"
    using commit_ok [OF assms(1,2)] by (metis tx_tagged_def)
  obtain log where log: "write_events en es (dk_log dk) = Inr log" and r: "commit en dk tx =
      (\<lparr>dk_docs = docs_after en (tx_writes tx) (dk_docs dk), dk_log = log, dk_journal = None\<rparr>, None)"
    using commit_result [OF assms(2) c] .
  obtain new where new: "link_all (en_sha en) (last_event current) es = Inr new"
    and load: "load_log (en_sha en) (en_loads en) (en_event_ok en) log = Inr (current @ map norm_event new)"
    using commit_log [OF assms(4) c es log] .
  have tx: "map ev_tx new = map ev_tx es" using link_all_tx [OF new] .
  then have "length new = length es" by (metis length_map)
  with es have "new \<noteq> []" by auto
  moreover have "set (map ev_tx es) = {tx_id tx}"
    using es by (cases "tx_events tx") (auto simp: tx_tagged_def with_tx_def)
  ultimately show ?thesis
    using new load docs_after_lookup [OF assms(3)] tx es
    by (auto simp: r read_events_def map_err_def simp flip: set_map)
qed

lemma expected_held:
  "check_expect en dk ex = Inr u \<Longrightarrow> (name, d) \<in> set ex \<Longrightarrow> document_digest en dk name = Inr d"
  by (induction en dk ex rule: check_expect.induct) (auto split: if_splits)

lemma commit_expected:
  assumes "snd (commit en dk tx) = None" "tx_events tx \<noteq> []" "map_of (tx_expect tx) name = Some d"
  shows "document_digest en dk name = Inr d"
proof -
  obtain es ds where "commit_checks en dk tx = Inr (es, ds)" using commit_ok [OF assms(1)] assms(2) by blast
  then have "check_expect en dk (tx_expect tx) = Inr ()" by (auto simp: commit_checks_def split: if_splits)
  from expected_held [OF this map_of_SomeD [OF assms(3)]] show ?thesis .
qed

lemma commit_docs:
  assumes "snd (commit en dk tx) = None" "tx_events tx \<noteq> []" "distinct (map fst (tx_writes tx))"
  shows "map_of (dk_docs (fst (commit en dk tx))) name =
      (case map_of (tx_writes tx) name of Some m \<Rightarrow> Some (en_dump en m) | None \<Rightarrow> map_of (dk_docs dk) name)"
proof -
  obtain es ds where c: "commit_checks en dk tx = Inr (es, ds)" using commit_ok [OF assms(1)] assms(2) by blast
  from assms(2) commit_result [OF _ c] docs_after_lookup [OF assms(3)] show ?thesis by (metis disk.select_convs(1) fst_conv)
qed

text \<open>C2: A commit lands whole: when a commit that has something to do and stages no document twice succeeds, on
  a log that loads and ends its last line, with fresh distinct event ids whose appended lines read back and hold no
  character \<^verbatim>\<open>splitlines\<close> breaks at (\<^verbatim>\<open>log_ready\<close>), every staged document is on
  disk as it was staged and every other as it was, no journal is left, and the log reads as the old
  events followed by the staged ones, chained, at least one of them, each carrying the transaction's id:
  state never moves without an event that says so.\<close>

theorem commit_lands_whole:
  assumes "snd (commit en dk tx) = None" and "tx_writes tx \<noteq> [] \<or> tx_events tx \<noteq> []"
    and "distinct (map fst (tx_writes tx))" and "log_ready en dk tx current"
  shows "\<exists>new. link_all (en_sha en) (last_event current) (tx_tagged tx) = Inr new \<and>
    read_events en (fst (commit en dk tx)) = Inr (current @ map norm_event new) \<and>
    new \<noteq> [] \<and> ev_tx ` set new = {tx_id tx} \<and> dk_journal (fst (commit en dk tx)) = None \<and>
    map_of (dk_docs (fst (commit en dk tx))) name =
      (case map_of (tx_writes tx) name of Some m \<Rightarrow> Some (en_dump en m) | None \<Rightarrow> map_of (dk_docs dk) name)"
  by (rule lands_whole [OF assms])

text \<open>C8: No update is lost: after one transaction wrote a document, a transaction that was staged on an older
  reading of it is refused and changes nothing, provided the document reads back as it was written.\<close>

theorem lost_update_refused:
  assumes "snd (commit en dk tx) = None" and "distinct (map fst (tx_writes tx))"
    and "map_of (tx_writes tx) name = Some m" and "en_load_doc en (en_dump en m) = Inr m"
    and "read_digest en (Some m) = Inr written" and "map_of (tx_expect tx') name = Some expected"
    and "expected \<noteq> written" and "tx_events tx' \<noteq> []"
  shows "\<exists>err. commit en (fst (commit en dk tx)) tx' = (fst (commit en dk tx), Some err)"
proof -
  let ?dk = "fst (commit en dk tx)"
  have some: "tx_writes tx \<noteq> [] \<or> tx_events tx \<noteq> []" using assms(3) by auto
  obtain es ds where c: "commit_checks en dk tx = Inr (es, ds)" using commit_ok [OF assms(1) some] .
  obtain log where "commit en dk tx =
      (\<lparr>dk_docs = docs_after en (tx_writes tx) (dk_docs dk), dk_log = log, dk_journal = None\<rparr>, None)"
    using commit_result [OF some c] .
  then have "map_of (dk_docs ?dk) name = Some (en_dump en m)"
    using docs_after_lookup [OF assms(2)] assms(3) by simp
  then have d: "document_digest en ?dk name = Inr written"
    using assms(4,5) by (simp add: document_digest_def read_raw_def map_err_def bind_err_def)
  have bad: "check_expect en ?dk ex \<noteq> Inr u" if "(name, expected) \<in> set ex" for ex u
    using that
  proof (induction ex)
    case (Cons x ex)
    with d assms(7) show ?case by (cases x) (auto simp: if_splits)
  qed simp
  have "\<exists>err. commit_checks en ?dk tx' = Inl err"
    using bad [OF map_of_SomeD [OF assms(6)]] assms(8)
    by (cases "check_expect en ?dk (tx_expect tx')") (auto simp: commit_checks_def bind_err_def)
  then show ?thesis using assms(8) by (auto simp: commit_def commit_run_def run_steps_def)
qed

section \<open>Recovery\<close>

lemma journal_keys: "distinct (map fst (journal_payload tx ds es phase))"
  by (simp add: journal_payload_def)

lemma journal_fields:
  "map_of (as_obj (norm (JObj (journal_payload tx ds es phase)))) ''phase'' = Some (JStr phase)"
  "map_of (as_obj (norm (JObj (journal_payload tx ds es phase)))) ''tx_id'' = Some (JStr (tx_id tx))"
  "map_of (as_obj (norm (JObj (journal_payload tx ds es phase)))) ''event_payloads'' =
     Some (JArr (map (\<lambda>e. norm (JObj (to_mapping e))) es))"
  unfolding map_of_norm [OF journal_keys] by (simp_all add: journal_payload_def comp_def del: norm.simps(2))

lemma event_of_payload_norm: "event_of_payload (as_obj (norm (JObj (to_mapping e)))) = Inr (norm_event e)"
proof -
  note m = map_of_norm [OF keys_to_mapping]
  have "map_of (as_obj (norm (JObj (to_mapping e)))) ''id'' = Some (JStr (ev_id e))"
    "map_of (as_obj (norm (JObj (to_mapping e)))) ''event'' = Some (JStr (ev_kind e))"
    "map_of (as_obj (norm (JObj (to_mapping e)))) ''seq'' = Some (JInt (ev_seq e))"
    unfolding m by (simp_all add: to_mapping_def payload_def)
  then show ?thesis by (simp add: event_of_payload_def jget_def from_mapping_norm del: norm.simps)
qed

lemma objs_in_norm: "objs_in (map (\<lambda>e. norm (JObj (f e))) es) = map (\<lambda>e. as_obj (norm (JObj (f e)))) es"
  by (induction es) (simp_all add: norm_JObj)

lemma journal_events_norm:
  "journal_events (as_obj (norm (JObj (journal_payload tx ds es phase)))) = Inr (map norm_event es)"
proof -
  have "events_of_payloads (map (\<lambda>e. as_obj (norm (JObj (to_mapping e)))) es) = Inr (map norm_event es)"
    by (induction es) (simp_all add: event_of_payload_norm bind_err_def del: norm.simps)
  then show ?thesis
    by (cases "es = []") (simp_all add: journal_events_def jget_def journal_fields py_or_def objs_in_norm del: norm.simps)
qed

lemma norm_event_upd: "norm_event (e\<lparr>ev_seq := n, ev_prev := p\<rparr>) = (norm_event e)\<lparr>ev_seq := n, ev_prev := p\<rparr>"
  "norm_event (e\<lparr>ev_digest := d\<rparr>) = (norm_event e)\<lparr>ev_digest := d\<rparr>"
  by (simp_all add: norm_event_def)

lemma link_of_norm: "link sha previous e = Inr l \<Longrightarrow> link sha previous (norm_event e) = Inr (norm_event l)"
proof -
  let ?e = "e\<lparr>ev_seq := next_seq previous, ev_prev := prev_digest previous\<rparr>"
  assume "link sha previous e = Inr l"
  then obtain d where d: "event_digest sha ?e = Inr d" "l = ?e\<lparr>ev_digest := d\<rparr>" by (auto simp: link_def sealed_def)
  from event_digest_norm [OF d(1)] show ?thesis
    by (simp add: d(2) link_def sealed_def norm_event_upd bind_err_def)
qed

lemma link_all_of_norm:
  "link_all sha previous es = Inr ls \<Longrightarrow> link_all sha previous (map norm_event es) = Inr (map norm_event ls)"
proof (induction es arbitrary: previous ls)
  case (Cons e es)
  then obtain l ls' where l: "link sha previous e = Inr l" "link_all sha (Some l) es = Inr ls'" "ls = l # ls'" by auto
  from link_of_norm [OF l(1)] Cons.IH [OF l(2)] l(3) show ?case by (simp add: link_all_norm)
qed simp

lemma line_for_norm: "line_for loads ok e = Inr l \<Longrightarrow> line_for loads ok (norm_event e) = Inr l"
proof -
  have n: "norm (JObj (to_mapping (norm_event e))) = norm (JObj (to_mapping e))"
    unfolding norm.simps(2) by (simp add: to_mapping_def payload_def norm_event_def JObj_norm)
  then have "ser (JObj (to_mapping (norm_event e))) = ser (JObj (to_mapping e))" by (metis ser_norm)
  moreover have "finite_floats (JObj (to_mapping (norm_event e))) = finite_floats (JObj (to_mapping e))"
    using n by (metis finite_floats_norm)
  moreover assume l: "line_for loads ok e = Inr l"
  then obtain d where "dumps e = Inr d" by (auto simp: line_for_def split: sum.splits)
  ultimately have "dumps (norm_event e) = dumps e" unfolding dumps_def canonical_iff by (metis canonical_iff)
  with l show ?thesis by (simp add: line_for_def)
qed

lemma append_lines_norm: "append_lines loads ok log es = Inr log' \<Longrightarrow> append_lines loads ok log (map norm_event es) = Inr log'"
proof -
  have "lines_for loads ok es = Inr ls \<Longrightarrow> lines_for loads ok (map norm_event es) = Inr ls" for ls
    by (induction es arbitrary: ls) (auto intro: line_for_norm)
  then show "append_lines loads ok log es = Inr log' \<Longrightarrow> ?thesis" by (auto simp: append_lines_def)
qed

lemma write_events_norm:
  assumes "load_log (en_sha en) (en_loads en) (en_event_ok en) log = Inr current" "es \<noteq> []"
    and "write_events en es log = Inr log'"
  shows "write_events en (map norm_event es) log = Inr log'"
proof -
  from assms(2,3) obtain new where "link_all (en_sha en) (last_event current) es = Inr new"
    "append_lines (en_loads en) (en_event_ok en) log new = Inr log'"
    by (auto simp: write_events_loaded [OF assms(1)])
  from link_all_of_norm [OF this(1)] append_lines_norm [OF this(2)] show ?thesis
    using assms(2) by (auto simp: write_events_loaded [OF assms(1)])
qed

text \<open>A commit run, cut after \<open>k\<close> steps, with \<open>n\<close> documents staged.\<close>

definition staged :: "txn \<Rightarrow> nat" where
  "staged tx = length (tx_writes tx)"

lemma doc_steps_take:
  "k \<le> staged tx \<Longrightarrow> run_steps (take k (doc_steps en tx)) dk = dk\<lparr>dk_docs := docs_after en (take k (tx_writes tx)) (dk_docs dk)\<rparr>"
  using run_doc_steps [of en "tx\<lparr>tx_writes := take k (tx_writes tx)\<rparr>" dk] by (simp add: doc_steps_def take_map)

lemma read_journal_text:
  "journal_reads en j \<Longrightarrow> dk_journal dk = Some (ser (JObj j)) \<Longrightarrow> read_journal en dk = Inr (Some (as_obj (norm (JObj j))))"
  by (simp add: read_journal_def journal_reads_def map_err_def bind_err_def del: ser.simps norm.simps)

lemma recover_simple:
  assumes "journal_reads en (journal_payload tx ds es phase)" "phase = ''prepared'' \<or> phase = ''event_appended''"
    and "dk_journal dk = Some (ser (JObj (journal_payload tx ds es phase)))"
  shows "recover en dk = Inr (dk\<lparr>dk_journal := None\<rparr>)"
  using assms(2) unfolding recover_def read_journal_text [OF assms(1,3)]
  by (auto simp: bind_err_def str_get_def jget_or_def journal_fields Let_def simp del: norm.simps)

lemma recover_appends:
  assumes "journal_reads en (journal_payload tx ds es ''files_replaced'')"
    and "dk_journal dk = Some (ser (JObj (journal_payload tx ds es ''files_replaced'')))"
    and "load_log (en_sha en) (en_loads en) (en_event_ok en) (dk_log dk) = Inr current" "tx_id tx \<notin> ev_tx ` set current"
    and "write_events en es (dk_log dk) = Inr log" "es \<noteq> []"
  shows "recover en dk = Inr (dk\<lparr>dk_journal := None, dk_log := log\<rparr>)"
proof -
  from assms(3) have "scan_text (en_sha en) (en_loads en) (en_event_ok en) (dk_log dk) = Inr (current, [])"
    by (simp add: load_log_iff)
  with assms(4) show ?thesis
    unfolding recover_def read_journal_text [OF assms(1,2)]
    using write_events_norm [OF assms(3,6,5)]
    by (simp add: bind_err_def map_err_def str_get_def jget_or_def journal_fields journal_events_norm Let_def del: norm.simps)
qed

lemma recover_appended:
  assumes "journal_reads en (journal_payload tx ds es ''files_replaced'')"
    and "dk_journal dk = Some (ser (JObj (journal_payload tx ds es ''files_replaced'')))"
    and "load_log (en_sha en) (en_loads en) (en_event_ok en) (dk_log dk) = Inr current" "tx_id tx \<in> ev_tx ` set current"
  shows "recover en dk = Inr (dk\<lparr>dk_journal := None\<rparr>)"
proof -
  from assms(3) have "scan_text (en_sha en) (en_loads en) (en_event_ok en) (dk_log dk) = Inr (current, [])"
    by (simp add: load_log_iff)
  with assms(4) show ?thesis
    unfolding recover_def read_journal_text [OF assms(1,2)]
    by (simp add: bind_err_def map_err_def str_get_def jget_or_def journal_fields Let_def del: norm.simps)
qed

definition journals_ready :: "env \<Rightarrow> txn \<Rightarrow> bool" where
  "journals_ready en tx \<longleftrightarrow> (\<forall>ds. write_digests en (tx_writes tx) = Inr ds \<longrightarrow>
     (\<forall>phase \<in> set [''prepared'', ''files_replaced'', ''event_appended''].
        journal_reads en (journal_payload tx ds (tx_tagged tx) phase)))"

lemma crash_prepared:
  assumes "commit_run en dk tx = (PutJournal a # doc_steps en tx @ rest, None)" "k \<le> staged tx"
  shows "crash_after (Suc k) en dk tx = dk\<lparr>dk_journal := Some a, dk_docs := docs_after en (take k (tx_writes tx)) (dk_docs dk)\<rparr>"
proof -
  have "take k (doc_steps en tx @ rest) = take k (doc_steps en tx)" using assms(2) by (simp add: staged_def doc_steps_def)
  then have "crash_after (Suc k) en dk tx = run_steps (take k (doc_steps en tx)) (dk\<lparr>dk_journal := Some a\<rparr>)"
    using assms(1) by (simp add: crash_after_def run_steps_def del: take_append)
  with doc_steps_take [OF assms(2)] show ?thesis by simp
qed

lemma crash_replaced:
  assumes "commit_run en dk tx = (PutJournal a # doc_steps en tx @ rest, None)"
  shows "crash_after (Suc (staged tx) + k) en dk tx =
    run_steps (take k rest) (dk\<lparr>dk_journal := Some a, dk_docs := docs_after en (tx_writes tx) (dk_docs dk)\<rparr>)"
proof -
  have "take (Suc (staged tx) + k) (PutJournal a # doc_steps en tx @ rest) = PutJournal a # doc_steps en tx @ take k rest"
    by (simp add: staged_def doc_steps_def)
  then have "crash_after (Suc (staged tx) + k) en dk tx =
      run_steps (take k rest) (run_steps (doc_steps en tx) (dk\<lparr>dk_journal := Some a\<rparr>))"
    using assms by (simp add: crash_after_def run_steps_def)
  then show ?thesis by (simp add: run_doc_steps)
qed

lemma recover_after_crash:
  assumes "snd (commit en dk tx) = None" and "tx_writes tx \<noteq> [] \<or> tx_events tx \<noteq> []"
    and "dk_journal dk = None" and "log_ready en dk tx current" and "journals_ready en tx"
  shows "recover en (crash_after k en dk tx) = Inr (
    if k \<le> Suc (staged tx) then dk\<lparr>dk_docs := docs_after en (take (k - 1) (tx_writes tx)) (dk_docs dk)\<rparr>
    else fst (commit en dk tx))"
proof -
  obtain es ds where c: "commit_checks en dk tx = Inr (es, ds)" and es: "es = tx_tagged tx" "es \<noteq> []"
    using commit_ok [OF assms(1,2)] by (metis tx_tagged_def)
  from c have wd: "write_digests en (tx_writes tx) = Inr ds" by (auto simp: commit_checks_def Let_def split: if_splits)
  have jr: "journal_reads en (journal_payload tx ds es phase)"
    if "phase \<in> set [''prepared'', ''files_replaced'', ''event_appended'']" for phase
    using assms(5) wd es(1) that unfolding journals_ready_def by blast
  define J where "J phase = ser (JObj (journal_payload tx ds es phase))" for phase
  obtain log where log: "write_events en es (dk_log dk) = Inr log" and run: "commit_run en dk tx =
      (PutJournal (J ''prepared'') # doc_steps en tx @
        [PutJournal (J ''files_replaced''), PutLog log, PutJournal (J ''event_appended''), DropJournal], None)"
    using commit_run_full [OF assms(2) c] unfolding J_def .
  obtain log2 where "write_events en es (dk_log dk) = Inr log2" and r: "commit en dk tx =
      (\<lparr>dk_docs = docs_after en (tx_writes tx) (dk_docs dk), dk_log = log2, dk_journal = None\<rparr>, None)"
    using commit_result [OF assms(2) c] .
  with log have r: "fst (commit en dk tx) = \<lparr>dk_docs = docs_after en (tx_writes tx) (dk_docs dk), dk_log = log, dk_journal = None\<rparr>"
    by simp
  obtain new where new: "link_all (en_sha en) (last_event current) es = Inr new"
    and load: "load_log (en_sha en) (en_loads en) (en_event_ok en) log = Inr (current @ map norm_event new)"
    using commit_log [OF assms(4) c es log] .
  have old: "load_log (en_sha en) (en_loads en) (en_event_ok en) (dk_log dk) = Inr current" "tx_id tx \<notin> ev_tx ` set current"
    using assms(4) by (simp_all add: log_ready_def fresh_for_def)
  have "set (map ev_tx new) = {tx_id tx}"
    using link_all_tx [OF new] es by (cases "tx_events tx") (auto simp: tx_tagged_def with_tx_def)
  moreover have "map ev_tx (map norm_event new) = map ev_tx new" by (simp add: norm_event_def)
  ultimately have "set (map ev_tx (map norm_event new)) = {tx_id tx}" by metis
  then have there: "tx_id tx \<in> ev_tx ` set (current @ map norm_event new)"
    by (auto simp: image_Un image_image)
  show ?thesis
  proof (cases "k \<le> Suc (staged tx)")
    case True
    show ?thesis
    proof (cases k)
      case 0
      then show ?thesis using assms(3)
        by (simp add: crash_after_def run_steps_def recover_def read_journal_def bind_err_def docs_after_def)
    next
      case (Suc i)
      with True have "i \<le> staged tx" by simp
      from crash_prepared [OF run this] recover_simple [OF jr [of "''prepared''"]] assms(3) True Suc
      show ?thesis by (simp add: J_def del: ser.simps)
    qed
  next
    case False
    then obtain i where i: "k = Suc (staged tx) + Suc i" by (metis add_Suc_right less_imp_Suc_add not_le)
    define base where "base = dk\<lparr>dk_journal := Some (J ''prepared''), dk_docs := docs_after en (tx_writes tx) (dk_docs dk)\<rparr>"
    have crash: "crash_after k en dk tx = run_steps (take (Suc i)
        [PutJournal (J ''files_replaced''), PutLog log, PutJournal (J ''event_appended''), DropJournal]) base"
      unfolding i base_def by (rule crash_replaced [OF run])
    have goal: "fst (commit en dk tx) = base\<lparr>dk_journal := None, dk_log := log\<rparr>"
      using assms(3) by (simp add: r base_def)
    consider "i = 0" | "i = 1" | "i = 2" | "3 \<le> i" by linarith
    then have "recover en (crash_after k en dk tx) = Inr (base\<lparr>dk_journal := None, dk_log := log\<rparr>)"
    proof cases
      case 1
      then show ?thesis unfolding crash
        using recover_appends [OF jr, of "base\<lparr>dk_journal := Some (J ''files_replaced'')\<rparr>" current log] old log es(2)
        by (simp add: run_steps_def base_def J_def del: ser.simps)
    next
      case 2
      then show ?thesis unfolding crash
        using recover_appended [OF jr, of "base\<lparr>dk_journal := Some (J ''files_replaced''), dk_log := log\<rparr>"] load there
        by (simp add: run_steps_def base_def J_def del: ser.simps)
    next
      case 3
      then show ?thesis unfolding crash
        using recover_simple [OF jr [of "''event_appended''"], of "base\<lparr>dk_journal := Some (J ''event_appended''), dk_log := log\<rparr>"]
        by (cases dk) (simp add: run_steps_def numeral_2_eq_2 base_def J_def del: ser.simps)
    next
      case 4
      then have "take (Suc i) [PutJournal (J ''files_replaced''), PutLog log, PutJournal (J ''event_appended''), DropJournal] =
          [PutJournal (J ''files_replaced''), PutLog log, PutJournal (J ''event_appended''), DropJournal]" by simp
      then show ?thesis unfolding crash
        by (simp add: run_steps_def base_def recover_def read_journal_def bind_err_def)
    qed
    with False goal show ?thesis by simp
  qed
qed

text \<open>C1: What a crash costs, step by step, for a transaction whose commit goes through and has something to do,
  on a repository with no journal left from before. Provided the log as it is loads and ends its last line, the staged
  events have fresh distinct ids and their appended lines read back and hold no character \<^verbatim>\<open>splitlines\<close> breaks at
  (\<^verbatim>\<open>log_ready\<close>), and the journal's entries read back as they were put (\<^verbatim>\<open>journals_ready\<close>), recovery ends after
  every cut, and with no journal left. Cut before the
  first document moved, the repository is as it was; cut once every document is in place (before the
  events are appended, after, or while the journal is being removed), it is exactly what the finished
  commit would have left, the events appended once. Cut between the first document and the second journal
  entry, the documents already moved stay moved and the log does not say so. Without those provisos it is not so:
  \<^verbatim>\<open>unfinished_line_joined\<close> and \<^verbatim>\<open>line_separator_splits\<close> are logs an append spoils.\<close>

theorem recovery_outcome:
  assumes "snd (commit en dk tx) = None" and "tx_writes tx \<noteq> [] \<or> tx_events tx \<noteq> []"
    and "dk_journal dk = None" and "log_ready en dk tx current" and "journals_ready en tx"
  shows "recover en (crash_after k en dk tx) = Inr (
    if k \<le> Suc (staged tx) then dk\<lparr>dk_docs := docs_after en (take (k - 1) (tx_writes tx)) (dk_docs dk)\<rparr>
    else fst (commit en dk tx))"
  by (rule recover_after_crash [OF assms])

text \<open>Documents moved and no event says so: cut right after the first document, recovery clears the journal
  and keeps the new document beside the old log.\<close>

lemma moved_without_event:
  assumes "snd (commit en dk tx) = None" "tx_writes tx = (name, m) # ws" "dk_journal dk = None"
    and "log_ready en dk tx current" "journals_ready en tx"
  shows "\<exists>dk'. recover en (crash_after 2 en dk tx) = Inr dk' \<and> map_of (dk_docs dk') name = Some (en_dump en m) \<and>
    dk_log dk' = dk_log dk \<and> dk_journal dk' = None"
  using recover_after_crash [OF assms(1) _ assms(3-5), of 2] assms(2,3)
  by (simp add: staged_def docs_after_def)

text \<open>The diagnosis agrees with the behaviour: for a readable journal in one of the phases the store
  writes, whose transaction is not in the log yet, \<^verbatim>\<open>journal_blocker\<close> finds nothing exactly when recovery
  can finish.\<close>

theorem blocker_exact:
  assumes "read_journal en dk = Inr (Some j)"
    and "str_get j ''phase'' '''' \<in> set [''prepared'', ''files_replaced'', ''event_appended'']"
    and "scan_text (en_sha en) (en_loads en) (en_event_ok en) (dk_log dk) = Inr sc"
    and "str_get j ''tx_id'' '''' \<notin> ev_tx ` set (fst sc)"
  shows "isl (recover en dk) = (journal_blocker en dk \<noteq> None)"
proof (cases "str_get j ''phase'' '''' = ''files_replaced''")
  case True
  show ?thesis
  proof (cases "journal_events j")
    case (Inl e)
    with assms True show ?thesis
      by (simp add: recover_def journal_blocker_def bind_err_def map_err_def Let_def)
  next
    case (Inr es)
    have w: "isl (write_events en es (dk_log dk)) \<longleftrightarrow> es \<noteq> [] \<and>
        isl (bind_err (map_err EventRefused (tail_event (en_loads en) (en_event_ok en) (dk_log dk))) (\<lambda>previous. chained en previous es))"
    proof (cases "tail_event (en_loads en) (en_event_ok en) (dk_log dk)")
      case tail: (Inr previous)
      show ?thesis
      proof (cases "chained en previous es")
        case ls: (Inr ls)
        then obtain lines where "lines_for (en_loads en) (en_event_ok en) ls = Inr lines" by (auto simp: chained_iff)
        with tail ls show ?thesis by (simp add: write_events_def bind_err_def map_err_def append_lines_def)
      qed (simp add: tail write_events_def bind_err_def map_err_def)
    qed (simp add: write_events_def bind_err_def map_err_def)
    with Inr assms True show ?thesis
      by (cases "write_events en es (dk_log dk)")
        (auto simp: recover_def journal_blocker_def bind_err_def map_err_def Let_def split: sum.splits)
  qed
next
  case False
  with assms(1,2) show ?thesis
    by (auto simp: recover_def journal_blocker_def bind_err_def Let_def)
qed

text \<open>Outside those phases it does not: a journal in a phase nobody writes stops every transaction, and the
  diagnosis reports no blocker.\<close>

lemma unknown_phase_unreported:
  assumes "read_journal en dk = Inr (Some j)"
    and "str_get j ''phase'' '''' \<notin> set [''prepared'', ''files_replaced'', ''event_appended'']"
  shows "recover en dk = Inl (UnknownPhase (str_get j ''phase'' '''')) \<and> journal_blocker en dk = None"
  using assms by (simp add: recover_def journal_blocker_def bind_err_def Let_def)

text \<open>\<^verbatim>\<open>expect_digest=None\<close> is no check at all, although the staging method says it means absent: the expectation
  for an absent document is the empty digest.\<close>

lemma unexpected_unchecked:
  "tx_write en name m None tx = Inr tx' \<Longrightarrow> tx_expect tx' = tx_expect tx"
  by (auto simp: tx_write_def split: if_splits)

text \<open>The one door: a transaction that does not end well (the tool is behind the repository, recovery is
  impossible, the block raised, the commit refused) leaves the documents and the log as recovery left
  them, or untouched when recovery did not succeed or was not reached.\<close>

theorem transaction_aborts_clean:
  assumes "transaction en wrap refusal recovering body dk = (dk', Some err)"
  shows "dk' = dk \<or> recovering \<and> refusal = None \<and> recover en dk = Inr dk'"
proof (cases refusal)
  case None
  show ?thesis
  proof (cases "if recovering then recover en dk else Inr dk")
    case (Inr dk0)
    from assms None Inr have "dk' = dk0"
      by (auto simp: transaction_def dest: refused_clean split: sum.splits)
    with Inr None show ?thesis by (auto split: if_splits)
  qed (use assms None in \<open>simp add: transaction_def\<close>)
qed (use assms in \<open>simp add: transaction_def\<close>)

section \<open>A concrete environment\<close>

text \<open>A tokenizer that knows the canonical texts of a few values.\<close>

fun raw_of :: "json \<Rightarrow> jraw" where
  "raw_of (JArr xs) = RArr (map raw_of xs)"
| "raw_of (JObj kvs) = RObj (map (\<lambda>kv. (fst kv, raw_of (snd kv))) kvs)"
| "raw_of v = RVal v"

lemma no_duplicates_distinct: "distinct (map fst seen @ map fst kvs) \<Longrightarrow> no_duplicates seen kvs = Inr (seen @ kvs)"
  by (induction seen kvs rule: no_duplicates.induct) auto

lemma run_hooks_raw_of: "jwf v \<Longrightarrow> run_hooks (raw_of v) = Inr v"
proof (induction v rule: raw_of.induct)
  case (1 xs)
  then have "hooks_list (map raw_of xs) = Inr xs" by (induction xs) (auto simp: bind_err_def)
  then show ?case by (simp add: bind_err_def)
next
  case (2 kvs)
  then have "hooks_pairs (map (\<lambda>kv. (fst kv, raw_of (snd kv))) kvs) = Inr kvs"
    by (induction kvs) (auto simp: bind_err_def)
  with 2 no_duplicates_distinct [of "[]" kvs] show ?case by (simp add: bind_err_def)
qed simp_all

lemma jwf_norm: "jwf v \<Longrightarrow> jwf (norm v)"
proof (induction v rule: norm.induct)
  case (2 kvs)
  then have "distinct (map fst (sort_key fst kvs))" by (simp add: distinct_map)
  then have "distinct (map fst (map norm_item (sort_key fst kvs)))" by (simp add: comp_def norm_item_def)
  with 2 show ?case by (auto simp: norm_JObj norm_item_def)
qed auto

definition table_loads :: "json list \<Rightarrow> string \<Rightarrow> jraw option" where
  "table_loads vs s = map_option (\<lambda>v. raw_of (norm v)) (find (\<lambda>v. ser v = s) vs)"

definition plain :: "json \<Rightarrow> bool" where
  "plain v \<longleftrightarrow> floats_ok v \<and> finite_floats v \<and> jwf v"

lemma table_reads:
  assumes "v \<in> set vs" "\<forall>w \<in> set vs. plain w"
  shows "\<exists>t. table_loads vs (ser v) = Some t \<and> run_hooks t = Inr (norm v)"
proof -
  obtain w where w: "find (\<lambda>w. ser w = ser v) vs = Some w" using assms(1) by (cases "find (\<lambda>w. ser w = ser v) vs") (auto simp: find_None_iff)
  then have "w \<in> set vs" "ser w = ser v" by (auto simp: find_Some_iff)
  with assms ser_prefix_inj [of w v "[]" "[]"] have "norm w = norm v" by (auto simp: plain_def ends_value_def)
  with w assms \<open>w \<in> set vs\<close> show ?thesis
    using run_hooks_raw_of [OF jwf_norm, of w] by (simp add: table_loads_def plain_def)
qed

definition small_limits :: limits where
  "small_limits = \<lparr>max_bytes = 1200, max_depth = 8, max_scalar_len = 100, max_collection = 20, max_nodes = 60\<rparr>"

lemma table_mapping:
  assumes "JObj kvs \<in> set vs" "\<forall>w \<in> set vs. plain w" "within small_limits (norm (JObj kvs))"
    and "length (ser (JObj kvs)) \<le> max_bytes small_limits" "lim = event_limits \<or> lim = untrusted_limits"
  shows "load_json_mapping (table_loads vs) lim (ser (JObj kvs)) = Inr (as_obj (norm (JObj kvs)))"
proof -
  obtain t where t: "table_loads vs (ser (JObj kvs)) = Some t" "run_hooks t = Inr (norm (JObj kvs))"
    using table_reads [OF assms(1,2)] by blast
  obtain m where m: "norm (JObj kvs) = JObj m" by (simp add: norm_JObj)
  have "max_bytes small_limits \<le> max_bytes lim" "max_depth small_limits \<le> max_depth lim"
    "max_scalar_len small_limits \<le> max_scalar_len lim" "max_collection small_limits \<le> max_collection lim"
    "max_nodes small_limits \<le> max_nodes lim"
    using assms(5) by (auto simp: small_limits_def event_limits_def untrusted_limits_def)
  with load_json_mapping_within [of "table_loads vs" "ser (JObj kvs)" t m small_limits lim] t m assms(3,4)
  show ?thesis by simp
qed

definition demo_event :: event where
  "demo_event = \<lparr>ev_seq = 0, ev_id = ''e1'', ev_tx = '''', ev_ts = ''now'', ev_kind = ''task_completed'', ev_cycle = ''c1'',
     ev_actor = '''', ev_subjects = [], ev_prev = '''', ev_digest = '''', ev_detail = []\<rparr>"

definition demo_doc :: jobj where
  "demo_doc = [(''cycle_id'', JStr ''c1'')]"

definition demo_tx :: txn where
  "demo_tx = \<lparr>tx_id = ''t1'', tx_writes = [(''state'', demo_doc)], tx_expect = [(''state'', '''')], tx_events = [demo_event]\<rparr>"

definition demo_linked :: event where
  "demo_linked = (case link toy_sha None (with_tx ''t1'' demo_event) of Inr l \<Rightarrow> l | Inl _ \<Rightarrow> demo_event)"

definition demo_digests :: jobj where
  "demo_digests = [(''state'', JStr (of_bytes toy_sha (ser (JObj demo_doc))))]"

definition demo_journal :: "string \<Rightarrow> jobj" where
  "demo_journal phase = journal_payload demo_tx demo_digests [with_tx ''t1'' demo_event] phase"

definition demo_table :: "json list" where
  "demo_table = [JObj (to_mapping demo_linked), JObj (demo_journal ''prepared''), JObj (demo_journal ''files_replaced''),
     JObj (demo_journal ''event_appended'')]"

definition demo_env :: env where
  "demo_env = \<lparr>en_sha = toy_sha, en_loads = table_loads demo_table,
     en_load_doc = (\<lambda>s. if s = ser (JObj demo_doc) then Inr demo_doc else Inl EmptyDocument),
     en_dump = (\<lambda>m. ser (JObj m)), en_schema = (\<lambda>_ _. True), en_event_ok = (\<lambda>_. True)\<rparr>"

definition demo_disk :: disk where
  "demo_disk = \<lparr>dk_docs = [], dk_log = '''', dk_journal = None\<rparr>"

lemma demo_plain: "\<forall>w \<in> set demo_table. plain w"
proof -
  have "plain (JObj (to_mapping demo_linked))" unfolding plain_def by code_simp
  moreover have "plain (JObj (demo_journal phase))" for phase
    by (simp add: plain_def demo_journal_def journal_payload_def demo_tx_def demo_digests_def to_mapping_def payload_def
        with_tx_def demo_event_def)
  ultimately show ?thesis by (simp add: demo_table_def)
qed

lemma demo_small:
  "within small_limits (norm (JObj (to_mapping demo_linked)))" "length (ser (JObj (to_mapping demo_linked))) \<le> max_bytes small_limits"
  "within small_limits (norm (JObj (demo_journal ''prepared'')))" "length (ser (JObj (demo_journal ''prepared''))) \<le> max_bytes small_limits"
  "within small_limits (norm (JObj (demo_journal ''files_replaced'')))" "length (ser (JObj (demo_journal ''files_replaced''))) \<le> max_bytes small_limits"
  "within small_limits (norm (JObj (demo_journal ''event_appended'')))" "length (ser (JObj (demo_journal ''event_appended''))) \<le> max_bytes small_limits"
  by code_simp+

lemma demo_link: "link toy_sha None (with_tx ''t1'' demo_event) = Inr demo_linked"
proof -
  have "\<not> isl (link toy_sha None (with_tx ''t1'' demo_event))" by code_simp
  then show ?thesis by (cases "link toy_sha None (with_tx ''t1'' demo_event)") (simp_all add: demo_linked_def)
qed

lemma table_line:
  assumes "JObj (to_mapping l) \<in> set vs" "\<forall>w \<in> set vs. plain w" "within small_limits (norm (JObj (to_mapping l)))"
    and "length (ser (JObj (to_mapping l))) \<le> max_bytes small_limits"
  shows "line_for (table_loads vs) (\<lambda>_. True) l = Inr (ser (JObj (to_mapping l)))"
proof -
  have "dumps l = Inr (ser (JObj (to_mapping l)))"
    using assms(1,2) by (auto simp: dumps_def canonical_iff plain_def simp del: ser.simps finite_floats.simps)
  then show ?thesis using table_mapping [OF assms] by (simp add: line_for_def)
qed

lemma one_event_log:
  assumes "link toy_sha None e = Inr l" and "plain (JObj (to_mapping l))" and "one_line l"
    and "within small_limits (norm (JObj (to_mapping l)))" "length (ser (JObj (to_mapping l))) \<le> max_bytes small_limits"
  shows "scan_text toy_sha (table_loads [JObj (to_mapping l)]) (\<lambda>_. True) (ser (JObj (to_mapping l)) @ newline) =
    Inr ([norm_event l], [])"
proof -
  let ?v = "JObj (to_mapping l)"
  have empty: "load_log toy_sha (table_loads [?v]) (\<lambda>_. True) '''' = Inr []"
    by (simp add: load_log_def scan_text_def splitlines_def)
  have lk: "link_all toy_sha (last_event []) [e] = Inr [l]" using assms(1) by (simp add: last_event_def)
  have "line_for (table_loads [?v]) (\<lambda>_. True) l = Inr (ser ?v)" using assms by (intro table_line) auto
  then have ap: "append_lines (table_loads [?v]) (\<lambda>_. True) '''' [l] = Inr (ser ?v @ newline)"
    by (simp add: append_lines_def bind_err_def)
  have "reads_back (table_loads [?v]) l"
    using table_reads [of ?v "[?v]"] assms(2) by (auto simp: reads_back_def)
  with append_reads [OF empty _ lk _ _ ap] assms(3) show ?thesis by (simp add: ends_line_def load_log_iff)
qed

lemma demo_line: "line_for (table_loads demo_table) (\<lambda>_. True) demo_linked = Inr (ser (JObj (to_mapping demo_linked)))"
  by (rule table_line [OF _ demo_plain demo_small(1,2)]) (simp add: demo_table_def)

lemma demo_chained: "chained demo_env None [with_tx ''t1'' demo_event] = Inr [demo_linked]"
  by (simp add: demo_env_def demo_link demo_line map_err_def bind_err_def)

lemma demo_empty_log: "load_log sha loads ok '''' = Inr []"
  by (simp add: load_log_def scan_text_def splitlines_def)

lemma demo_doc_digest: "digest_of toy_sha (JObj demo_doc) [] = Inr (of_bytes toy_sha (ser (JObj demo_doc)))"
  by (simp add: digest_of_iff prune_def demo_doc_def del: ser.simps)

lemma demo_checks: "commit_checks demo_env demo_disk demo_tx = Inr ([with_tx ''t1'' demo_event], demo_digests)"
proof -
  have "precheck_events demo_env demo_disk [with_tx ''t1'' demo_event] = Inr ()"
    using demo_chained by (simp add: precheck_events_def read_events_def demo_disk_def demo_empty_log map_err_def bind_err_def last_event_def)
  moreover have "write_digests demo_env (tx_writes demo_tx) = Inr demo_digests"
    by (simp add: demo_tx_def demo_env_def demo_doc_digest demo_digests_def map_err_def bind_err_def)
  moreover have "check_expect demo_env demo_disk (tx_expect demo_tx) = Inr ()" "check_reviews demo_env demo_tx = Inr ()"
    by (simp_all add: demo_tx_def demo_disk_def document_digest_def read_raw_def read_digest_def check_reviews_def bind_err_def)
  ultimately show ?thesis by (simp add: commit_checks_def bind_err_def) (simp add: demo_tx_def)
qed

lemma demo_commits: "snd (commit demo_env demo_disk demo_tx) = None" "tx_writes demo_tx \<noteq> [] \<or> tx_events demo_tx \<noteq> []"
proof -
  show s: "tx_writes demo_tx \<noteq> [] \<or> tx_events demo_tx \<noteq> []" by (simp add: demo_tx_def)
  show "snd (commit demo_env demo_disk demo_tx) = None"
    using commit_result [OF s demo_checks] by (metis snd_conv)
qed

lemma demo_log_ready: "log_ready demo_env demo_disk demo_tx []"
proof -
  have l: "link_all (en_sha demo_env) (last_event []) (tx_tagged demo_tx) = Inr [demo_linked]"
    using demo_chained by (simp add: chained_iff tx_tagged_def demo_tx_def last_event_def)
  have "one_line demo_linked" by code_simp
  moreover have "reads_back (table_loads demo_table) demo_linked"
    using table_reads [OF _ demo_plain, of "JObj (to_mapping demo_linked)"] by (auto simp: reads_back_def demo_table_def)
  ultimately show ?thesis
    unfolding log_ready_def l by (simp add: demo_env_def demo_disk_def demo_empty_log ends_line_def fresh_for_def demo_tx_def)
qed

lemma demo_journal_reads: "phase \<in> set [''prepared'', ''files_replaced'', ''event_appended''] \<Longrightarrow> journal_reads demo_env (demo_journal phase)"
proof -
  assume "phase \<in> set [''prepared'', ''files_replaced'', ''event_appended'']"
  then consider "phase = ''prepared''" | "phase = ''files_replaced''" | "phase = ''event_appended''" by auto
  then have "within small_limits (norm (JObj (demo_journal phase))) \<and> length (ser (JObj (demo_journal phase))) \<le> max_bytes small_limits
      \<and> JObj (demo_journal phase) \<in> set demo_table"
    using demo_small by cases (simp_all add: demo_table_def)
  with table_mapping [OF _ demo_plain] show ?thesis by (simp add: journal_reads_def demo_env_def)
qed

lemma demo_journals_ready: "journals_ready demo_env demo_tx"
proof -
  have "write_digests demo_env (tx_writes demo_tx) = Inr demo_digests"
    by (simp add: demo_tx_def demo_env_def demo_doc_digest demo_digests_def map_err_def bind_err_def)
  moreover have "tx_tagged demo_tx = [with_tx ''t1'' demo_event]" by (simp add: tx_tagged_def demo_tx_def)
  ultimately show ?thesis
    unfolding journals_ready_def using demo_journal_reads by (simp add: demo_journal_def del: list.set)
qed

theorem commit_refused_clean_witness:
  "fst (commit demo_env demo_disk (demo_tx\<lparr>tx_events := []\<rparr>)) = demo_disk"
  by (rule commit_refused_clean [where err = Unexplained])
    (simp add: commit_def commit_run_def commit_checks_def demo_tx_def)

theorem commit_lands_whole_witness:
  "\<exists>new. read_events demo_env (fst (commit demo_env demo_disk demo_tx)) = Inr new \<and> ev_tx ` set new = {''t1''}"
proof -
  have d: "distinct (map fst (tx_writes demo_tx))" by (simp add: demo_tx_def)
  obtain new where n: "read_events demo_env (fst (commit demo_env demo_disk demo_tx)) = Inr (map norm_event new)"
    "ev_tx ` set new = {tx_id demo_tx}"
    using commit_lands_whole [OF demo_commits d demo_log_ready, of "''state''"] by auto
  then show ?thesis by (intro exI [of _ "map norm_event new"]) (simp add: image_image norm_event_def demo_tx_def)
qed

theorem lost_update_refused_witness:
  "\<exists>err. commit demo_env (fst (commit demo_env demo_disk demo_tx)) demo_tx = (fst (commit demo_env demo_disk demo_tx), Some err)"
  by (rule lost_update_refused [OF demo_commits(1), where name = "''state''" and m = demo_doc and expected = "''''"
      and written = "of_bytes toy_sha (ser (JObj demo_doc))"])
    (simp_all add: demo_tx_def demo_env_def read_digest_def demo_doc_digest map_err_def of_bytes_def digest_prefix_def del: ser.simps)

theorem recovery_outcome_witness:
  "recover demo_env (crash_after 1 demo_env demo_disk demo_tx) = Inr demo_disk \<and>
   recover demo_env (crash_after 3 demo_env demo_disk demo_tx) = Inr (fst (commit demo_env demo_disk demo_tx))"
proof -
  have "dk_journal demo_disk = None" "staged demo_tx = 1" by (simp_all add: demo_disk_def staged_def demo_tx_def)
  with recovery_outcome [OF demo_commits this(1) demo_log_ready demo_journals_ready, of 1]
    recovery_outcome [OF demo_commits this(1) demo_log_ready demo_journals_ready, of 3]
  show ?thesis by (simp add: docs_after_def demo_disk_def)
qed

theorem blocker_exact_witness:
  "isl (recover demo_env (demo_disk\<lparr>dk_journal := Some (ser (JObj (demo_journal ''files_replaced'')))\<rparr>)) =
   (journal_blocker demo_env (demo_disk\<lparr>dk_journal := Some (ser (JObj (demo_journal ''files_replaced'')))\<rparr>) \<noteq> None)"
proof (rule blocker_exact)
  let ?dk = "demo_disk\<lparr>dk_journal := Some (ser (JObj (demo_journal ''files_replaced'')))\<rparr>"
  show "read_journal demo_env ?dk = Inr (Some (as_obj (norm (JObj (demo_journal ''files_replaced'')))))"
    by (rule read_journal_text [OF demo_journal_reads]) (simp_all del: ser.simps)
  show "str_get (as_obj (norm (JObj (demo_journal ''files_replaced'')))) ''phase'' '''' \<in>
      set [''prepared'', ''files_replaced'', ''event_appended'']"
    by (simp add: str_get_def jget_or_def demo_journal_def journal_fields del: norm.simps)
  show "scan_text (en_sha demo_env) (en_loads demo_env) (en_event_ok demo_env) (dk_log ?dk) = Inr ([], [])"
    by (simp add: demo_disk_def scan_text_def splitlines_def)
  show "str_get (as_obj (norm (JObj (demo_journal ''files_replaced'')))) ''tx_id'' '''' \<notin> ev_tx ` set (fst ([], []))" by simp
qed

theorem transaction_aborts_clean_witness:
  "fst (transaction demo_env id None False (\<lambda>_. Inr (demo_tx\<lparr>tx_events := []\<rparr>)) demo_disk) = demo_disk"
  using transaction_aborts_clean [of demo_env id None False "\<lambda>_. Inr (demo_tx\<lparr>tx_events := []\<rparr>)" demo_disk _ Unexplained]
  by (simp add: transaction_def commit_def commit_run_def commit_checks_def demo_tx_def run_steps_def)

section \<open>A last line without its newline\<close>

text \<open>A crash inside the append can leave the last record whole and its newline missing. Such a log still
  reads, and the next append puts its record on the same line.\<close>

lemma split_unfinished: "breakless l \<Longrightarrow> cur @ l \<noteq> [] \<Longrightarrow> split_from cur l = [cur @ l]"
  by (induction l arbitrary: cur) simp_all

lemma unfinished_line_joined:
  assumes "line_for loads ok e = Inr l'" "breakless l" "breakless (l @ l')" "l \<noteq> []"
  shows "splitlines l = [l] \<and>
    (\<exists>log. append_lines loads ok l [e] = Inr log \<and> splitlines log = [l @ l'])"
proof
  show "splitlines l = [l]" using split_unfinished [OF assms(2), of "[]"] assms(4) by (simp add: splitlines_def)
  show "\<exists>log. append_lines loads ok l [e] = Inr log \<and> splitlines log = [l @ l']"
    using assms(1) split_breakless [OF assms(3), of "[]" "[]"]
    by (simp add: append_lines_def bind_err_def newline_def splitlines_def)
qed

end
