(* ===== verification/Revise.thy ===== *)
theory Revise
  imports Store
begin

text \<open>
  \<^verbatim>\<open>revise.py\<close>: rolling back to a gate. What the roll back would change is computed once, as data
  (\<open>plan_revision\<close>), shown to the operator (not modelled), and then applied in one transaction of the store. The
  state is read twice, once for each; both readings are arguments. \<open>now\<close> is the clock and the fresh ids are
  arguments.
\<close>

section \<open>Planning the roll back\<close>

record revision =
  rn_target :: string
  rn_resets :: "string list"
  rn_crossed :: "string list"
  rn_unfreezes :: bool
  rn_order :: "string list"
  rn_scope :: "string list"
  rn_attempts :: "string list"
  rn_stales_review :: bool
  rn_cleared :: "string list"
  rn_marked :: "string list"
  rn_ripple :: "string list"
  rn_unknown :: "string list"
  rn_previous :: "(string \<times> string) list"

datatype revise_error =
    UnknownTarget string
  | NoState
  | AbsentGate gate_absence
  | NoPlan
  | BadGraph dag_error
  | BadShape string
  | BadEvent make_error
  | FromStore store_error

definition unfreezes_plan :: "string list" where
  "unfreezes_plan = [''mandate'']"

definition gates_to_reset :: "string \<Rightarrow> jobj \<Rightarrow> string list" where
  "gates_to_reset target raw =
     (let downstream = target # filter (\<lambda>g. target \<in> set (upstream_of raw g)) (gate_ids raw)
      in filter (\<lambda>g. g \<in> set downstream \<and> gate_status raw g = ''approved'') (gate_ids raw))"

definition impacted_closure :: "jobj \<Rightarrow> jobj option \<Rightarrow> string list \<Rightarrow> dag_error + string list \<times> string list" where
  "impacted_closure plan state seeds =
     bind_err (join_graph plan state) (\<lambda>g.
       let valid = filter (\<lambda>s. s \<in> set (g_ids g)) seeds
       in Inr (valid, sorted_set (dependents_closure g valid)))"

definition returned :: "bool \<Rightarrow> (string \<times> 'a) list \<Rightarrow> (string \<Rightarrow> 'a \<Rightarrow> string) \<Rightarrow> string list" where
  "returned unfreezes entries text_of = (if unfreezes then map (\<lambda>kv. text_of (fst kv) (snd kv)) (sort_key fst entries) else [])"

definition plan_revision :: "jobj option \<Rightarrow> jobj option \<Rightarrow> string \<Rightarrow> string list \<Rightarrow> revise_error + revision" where
  "plan_revision state plan target seeds =
     (if \<not> gate_name_ok target then Inl (UnknownTarget target)
      else case state of
        None \<Rightarrow> Inl NoState
      | Some raw \<Rightarrow>
          (case gate_absence_reason raw target of
             Some why \<Rightarrow> Inl (AbsentGate why)
           | None \<Rightarrow>
               (let resets = gates_to_reset target raw;
                    unfreezes = (target \<in> set unfreezes_plan \<and> st_plan_status raw = ''frozen'')
                in bind_err
                     (if seeds = [] then Inr ([], [])
                      else case plan of
                        None \<Rightarrow> Inl NoPlan
                      | Some p \<Rightarrow> map_err BadGraph (impacted_closure p state seeds))
                     (\<lambda>(valid, ripple). Inr
                       (let marked = sorted_set (valid @ ripple)
                        in \<lparr>rn_target = target, rn_resets = resets,
                           rn_crossed = filter (\<lambda>g. g \<in> set (crossing_gates raw)) resets,
                           rn_unfreezes = unfreezes,
                           rn_order = returned unfreezes (task_after raw) (\<lambda>tid after. tid @ '' after '' @ join '', '' after),
                           rn_scope = returned unfreezes (task_scope_added raw) (\<lambda>tid paths. tid @ '': '' @ join '', '' paths),
                           rn_attempts = returned unfreezes (task_attempts_max raw) (\<lambda>tid n. tid @ '': '' @ dec_int n),
                           rn_stales_review = (resets \<noteq> []),
                           rn_cleared = filter (\<lambda>g. gate_receipt raw g \<noteq> None) resets,
                           rn_marked = marked, rn_ripple = ripple,
                           rn_unknown = filter (\<lambda>s. s \<notin> set valid) seeds,
                           rn_previous = map (\<lambda>tid. (tid, case map_of (task_status raw) tid of Some s \<Rightarrow> s | None \<Rightarrow> ''todo'')) marked\<rparr>)))))"

section \<open>Applying it\<close>

definition frozen_plan_keys :: "string list" where
  "frozen_plan_keys = [''digest'', ''config_digest'', ''environment_digest'', ''sources'', ''frozen_at'']"

definition pending_gate :: jobj where
  "pending_gate = [(''status'', JStr ''pending''), (''receipt'', JNull)]"

text \<open>A block of the state that is edited in place: absent it starts empty, and what is no mapping cannot be
  edited.\<close>

definition block :: "jobj \<Rightarrow> string \<Rightarrow> revise_error + jobj" where
  "block raw k = (case map_of raw k of None \<Rightarrow> Inr [] | Some (JObj m) \<Rightarrow> Inr m | Some _ \<Rightarrow> Inl (BadShape k))"

definition return_task :: "json \<Rightarrow> json" where
  "return_task v = (case v of JObj m \<Rightarrow> JObj (jpop ''attempts_max'' (jpop ''scope_added'' (jpop ''after'' m))) | _ \<Rightarrow> v)"

definition unfreeze :: "jobj \<Rightarrow> revise_error + jobj" where
  "unfreeze raw =
     bind_err (block raw ''plan'') (\<lambda>plan.
     bind_err (block raw ''tasks'') (\<lambda>tasks.
       let raw1 = jset ''plan'' (JObj (fold jpop frozen_plan_keys (jset ''status'' (JStr ''draft'') plan))) raw
       in Inr (if map_of raw ''tasks'' = None then raw1
               else jset ''tasks'' (JObj (map (\<lambda>kv. (fst kv, return_task (snd kv))) tasks)) raw1)))"

definition mark_task :: "string \<Rightarrow> jobj \<Rightarrow> jobj" where
  "mark_task tid tasks =
     jset tid (case map_of tasks tid of
        Some (JObj m) \<Rightarrow> JObj (jset ''status'' (JStr ''needs-revision'') m)
      | _ \<Rightarrow> JObj [(''status'', JStr ''needs-revision'')]) tasks"

definition revised_state :: "jobj \<Rightarrow> revision \<Rightarrow> string \<Rightarrow> revise_error + jobj" where
  "revised_state raw r now =
     bind_err (if rn_resets r = [] then Inr raw
               else if is_obj (jget raw ''gates'') then Inr (fold (\<lambda>g. set_gate g pending_gate) (rn_resets r) raw)
               else Inl (BadShape ''gates'')) (\<lambda>raw1.
     let raw2 = jset ''updated_at'' (JStr now) raw1
     in bind_err (if rn_unfreezes r then unfreeze raw2 else Inr raw2) (\<lambda>raw3.
        if rn_marked r = [] then Inr raw3
        else bind_err (block raw3 ''tasks'') (\<lambda>tasks. Inr (jset ''tasks'' (JObj (fold mark_task (rn_marked r) tasks)) raw3))))"

definition stale_review :: "jobj option \<Rightarrow> jobj option" where
  "stale_review review = (case review of
      Some raw \<Rightarrow> if human_status raw \<noteq> ''not_started''
        then Some (jset ''human'' (JObj [(''status'', JStr ''not_started'')]) raw) else None
    | None \<Rightarrow> None)"

definition revise_detail :: "revision \<Rightarrow> string \<Rightarrow> jobj" where
  "revise_detail r reason =
     (let strs = (\<lambda>xs. JArr (map JStr xs)); some = (\<lambda>k xs. if xs \<noteq> [] then [(k, strs xs)] else [])
      in [(''target_gate'', JStr (rn_target r)), (''gates_reset'', strs (rn_resets r)), (''reason'', JStr reason)] @
         some ''returned_order'' (rn_order r) @ some ''returned_scope'' (rn_scope r) @ some ''returned_attempts'' (rn_attempts r))"

text \<open>\<^verbatim>\<open>_state\<close> and \<^verbatim>\<open>_review\<close>: a document that is there has to pass its schema.\<close>

definition read_document :: "env \<Rightarrow> disk \<Rightarrow> string \<Rightarrow> store_error + jobj option" where
  "read_document en dk name =
     bind_err (read_raw en dk name) (\<lambda>m. case m of
        None \<Rightarrow> Inr None
      | Some raw \<Rightarrow> if en_schema en name raw then Inr (Some raw) else Inl (DocumentRejected name))"

text \<open>What is read before the transaction opens: the state, and the review when the roll back stales it, each
  with the digest of what was read.\<close>

record reading =
  rg_state :: jobj
  rg_seen :: string
  rg_review :: "jobj option"
  rg_seen_review :: string

definition read_for :: "env \<Rightarrow> disk \<Rightarrow> revision \<Rightarrow> revise_error + reading" where
  "read_for en dk r =
     bind_err (map_err FromStore (read_document en dk ''state'')) (\<lambda>state. case state of
       None \<Rightarrow> Inl NoState
     | Some raw \<Rightarrow>
         bind_err (map_err FromStore (read_digest en (Some raw))) (\<lambda>seen.
         bind_err (if rn_stales_review r then map_err FromStore (read_document en dk ''review'') else Inr None) (\<lambda>review.
         bind_err (map_err FromStore (read_digest en review)) (\<lambda>seen_review.
           Inr \<lparr>rg_state = raw, rg_seen = seen, rg_review = review, rg_seen_review = seen_review\<rparr>))))"

text \<open>The staged transaction: the state, the review when it was started, one event, and a second one when
  the plan comes open.\<close>

definition stage_revision :: "env \<Rightarrow> reading \<Rightarrow> revision \<Rightarrow> string \<Rightarrow> string \<Rightarrow> string \<Rightarrow> string \<Rightarrow> string \<Rightarrow> revise_error + txn" where
  "stage_revision en rg r reason now tid id1 id2 =
     bind_err (revised_state (rg_state rg) r now) (\<lambda>raw.
     bind_err (map_err FromStore (tx_write en ''state'' raw (Some (rg_seen rg)) (begin_tx tid))) (\<lambda>tx1.
     bind_err (case stale_review (rg_review rg) of
         None \<Rightarrow> Inr tx1
       | Some review \<Rightarrow> map_err FromStore (tx_write en ''review'' review (Some (rg_seen_review rg)) tx1)) (\<lambda>tx2.
     bind_err (map_err BadEvent (EventQueries.make ''gate_revised'' (st_cycle_id (rg_state rg)) '''' (rn_resets r @ rn_marked r)
         (revise_detail r reason) tid id1 now)) (\<lambda>e1.
     if rn_unfreezes r then
       bind_err (map_err BadEvent (EventQueries.make ''plan_invalidated'' (st_cycle_id (rg_state rg)) '''' [] [(''reason'', JStr reason)] tid id2 now))
         (\<lambda>e2. Inr (tx_append e2 (tx_append e1 tx2)))
     else Inr (tx_append e1 tx2)))))"

definition apply_revision :: "env \<Rightarrow> string option \<Rightarrow> revision \<Rightarrow> string \<Rightarrow> string \<Rightarrow> string \<Rightarrow> string \<Rightarrow> string \<Rightarrow>
    disk \<Rightarrow> disk \<Rightarrow> disk \<times> revise_error option" where
  "apply_revision en refusal r reason now tid id1 id2 dk_read dk =
     (case read_for en dk_read r of
        Inl err \<Rightarrow> (dk, Some err)
      | Inr rg \<Rightarrow> transaction en FromStore refusal True (\<lambda>_. stage_revision en rg r reason now tid id1 id2) dk)"

section \<open>The gates after a roll back\<close>

lemma obj_field_jset_same [simp]: "obj_field (jset k (JObj m) raw) k = m"
  by (simp add: obj_field_eq)

lemma same_gates:
  assumes "obj_field a ''gates'' = obj_field b ''gates''"
  shows "gate_status a = gate_status b" "gate_ids a = gate_ids b" "upstream_of a = upstream_of b" "state_ok a = state_ok b"
    "gate_receipt a = gate_receipt b" "fan.clear a = fan.clear b"
proof -
  have g: "st_gates a = st_gates b" using assms by (simp add: st_gates_def)
  show s: "gate_status a = gate_status b" by (simp add: gate_status_def fun_eq_iff g)
  show "gate_ids a = gate_ids b" "upstream_of a = upstream_of b" "gate_receipt a = gate_receipt b"
    by (simp_all add: fun_eq_iff gate_ids_def upstream_of_def crossing_gates_def gate_receipt_def g)
  then show "fan.clear a = fan.clear b" using s by (simp add: fan.clear_def gate_approved_def)
  show "state_ok a = state_ok b" using assms by (simp add: state_ok_def)
qed

lemma unfreeze_gates: "unfreeze raw = Inr raw' \<Longrightarrow> obj_field raw' ''gates'' = obj_field raw ''gates''"
  by (auto simp: unfreeze_def Let_def obj_field_jset_other split: if_splits)

lemma revised_state_gates:
  assumes "revised_state raw r now = Inr raw'"
  shows "obj_field raw' ''gates'' = obj_field (fold (\<lambda>g. set_gate g pending_gate) (rn_resets r) raw) ''gates''"
proof -
  from assms obtain raw1 raw3 where 1: "raw1 = fold (\<lambda>g. set_gate g pending_gate) (rn_resets r) raw"
    and 3: "(if rn_unfreezes r then unfreeze (jset ''updated_at'' (JStr now) raw1) else Inr (jset ''updated_at'' (JStr now) raw1)) = Inr raw3"
    and r: "raw' = raw3 \<or> (\<exists>m. raw' = jset ''tasks'' (JObj m) raw3)"
    by (auto simp: revised_state_def Let_def split: if_splits)
  from 3 have "obj_field raw3 ''gates'' = obj_field raw1 ''gates''"
    by (auto simp: unfreeze_gates obj_field_jset_other split: if_splits)
  with 1 r show ?thesis by (auto simp: obj_field_jset_other)
qed

lemma pending_not_approved: "str_field pending_gate ''status'' ''pending'' \<noteq> ''approved''"
  by (simp add: pending_gate_def str_field_eq)

lemma approved_has_id: "gate_approved raw g \<Longrightarrow> g \<in> set (gate_ids raw)"
  by (auto simp: gate_approved_def gate_status_def set_gate_ids split: option.splits dest!: map_of_SomeD intro: rev_image_eqI)

lemma gates_to_reset_set:
  "set (gates_to_reset target raw) = {g \<in> set (gate_ids raw). (g = target \<or> target \<in> set (upstream_of raw g)) \<and> gate_approved raw g}"
  by (auto simp: gates_to_reset_def Let_def gate_approved_def)

lemma plan_revision_parts:
  assumes "plan_revision (Some raw) plan target seeds = Inr r"
  shows "target \<in> set (gate_ids raw)" "rn_resets r = gates_to_reset target raw" "rn_target r = target"
    "rn_unfreezes r = (target = ''mandate'' \<and> st_plan_status raw = ''frozen'')"
  using assms
  by (auto simp: plan_revision_def unfreezes_plan_def gate_absence_reason_def Let_def split: if_splits option.splits)

lemma revised_gates:
  assumes "state_ok raw" "plan_revision (Some raw) plan target seeds = Inr r" "revised_state raw r now = Inr raw'"
  shows "gate_ids raw' = gate_ids raw" "state_ok raw'"
    "gate_approved raw' g \<longleftrightarrow> gate_approved raw g \<and> g \<notin> set (gates_to_reset target raw)"
    "fan.clear raw \<Longrightarrow> fan.clear raw'"
proof -
  let ?put = "fold (\<lambda>g. set_gate g pending_gate) (gates_to_reset target raw) raw"
  note parts = plan_revision_parts [OF assms(2)]
  from revised_state_gates [OF assms(3)] parts(2) have "obj_field raw' ''gates'' = obj_field ?put ''gates''" by simp
  note same = same_gates [OF this]
  have sub: "set (gates_to_reset target raw) \<subseteq> set (gate_ids raw)" by (auto simp: gates_to_reset_set)
  note put = fan.fold_put [OF assms(1) sub, where a = pending_gate]
  show "gate_ids raw' = gate_ids raw" "state_ok raw'" using same put by simp_all
  have "gate_approved raw' g = gate_approved ?put g" by (simp add: gate_approved_def same)
  also have "\<dots> \<longleftrightarrow> gate_approved raw g \<and> g \<notin> set (gates_to_reset target raw)"
    using put(4) [of g] pending_not_approved by auto
  finally show "gate_approved raw' g \<longleftrightarrow> gate_approved raw g \<and> g \<notin> set (gates_to_reset target raw)" .
  show "fan.clear raw'" if "fan.clear raw"
    using fan.withdraw_clear [OF assms(1) that pending_not_approved parts(1) gates_to_reset_set] same by simp
qed

text \<open>C6: A roll back leaves no approval standing on a withdrawn one: planned and applied on the same state, it
  withdraws exactly the target and what stands on it, every other approval stays, and when no approval
  stood on a pending gate before, none does after.\<close>

theorem revision_clears_chain:
  assumes "state_ok raw" and "gate_chain_violations raw = []"
    and "plan_revision (Some raw) plan target seeds = Inr r" and "revised_state raw r now = Inr raw'"
  shows "gate_chain_violations raw' = [] \<and> gate_ids raw' = gate_ids raw \<and>
    approved_gates raw' = filter (\<lambda>g. g \<noteq> target \<and> target \<notin> set (upstream_of raw g)) (approved_gates raw)"
proof -
  note rg = revised_gates [OF assms(1,3,4)]
  have "gate_chain_violations raw' = []" using assms(2) rg(4) by (simp add: gate_chain_violations_clear)
  moreover have "approved_gates raw' = filter (\<lambda>g. g \<noteq> target \<and> target \<notin> set (upstream_of raw g)) (approved_gates raw)"
    unfolding approved_gates_def gate_approved_def [symmetric] rg(1) filter_filter
    by (rule filter_cong) (auto simp: rg(3) gates_to_reset_set)
  ultimately show ?thesis using rg(1) by blast
qed

section \<open>The tasks after a roll back\<close>

lemma map_of_map_fst: "map_of (map (\<lambda>kv. (fst kv, f (snd kv))) kvs) k = map_option f (map_of kvs k)"
  by (induction kvs) auto

lemma block_field: "block raw k = Inr m \<Longrightarrow> obj_field raw k = m"
  by (auto simp: block_def obj_field_eq split: option.splits json.splits)

lemma mark_tasks_keys: "distinct (map fst tasks) \<Longrightarrow> distinct (map fst (fold mark_task ids tasks))"
  by (induction ids arbitrary: tasks) (simp_all add: mark_task_def distinct_update)

lemma mark_task_lookup:
  "map_of (mark_task tid tasks) x = (if x = tid then Some (case map_of tasks tid of
      Some (JObj m) \<Rightarrow> JObj (jset ''status'' (JStr ''needs-revision'') m) | _ \<Rightarrow> JObj [(''status'', JStr ''needs-revision'')])
    else map_of tasks x)"
  by (simp add: mark_task_def)

definition needs_revision :: "json option \<Rightarrow> bool" where
  "needs_revision v \<longleftrightarrow> (case v of Some (JObj m) \<Rightarrow> str_field m ''status'' ''todo'' = ''needs-revision'' | _ \<Rightarrow> False)"

lemma mark_task_needs: "needs_revision (map_of (mark_task tid tasks) tid)"
  by (auto simp: mark_task_lookup needs_revision_def str_field_eq split: option.splits json.splits)

lemma mark_task_keeps: "needs_revision (map_of tasks x) \<Longrightarrow> needs_revision (map_of (mark_task tid tasks) x)"
  using mark_task_needs [of tid tasks] by (cases "x = tid") (simp_all add: mark_task_lookup)

lemma mark_tasks_need: "x \<in> set ids \<or> needs_revision (map_of tasks x) \<Longrightarrow> needs_revision (map_of (fold mark_task ids tasks) x)"
proof (induction ids arbitrary: tasks)
  case (Cons i ids)
  then show ?case using mark_task_needs [of i tasks] mark_task_keeps [of tasks x i] by auto
qed simp

lemma unfreeze_task_keys:
  assumes "unfreeze raw = Inr raw'" "distinct (map fst (obj_field raw ''tasks''))"
  shows "distinct (map fst (obj_field raw' ''tasks''))"
proof -
  obtain tasks where t: "block raw ''tasks'' = Inr tasks" using assms(1) by (auto simp: unfreeze_def)
  with assms show ?thesis
    using block_field [OF t]
    by (auto simp: unfreeze_def Let_def obj_field_jset_other comp_def split: if_splits)
qed

lemma put_gates_other: "k \<noteq> ''gates'' \<Longrightarrow> obj_field (fold (\<lambda>g. set_gate g e) gs raw) k = obj_field raw k"
  by (induction gs arbitrary: raw) (simp_all add: set_gate_def obj_field_jset_other)

lemma revised_tasks:
  assumes "revised_state raw r now = Inr raw'" "distinct (map fst (obj_field raw ''tasks''))" "tid \<in> set (rn_marked r)"
  shows "map_of (task_status raw') tid = Some ''needs-revision''"
proof -
  let ?raw2 = "jset ''updated_at'' (JStr now) (fold (\<lambda>g. set_gate g pending_gate) (rn_resets r) raw)"
  have e: "rn_resets r = [] \<Longrightarrow> ?raw2 = jset ''updated_at'' (JStr now) raw" by simp
  have n: "rn_marked r \<noteq> []" using assms(3) by auto
  from assms(1) n e have "bind_err (if rn_unfreezes r then unfreeze ?raw2 else Inr ?raw2)
      (\<lambda>raw3. bind_err (block raw3 ''tasks'') (\<lambda>tasks. Inr (jset ''tasks'' (JObj (fold mark_task (rn_marked r) tasks)) raw3))) = Inr raw'"
    unfolding revised_state_def by (cases "rn_resets r = []") (auto simp: Let_def split: if_splits)
  then obtain raw3 tasks where
        3: "(if rn_unfreezes r then unfreeze ?raw2 else Inr ?raw2) = Inr raw3"
    and t: "block raw3 ''tasks'' = Inr tasks" and r: "raw' = jset ''tasks'' (JObj (fold mark_task (rn_marked r) tasks)) raw3"
    unfolding bind_err_Inr by blast
  have 2: "obj_field ?raw2 ''tasks'' = obj_field raw ''tasks''" by (simp add: put_gates_other obj_field_jset_other)
  have d: "distinct (map fst tasks)"
    using 3 assms(2) 2 unfreeze_task_keys [of ?raw2 raw3] block_field [OF t] by (auto split: if_splits)
  from mark_tasks_need [of tid "rn_marked r" tasks] assms(3)
  have "needs_revision (map_of (fold mark_task (rn_marked r) tasks) tid)" by simp
  then obtain m where m: "map_of (fold mark_task (rn_marked r) tasks) tid = Some (JObj m)"
      "str_field m ''status'' ''todo'' = ''needs-revision''"
    by (auto simp: needs_revision_def split: option.splits json.splits)
  then have "map_of (st_tasks raw') tid = Some m"
    by (simp add: st_tasks_def r map_of_obj_items [OF mark_tasks_keys [OF d]])
  then show ?thesis using m(2) map_of_map_fst [of "\<lambda>m. str_field m ''status'' ''todo''" "st_tasks raw'" tid]
    by (simp add: task_status_def)
qed

lemma closure_of_nothing: "dependents_closure g [] = []"
  by (simp add: dependents_closure_def)

lemma plan_revision_marks:
  assumes "plan_revision (Some raw) (Some plan) target seeds = Inr r" and "join_graph plan (Some raw) = Inr g"
  defines "valid \<equiv> filter (\<lambda>s. s \<in> set (g_ids g)) seeds"
  shows "rn_marked r = sorted_set (valid @ sorted_set (dependents_closure g valid))"
    "rn_unknown r = filter (\<lambda>s. s \<notin> set valid) seeds"
  using assms
  by (cases "seeds = []"; auto simp: plan_revision_def impacted_closure_def Let_def closure_of_nothing sorted_set_def
      split: if_splits option.splits)+

text \<open>The impact of a roll back is the whole closure: over a plan and state that join to a graph, the tasks
  marked are the named ones that exist and everything that waits for one of them, directly or through
  others, each is left in need of revision, and every name that is no task is reported.\<close>

theorem revision_marks_closure:
  assumes "plan_revision (Some raw) (Some plan) target seeds = Inr r" and "join_graph plan (Some raw) = Inr g"
    and "revised_state raw r now = Inr raw'" and "distinct (map fst (obj_field raw ''tasks''))"
  shows "set (rn_marked r) = {x. \<exists>s \<in> set seeds \<inter> set (g_ids g). (s, x) \<in> (waits_for g)\<^sup>*} \<and>
    set (map (map_of (task_status raw')) (rn_marked r)) \<subseteq> {Some ''needs-revision''} \<and>
    rn_unknown r = filter (\<lambda>s. s \<notin> set (g_ids g)) seeds"
proof -
  have acc: "accepted g" using assms(2) by (auto simp: join_graph_def accepted_def Let_def from_tasks_iff split: if_splits)
  let ?valid = "filter (\<lambda>s. s \<in> set (g_ids g)) seeds"
  have m: "rn_marked r = sorted_set (?valid @ sorted_set (dependents_closure g ?valid))"
    and u: "rn_unknown r = filter (\<lambda>s. s \<notin> set ?valid) seeds"
    using plan_revision_marks [OF assms(1,2)] .
  have "set (rn_marked r) = {x. \<exists>s \<in> set seeds \<inter> set (g_ids g). (s, x) \<in> (waits_for g)\<^sup>*}"
    unfolding m by (auto simp: dependents_closure_set [OF acc] rtrancl_eq_or_trancl)
  moreover have "rn_unknown r = filter (\<lambda>s. s \<notin> set (g_ids g)) seeds" unfolding u by (rule filter_cong) auto
  ultimately show ?thesis using revised_tasks [OF assms(3,4)] by auto
qed

section \<open>The roll back on disk\<close>

lemma stage_revision_parts:
  assumes "stage_revision en rg r reason now tid id1 id2 = Inr tx"
  obtains raw where "revised_state (rg_state rg) r now = Inr raw" "en_schema en ''state'' raw"
    "map_of (tx_writes tx) ''state'' = Some raw" "map_of (tx_expect tx) ''state'' = Some (rg_seen rg)"
    "distinct (map fst (tx_writes tx))" "tx_events tx \<noteq> []" "tx_id tx = tid"
  using assms
  by (auto simp: stage_revision_def Let_def tx_write_def tx_append_def begin_tx_def update_conv' distinct_update
      split: if_splits option.splits)

lemma read_for_parts:
  assumes "read_for en dk r = Inr rg"
  shows "read_document en dk ''state'' = Inr (Some (rg_state rg))" "read_digest en (Some (rg_state rg)) = Inr (rg_seen rg)"
proof -
  from assms obtain state where st: "read_document en dk ''state'' = Inr state"
    and k: "(case state of None \<Rightarrow> Inl NoState
     | Some raw \<Rightarrow>
         bind_err (map_err FromStore (read_digest en (Some raw))) (\<lambda>seen.
         bind_err (if rn_stales_review r then map_err FromStore (read_document en dk ''review'') else Inr None) (\<lambda>review.
         bind_err (map_err FromStore (read_digest en review)) (\<lambda>seen_review.
           Inr \<lparr>rg_state = raw, rg_seen = seen, rg_review = review, rg_seen_review = seen_review\<rparr>)))) = Inr rg"
    unfolding read_for_def bind_err_Inr map_err_Inr by blast
  from k obtain raw where raw: "state = Some raw" by (cases state) simp_all
  from k [unfolded raw option.case bind_err_Inr map_err_Inr]
  have "rg_state rg = raw \<and> read_digest en (Some raw) = Inr (rg_seen rg)" by auto
  with st raw show "read_document en dk ''state'' = Inr (Some (rg_state rg))" "read_digest en (Some (rg_state rg)) = Inr (rg_seen rg)"
    by simp_all
qed

text \<open>C10: A roll back overwrites no state but the one it was applied to. When it goes through, what the interrupted
  transaction before it left has been finished; the state document on disk then still had the digest of the state that
  was read when the roll back was applied; the state document now on disk is the text of that state with the revision's
  changes made, and no journal is left. The revision itself was computed from the state shown to the operator, an earlier
  reading, and the two are not compared (\<^verbatim>\<open>approval_between_readings\<close>); when they are the same state, its gates distinct,
  the gates approved on disk are exactly those that were and that the revision does not reset.\<close>

theorem revision_lands_on_what_it_read:
  assumes "apply_revision en refusal r reason now tid id1 id2 dk_read dk = (dk', None)"
    and "plan_revision (Some shown) plan target seeds = Inr r"
  shows "\<exists>base seen raw dk1. read_document en dk_read ''state'' = Inr (Some base) \<and>
    read_digest en (Some base) = Inr seen \<and> recover en dk = Inr dk1 \<and>
    document_digest en dk1 ''state'' = Inr seen \<and> revised_state base r now = Inr raw \<and>
    map_of (dk_docs dk') ''state'' = Some (en_dump en raw) \<and> dk_journal dk' = None \<and>
    (base = shown \<and> state_ok shown \<longrightarrow>
       (\<forall>g. gate_approved raw g \<longleftrightarrow> gate_approved shown g \<and> \<not> (g = target \<or> target \<in> set (upstream_of shown g))))"
proof -
  from assms(1) obtain rg dk1 tx where rg: "read_for en dk_read r = Inr rg" and rec: "recover en dk = Inr dk1"
    and tx: "stage_revision en rg r reason now tid id1 id2 = Inr tx"
    and c: "commit en dk1 tx = (dk', None)"
    by (auto simp: apply_revision_def transaction_def prod_eq_iff split: sum.splits option.splits)
  obtain raw where raw: "revised_state (rg_state rg) r now = Inr raw"
    and w: "map_of (tx_writes tx) ''state'' = Some raw" "map_of (tx_expect tx) ''state'' = Some (rg_seen rg)"
      "distinct (map fst (tx_writes tx))" "tx_events tx \<noteq> []"
    using stage_revision_parts [OF tx] by metis
  have ok: "snd (commit en dk1 tx) = None" using c by simp
  obtain log docs where "commit en dk1 tx = (\<lparr>dk_docs = docs, dk_log = log, dk_journal = None\<rparr>, None)"
    using commit_ok [OF ok] commit_result [of tx en dk1] w(4) by metis
  with c have "dk_journal dk' = None" by auto
  have "document_digest en dk1 ''state'' = Inr (rg_seen rg)" by (rule commit_expected [OF ok w(4,2)])
  moreover have "map_of (dk_docs dk') ''state'' = Some (en_dump en raw)"
    using commit_docs [OF ok w(4,3), of "''state''"] w(1) c by simp
  moreover have "gate_approved raw g \<longleftrightarrow> gate_approved shown g \<and> \<not> (g = target \<or> target \<in> set (upstream_of shown g))"
    if "rg_state rg = shown" "state_ok shown" for g
  proof -
    from raw that(1) have "revised_state shown r now = Inr raw" by simp
    from revised_gates(3) [OF that(2) assms(2) this, of g] approved_has_id [of shown g]
    show ?thesis by (auto simp: gates_to_reset_set)
  qed
  ultimately show ?thesis
    using read_for_parts [OF rg] raw rec \<open>dk_journal dk' = None\<close>
    by (intro exI [of _ "rg_state rg"] exI [of _ "rg_seen rg"] exI [of _ raw] exI [of _ dk1] conjI impI allI) simp_all
qed

section \<open>A concrete roll back\<close>

definition crossed_state :: jobj where
  "crossed_state = [(''cycle_id'', JStr ''c1''), (''gates'', JObj [(''mandate'', JObj [(''status'', JStr ''approved'')]),
     (''T-002'', JObj [(''status'', JStr ''approved'')]), (''acceptance'', JObj [(''status'', JStr ''approved'')])])]"

definition crossed_revision :: revision where
  "crossed_revision = (case plan_revision (Some crossed_state) None ''T-002'' [] of Inr r \<Rightarrow> r | Inl _ \<Rightarrow> undefined)"

lemma crossed_planned: "plan_revision (Some crossed_state) None ''T-002'' [] = Inr crossed_revision"
proof -
  have "\<not> isl (plan_revision (Some crossed_state) None ''T-002'' [])" by code_simp
  then show ?thesis by (auto simp: crossed_revision_def split: sum.splits)
qed

lemma crossed_resets: "rn_resets crossed_revision = [''T-002'', ''acceptance'']" "rn_unfreezes crossed_revision = False"
  "rn_marked crossed_revision = []" "rn_stales_review crossed_revision = True"
  unfolding crossed_revision_def by code_simp+

lemma crossed_revised: "\<exists>raw'. revised_state crossed_state crossed_revision now = Inr raw'"
  by (simp add: revised_state_def crossed_resets bind_err_def crossed_state_def jget_def)

theorem revision_clears_chain_witness:
  "\<exists>raw'. revised_state crossed_state crossed_revision ''now'' = Inr raw' \<and> approved_gates raw' = [''mandate'']"
proof -
  obtain raw' where r: "revised_state crossed_state crossed_revision ''now'' = Inr raw'" using crossed_revised by blast
  have "state_ok crossed_state" "gate_chain_violations crossed_state = []"
    "filter (\<lambda>g. g \<noteq> ''T-002'' \<and> ''T-002'' \<notin> set (upstream_of crossed_state g)) (approved_gates crossed_state) = [''mandate'']"
    by (code_simp, code_simp, code_simp)
  with revision_clears_chain [OF this(1,2) crossed_planned r] r show ?thesis by auto
qed

definition started_state :: jobj where
  "started_state = (''gates'', JObj [(''mandate'', JObj [(''status'', JStr ''approved'')])]) # small_state"

theorem revision_marks_closure_witness:
  "\<exists>r g. plan_revision (Some started_state) (Some small_plan) ''mandate'' [''T-001'', ''T-009''] = Inr r \<and>
     join_graph small_plan (Some started_state) = Inr g \<and> rn_unknown r = filter (\<lambda>s. s \<notin> set (g_ids g)) [''T-001'', ''T-009'']"
proof -
  have "\<not> isl (bind_err (plan_revision (Some started_state) (Some small_plan) ''mandate'' [''T-001'', ''T-009''])
      (\<lambda>r. revised_state started_state r ''now''))" "\<not> isl (join_graph small_plan (Some started_state))"
    by (code_simp, code_simp)
  then obtain r raw' g where r: "plan_revision (Some started_state) (Some small_plan) ''mandate'' [''T-001'', ''T-009''] = Inr r"
    and g: "join_graph small_plan (Some started_state) = Inr g" and raw': "revised_state started_state r ''now'' = Inr raw'"
    by (auto simp: bind_err_def split: sum.splits) (metis isl_def sum.exhaust)
  have "distinct (map fst (obj_field started_state ''tasks''))" by code_simp
  with revision_marks_closure [OF r g raw'] r g show ?thesis by blast
qed

definition crossed_event :: event where
  "crossed_event = \<lparr>ev_seq = 0, ev_id = ''e1'', ev_tx = ''t1'', ev_ts = ''now'', ev_kind = ''gate_revised'', ev_cycle = ''c1'',
     ev_actor = '''', ev_subjects = [''T-002'', ''acceptance''], ev_prev = '''', ev_digest = '''',
     ev_detail = revise_detail crossed_revision ''why''\<rparr>"

definition crossed_linked :: event where
  "crossed_linked = (case link toy_sha None crossed_event of Inr l \<Rightarrow> l | Inl _ \<Rightarrow> crossed_event)"

definition crossed_env :: env where
  "crossed_env = \<lparr>en_sha = toy_sha, en_loads = table_loads [JObj (to_mapping crossed_linked)],
     en_load_doc = (\<lambda>s. if s = ser (JObj crossed_state) then Inr crossed_state else Inl EmptyDocument),
     en_dump = (\<lambda>m. ser (JObj m)), en_schema = (\<lambda>_ _. True), en_event_ok = (\<lambda>_. True)\<rparr>"

definition crossed_disk :: disk where
  "crossed_disk = \<lparr>dk_docs = [(''state'', ser (JObj crossed_state))], dk_log = '''', dk_journal = None\<rparr>"

lemma crossed_link: "link toy_sha None crossed_event = Inr crossed_linked"
proof -
  have "\<not> isl (link toy_sha None crossed_event)" by code_simp
  then show ?thesis by (cases "link toy_sha None crossed_event") (simp_all add: crossed_linked_def)
qed

lemma crossed_chained: "chained crossed_env None [crossed_event] = Inr [crossed_linked]"
proof -
  have "plain (JObj (to_mapping crossed_linked))" unfolding plain_def by code_simp
  moreover have "within small_limits (norm (JObj (to_mapping crossed_linked)))"
    "length (ser (JObj (to_mapping crossed_linked))) \<le> max_bytes small_limits" by (code_simp, code_simp)
  ultimately have "line_for (table_loads [JObj (to_mapping crossed_linked)]) (\<lambda>_. True) crossed_linked =
      Inr (ser (JObj (to_mapping crossed_linked)))" by (intro table_line) simp_all
  then show ?thesis by (simp add: crossed_env_def crossed_link map_err_def bind_err_def)
qed

definition crossed_seen :: string where
  "crossed_seen = of_bytes toy_sha (ser (JObj crossed_state))"

lemma crossed_reads:
  "read_raw crossed_env crossed_disk ''state'' = Inr (Some crossed_state)" "read_raw crossed_env crossed_disk ''review'' = Inr None"
  "read_digest crossed_env (Some crossed_state) = Inr crossed_seen" "read_digest crossed_env None = Inr ''''"
proof -
  show "read_digest crossed_env (Some crossed_state) = Inr crossed_seen"
    by (simp add: read_digest_def crossed_env_def crossed_seen_def digest_of_iff prune_def crossed_state_def del: ser.simps)
qed (simp_all add: read_raw_def crossed_env_def crossed_disk_def bind_err_def map_err_def read_digest_def)

definition crossed_raw :: jobj where
  "crossed_raw = (case revised_state crossed_state crossed_revision ''now'' of Inr raw \<Rightarrow> raw | Inl _ \<Rightarrow> [])"

definition crossed_reading :: reading where
  "crossed_reading = \<lparr>rg_state = crossed_state, rg_seen = crossed_seen, rg_review = None, rg_seen_review = ''''\<rparr>"

definition crossed_tx :: txn where
  "crossed_tx = \<lparr>tx_id = ''t1'', tx_writes = [(''state'', crossed_raw)], tx_expect = [(''state'', crossed_seen)],
     tx_events = [crossed_event]\<rparr>"

lemma crossed_read: "read_for crossed_env crossed_disk crossed_revision = Inr crossed_reading"
  by (simp add: read_for_def read_document_def crossed_reads bind_err_def map_err_def crossed_resets crossed_reading_def)
    (simp add: crossed_env_def)

lemma crossed_staged: "stage_revision crossed_env crossed_reading crossed_revision ''why'' ''now'' ''t1'' ''e1'' ''e2'' = Inr crossed_tx"
proof -
  have "revised_state crossed_state crossed_revision ''now'' = Inr crossed_raw"
    using crossed_revised [of "''now''"] by (auto simp: crossed_raw_def)
  moreover have "en_schema crossed_env = (\<lambda>_ _. True)" by (simp add: crossed_env_def)
  moreover have "EventQueries.make ''gate_revised'' (st_cycle_id crossed_state) '''' [''T-002'', ''acceptance'']
      (revise_detail crossed_revision ''why'') ''t1'' ''e1'' ''now'' = Inr crossed_event"
    unfolding crossed_event_def crossed_revision_def by code_simp
  ultimately show ?thesis
    by (simp add: bind_err_def map_err_def crossed_resets stage_revision_def crossed_reading_def crossed_tx_def
        tx_write_def documents_def begin_tx_def stale_review_def tx_append_def)
qed

lemma crossed_checks: "\<exists>ds. commit_checks crossed_env crossed_disk crossed_tx = Inr ([crossed_event], ds)"
proof -
  have "precheck_events crossed_env crossed_disk [crossed_event] = Inr ()"
    using crossed_chained by (simp add: precheck_events_def read_events_def crossed_disk_def demo_empty_log map_err_def bind_err_def last_event_def)
  moreover have "check_expect crossed_env crossed_disk (tx_expect crossed_tx) = Inr ()"
    by (simp add: crossed_tx_def document_digest_def crossed_reads bind_err_def)
  moreover have "check_reviews crossed_env crossed_tx = Inr ()" by (simp add: check_reviews_def crossed_tx_def)
  moreover have "with_tx ''t1'' crossed_event = crossed_event" by (simp add: with_tx_def crossed_event_def)
  moreover have "\<not> isl (write_digests crossed_env (tx_writes crossed_tx))"
    unfolding crossed_tx_def crossed_env_def crossed_raw_def crossed_revision_def by code_simp
  then obtain ds where "write_digests crossed_env (tx_writes crossed_tx) = Inr ds"
    by (cases "write_digests crossed_env (tx_writes crossed_tx)") auto
  ultimately have "commit_checks crossed_env crossed_disk crossed_tx = Inr ([crossed_event], ds)"
    by (simp add: commit_checks_def bind_err_def crossed_tx_def)
  then show ?thesis by blast
qed

theorem revision_lands_on_what_it_read_witness:
  "\<exists>dk'. apply_revision crossed_env None crossed_revision ''why'' ''now'' ''t1'' ''e1'' ''e2'' crossed_disk crossed_disk = (dk', None) \<and>
     dk_journal dk' = None"
proof -
  have e: "tx_writes crossed_tx \<noteq> [] \<or> tx_events crossed_tx \<noteq> []" by (simp add: crossed_tx_def)
  obtain ds where "commit_checks crossed_env crossed_disk crossed_tx = Inr ([crossed_event], ds)" using crossed_checks by blast
  then have "snd (commit crossed_env crossed_disk crossed_tx) = None" using commit_result [OF e] by (metis snd_conv)
  moreover have "dk_journal crossed_disk = None" by (simp add: crossed_disk_def)
  ultimately have a: "apply_revision crossed_env None crossed_revision ''why'' ''now'' ''t1'' ''e1'' ''e2'' crossed_disk crossed_disk =
      (fst (commit crossed_env crossed_disk crossed_tx), None)"
    by (simp add: apply_revision_def crossed_read transaction_def recover_def read_journal_def crossed_staged bind_err_def)
  have "dk_journal (fst (commit crossed_env crossed_disk crossed_tx)) = None"
    using revision_lands_on_what_it_read [OF a crossed_planned] by (elim exE conjE)
  with a show ?thesis by (intro exI conjI)
qed

section \<open>The state is read twice\<close>

text \<open>What is announced was computed from an earlier reading of the state, and the digest the write expects is of
  the later one. An approval given in between is not among the gates put back, so a state whose chain was
  clear ends with an approval standing on a withdrawn one.\<close>

definition earlier_state :: jobj where
  "earlier_state = [(''gates'', JObj [(''mandate'', JObj [(''status'', JStr ''approved'')]), (''acceptance'', JObj [(''status'', JStr ''pending'')])])]"

definition later_state :: jobj where
  "later_state = [(''gates'', JObj [(''mandate'', JObj [(''status'', JStr ''approved'')]), (''acceptance'', JObj [(''status'', JStr ''approved'')])])]"

lemma approval_between_readings:
  "gate_chain_violations earlier_state = [] \<and> gate_chain_violations later_state = [] \<and>
   (\<exists>r raw. plan_revision (Some earlier_state) None ''mandate'' [] = Inr r \<and> revised_state later_state r ''now'' = Inr raw \<and>
      gate_chain_violations raw \<noteq> [])"
proof -
  have "\<not> isl (bind_err (plan_revision (Some earlier_state) None ''mandate'' []) (\<lambda>r. bind_err (revised_state later_state r ''now'')
      (\<lambda>raw. if gate_chain_violations raw \<noteq> [] then Inr () else Inl NoState)))"
    by code_simp
  then have "\<exists>r raw. plan_revision (Some earlier_state) None ''mandate'' [] = Inr r \<and> revised_state later_state r ''now'' = Inr raw \<and>
      gate_chain_violations raw \<noteq> []"
    by (fastforce simp: bind_err_def split: sum.splits if_splits)
  moreover have "gate_chain_violations earlier_state = []" "gate_chain_violations later_state = []" by (code_simp, code_simp)
  ultimately show ?thesis by blast
qed

end
