(* ===== verification/Changes.thy ===== *)
theory Changes
  imports Revise
begin

text \<open>
  \<^verbatim>\<open>change_request.py\<close>: a person's "not yet", recorded in the state against a gate. The three operations that
  change the record (ask, answer, close by an approval), each as the document it leaves and, for the two that are
  transactions of their own, as the transaction it stages; and the life of a request over any sequence of
  writes within one cycle. The telemetry recorded after a request is not modelled, the decision it is about is
  (\<open>overruled_local_decision\<close>).
\<close>

section \<open>Reading requests\<close>

definition find_request :: "jobj \<Rightarrow> string \<Rightarrow> jobj option" where
  "find_request state rid = find (\<lambda>cr. jget cr ''id'' = JStr rid) (change_requests state)"

definition open_against :: "jobj \<Rightarrow> string list \<Rightarrow> jobj list" where
  "open_against state gates = concat (map (\<lambda>g. change_requests_for state g [''open'']) gates)"

definition overruled_local_decision :: "jobj option \<Rightarrow> string \<Rightarrow> string option" where
  "overruled_local_decision plan target =
     (case plan of
        None \<Rightarrow> None
      | Some p \<Rightarrow> (case find (\<lambda>d. el_id d = target) (plan_decisions p) of
          None \<Rightarrow> None
        | Some d \<Rightarrow> if decision_is_local d then Some (el_id d) else None))"

section \<open>The document each operation leaves\<close>

datatype change_error =
    UnknownGateName string
  | NoTarget
  | NoReason
  | NoStateDocument
  | GateAbsent gate_absence
  | NoNote
  | NoSuchRequest string
  | AlreadyIn string string
  | NotAList
  | EventRejected make_error
  | StoreSaid store_error

definition request_entry :: "string \<Rightarrow> string \<Rightarrow> string \<Rightarrow> string \<Rightarrow> string \<Rightarrow> jobj" where
  "request_entry rid gate target reason now =
     [(''id'', JStr rid), (''gate'', JStr gate), (''target'', JStr (py_strip target)), (''reason'', JStr (py_strip reason)),
      (''status'', JStr ''open''), (''opened_at'', JStr now)]"

definition asked :: "jobj \<Rightarrow> jobj \<Rightarrow> string \<Rightarrow> change_error + jobj" where
  "asked raw item now =
     (case jget_or raw ''change_requests'' (JArr []) of
        JArr xs \<Rightarrow> Inr (jset ''updated_at'' (JStr now) (jset ''change_requests'' (JArr (xs @ [JObj item])) raw))
      | _ \<Rightarrow> Inl NotAList)"

definition answer_entry :: "string \<Rightarrow> string \<Rightarrow> string \<Rightarrow> json \<Rightarrow> json" where
  "answer_entry rid note now v =
     (case v of
        JObj m \<Rightarrow> if jget m ''id'' = JStr rid
          then JObj (jset ''note'' (JStr (py_strip note)) (jset ''addressed_at'' (JStr now) (jset ''status'' (JStr ''addressed'') m)))
          else v
      | _ \<Rightarrow> v)"

definition answered_state :: "jobj \<Rightarrow> string \<Rightarrow> string \<Rightarrow> string \<Rightarrow> change_error + jobj" where
  "answered_state raw rid note now =
     (case jget_or raw ''change_requests'' (JArr []) of
        JArr xs \<Rightarrow>
          if list_all is_obj xs
          then Inr (jset ''updated_at'' (JStr now)
                 (if jget raw ''change_requests'' = JNull then raw
                  else jset ''change_requests'' (JArr (map (answer_entry rid note now) xs)) raw))
          else Inl NotAList
      | _ \<Rightarrow> Inl NotAList)"

definition close_entry :: "string list \<Rightarrow> json \<Rightarrow> json" where
  "close_entry gates v =
     (case v of
        JObj m \<Rightarrow> if jget m ''gate'' \<in> set (map JStr gates) \<and> jget m ''status'' = JStr ''addressed''
          then JObj (jset ''status'' (JStr ''resolved'') m) else v
      | _ \<Rightarrow> v)"

definition closes :: "string list \<Rightarrow> json \<Rightarrow> bool" where
  "closes gates v = (case v of
      JObj m \<Rightarrow> jget m ''gate'' \<in> set (map JStr gates) \<and> jget m ''status'' = JStr ''addressed'' | _ \<Rightarrow> False)"

text \<open>\<^verbatim>\<open>resolve_addressed\<close>: in place, with the ids it closed.\<close>

definition resolve_addressed :: "jobj \<Rightarrow> string list \<Rightarrow> jobj \<times> string list" where
  "resolve_addressed raw gates =
     (case jget raw ''change_requests'' of
        JArr xs \<Rightarrow> (jset ''change_requests'' (JArr (map (close_entry gates) xs)) raw,
                    map (\<lambda>v. str_get (as_obj v) ''id'' ''None'') (filter (closes gates) xs))
      | _ \<Rightarrow> (raw, []))"

section \<open>The transactions\<close>

text \<open>What \<^verbatim>\<open>add\<close> refuses before it opens its transaction, and what it stages; \<open>now\<close>, \<open>tid\<close>, \<open>rid\<close> and \<open>eid\<close> are the
  clock and the fresh ids.\<close>

definition add_refusal :: "jobj option \<Rightarrow> string \<Rightarrow> string \<Rightarrow> string \<Rightarrow> change_error option" where
  "add_refusal state gate target reason =
     (if \<not> gate_name_ok gate then Some (UnknownGateName gate)
      else if blank target then Some NoTarget
      else if blank reason then Some NoReason
      else case state of
          None \<Rightarrow> Some NoStateDocument
        | Some st \<Rightarrow> map_option GateAbsent (gate_absence_reason st gate))"

definition stage_state :: "env \<Rightarrow> jobj \<Rightarrow> jobj \<Rightarrow> string \<Rightarrow> change_error + txn" where
  "stage_state en current raw tid =
     bind_err (map_err StoreSaid (read_digest en (Some current))) (\<lambda>seen.
       map_err StoreSaid (tx_write en ''state'' raw (Some seen) (begin_tx tid)))"

definition stage_request :: "env \<Rightarrow> string \<Rightarrow> string \<Rightarrow> string \<Rightarrow> string \<Rightarrow> string \<Rightarrow> string \<Rightarrow> string \<Rightarrow> disk \<Rightarrow> change_error + txn" where
  "stage_request en gate target reason rid now tid eid dk =
     bind_err (map_err StoreSaid (read_document en dk ''state'')) (\<lambda>current. case current of
         None \<Rightarrow> Inl NoStateDocument
       | Some st \<Rightarrow>
           bind_err (asked st (request_entry rid gate target reason now) now) (\<lambda>raw.
           bind_err (stage_state en st raw tid) (\<lambda>tx.
           bind_err (map_err EventRejected (EventQueries.make ''changes_requested'' (st_cycle_id st) '''' [gate, rid, py_strip target]
               [(''reason'', JStr (py_strip reason))] tid eid now)) (\<lambda>e. Inr (tx_append e tx)))))"

definition add_request :: "env \<Rightarrow> string option \<Rightarrow> string \<Rightarrow> string \<Rightarrow> string \<Rightarrow> string \<Rightarrow> string \<Rightarrow> string \<Rightarrow> string \<Rightarrow> disk \<Rightarrow> disk \<Rightarrow>
    disk \<times> change_error option" where
  "add_request en refusal gate target reason rid now tid eid dk_read dk =
     (if \<not> gate_name_ok gate then (dk, Some (UnknownGateName gate))
      else if blank target then (dk, Some NoTarget)
      else if blank reason then (dk, Some NoReason)
      else case read_document en dk_read ''state'' of
          Inl err \<Rightarrow> (dk, Some (StoreSaid err))
        | Inr state \<Rightarrow>
            (case add_refusal state gate target reason of
               Some why \<Rightarrow> (dk, Some why)
             | None \<Rightarrow> transaction en StoreSaid refusal True (stage_request en gate target reason rid now tid eid) dk))"

definition stage_answer :: "env \<Rightarrow> string \<Rightarrow> string \<Rightarrow> string \<Rightarrow> string \<Rightarrow> string \<Rightarrow> disk \<Rightarrow> change_error + txn" where
  "stage_answer en rid note now tid eid dk =
     bind_err (map_err StoreSaid (read_document en dk ''state'')) (\<lambda>current. case current of
         None \<Rightarrow> Inl NoStateDocument
       | Some st \<Rightarrow>
           (case find_request st rid of
              None \<Rightarrow> Inl (NoSuchRequest rid)
            | Some existing \<Rightarrow>
                if jget existing ''status'' \<noteq> JStr ''open'' then Inl (AlreadyIn rid (py_str (jget existing ''status'')))
                else
                  bind_err (answered_state st rid note now) (\<lambda>raw.
                  bind_err (stage_state en st raw tid) (\<lambda>tx.
                  bind_err (map_err EventRejected (EventQueries.make ''changes_addressed'' (st_cycle_id st) ''''
                      [str_get existing ''gate'' ''None'', rid] [(''note'', JStr (py_strip note))] tid eid now)) (\<lambda>e.
                    Inr (tx_append e tx))))))"

definition address_request :: "env \<Rightarrow> string option \<Rightarrow> string \<Rightarrow> string \<Rightarrow> string \<Rightarrow> string \<Rightarrow> string \<Rightarrow> disk \<Rightarrow> disk \<times> change_error option" where
  "address_request en refusal rid note now tid eid dk =
     (if blank note then (dk, Some NoNote)
      else transaction en StoreSaid refusal True (stage_answer en rid note now tid eid) dk)"

section \<open>The life of a request\<close>

definition requests :: "jobj \<Rightarrow> json list" where
  "requests raw = as_arr (jget raw ''change_requests'')"

definition request_ids :: "jobj \<Rightarrow> json list" where
  "request_ids raw = map (\<lambda>m. jget m ''id'') (change_requests raw)"

definition status_rank :: "jobj \<Rightarrow> nat" where
  "status_rank m = (if jget m ''status'' = JStr ''open'' then 0 else if jget m ''status'' = JStr ''addressed'' then 1
     else if jget m ''status'' = JStr ''resolved'' then 2 else 3)"

text \<open>The writes of the state within one cycle: the three that touch the queue, and one of any other key, which is what the
  rest of the program makes (each writer sets the keys it changes in the document it read). A fresh id is one no request has.
  The state the next cycle starts from is not such a write: it is built anew (\<open>next_state\<close>).\<close>

inductive request_step :: "jobj \<Rightarrow> jobj \<Rightarrow> bool" where
  ask: "asked raw (request_entry rid gate target reason now) now = Inr raw' \<Longrightarrow> JStr rid \<notin> set (request_ids raw) \<Longrightarrow>
    request_step raw raw'"
| answer: "find_request raw rid = Some existing \<Longrightarrow> jget existing ''status'' = JStr ''open'' \<Longrightarrow> \<not> blank note \<Longrightarrow>
    answered_state raw rid note now = Inr raw' \<Longrightarrow> request_step raw raw'"
| close: "fst (resolve_addressed raw gates) = raw' \<Longrightarrow> request_step raw raw'"
| elsewhere: "k \<noteq> ''change_requests'' \<Longrightarrow> request_step raw (jset k v raw)"

definition noted :: "jobj \<Rightarrow> bool" where
  "noted m \<longleftrightarrow> (case jget m ''note'' of JStr s \<Rightarrow> s \<noteq> [] | _ \<Rightarrow> False)"

text \<open>What a request may become: itself, further along; once answered it keeps its note.\<close>

definition onward :: "jobj \<Rightarrow> jobj \<Rightarrow> bool" where
  "onward m m' \<longleftrightarrow> (\<forall>k \<in> set [''id'', ''gate'', ''target'', ''reason'']. jget m' k = jget m k) \<and>
     status_rank m \<le> status_rank m' \<and> (status_rank m = 0 \<and> status_rank m' \<noteq> 0 \<longrightarrow> noted m') \<and>
     (status_rank m \<noteq> 0 \<longrightarrow> jget m' ''note'' = jget m ''note'')"

lemma onward_refl [simp]: "onward m m"
  by (auto simp: onward_def)

lemma onward_trans: "onward a b \<Longrightarrow> onward b c \<Longrightarrow> onward a c"
  by (auto simp: onward_def noted_def)

lemma jget_jset: "jget (jset k v m) k' = (if k' = k then v else jget m k')"
  by (simp add: jget_def)

lemma requests_jset: "requests (jset ''updated_at'' v raw) = requests raw"
  "requests (jset ''change_requests'' (JArr xs) raw) = xs"
  by (simp_all add: requests_def jget_jset)

lemma change_requests_in: "change_requests raw = objs_in (requests raw)"
  by (simp add: change_requests_def requests_def)

lemma objs_in_map:
  assumes "\<And>m. f (JObj m) = JObj (g m)" and "\<And>v. \<not> is_obj v \<Longrightarrow> f v = v"
  shows "objs_in (map f xs) = map g (objs_in xs)"
  by (induction xs rule: objs_in.induct) (simp_all add: assms)

lemma objs_in_nth: "xs ! i = JObj m \<Longrightarrow> i < length xs \<Longrightarrow> m \<in> set (objs_in xs)"
  by (induction xs arbitrary: i rule: objs_in.induct) (auto simp: nth_Cons split: nat.splits)

text \<open>The entry an operation makes of one.\<close>

definition answered_entry :: "string \<Rightarrow> string \<Rightarrow> string \<Rightarrow> jobj \<Rightarrow> jobj" where
  "answered_entry rid note now m = as_obj (answer_entry rid note now (JObj m))"

definition closed_entry :: "string list \<Rightarrow> jobj \<Rightarrow> jobj" where
  "closed_entry gates m = as_obj (close_entry gates (JObj m))"

lemma entries_obj:
  "answer_entry rid note now (JObj m) = JObj (answered_entry rid note now m)"
  "close_entry gates (JObj m) = JObj (closed_entry gates m)"
  "\<not> is_obj v \<Longrightarrow> answer_entry rid note now v = v" "\<not> is_obj v \<Longrightarrow> close_entry gates v = v"
  by (auto simp: answered_entry_def closed_entry_def answer_entry_def close_entry_def split: json.splits)

lemma closed_onward: "onward m (closed_entry gates m)"
  by (auto simp: onward_def closed_entry_def close_entry_def status_rank_def noted_def jget_jset)

lemma entry_ids: "jget (answered_entry rid note now m) ''id'' = jget m ''id''" "jget (closed_entry gates m) ''id'' = jget m ''id''"
  by (simp_all add: answered_entry_def closed_entry_def answer_entry_def close_entry_def jget_jset)

lemma answered_onward:
  assumes "jget m ''id'' = JStr rid \<longrightarrow> jget m ''status'' = JStr ''open''" and "\<not> blank note"
  shows "onward m (answered_entry rid note now m)"
  using assms by (auto simp: onward_def answered_entry_def answer_entry_def status_rank_def noted_def jget_jset blank_def)

lemma distinct_id_open:
  assumes "distinct (request_ids raw)" and "find_request raw rid = Some existing" and "m \<in> set (change_requests raw)"
    and "jget m ''id'' = JStr rid"
  shows "m = existing"
proof -
  from assms(2) have "existing \<in> set (change_requests raw)" "jget existing ''id'' = JStr rid"
    by (auto simp: find_request_def find_Some_iff)
  with assms(1,3,4) show ?thesis by (auto simp: request_ids_def distinct_map inj_on_def)
qed

text \<open>One write: the queue only grows at its end, each request in it moves onward, and the ids stay distinct.\<close>

definition requests_kept :: "jobj \<Rightarrow> jobj \<Rightarrow> bool" where
  "requests_kept raw raw' \<longleftrightarrow> (\<forall>i < length (requests raw). \<forall>m. requests raw ! i = JObj m \<longrightarrow>
     i < length (requests raw') \<and> (\<exists>m'. requests raw' ! i = JObj m' \<and> onward m m'))"

lemma request_step_kept:
  assumes "request_step raw raw'" and "distinct (request_ids raw)"
  shows "requests_kept raw raw' \<and> distinct (request_ids raw')"
  using assms
proof cases
  case (ask rid gate target reason now)
  then obtain xs where xs: "jget_or raw ''change_requests'' (JArr []) = JArr xs"
    by (auto simp: asked_def split: json.splits)
  then have r: "requests raw = xs" by (auto simp: requests_def jget_def jget_or_def split: option.splits)
  from ask(1) xs have r': "requests raw' = xs @ [JObj (request_entry rid gate target reason now)]"
    by (auto simp: asked_def requests_jset)
  have "objs_in (xs @ [JObj (request_entry rid gate target reason now)]) = objs_in xs @ [request_entry rid gate target reason now]"
    by (induction xs rule: objs_in.induct) auto
  with ask(2) assms(2) r r' have "distinct (request_ids raw')"
    by (simp add: request_ids_def change_requests_in request_entry_def jget_def)
  then show ?thesis using r r' by (auto simp: requests_kept_def nth_append)
next
  case (answer rid existing how now)
  show ?thesis
  proof (cases "jget raw ''change_requests'' = JNull")
    case True
    with answer(1) show ?thesis by (simp add: find_request_def change_requests_def)
  next
    case False
    with answer(4) obtain xs where xs: "requests raw = xs" "requests raw' = map (answer_entry rid how now) xs"
      by (auto simp: answered_state_def requests_jset requests_def jget_jset jget_or_def jget_def
          split: json.splits option.splits if_splits)
    have ids: "request_ids raw' = request_ids raw"
      using objs_in_map [of "answer_entry rid how now" "answered_entry rid how now" xs]
      by (simp add: request_ids_def change_requests_in xs entries_obj entry_ids)
    have "onward m (answered_entry rid how now m)" if "m \<in> set (change_requests raw)" for m
      using answered_onward [of m rid how now] distinct_id_open [OF assms(2) answer(1) that] answer(2,3) by blast
    then have "requests_kept raw raw'"
      using objs_in_nth by (fastforce simp: requests_kept_def xs entries_obj change_requests_in)
    with ids assms(2) show ?thesis by simp
  qed
next
  case (close gates)
  show ?thesis
  proof (cases "jget raw ''change_requests''")
    case (JArr xs)
    with close have r: "requests raw = xs" "requests raw' = map (close_entry gates) xs"
      by (auto simp: resolve_addressed_def requests_def jget_jset)
    have "request_ids raw' = request_ids raw"
      using objs_in_map [of "close_entry gates" "closed_entry gates" xs]
      by (simp add: request_ids_def change_requests_in r entries_obj entry_ids)
    moreover have "requests_kept raw raw'" by (auto simp: requests_kept_def r entries_obj closed_onward)
    ultimately show ?thesis using assms(2) by simp
  qed (use close assms(2) in \<open>auto simp: resolve_addressed_def requests_kept_def requests_def\<close>)
next
  case (elsewhere k v)
  then have "requests raw' = requests raw" by (simp add: requests_def jget_jset)
  with assms(2) show ?thesis by (auto simp: requests_kept_def request_ids_def change_requests_in)
qed

lemma requests_kept_trans: "requests_kept a b \<Longrightarrow> requests_kept b c \<Longrightarrow> requests_kept a c"
  unfolding requests_kept_def by (meson onward_trans)

text \<open>C30: Within a cycle a request cannot be made to disappear: over any sequence of requests filed under fresh ids, answers
  with a note, closings and writes of other keys of the state, from a state whose requests have distinct ids, every request
  stays in its place with its id, gate, target and reason, moves only from open to addressed to resolved, is never
  addressed without a note saying how, and keeps that note. A roll back, an approval and a status write are such sequences;
  starting the next cycle, which replaces the state, is not.\<close>

theorem requests_survive:
  assumes "request_step\<^sup>*\<^sup>* raw raw'" and "distinct (request_ids raw)" and "i < length (requests raw)"
    and "requests raw ! i = JObj m"
  shows "i < length (requests raw') \<and> (\<exists>m'. requests raw' ! i = JObj m' \<and>
    map (jget m') [''id'', ''gate'', ''target'', ''reason''] = map (jget m) [''id'', ''gate'', ''target'', ''reason''] \<and>
    status_rank m \<le> status_rank m' \<and> (status_rank m = 0 \<and> status_rank m' \<noteq> 0 \<longrightarrow> noted m') \<and>
    (status_rank m \<noteq> 0 \<longrightarrow> jget m' ''note'' = jget m ''note''))"
proof -
  from assms(1,2) have "requests_kept raw raw' \<and> distinct (request_ids raw')"
  proof (induction rule: rtranclp_induct)
    case base
    then show ?case by (auto simp: requests_kept_def)
  next
    case (step b c)
    then show ?case using request_step_kept [OF step(2)] requests_kept_trans by blast
  qed
  with assms(3,4) show ?thesis by (auto simp: requests_kept_def onward_def)
qed

definition queued_state :: jobj where
  "queued_state = [(''cycle_id'', JStr ''c1''), (''change_requests'', JArr [JObj (request_entry ''CR-1'' ''mandate'' ''R-3'' ''too wide'' ''t0'')])]"

definition answered_queue :: jobj where
  "answered_queue = (case answered_state queued_state ''CR-1'' '' narrowed '' ''t1'' of Inr raw \<Rightarrow> raw | Inl _ \<Rightarrow> [])"

theorem requests_survive_witness:
  "\<exists>m'. requests (fst (resolve_addressed answered_queue [''mandate''])) ! 0 = JObj m' \<and>
     jget m' ''target'' = JStr ''R-3'' \<and> noted m'"
proof -
  let ?e = "request_entry ''CR-1'' ''mandate'' ''R-3'' ''too wide'' ''t0''"
  have a: "\<not> isl (answered_state queued_state ''CR-1'' '' narrowed '' ''t1'')"
    "find_request queued_state ''CR-1'' = Some ?e" "jget ?e ''status'' = JStr ''open''" "\<not> blank '' narrowed ''"
    "jget ?e ''target'' = JStr ''R-3''" "status_rank ?e = 0"
    by code_simp+
  then have "answered_state queued_state ''CR-1'' '' narrowed '' ''t1'' = Inr answered_queue"
    by (cases "answered_state queued_state ''CR-1'' '' narrowed '' ''t1''") (simp_all add: answered_queue_def)
  then have "request_step queued_state answered_queue" by (rule answer [OF a(2,3,4)])
  then have s: "request_step\<^sup>*\<^sup>* queued_state (fst (resolve_addressed answered_queue [''mandate'']))"
    by (rule rtranclp.rtrancl_into_rtrancl [OF r_into_rtranclp]) (rule close [OF refl])
  have q: "requests queued_state = [JObj ?e]" by (simp add: requests_def queued_state_def jget_def)
  then have "distinct (request_ids queued_state)" "0 < length (requests queued_state)" "requests queued_state ! 0 = JObj ?e"
    by (simp_all add: request_ids_def change_requests_in)
  from requests_survive [OF s this]
  obtain m' where m': "requests (fst (resolve_addressed answered_queue [''mandate''])) ! 0 = JObj m'"
    and f: "jget m' ''target'' = JStr ''R-3''" "0 = status_rank m' \<or> noted m'"
    using a(5,6) by auto
  have "status_rank (as_obj (requests (fst (resolve_addressed answered_queue [''mandate''])) ! 0)) = 2" by code_simp
  with m' f show ?thesis by auto
qed

text \<open>A roll back of \<open>Revise\<close> is a sequence of such writes.\<close>

lemma jset_steps: "request_step\<^sup>*\<^sup>* raw raw1 \<Longrightarrow> k \<noteq> ''change_requests'' \<Longrightarrow> request_step\<^sup>*\<^sup>* raw (jset k v raw1)"
  by (erule rtranclp.rtrancl_into_rtrancl) (erule elsewhere)

lemma put_gates_steps: "request_step\<^sup>*\<^sup>* raw raw1 \<Longrightarrow> request_step\<^sup>*\<^sup>* raw (fold (\<lambda>g. set_gate g e) gs raw1)"
  by (induction gs arbitrary: raw1) (simp_all add: set_gate_def jset_steps)

lemma revised_state_steps:
  assumes "revised_state raw r now = Inr raw'"
  shows "request_step\<^sup>*\<^sup>* raw raw'"
proof -
  let ?raw2 = "jset ''updated_at'' (JStr now) (fold (\<lambda>g. set_gate g pending_gate) (rn_resets r) raw)"
  from assms obtain raw3 where 3: "(if rn_unfreezes r then unfreeze ?raw2 else Inr ?raw2) = Inr raw3"
    and r: "raw' = raw3 \<or> (\<exists>m. raw' = jset ''tasks'' (JObj m) raw3)"
    by (cases "rn_resets r = []") (auto simp: revised_state_def Let_def split: if_splits)
  have 2: "request_step\<^sup>*\<^sup>* raw ?raw2" by (intro jset_steps put_gates_steps) simp_all
  with 3 have "request_step\<^sup>*\<^sup>* raw raw3"
    by (auto simp: unfreeze_def Let_def intro!: jset_steps split: if_splits)
  with r show ?thesis by (auto intro: jset_steps)
qed

text \<open>\<^verbatim>\<open>next_state\<close> of \<^verbatim>\<open>cycle.py\<close>: the document the next cycle starts from carries the project over and nothing else; a request
  still in the queue is in the archive of the cycle that ended.\<close>

definition next_state :: "jobj \<Rightarrow> string \<Rightarrow> string \<Rightarrow> jobj" where
  "next_state previous slug now =
     [(''project'', JStr (str_field previous ''project'' '''')), (''cycle_id'', JStr slug), (''updated_at'', JStr now),
      (''gates'', JObj (map (\<lambda>g. (g, JObj [(''status'', JStr ''pending''), (''receipt'', JNull)])) gate_ends)),
      (''plan'', JObj [(''status'', JStr ''draft'')]), (''execution'', JObj [(''status'', JStr ''idle'')]), (''tasks'', JObj [])]"

lemma next_state_starts_anew:
  "change_requests (next_state previous slug now) = [] \<and> gate_ids (next_state previous slug now) = gate_ends \<and>
   approved_gates (next_state previous slug now) = [] \<and> st_plan_status (next_state previous slug now) \<noteq> ''frozen''"
  by code_simp

text \<open>What the two transactions stage is a step of that life.\<close>

lemma stage_state_writes: "stage_state en current raw tid = Inr tx \<Longrightarrow> tx_writes tx = [(''state'', raw)] \<and> tx_events tx = []"
  by (auto simp: stage_state_def bind_err_def tx_write_def begin_tx_def split: sum.splits if_splits)

lemma staged_steps:
  "stage_request en gate target reason rid now tid eid dk = Inr tx \<Longrightarrow>
     \<exists>st raw. read_document en dk ''state'' = Inr (Some st) \<and> tx_writes tx = [(''state'', raw)] \<and>
       (JStr rid \<notin> set (request_ids st) \<longrightarrow> request_step st raw)"
  "\<not> blank nt \<Longrightarrow> stage_answer en rid nt now tid eid dk = Inr tx \<Longrightarrow>
     \<exists>st raw. read_document en dk ''state'' = Inr (Some st) \<and> tx_writes tx = [(''state'', raw)] \<and> request_step st raw"
  by (force simp: stage_request_def bind_err_def tx_append_def dest: stage_state_writes intro: ask split: sum.splits option.splits)
    (force simp: stage_answer_def bind_err_def tx_append_def dest: stage_state_writes intro: answer split: sum.splits option.splits if_splits)

end
