(* ===== verification/CrossRef.thy ===== *)
theory CrossRef
  imports Bundle
begin

text \<open>
  \<^verbatim>\<open>models.py\<close>: the cross-reference checks a plan passes before it can be frozen
  (\<^verbatim>\<open>cross_reference_errors\<close> and what it calls). A message is a constructor holding what the message
  names; the cycle message is its text, because the code sorts those. The depth-first search that looks
  for cycles recurses on a fuel no smaller than the number of tasks.
\<close>

section \<open>Paths of the repository\<close>

text \<open>\<^verbatim>\<open>REPO_PATH_RE\<close>: what a path must not be. As everywhere, the dollar sign tolerates one final newline.\<close>

definition path_char :: "char \<Rightarrow> bool" where
  "path_char c \<longleftrightarrow> c \<noteq> CHR 0x5C \<and> 32 \<le> (of_char c :: nat)"

definition is_repo_path :: "string \<Rightarrow> bool" where
  "is_repo_path s \<longleftrightarrow>
     (let p = chomp s; segs = split_on (CHR ''/'') p
      in p \<noteq> [] \<and> list_all path_char p \<and> hd p \<noteq> CHR ''/'' \<and> hd p \<noteq> CHR ''-'' \<and>
         ''..'' \<notin> set segs \<and> [] \<notin> set (tl (butlast segs)))"

section \<open>What the checks report\<close>

datatype xref_error =
    BadId string string string
  | DuplicateId string string
  | NoSubIssues string
  | UnknownBlocker string string string
  | BlocksItself string string
  | UnknownClaim string string
  | AcrossIssues string string
  | UnsafePath string string
  | NoArtifact string
  | DuplicateCriterion string string
  | NoCommand string string
  | NoPaths string string
  | OutsideOwnScope string string "string list"
  | SharedPath string "string list"
  | MissingEdge string string string string
  | UnknownPremise string string string
  | UnknownObserver string string
  | WaitsForItself string string
  | FallbackElsewhere string string string
  | DependencyCycle string

section \<open>Ids and references\<close>

fun id_errors :: "string \<Rightarrow> string \<Rightarrow> string list \<Rightarrow> string list \<Rightarrow> xref_error list" where
  "id_errors sec kind seen [] = []"
| "id_errors sec kind seen (i # is) =
     (if id_matches kind i then [] else [BadId sec i kind]) @
     (if i \<in> set seen then [DuplicateId sec i] else []) @ id_errors sec kind (i # seen) is"

definition sub_entries :: "jobj \<Rightarrow> jobj list" where
  "sub_entries plan = concat (map (\<lambda>i. maps_field i ''sub_issues'') (maps_field plan ''issues''))"

definition all_id_errors :: "jobj \<Rightarrow> xref_error list" where
  "all_id_errors plan =
     id_errors ''claims'' ''claim'' [] (map el_id (maps_field plan ''claims'')) @
     id_errors ''issues'' ''issue'' [] (map el_id (maps_field plan ''issues'')) @
     id_errors ''tasks'' ''task'' [] (map el_id (sub_entries plan))"

definition issue_errors :: "jobj \<Rightarrow> jobj \<Rightarrow> xref_error list" where
  "issue_errors plan i =
     (if sub_issue_ids i = [] then [NoSubIssues (el_id i)] else []) @
     concat (map (\<lambda>b. if b \<notin> set (plan_ids plan ''issues'') then [UnknownBlocker ''issues'' (el_id i) b]
       else if b = el_id i then [BlocksItself ''issues'' b] else []) (issue_blocked_by i))"

definition dangling :: "jobj \<Rightarrow> ptask \<Rightarrow> xref_error list" where
  "dangling plan t = map (UnknownClaim (pt_id t)) (filter (\<lambda>c. c \<notin> set (plan_ids plan ''claims'')) (pt_claim_ids t))"

definition siblings_of :: "jobj \<Rightarrow> ptask \<Rightarrow> string list" where
  "siblings_of plan t = (case plan_issue plan (t_issue t) of Some i \<Rightarrow> sub_issue_ids i | None \<Rightarrow> [])"

definition blocker_errors :: "jobj \<Rightarrow> ptask \<Rightarrow> xref_error list" where
  "blocker_errors plan t =
     concat (map (\<lambda>b. if b \<notin> set (plan_task_ids plan) then [UnknownBlocker ''tasks'' (pt_id t) b]
       else if b = pt_id t then [BlocksItself ''tasks'' b]
       else if b \<notin> set (siblings_of plan t) then [AcrossIssues (pt_id t) b] else []) (pt_own_blocked_by t))"

definition unsafe_paths :: "string \<Rightarrow> string list \<Rightarrow> xref_error list" where
  "unsafe_paths tid paths = map (UnsafePath tid) (filter (\<lambda>p. \<not> is_repo_path p) paths)"

section \<open>One task's criteria\<close>

definition criterion_errors :: "ptask \<Rightarrow> string \<Rightarrow> jobj \<Rightarrow> xref_error list" where
  "criterion_errors t ac ev =
     (let kind = str_field ev ''kind'' ''''; outside = outside_scope (produces_of ev) (pt_scope_include t) (pt_scope_exclude t)
      in (if kind = ''command'' \<and> ids_field ev ''command'' = [] then [NoCommand (pt_id t) ac] else []) @
         (if kind = ''artifact'' \<and> ids_field ev ''paths'' = [] then [NoPaths (pt_id t) ac] else []) @
         (if outside \<noteq> [] then [OutsideOwnScope (pt_id t) ac outside] else []) @
         unsafe_paths (pt_id t) (ids_field ev ''produces'' @ ids_field ev ''reads''))"

fun acceptance_errors_from :: "ptask \<Rightarrow> string list \<Rightarrow> jobj list \<Rightarrow> xref_error list" where
  "acceptance_errors_from t seen [] = []"
| "acceptance_errors_from t seen (e # es) =
     (if el_id e \<in> set seen then [DuplicateCriterion (pt_id t) (el_id e)] else []) @
     (case evidence_of e of None \<Rightarrow> [] | Some ev \<Rightarrow> criterion_errors t (el_id e) ev) @
     acceptance_errors_from t (el_id e # seen) es"

definition acceptance_errors :: "ptask \<Rightarrow> xref_error list" where
  "acceptance_errors t = acceptance_errors_from t [] (pt_acceptance t)"

definition has_artifact :: "ptask \<Rightarrow> bool" where
  "has_artifact t \<longleftrightarrow> list_ex (\<lambda>e. case evidence_of e of Some ev \<Rightarrow> str_field ev ''kind'' '''' = ''artifact'' | None \<Rightarrow> False)
     (pt_acceptance t)"

definition task_errors :: "jobj \<Rightarrow> ptask \<Rightarrow> xref_error list" where
  "task_errors plan t =
     dangling plan t @ blocker_errors plan t @ unsafe_paths (pt_id t) (pt_scope_include t @ pt_scope_exclude t) @
     acceptance_errors t @ (if pt_produced_by t = ''person'' \<and> \<not> has_artifact t then [NoArtifact (pt_id t)] else []) @
     unsafe_paths (pt_id t) (filter (\<lambda>f. f \<noteq> []) (map (\<lambda>r. str_field r ''file'' '''') (pt_requires t)))"

section \<open>Scopes and edges against the criteria\<close>

definition plan_blocked :: "jobj \<Rightarrow> (string \<times> string list) list" where
  "plan_blocked plan = map (\<lambda>t. (pt_id t, pt_blocked_by t)) (plan_tasks plan)"

definition under :: "string \<Rightarrow> string \<Rightarrow> bool" where
  "under outer inner \<longleftrightarrow> outside_scope [inner] [outer] [] = []"

text \<open>\<^verbatim>\<open>producers\<close>: under each path the tasks that produce it, in plan order.\<close>

definition producers :: "jobj \<Rightarrow> (string \<times> string list) list" where
  "producers plan = fold (\<lambda>(path, tid) d. AList.update path (lookup_list d path @ [tid]) d)
     (concat (map (\<lambda>t. map (\<lambda>p. (rstrip_slash p, pt_id t)) (pt_produces t)) (plan_tasks plan))) []"

definition owner_errors :: "jobj \<Rightarrow> xref_error list" where
  "owner_errors plan = concat (map (\<lambda>(path, owners). if length (dedup owners) > 1 then [SharedPath path (sorted_set owners)] else [])
     (sort_key fst (producers plan)))"

text \<open>\<^verbatim>\<open>upstream\<close>, and the first reason each other task has to come before this one.\<close>

definition upstream_tasks :: "jobj \<Rightarrow> string \<Rightarrow> string list" where
  "upstream_tasks plan tid = worklist (plan_blocked plan) (rev (lookup_list (plan_blocked plan) tid)) []"

definition lies_under :: "bool \<Rightarrow> string \<Rightarrow> string \<Rightarrow> bool" where
  "lies_under strict path theirs \<longleftrightarrow> under theirs path \<and> \<not> (strict \<and> rstrip_slash theirs = rstrip_slash path)"

definition need_of :: "string list \<Rightarrow> string \<Rightarrow> string \<times> bool \<times> string \<Rightarrow> ptask \<Rightarrow> (string \<times> string \<times> string) list \<Rightarrow>
    (string \<times> string \<times> string) list" where
  "need_of before tid vp other needs =
     (if pt_id other = tid \<or> pt_id other \<in> set before \<or> pt_id other \<in> fst ` set needs then needs
      else case find (lies_under (fst (snd vp)) (snd (snd vp))) (pt_produces other) of
          None \<Rightarrow> needs
        | Some theirs \<Rightarrow> needs @ [(pt_id other, snd (snd vp), theirs)])"

definition touches :: "ptask \<Rightarrow> (string \<times> bool \<times> string) list" where
  "touches t = map (\<lambda>p. (''produces'', True, p)) (pt_produces t) @ map (\<lambda>p. (''reads'', False, p)) (pt_reads t)"

definition needs_of :: "jobj \<Rightarrow> ptask \<Rightarrow> (string \<times> string \<times> string) list" where
  "needs_of plan t = fold (\<lambda>vp. fold (need_of (upstream_tasks plan (pt_id t)) (pt_id t) vp) (plan_tasks plan)) (touches t) []"

definition edge_errors :: "jobj \<Rightarrow> ptask \<Rightarrow> xref_error list" where
  "edge_errors plan t = map (\<lambda>(other, path, theirs). MissingEdge (pt_id t) other path theirs) (sort_key fst (needs_of plan t))"

definition structure_errors :: "jobj \<Rightarrow> xref_error list" where
  "structure_errors plan = owner_errors plan @ concat (map (edge_errors plan) (plan_tasks plan))"

section \<open>Premises\<close>

definition assumes_premise :: "string \<Rightarrow> ptask \<Rightarrow> bool" where
  "assumes_premise pid t \<longleftrightarrow> list_ex (\<lambda>e. pid \<in> set (ids_field e ''assumes'')) (pt_acceptance t)"

definition assume_errors :: "jobj \<Rightarrow> ptask \<Rightarrow> xref_error list" where
  "assume_errors plan t = concat (map (\<lambda>e. map (UnknownPremise (pt_id t) (el_id e))
     (filter (\<lambda>p. p \<notin> set (plan_ids plan ''premises'')) (ids_field e ''assumes''))) (pt_acceptance t))"

definition observer_upstream :: "jobj \<Rightarrow> string \<Rightarrow> string list" where
  "observer_upstream plan observer =
     (if observer \<in> set (plan_task_ids plan) then worklist (plan_blocked plan) [observer] [] else [])"

definition fallback_rests :: "jobj \<Rightarrow> string \<Rightarrow> jobj \<Rightarrow> bool" where
  "fallback_rests plan pid repl =
     (case find (\<lambda>e. el_id e = str_field repl ''id'' '''')
         (case plan_task plan (str_field repl ''task'' '''') of Some t \<Rightarrow> pt_acceptance t | None \<Rightarrow> []) of
        None \<Rightarrow> False | Some e \<Rightarrow> pid \<in> set (ids_field e ''assumes''))"

definition one_premise_errors :: "jobj \<Rightarrow> jobj \<Rightarrow> xref_error list" where
  "one_premise_errors plan p =
     (let pid = el_id p; observer = premise_observed_by p; up = observer_upstream plan observer
      in (if observer \<noteq> [] \<and> observer \<notin> set (plan_task_ids plan) then [UnknownObserver pid observer] else []) @
         map (\<lambda>t. WaitsForItself pid (pt_id t)) (filter (\<lambda>t. pt_id t \<in> set up \<and> assumes_premise pid t) (plan_tasks plan)) @
         map (\<lambda>r. FallbackElsewhere pid (str_field r ''task'' '''') (str_field r ''id'' ''''))
           (filter (\<lambda>r. \<not> fallback_rests plan pid r) (premise_fallback_criteria p)))"

definition premise_errors :: "jobj \<Rightarrow> xref_error list" where
  "premise_errors plan =
     map (\<lambda>p. BadId ''premises'' p ''premise'') (filter (\<lambda>p. \<not> id_matches ''premise'' p) (plan_ids plan ''premises'')) @
     concat (map (assume_errors plan) (plan_tasks plan)) @ concat (map (one_premise_errors plan) (plan_premises plan))"

section \<open>Cycles\<close>

datatype colour = OnStack | Finished

definition cycle_message :: "string list \<Rightarrow> string \<Rightarrow> string" where
  "cycle_message trail node =
     ''tasks: dependency cycle '' @ join '' -> '' (dropWhile (\<lambda>x. x \<noteq> node) trail @ [node])"

fun visits :: "nat \<Rightarrow> (string \<times> string list) list \<Rightarrow> string list \<Rightarrow> string list \<Rightarrow>
    (string \<times> colour) list \<times> string list \<Rightarrow> (string \<times> colour) list \<times> string list" where
  "visits n blocked [] trail s = s"
| "visits n blocked (node # rest) trail (st, found) =
     visits n blocked rest trail
       (case map_of st node of
          Some Finished \<Rightarrow> (st, found)
        | Some OnStack \<Rightarrow> (st, found @ [cycle_message trail node])
        | None \<Rightarrow>
            (case n of
               0 \<Rightarrow> (st, found)
             | Suc m \<Rightarrow>
                 (case visits m blocked (filter (\<lambda>p. p \<in> fst ` set blocked) (lookup_list blocked node)) (trail @ [node])
                     (AList.update node OnStack st, found) of
                    (st', found') \<Rightarrow> (AList.update node Finished st', found'))))"

definition cycles_found :: "(string \<times> string list) list \<Rightarrow> string list" where
  "cycles_found blocked = snd (visits (length blocked) blocked (map fst blocked) [] ([], []))"

definition cycle_errors :: "jobj \<Rightarrow> xref_error list" where
  "cycle_errors plan = map DependencyCycle (sorted_set (cycles_found (plan_blocked plan)))"

section \<open>All of them\<close>

definition cross_reference_errors :: "jobj \<Rightarrow> xref_error list" where
  "cross_reference_errors plan =
     all_id_errors plan @ concat (map (issue_errors plan) (plan_issues plan)) @
     concat (map (task_errors plan) (plan_tasks plan)) @
     structure_errors plan @ premise_errors plan @ cycle_errors plan"


section \<open>The search finds a cycle exactly when there is one\<close>

definition known_edges :: "(string \<times> string list) list \<Rightarrow> (string \<times> string) set" where
  "known_edges b = {(d, t). (d, t) \<in> dict_edges b \<and> d \<in> fst ` set b}"

definition white :: "(string \<times> string list) list \<Rightarrow> (string \<times> colour) list \<Rightarrow> string set" where
  "white b st = {k \<in> fst ` set b. map_of st k = None}"

lemma parents_edges:
  "p \<in> set (filter (\<lambda>p. p \<in> fst ` set b) (lookup_list b t)) \<longleftrightarrow> (p, t) \<in> known_edges b"
  by (cases "map_of b t") (auto simp: known_edges_def dict_edges_def lookup_list_def)

lemma white_finite [simp]: "finite (white b st)"
  by (simp add: white_def)

lemma white_mark: "node \<in> white b st \<Longrightarrow> white b (AList.update node c st) = white b st - {node}"
  by (auto simp: white_def update_conv')

lemma white_mark_subset: "white b (AList.update node c st) \<subseteq> white b st"
  by (auto simp: white_def update_conv')

definition stacked :: "(string \<times> colour) list \<Rightarrow> string set" where
  "stacked st = {x. map_of st x = Some OnStack}"

definition finished :: "(string \<times> colour) list \<Rightarrow> string set" where
  "finished st = {x. map_of st x = Some Finished}"

lemma mark_sets [simp]:
  "stacked (AList.update node OnStack st) = insert node (stacked st)"
  "stacked (AList.update node Finished st) = stacked st - {node}"
  "finished (AList.update node OnStack st) = finished st - {node}"
  "finished (AList.update node Finished st) = insert node (finished st)"
  by (auto simp: stacked_def finished_def update_conv' split: if_splits)

text \<open>One node, then the rest.\<close>

definition visit1 :: "nat \<Rightarrow> (string \<times> string list) list \<Rightarrow> string \<Rightarrow> string list \<Rightarrow>
    (string \<times> colour) list \<times> string list \<Rightarrow> (string \<times> colour) list \<times> string list" where
  "visit1 n blocked node trail s =
     (case map_of (fst s) node of
          Some Finished \<Rightarrow> s
        | Some OnStack \<Rightarrow> (fst s, snd s @ [cycle_message trail node])
        | None \<Rightarrow>
            (case n of
               0 \<Rightarrow> s
             | Suc m \<Rightarrow>
                 (let r = visits m blocked (filter (\<lambda>p. p \<in> fst ` set blocked) (lookup_list blocked node)) (trail @ [node])
                     (AList.update node OnStack (fst s), snd s)
                  in (AList.update node Finished (fst r), snd r))))"

lemma visits_Cons: "visits n b (node # rest) trail s = visits n b rest trail (visit1 n b node trail s)"
  by (cases s) (auto simp: visit1_def Let_def split: option.splits colour.splits nat.splits prod.splits)

lemma visits_rule:
  assumes "\<And>n b trail s. P n b [] trail s"
    and "\<And>n b node rest trail s. (\<And>m. n = Suc m \<Longrightarrow> map_of (fst s) node = None \<Longrightarrow>
        P m b (filter (\<lambda>p. p \<in> fst ` set b) (lookup_list b node)) (trail @ [node]) (AList.update node OnStack (fst s), snd s)) \<Longrightarrow>
      P n b rest trail (visit1 n b node trail s) \<Longrightarrow> P n b (node # rest) trail s"
  shows "P n b ps trail s"
proof (induction n arbitrary: ps trail s rule: less_induct)
  case (less n ps trail s)
  show ?case
  proof (induction ps arbitrary: s)
    case (Cons node rest)
    show ?case
    proof (rule assms(2))
      show "P n b rest trail (visit1 n b node trail s)" by (rule Cons.IH)
      show "P m b (filter (\<lambda>p. p \<in> fst ` set b) (lookup_list b node)) (trail @ [node]) (AList.update node OnStack (fst s), snd s)"
        if "n = Suc m" for m using less.IH that by simp
    qed
  qed (rule assms(1))
qed

text \<open>Without a cycle nothing is found: whatever the search looks at waits, directly or not, behind every
  node of the trail.\<close>

lemma visits_quiet:
  assumes "acyclic (known_edges b)" and "\<forall>p \<in> set ps. \<forall>t \<in> set trail. (p, t) \<in> (known_edges b)\<^sup>+"
    and "stacked (fst s) \<subseteq> set trail"
  shows "snd (visits n b ps trail s) = snd s \<and> stacked (fst (visits n b ps trail s)) \<subseteq> set trail"
  using assms
proof (induction n b ps trail s rule: visits_rule)
  case (2 n b node rest trail s)
  have "snd (visit1 n b node trail s) = snd s \<and> stacked (fst (visit1 n b node trail s)) \<subseteq> set trail"
  proof (cases "map_of (fst s) node")
    case None
    show ?thesis
    proof (cases n)
      case (Suc m)
      let ?r = "visits m b (filter (\<lambda>p. p \<in> fst ` set b) (lookup_list b node)) (trail @ [node]) (AList.update node OnStack (fst s), snd s)"
      have "(p, t) \<in> (known_edges b)\<^sup>+" if "(p, node) \<in> known_edges b" "t \<in> set (trail @ [node])" for p t
        using that "2.prems"(2) by (auto intro: trancl_into_trancl2)
      then have "snd ?r = snd s \<and> stacked (fst ?r) \<subseteq> set (trail @ [node])"
        using "2.IH"(1) [OF Suc None] "2.prems"(1,3) by (auto simp: parents_edges simp del: set_filter)
      with None Suc show ?thesis by (auto simp: visit1_def Let_def)
    qed (use None 2 in \<open>simp add: visit1_def\<close>)
  next
    case (Some c)
    show ?thesis
    proof (cases c)
      case OnStack
      with Some "2.prems"(2,3) have "(node, node) \<in> (known_edges b)\<^sup>+" by (auto simp: stacked_def)
      with "2.prems"(1) show ?thesis by (simp add: acyclic_def)
    qed (use Some 2 in \<open>simp add: visit1_def\<close>)
  qed
  with 2 show ?case by (simp add: visits_Cons)
qed simp

text \<open>What only grows, and what only shrinks.\<close>

definition grows :: "(string \<times> string list) list \<Rightarrow> (string \<times> colour) list \<times> string list \<Rightarrow>
    (string \<times> colour) list \<times> string list \<Rightarrow> bool" where
  "grows b s r \<longleftrightarrow> prefix (snd s) (snd r) \<and> finished (fst s) \<subseteq> finished (fst r) \<and> white b (fst r) \<subseteq> white b (fst s)"

lemma grows_trans: "grows b s r \<Longrightarrow> grows b r q \<Longrightarrow> grows b s q"
  unfolding grows_def by (meson prefix_order.trans subset_trans)

lemma grows_refl [simp]: "grows b s s"
  by (simp add: grows_def)

lemma visit1_white:
  assumes "map_of (fst s) node = None" "grows b (AList.update node OnStack (fst s), snd s) r"
  shows "grows b s (AList.update node Finished (fst r), snd r)"
proof -
  have "finished (fst s) - {node} = finished (fst s)" using assms(1) by (auto simp: finished_def)
  with assms(2) white_mark_subset [of b node OnStack "fst s"] white_mark_subset [of b node Finished "fst r"]
  show ?thesis unfolding grows_def by auto
qed

lemma visits_grows: "grows b s (visits n b ps trail s)"
proof (induction n b ps trail s rule: visits_rule)
  case (2 n b node rest trail s)
  have "grows b s (visit1 n b node trail s)"
  proof (cases "map_of (fst s) node")
    case None
    show ?thesis
    proof (cases n)
      case (Suc m)
      from visit1_white [OF None "2.IH"(1) [OF Suc None]] show ?thesis using None Suc by (simp add: visit1_def Let_def)
    qed (use None in \<open>simp add: visit1_def\<close>)
  next
    case (Some c)
    then show ?thesis by (cases c) (simp_all add: visit1_def grows_def)
  qed
  from grows_trans [OF this "2.IH"(2)] show ?case by (simp add: visits_Cons)
qed simp

text \<open>With enough fuel and nothing found, everything looked at is finished, and what is finished stands on
  nothing that leads back to it.\<close>

lemma finished_parents:
  assumes "set (filter (\<lambda>p. p \<in> fst ` set b) (lookup_list b node)) \<subseteq> finished st"
    and "finished st \<subseteq> Wellfounded.acc (known_edges b)"
  shows "node \<in> Wellfounded.acc (known_edges b)"
proof (rule accI)
  fix y assume "(y, node) \<in> known_edges b"
  with assms show "y \<in> Wellfounded.acc (known_edges b)" unfolding parents_edges [symmetric] by blast
qed

lemma visits_complete:
  assumes "card (white b (fst s)) \<le> n" "set ps \<subseteq> fst ` set b" "finished (fst s) \<subseteq> Wellfounded.acc (known_edges b)"
    and "snd (visits n b ps trail s) = snd s"
  shows "set ps \<subseteq> finished (fst (visits n b ps trail s)) \<and>
    finished (fst (visits n b ps trail s)) \<subseteq> Wellfounded.acc (known_edges b)"
  using assms
proof (induction n b ps trail s rule: visits_rule)
  case (2 n b node rest trail s)
  let ?s = "visit1 n b node trail s"
  have mono: "grows b ?s (visits n b rest trail ?s)" by (rule visits_grows)
  have q: "prefix (snd ?s) (snd s)" using mono "2.prems"(4) by (simp add: visits_Cons grows_def)
  have one: "snd ?s = snd s" "node \<in> finished (fst ?s)" "finished (fst ?s) \<subseteq> Wellfounded.acc (known_edges b)"
    "white b (fst ?s) \<subseteq> white b (fst s)"
  proof -
    have "snd ?s = snd s \<and> node \<in> finished (fst ?s) \<and>
        finished (fst ?s) \<subseteq> Wellfounded.acc (known_edges b) \<and> white b (fst ?s) \<subseteq> white b (fst s)"
    proof (cases "map_of (fst s) node")
    case None
    with "2.prems"(2) have w: "node \<in> white b (fst s)" by (simp add: white_def)
    then have "card (white b (fst s)) > 0" by (auto simp: card_gt_0_iff)
    with "2.prems"(1) obtain m where n: "n = Suc m" by (cases n) auto
    define ps where "ps = filter (\<lambda>p. p \<in> fst ` set b) (lookup_list b node)"
    define r where "r = visits m b ps (trail @ [node]) (AList.update node OnStack (fst s), snd s)"
    have v: "?s = (AList.update node Finished (fst r), snd r)" using None n by (simp add: visit1_def Let_def r_def ps_def)
    have rm: "grows b (AList.update node OnStack (fst s), snd s) r" unfolding r_def by (rule visits_grows)
    have e: "snd r = snd s" using rm q v by (simp add: grows_def prefix_order.antisym)
    have "card (white b (AList.update node OnStack (fst s))) \<le> m"
      using w "2.prems"(1) n by (simp add: white_mark)
    moreover have "set ps \<subseteq> fst ` set b" by (auto simp: ps_def)
    moreover have "finished (AList.update node OnStack (fst s)) \<subseteq> Wellfounded.acc (known_edges b)" using "2.prems"(3) by auto
    ultimately have r: "set ps \<subseteq> finished (fst r)" "finished (fst r) \<subseteq> Wellfounded.acc (known_edges b)"
      using "2.IH"(1) [OF n None] e unfolding r_def ps_def by simp_all
    have "node \<in> Wellfounded.acc (known_edges b)" by (rule finished_parents [OF r [unfolded ps_def]])
    with r e v visit1_white [OF None rm] show ?thesis by (simp add: grows_def)
  next
    case (Some c)
    show ?thesis
    proof (cases c)
      case OnStack
      with Some q show ?thesis by (simp add: visit1_def)
    qed (use Some 2 in \<open>simp add: visit1_def finished_def\<close>)
  qed
    then show "snd ?s = snd s" "node \<in> finished (fst ?s)" "finished (fst ?s) \<subseteq> Wellfounded.acc (known_edges b)"
      "white b (fst ?s) \<subseteq> white b (fst s)" by blast+
  qed
  have "card (white b (fst ?s)) \<le> n"
    using one(4) "2.prems"(1) card_mono [of "white b (fst s)" "white b (fst ?s)"] by simp
  from "2.IH"(2) [OF this] "2.prems"(2,4) one have
    "set rest \<subseteq> finished (fst (visits n b rest trail ?s)) \<and> finished (fst (visits n b rest trail ?s)) \<subseteq> Wellfounded.acc (known_edges b)"
    by (simp add: visits_Cons)
  with one(2) mono show ?case by (auto simp: visits_Cons grows_def)
qed simp

lemma cycles_found_none: "cycles_found b = [] \<longleftrightarrow> acyclic (known_edges b)"
proof
  assume "acyclic (known_edges b)"
  then show "cycles_found b = []"
    using visits_quiet [of b "map fst b" "[]" "([], [])"] by (simp add: cycles_found_def stacked_def)
next
  assume n: "cycles_found b = []"
  let ?s = "([], []) :: (string \<times> colour) list \<times> string list"
  have "card (white b (fst ?s)) \<le> length b"
    using card_length [of "map fst b"] by (simp add: white_def)
  moreover have "set (map fst b) \<subseteq> fst ` set b" by simp
  moreover have "finished (fst ?s) \<subseteq> Wellfounded.acc (known_edges b)" by (simp add: finished_def)
  moreover have "snd (visits (length b) b (map fst b) [] ?s) = snd ?s" using n by (simp only: cycles_found_def snd_conv)
  ultimately have "set (map fst b) \<subseteq> finished (fst (visits (length b) b (map fst b) [] ?s)) \<and>
      finished (fst (visits (length b) b (map fst b) [] ?s)) \<subseteq> Wellfounded.acc (known_edges b)"
    by (rule visits_complete)
  then have a: "fst ` set b \<subseteq> Wellfounded.acc (known_edges b)" by (metis subset_trans list.set_map)
  have "x \<in> Wellfounded.acc (known_edges b)" for x
  proof (cases "x \<in> fst ` set b")
    case False
    show ?thesis
    proof (rule accI)
      fix y assume "(y, x) \<in> known_edges b"
      then have "x \<in> fst ` set b" by (auto simp: known_edges_def dict_edges_def dest: map_of_Some_in)
      with False show "y \<in> Wellfounded.acc (known_edges b)" by contradiction
    qed
  qed (use a in blast)
  then have "wf (known_edges b)" by (simp add: acc_wfI)
  then show "acyclic (known_edges b)" by (rule wf_acyclic)
qed

text \<open>The cycle check is exact: the search over the plan reports nothing precisely when no task waits, through
  the tasks of the plan, for itself.\<close>

theorem cycle_errors_exact:
  "cycle_errors plan = [] \<longleftrightarrow> acyclic {(d, t). (d, t) \<in> dict_edges (plan_blocked plan) \<and> d \<in> fst ` set (plan_blocked plan)}"
proof -
  have "cycle_errors plan = [] \<longleftrightarrow> cycles_found (plan_blocked plan) = []"
    by (metis cycle_errors_def map_is_Nil_conv set_empty set_sorted_set)
  then show ?thesis by (simp only: cycles_found_none known_edges_def)
qed

section \<open>A clean plan builds a graph\<close>

lemma clean_parts:
  assumes "cross_reference_errors plan = []"
  shows "cycle_errors plan = []" "t \<in> set (plan_tasks plan) \<Longrightarrow> blocker_errors plan t = []"
    "owner_errors plan = []" "t \<in> set (plan_tasks plan) \<Longrightarrow> edge_errors plan t = []"
  using assms by (auto simp: cross_reference_errors_def task_errors_def structure_errors_def)

lemma plan_blocked_keys: "map fst (plan_blocked plan) = plan_task_ids plan"
  by (simp add: plan_blocked_def comp_def map_pt_id_plan_tasks)

lemma in_lookup_list: "x \<in> set (lookup_list d k) \<longleftrightarrow> (\<exists>vs. map_of d k = Some vs \<and> x \<in> set vs)"
  by (cases "map_of d k") (simp_all add: lookup_list_def)

lemma upstream_known:
  assumes "t \<in> set (plan_tasks plan)"
  shows "set (t_upstream t) \<subseteq> set (plan_task_ids plan)"
proof
  let ?issues = "plan_issues plan"
  fix x assume x: "x \<in> set (t_upstream t)"
  from assms obtain k where "(k, t) \<in> set (plan_task_index plan)" by (auto simp: plan_tasks_def)
  then obtain i e where t: "t = task_of_entry ?issues i e"
    using dict_of_subset by (fastforce simp: plan_task_index_def Let_def)
  with x obtain b subs where "map_of (issue_members ?issues) b = Some subs" "x \<in> set subs"
    by (auto simp: task_of_entry_def issue_upstream_def in_lookup_list)
  then obtain j where "j \<in> set ?issues" "x \<in> set (sub_issue_ids j)"
    using dict_of_subset by (fastforce simp: issue_members_def dest!: map_of_SomeD)
  then show "x \<in> set (plan_task_ids plan)"
    by (force simp: plan_task_ids_def plan_task_index_def Let_def dict_of_keys sub_issue_ids_def)
qed

lemma plan_blocked_edges: "dict_edges (plan_blocked plan) = {(d, pt_id t) |d t. t \<in> set (plan_tasks plan) \<and> d \<in> set (pt_blocked_by t)}"
proof -
  have "map_of (plan_blocked plan) k = Some ds \<longleftrightarrow> (\<exists>t \<in> set (plan_tasks plan). pt_id t = k \<and> ds = pt_blocked_by t)" for k ds
    using distinct_plan_tasks [of plan]
    by (auto simp: plan_blocked_def map_of_self_eq dest: map_of_map_self)
  then show ?thesis by (auto simp: dict_edges_def)
qed

lemma clean_blockers_known:
  assumes "blocker_errors plan t = []" "t \<in> set (plan_tasks plan)"
  shows "set (pt_blocked_by t) \<subseteq> set (plan_task_ids plan)"
proof -
  have "set (pt_own_blocked_by t) \<subseteq> set (plan_task_ids plan)"
    using assms(1) by (fastforce simp: blocker_errors_def split: if_splits)
  with upstream_known [OF assms(2)] show ?thesis by (simp add: pt_blocked_by_def)
qed

lemma waits_for_map: "waits_for (map f ts) = {(d, d_id (f t)) |d t. t \<in> set ts \<and> d \<in> set (d_blocked_by (f t))}"
  by (force simp: waits_for_def)

text \<open>C37: A plan without a cross-reference error can be built: when the fields the schema closes (kind, risk) hold
  values of their vocabularies, the plan joins, before anything has run, to a graph the task graph's
  constructor accepts, with every task of the plan in it.\<close>

theorem clean_plan_builds:
  assumes "cross_reference_errors plan = []"
    and "filter (\<lambda>t. t_kind t \<notin> set task_kind_order \<or> pt_risk t \<notin> set risk_order) (plan_tasks plan) = []"
  shows "\<exists>g. join_graph plan None = Inr g \<and> accepted g \<and> g_ids g = plan_task_ids plan"
proof -
  let ?g = "map (join_task [] (fallback_replacements plan (falsified_premises []))) (plan_tasks plan)"
  note clean = clean_parts [OF assms(1)]
  have ids: "g_ids ?g = plan_task_ids plan"
    unfolding g_ids_def map_pt_id_plan_tasks [symmetric] by (simp add: join_task_fields)
  have empty: "task_after [] = []" "task_status [] = []"
    by (simp_all add: task_after_def task_ids_field_def task_status_def st_tasks_def obj_field_eq)
  have known: "t \<in> set (plan_tasks plan) \<Longrightarrow> set (pt_blocked_by t) \<subseteq> set (plan_task_ids plan)" for t
    by (rule clean_blockers_known [OF clean(2)])
  have "waits_for ?g = dict_edges (plan_blocked plan)"
    unfolding plan_blocked_edges waits_for_map by (simp add: join_task_fields empty lookup_list_def)
  moreover have "fst ` set (plan_blocked plan) = set (plan_task_ids plan)" by (metis plan_blocked_keys list.set_map)
  then have "known_edges (plan_blocked plan) = dict_edges (plan_blocked plan)"
    using known by (fastforce simp: known_edges_def plan_blocked_edges)
  moreover have "acyclic (known_edges (plan_blocked plan))"
    using clean(1) by (metis cycle_errors_def cycles_found_none map_is_Nil_conv set_empty set_sorted_set)
  moreover have "valid_fields u" if "u \<in> set ?g" for u
    using that assms(2) by (auto simp: valid_fields_def join_task_def Let_def empty or_else_def task_status_order_def filter_empty_conv)
  ultimately have "well_formed_dag ?g"
    using known distinct_plan_tasks [of plan] unfolding well_formed_dag_def ids
    by (fastforce simp: join_task_fields empty in_lookup_list map_pt_id_plan_tasks)
  then have "from_tasks ?g = Inr ?g" by (simp add: from_tasks_iff)
  then show ?thesis using ids by (simp add: join_graph_def empty accepted_def)
qed

section \<open>A clean plan says who writes and who reads\<close>

lemma need_of_grows: "set needs \<subseteq> set (need_of before tid vp other needs)"
  by (auto simp: need_of_def split: option.splits)

lemma needs_fold_grows: "set needs \<subseteq> set (fold (need_of before tid vp) others needs)"
  by (induction others arbitrary: needs) (use need_of_grows in fastforce)+

lemma needs_fold_hit:
  assumes "other \<in> set others" "pt_id other \<noteq> tid" "pt_id other \<notin> set before"
    and "theirs \<in> set (pt_produces other)" "lies_under strict path theirs"
  shows "pt_id other \<in> fst ` set (fold (need_of before tid (verb, strict, path)) others needs)"
proof -
  obtain xs ys where o: "others = xs @ other # ys" using assms(1) by (meson split_list)
  let ?n = "fold (need_of before tid (verb, strict, path)) xs needs"
  have "find (lies_under strict path) (pt_produces other) \<noteq> None"
    using assms(4,5) by (auto simp: find_None_iff)
  then have "pt_id other \<in> fst ` set (need_of before tid (verb, strict, path) other ?n)"
    using assms(2,3) by (auto simp: need_of_def)
  moreover have "fst ` set (need_of before tid (verb, strict, path) other ?n) \<subseteq>
      fst ` set (fold (need_of before tid (verb, strict, path)) ys (need_of before tid (verb, strict, path) other ?n))"
    by (rule image_mono [OF needs_fold_grows])
  ultimately show ?thesis unfolding o fold_append fold_Cons comp_apply by (rule subsetD [rotated])
qed

lemma needs_of_hit:
  assumes "(verb, strict, path) \<in> set (touches t)" "other \<in> set (plan_tasks plan)" "pt_id other \<noteq> pt_id t"
    and "pt_id other \<notin> set (upstream_tasks plan (pt_id t))" "theirs \<in> set (pt_produces other)" "lies_under strict path theirs"
  shows "needs_of plan t \<noteq> []"
proof -
  let ?f = "\<lambda>vp. fold (need_of (upstream_tasks plan (pt_id t)) (pt_id t) vp) (plan_tasks plan)"
  obtain xs ys where o: "touches t = xs @ (verb, strict, path) # ys" using assms(1) by (meson split_list)
  have "set n \<subseteq> set (fold ?f vs n)" for vs n
  proof (induction vs arbitrary: n)
    case (Cons v vs)
    then show ?case using needs_fold_grows [of n] by fastforce
  qed simp
  then have "set (?f (verb, strict, path) (fold ?f xs [])) \<subseteq> set (needs_of plan t)" by (simp add: needs_of_def o)
  with needs_fold_hit [OF assms(2-6), of verb "fold ?f xs []"] show ?thesis by auto
qed

lemma upstream_tasks_waits:
  "u \<in> set (upstream_tasks plan tid) \<longleftrightarrow> (u, tid) \<in> (dict_edges (plan_blocked plan))\<^sup>+"
proof -
  have "set (upstream_tasks plan tid) = {x. \<exists>d. (d, tid) \<in> dict_edges (plan_blocked plan) \<and> (x, d) \<in> (dict_edges (plan_blocked plan))\<^sup>*}"
    unfolding upstream_tasks_def worklist_reach by (auto simp: in_lookup_list dict_edges_def)
  then show ?thesis by (auto simp: trancl_unfold_right rtrancl_trancl_trancl)
qed

text \<open>Grouping pairs under their keys.\<close>

lemma group_lookup:
  "lookup_list (fold (\<lambda>(k, v) d. AList.update k (lookup_list d k @ [v]) d) ps d) k =
   lookup_list d k @ map snd (filter (\<lambda>p. fst p = k) ps)"
proof (induction ps arbitrary: d)
  case (Cons p ps)
  obtain a v where p: "p = (a, v)" by (cases p)
  have "lookup_list (AList.update a vs d) k = (if k = a then vs else lookup_list d k)" for vs
    by (simp add: lookup_list_def update_conv')
  with Cons [of "AList.update a (lookup_list d a @ [v]) d"] p show ?case by simp
qed simp

lemma producers_of: "tid \<in> set (lookup_list (producers plan) path) \<longleftrightarrow>
    (\<exists>t \<in> set (plan_tasks plan). pt_id t = tid \<and> path \<in> rstrip_slash ` set (pt_produces t))"
  unfolding producers_def group_lookup by (force simp: lookup_list_def)

lemma dedup_short: "length (dedup xs) \<le> 1 \<Longrightarrow> a \<in> set xs \<Longrightarrow> b \<in> set xs \<Longrightarrow> a = b"
proof (cases "dedup xs")
  case Nil
  moreover assume "a \<in> set xs"
  ultimately show ?thesis using set_dedup [of xs] by simp
next
  case (Cons c cs)
  moreover assume "length (dedup xs) \<le> 1" "a \<in> set xs" "b \<in> set xs"
  ultimately show ?thesis using set_dedup [of xs] by simp (metis list.set(1,2) length_0_conv singletonD)
qed

lemma clean_owner:
  assumes "owner_errors plan = []" "t \<in> set (plan_tasks plan)" "u \<in> set (plan_tasks plan)"
    and "p \<in> set (pt_produces t)" "q \<in> set (pt_produces u)" "rstrip_slash p = rstrip_slash q"
  shows "pt_id t = pt_id u"
proof -
  let ?os = "lookup_list (producers plan) (rstrip_slash p)"
  have in_os: "pt_id t \<in> set ?os" "pt_id u \<in> set ?os"
    unfolding producers_of using assms(2,4) assms(3,5,6) by blast (metis assms(3,5,6) imageI)
  from in_os(1) obtain os where "map_of (producers plan) (rstrip_slash p) = Some os" unfolding in_lookup_list by blast
  then have "(rstrip_slash p, os) \<in> set (producers plan)" "os = ?os" by (simp_all add: lookup_list_def map_of_SomeD)
  with assms(1) have "length (dedup ?os) \<le> 1"
    by (fastforce simp: owner_errors_def split: if_splits)
  from dedup_short [OF this in_os] show ?thesis .
qed

text \<open>A clean plan says who writes what and in which order: no two tasks produce the same path (up to
  trailing slashes), and a task that reads a path at or under what another task produces waits for that
  task, directly or through others.\<close>

theorem clean_plan_orders_files:
  assumes "cross_reference_errors plan = []" and "t \<in> set (plan_tasks plan)" and "u \<in> set (plan_tasks plan)"
    and "pt_id t \<noteq> pt_id u" and "theirs \<in> set (pt_produces u)"
  shows "rstrip_slash theirs \<notin> rstrip_slash ` set (pt_produces t) \<and>
    (filter (\<lambda>path. path_covered path theirs) (pt_reads t) = [] \<or> (pt_id u, pt_id t) \<in> (dict_edges (plan_blocked plan))\<^sup>+)"
proof
  note clean = clean_parts [OF assms(1)]
  show "rstrip_slash theirs \<notin> rstrip_slash ` set (pt_produces t)"
    using clean_owner [OF clean(3) assms(2,3) _ assms(5)] assms(4) by (metis imageE)
  have "sort_key fst (needs_of plan t) = []" using clean(4) [OF assms(2)] by (simp add: edge_errors_def)
  then have none: "needs_of plan t = []" using set_sort [of fst "needs_of plan t"] by simp
  show "filter (\<lambda>path. path_covered path theirs) (pt_reads t) = [] \<or> (pt_id u, pt_id t) \<in> (dict_edges (plan_blocked plan))\<^sup>+"
  proof (rule disjCI)
    assume no: "(pt_id u, pt_id t) \<notin> (dict_edges (plan_blocked plan))\<^sup>+"
    have "\<not> path_covered path theirs" if p: "path \<in> set (pt_reads t)" for path
    proof
      assume "path_covered path theirs"
      then have h1: "lies_under False path theirs" by (simp add: lies_under_def under_def outside_scope_def)
      have h2: "(''reads'', False, path) \<in> set (touches t)" using p by (simp add: touches_def)
      have h3: "pt_id u \<notin> set (upstream_tasks plan (pt_id t))" using no by (simp only: upstream_tasks_waits not_False_eq_True)
      from needs_of_hit [OF h2 assms(3) assms(4) [symmetric] h3 assms(5) h1] none show False by contradiction
    qed
    then show "filter (\<lambda>path. path_covered path theirs) (pt_reads t) = []" by (simp add: filter_empty_conv)
  qed
qed

section \<open>A concrete plan\<close>

definition tidy_plan :: jobj where
  "tidy_plan = [(''issues'', JArr [JObj [(''id'', JStr ''I-001''), (''kind'', JStr ''parallel''),
     (''sub_issues'', JArr [
       JObj [(''id'', JStr ''T-001''), (''acceptance'', JArr [JObj [(''id'', JStr ''A-1''),
         (''evidence'', JObj [(''kind'', JStr ''artifact''), (''paths'', JArr [JStr ''pkg/'']) ])]])],
       JObj [(''id'', JStr ''T-002''), (''blocked_by'', JArr [JStr ''T-001'']), (''acceptance'', JArr [JObj [(''id'', JStr ''A-1''),
         (''evidence'', JObj [(''kind'', JStr ''command''), (''command'', JArr [JStr ''check'']), (''reads'', JArr [JStr ''pkg/a.py''])])]])]
     ])]])]"

lemma tidy_clean: "cross_reference_errors tidy_plan = []"
  by code_simp

theorem clean_plan_builds_witness:
  "\<exists>g. join_graph tidy_plan None = Inr g \<and> accepted g \<and> g_ids g = plan_task_ids tidy_plan"
  by (rule clean_plan_builds [OF tidy_clean]) code_simp

theorem clean_plan_orders_files_witness:
  "\<exists>t u. pt_id t = ''T-002'' \<and> pt_id u = ''T-001'' \<and> (pt_id u, pt_id t) \<in> (dict_edges (plan_blocked tidy_plan))\<^sup>+"
proof -
  let ?u = "plan_tasks tidy_plan ! 0" and ?t = "plan_tasks tidy_plan ! 1"
  have "length (plan_tasks tidy_plan) = 2" "pt_id ?t = ''T-002''" "pt_id ?u = ''T-001''" "''pkg/'' \<in> set (pt_produces ?u)"
    "filter (\<lambda>path. path_covered path ''pkg/'') (pt_reads ?t) \<noteq> []"
    by (code_simp, code_simp, code_simp, code_simp, code_simp)
  with clean_plan_orders_files [OF tidy_clean, of ?t ?u "''pkg/''"] show ?thesis
    by (intro exI [of _ ?t] exI [of _ ?u]) simp
qed

end
