(* ===== verification/ReviewPolicy.thy ===== *)
theory ReviewPolicy
  imports CrossRef ReviewsDoc
begin

text \<open>
  \<^verbatim>\<open>review_policy.py\<close>: what an untrusted reviewer may say and what it costs. The output boundary (fence,
  strict parser, shape caps, citations, duplicate ids), the code anchors against the committed tree (git's
  two answers are functions), the effective risk, and the reasons acceptance stays shut. A reason is a
  constructor holding what the message names. A risk outside the ladder raises \<^verbatim>\<open>ValueError\<close>: \<open>None\<close>.
\<close>

section \<open>The output of a reviewer\<close>

definition max_output_bytes :: nat where
  "max_output_bytes = 512 * 1024"

definition max_output_depth :: nat where
  "max_output_depth = 12"

definition max_output_array :: nat where
  "max_output_array = 4096"

definition fence :: string where
  "fence = ''```''"

definition unwrap_fence :: "string \<Rightarrow> string" where
  "unwrap_fence raw =
     (let t = py_strip raw; r = drop 3 t;
          r1 = (if prefix ''json'' r \<or> prefix ''JSON'' r then drop 4 r else r);
          r2 = dropWhile (\<lambda>c. c = CHR '' '' \<or> c = CHR 0x09) r1;
          r3 = (if prefix [CHR 0x0D] r2 then tl r2 else r2)
      in if prefix fence t \<and> prefix newline r3 \<and> suffix fence (tl r3)
         then take (length (tl r3) - 3) (tl r3) else raw)"

fun shape :: "nat \<Rightarrow> json \<Rightarrow> nat \<times> nat" where
  "shape d (JObj kvs) =
     (let rs = map (\<lambda>kv. shape (d + 1) (snd kv)) kvs in (fold max (map fst rs) d, fold max (map snd rs) 0))"
| "shape d (JArr xs) =
     (let rs = map (shape (d + 1)) xs in (fold max (map fst rs) d, fold max (map snd rs) (length xs)))"
| "shape d v = (d, 0)"

datatype shape_problem = NotCanonical digest_error | TooManyBytes nat | TooDeep nat | ArrayTooLong nat

definition validate_shape :: "json \<Rightarrow> shape_problem list" where
  "validate_shape out =
     (case canonical out [] of
        Inl err \<Rightarrow> [NotCanonical err]
      | Inr b \<Rightarrow>
          (let (depth, arr) = shape 0 out
           in (if length b > max_output_bytes then [TooManyBytes (length b)] else []) @
              (if depth > max_output_depth then [TooDeep depth] else []) @
              (if arr > max_output_array then [ArrayTooLong arr] else [])))"

datatype output_error = Unparseable strict_error | BadOutputShape "shape_problem list"

definition parse_reviewer_output :: "(string \<Rightarrow> jraw option) \<Rightarrow> string \<Rightarrow> output_error + jobj" where
  "parse_reviewer_output loads raw =
     (case load_json_mapping loads untrusted_limits (unwrap_fence raw) of
        Inl err \<Rightarrow> Inl (Unparseable err)
      | Inr doc \<Rightarrow> if validate_shape (JObj doc) \<noteq> [] then Inl (BadOutputShape (validate_shape (JObj doc))) else Inr doc)"

definition validate_citations :: "string list \<Rightarrow> string list \<Rightarrow> string list" where
  "validate_citations referenced known = filter (\<lambda>r. r \<notin> set known) (sorted_set referenced)"

fun duplicate_ids :: "string list \<Rightarrow> string list \<Rightarrow> string list \<Rightarrow> string list" where
  "duplicate_ids seen dups [] = dups"
| "duplicate_ids seen dups (i # is) =
     duplicate_ids (i # seen) (if i \<in> set seen \<and> i \<notin> set dups then dups @ [i] else dups) is"

definition reject_duplicate_ids :: "jobj list \<Rightarrow> string list" where
  "reject_duplicate_ids entries = duplicate_ids [] [] (map (\<lambda>e. str_get e ''id'' '''') entries)"

section \<open>Code anchors\<close>

record tree =
  tr_blob :: "string \<Rightarrow> string option"
  tr_show :: "string \<Rightarrow> string option"

datatype anchor_problem =
    UnsafeAnchor string
  | NoSuchBlob string
  | StaleBlob string string string
  | UnreadableBlob string
  | BadLines string int int int

definition removeprefix :: "string \<Rightarrow> string \<Rightarrow> string" where
  "removeprefix p s = (if prefix p s then drop (length p) s else s)"

definition line_count :: "string \<Rightarrow> int" where
  "line_count s = int (length (filter (\<lambda>c. c = CHR 0x0A) s)) + 1"

definition validate_anchor :: "tree \<Rightarrow> jobj \<Rightarrow> anchor_problem option" where
  "validate_anchor tr anchor =
     (let path = str_get anchor ''path'' ''''; claimed = str_get anchor ''blob'' '''';
          actual = py_strip (case tr_blob tr path of Some out \<Rightarrow> out | None \<Rightarrow> [])
      in if \<not> is_repo_path path then Some (UnsafeAnchor path)
         else if tr_blob tr path = None \<or> actual = [] then Some (NoSuchBlob path)
         else if claimed \<noteq> [] \<and> removeprefix ''git-blob:'' claimed \<noteq> actual then Some (StaleBlob path claimed actual)
         else (case tr_show tr path of
             None \<Rightarrow> Some (UnreadableBlob path)
           | Some content \<Rightarrow>
               (let total = line_count content; first = as_int (jget anchor ''start_line'') (-1);
                    last = as_int (jget anchor ''end_line'') (-1)
                in if first < 1 \<or> last < first \<or> last > total then Some (BadLines path first last total) else None)))"

datatype integrity = Unavailable | Failed string | Verified string

definition derive_integrity :: "(string \<Rightarrow> string) \<Rightarrow> tree \<Rightarrow> string list \<Rightarrow> (string \<times> jobj list) list \<Rightarrow>
    digest_error + integrity" where
  "derive_integrity sha tr ids by_statement =
     (let anchors = concat (map (lookup_list by_statement) ids)
      in if anchors = [] then Inr Unavailable
         else bind_err (digest_of sha (JArr (map JObj anchors)) []) (\<lambda>d.
           Inr (if list_ex (\<lambda>a. validate_anchor tr a \<noteq> None) anchors then Failed d else Verified d)))"

section \<open>Risk\<close>

record signal_hit =
  sg_signal :: string
  sg_path :: string
  sg_risk :: string

record facts =
  fc_sufficient :: bool
  fc_binary_analyzed :: bool
  fc_unread :: "string list"
  fc_signals :: "signal_hit list"

record risk_inputs =
  ri_claim :: string
  ri_task :: string
  ri_domain :: string
  ri_public_surface :: string
  ri_side_effect :: string
  ri_security_boundary :: string
  ri_detector_floor :: string
  ri_coverage_gap :: string

definition risk_values :: "risk_inputs \<Rightarrow> string list" where
  "risk_values r = [ri_claim r, ri_task r, ri_domain r, ri_public_surface r, ri_side_effect r, ri_security_boundary r,
     ri_detector_floor r, ri_coverage_gap r]"

definition effective_risk :: "risk_inputs \<Rightarrow> string option" where
  "effective_risk r = max_risk (risk_values r)"

definition risk_floor :: "facts \<Rightarrow> string option" where
  "risk_floor fc = max_risk (map sg_risk (fc_signals fc))"

definition coverage_gap_risk :: "facts \<Rightarrow> string option" where
  "coverage_gap_risk fc =
     (if fc_sufficient fc then Some ''low''
      else if \<not> fc_binary_analyzed fc then Some ''high''
      else max_risk (map sg_risk (filter (\<lambda>h. sg_path h \<in> set (fc_unread fc)) (fc_signals fc))))"

definition risk_inputs_from_facts :: "facts \<Rightarrow> string \<Rightarrow> string \<Rightarrow> string \<Rightarrow> risk_inputs option" where
  "risk_inputs_from_facts fc claim task domain =
     (let by_signal = dict_of (map (\<lambda>h. (sg_signal h, sg_risk h)) (fc_signals fc));
          worth = (\<lambda>k. case map_of by_signal k of Some r \<Rightarrow> r | None \<Rightarrow> ''low'')
      in case (risk_floor fc, coverage_gap_risk fc) of
           (Some floor, Some gap) \<Rightarrow> Some \<lparr>ri_claim = claim, ri_task = task, ri_domain = domain,
             ri_public_surface = worth ''public_surface'', ri_side_effect = worth ''side_effect'',
             ri_security_boundary = worth ''security_boundary'', ri_detector_floor = floor, ri_coverage_gap = gap\<rparr>
         | _ \<Rightarrow> None)"

definition reject_risk_downgrade :: "string \<Rightarrow> string \<Rightarrow> bool option" where
  "reject_risk_downgrade claimed floor = map_option Not (risk_at_least claimed floor)"

section \<open>Independence\<close>

datatype independence = NotRequired | Undeclared | NoModelNamed | SharedGroup string | Distinct

definition independence_ok :: "jobj \<Rightarrow> string \<Rightarrow> independence option" where
  "independence_ok ind effective =
     (case risk_at_least effective ''critical'' of
        None \<Rightarrow> None
      | Some False \<Rightarrow> Some NotRequired
      | Some True \<Rightarrow> Some
          (case (jget ind ''actual_extractor'', jget ind ''comparator'') of
             (JObj e, JObj c) \<Rightarrow>
               (let eg = str_get e ''group'' ''''; cg = str_get c ''group'' ''''
                in if eg = [] \<or> cg = [] then NoModelNamed else if eg = cg then SharedGroup eg else Distinct)
           | _ \<Rightarrow> Undeclared))"

text \<open>\<^verbatim>\<open>models_by_role\<close>, at one role.\<close>

definition observed_model :: "jobj \<Rightarrow> string \<Rightarrow> string" where
  "observed_model seen role = (case jget seen role of
      JObj e \<Rightarrow> if truthy (jget e ''model'') then str_get e ''model'' '''' else []
    | _ \<Rightarrow> [])"

section \<open>Why acceptance stays shut\<close>

datatype block_reason =
    BlockingFinding string string string
  | BlockingGap string string
  | BlockingExtra string string bool
  | ComposedCritical
  | NoManifest
  | InsufficientCoverage "string list"
  | NotIndependent string

definition blocking_floor :: string where
  "blocking_floor = ''high''"

definition blocks :: "string \<Rightarrow> bool \<Rightarrow> bool" where
  "blocks risk grounded \<longleftrightarrow>
     \<not> grounded \<and> (risk \<notin> set risk_order \<or> risk_at_least risk blocking_floor = Some True)"

definition composition_of :: "jobj \<Rightarrow> jobj" where
  "composition_of manifest = as_obj (py_or (jget manifest ''composition'') (JObj []))"

definition unread_paths :: "jobj \<Rightarrow> string list" where
  "unread_paths manifest =
     dedup (filter (\<lambda>p. p \<noteq> [])
       (concat (map (\<lambda>k. map (\<lambda>e. str_get e ''path'' '''') (objs_in (as_arr (jget manifest k))))
         [''unsupported_files'', ''generated_files'']) @
        map py_str (as_arr (jget (composition_of manifest) ''unread_paths''))))"

definition coverage_blocks :: "jobj \<Rightarrow> string \<Rightarrow> block_reason list option" where
  "coverage_blocks review effective =
     (let manifest = rw_coverage review;
          composed = (manifest \<noteq> [] \<and> str_get (composition_of manifest) ''mode'' '''' = ''composed'')
      in case (risk_at_least effective ''critical'', risk_at_least effective ''high'') of
           (Some critical, Some high) \<Rightarrow> Some
             (if composed \<and> critical then [ComposedCritical]
              else if \<not> high then []
              else if manifest = [] then [NoManifest]
              else if py_str (jget manifest ''coverage_status'') = ''sufficient'' then []
              else [InsufficientCoverage (unread_paths manifest)])
         | _ \<Rightarrow> None)"

definition disputed_subjects :: "jobj \<Rightarrow> string list" where
  "disputed_subjects human =
     map (\<lambda>e. str_get e ''subject_id'' '''') (filter (\<lambda>e. str_get e ''action'' '''' = ''dispute_finding'') (maps_field human ''dispositions''))"

definition independence_observed :: "jobj \<Rightarrow> string \<Rightarrow> block_reason list option" where
  "independence_observed review effective =
     (case risk_at_least effective ''critical'' of
        None \<Rightarrow> None
      | Some False \<Rightarrow> Some []
      | Some True \<Rightarrow> Some
          (case jget (rw_binding review) ''independence'' of
             JObj seen \<Rightarrow>
               (let e = observed_model seen ''actual_extractor''; c = observed_model seen ''comparator''
                in if e \<noteq> [] \<and> c \<noteq> [] \<and> e = c then [NotIndependent e] else [])
           | _ \<Rightarrow> []))"

definition standing_findings :: "jobj \<Rightarrow> jobj \<Rightarrow> jobj list" where
  "standing_findings review human = filter (\<lambda>f. str_get f ''id'' '''' \<notin> set (disputed_subjects human)) (blocking_findings review)"

definition blocking_of :: "jobj list \<Rightarrow> jobj list" where
  "blocking_of = filter (\<lambda>e. jget e ''blocking'' = JBool True)"

definition gaps_of :: "jobj \<Rightarrow> jobj list" where
  "gaps_of review = objs_in (as_arr (jget (rw_machine review) ''gaps''))"

definition blocking_reasons :: "jobj \<Rightarrow> string \<Rightarrow> jobj option \<Rightarrow> block_reason list option" where
  "blocking_reasons review effective human =
     (let h = (case human of Some h \<Rightarrow> h | None \<Rightarrow> rw_human review);
          stated = map (\<lambda>f. BlockingFinding (str_get f ''id'' ''?'') (str_get f ''review'' ''?'') (str_get f ''scenario'' '''')) (standing_findings review h) @
            map (\<lambda>g. BlockingGap (str_get g ''id'' ''?'') (str_get g ''kind'' ''?'')) (blocking_of (gaps_of review)) @
            map (\<lambda>x. BlockingExtra (str_get x ''id'' ''?'') (str_get x ''category'' ''?'') (jget x ''grounded'' = JBool True)) (blocking_of (extra_behaviors review))
      in case (coverage_blocks review effective, independence_observed review effective) of
           (Some c, Some i) \<Rightarrow> Some (stated @ c @ i)
         | _ \<Rightarrow> None)"

section \<open>An AI cannot lower the risk\<close>

lemma risk_at_least_iff:
  "risk_at_least a b = Some v \<longleftrightarrow> (\<exists>i j. index_of risk_order a = Some i \<and> index_of risk_order b = Some j \<and> v = (j \<le> i))"
  by (auto simp: risk_at_least_def split: option.splits)

lemma risk_at_least_trans:
  "risk_at_least a b = Some True \<Longrightarrow> risk_at_least b c = Some True \<Longrightarrow> risk_at_least a c = Some True"
  by (auto simp: risk_at_least_iff)

lemma max_risk_ge:
  assumes "max_risk risks = Some m" "r \<in> set risks"
  shows "risk_at_least m r = Some True"
proof -
  let ?f = "\<lambda>x. the (index_of risk_order x)"
  obtain x xs where risks: "risks = x # xs" using assms(2) by (cases risks) auto
  with assms(1) have known: "\<forall>y \<in> set risks. index_of risk_order y \<noteq> None" and m: "m = max_by ?f x xs"
    by (auto simp: max_risk_def split: if_splits)
  have "m \<in> set risks" using max_by_mem [of ?f x xs] risks m by simp
  then obtain i j where "index_of risk_order m = Some i" "index_of risk_order r = Some j" using known assms(2) by blast
  moreover have "?f r \<le> ?f m" using max_by_ge [of r x xs ?f] assms(2) risks m by simp
  ultimately show ?thesis by (simp add: risk_at_least_iff)
qed

text \<open>What the diff shows floors the risk: whatever risks the plan, the task and the domain are given, the
  effective risk computed with the facts of a diff sits at or above the risk of every signal the detector
  matched, at or above each of the given ones, and at or above high when a part of the diff went unread
  that nothing could be read of.\<close>

theorem signals_floor_risk:
  assumes "risk_inputs_from_facts fc claim task domain = Some r" and "effective_risk r = Some e"
  shows "set (map (risk_at_least e) (claim # task # domain # map sg_risk (fc_signals fc))) \<subseteq> {Some True} \<and>
    (fc_sufficient fc \<or> fc_binary_analyzed fc \<or> risk_at_least e ''high'' = Some True)"
proof -
  have ge: "risk_at_least e x = Some True" if "x \<in> set (risk_values r)" for x
    using max_risk_ge [OF assms(2) [unfolded effective_risk_def] that] .
  from assms(1) obtain floor gap where f: "risk_floor fc = Some floor" and g: "coverage_gap_risk fc = Some gap"
    and r: "ri_claim r = claim" "ri_task r = task" "ri_domain r = domain" "ri_detector_floor r = floor" "ri_coverage_gap r = gap"
    by (auto simp: risk_inputs_from_facts_def Let_def split: option.splits)
  have in_r: "claim \<in> set (risk_values r)" "task \<in> set (risk_values r)" "domain \<in> set (risk_values r)"
    "floor \<in> set (risk_values r)" "gap \<in> set (risk_values r)"
    using r by (simp_all add: risk_values_def)
  have "risk_at_least e (sg_risk h) = Some True" if "h \<in> set (fc_signals fc)" for h
    using risk_at_least_trans [OF ge [OF in_r(4)] max_risk_ge [OF f [unfolded risk_floor_def]]] that by simp
  moreover have "fc_sufficient fc \<or> fc_binary_analyzed fc \<or> gap = ''high''"
    using g by (auto simp: coverage_gap_risk_def split: if_splits)
  ultimately show ?thesis using ge [OF in_r(1)] ge [OF in_r(2)] ge [OF in_r(3)] ge [OF in_r(5)] by auto
qed

definition guard_removed :: facts where
  "guard_removed = \<lparr>fc_sufficient = True, fc_binary_analyzed = True, fc_unread = [],
     fc_signals = [\<lparr>sg_signal = ''security_boundary'', sg_path = ''src/auth.py'', sg_risk = ''high''\<rparr>]\<rparr>"

theorem signals_floor_risk_witness:
  "\<exists>r e. risk_inputs_from_facts guard_removed ''low'' ''low'' ''low'' = Some r \<and> effective_risk r = Some e \<and>
     risk_at_least e ''high'' = Some True"
proof -
  have "Option.bind (risk_inputs_from_facts guard_removed ''low'' ''low'' ''low'') effective_risk \<noteq> None" by code_simp
  then obtain r e where r: "risk_inputs_from_facts guard_removed ''low'' ''low'' ''low'' = Some r" "effective_risk r = Some e"
    by (auto simp: bind_eq_None_conv)
  from signals_floor_risk [OF this] r show ?thesis by (simp add: guard_removed_def)
qed

section \<open>More risk never opens the gate\<close>

lemma risk_levels: "risk_at_least a b = Some v \<Longrightarrow> \<exists>w. risk_at_least a ''critical'' = Some w \<and> (\<exists>h. risk_at_least a ''high'' = Some h)"
  by (auto simp: risk_at_least_iff risk_order_def split: if_splits)

lemma coverage_blocks_mono:
  assumes "risk_at_least e' e = Some True" "coverage_blocks review e = Some rs" "rs \<noteq> []"
  shows "\<exists>rs'. coverage_blocks review e' = Some rs' \<and> rs' \<noteq> []"
proof -
  obtain c h where e: "risk_at_least e ''critical'' = Some c" "risk_at_least e ''high'' = Some h"
    using assms(2) by (auto simp: coverage_blocks_def Let_def split: option.splits)
  obtain c' h' where e': "risk_at_least e' ''critical'' = Some c'" "risk_at_least e' ''high'' = Some h'"
    using risk_levels [OF assms(1)] by blast
  have "c \<longrightarrow> c'" "h \<longrightarrow> h'" using risk_at_least_trans [OF assms(1)] e e' by auto
  with assms(2,3) e e' show ?thesis by (auto simp: coverage_blocks_def Let_def split: if_splits)
qed

lemma independence_observed_mono:
  assumes "risk_at_least e' e = Some True" "independence_observed review e = Some rs" "rs \<noteq> []"
  shows "independence_observed review e' = Some rs"
proof -
  have "risk_at_least e ''critical'' = Some True"
    using assms(2,3) by (auto simp: independence_observed_def split: option.splits bool.splits)
  with risk_at_least_trans [OF assms(1)] assms(2) show ?thesis by (simp add: independence_observed_def)
qed

lemma blocking_reasons_Some:
  "risk_at_least a b = Some v \<Longrightarrow> \<exists>rs. blocking_reasons review a human = Some rs"
  using risk_levels [of a b v] by (auto simp: blocking_reasons_def coverage_blocks_def independence_observed_def Let_def split: bool.splits)

text \<open>More risk never opens the gate: whatever held acceptance shut at one effective risk, something holds it
  shut at any higher one; a change cannot get through by being judged more dangerous.\<close>

theorem blocking_monotone:
  assumes "risk_at_least e' e = Some True" and "blocking_reasons review e human = Some rs" and "rs \<noteq> []"
  shows "\<exists>rs'. blocking_reasons review e' human = Some rs' \<and> rs' \<noteq> []"
proof -
  obtain c i where ci: "coverage_blocks review e = Some c" "independence_observed review e = Some i"
    using assms(2) by (auto simp: blocking_reasons_def Let_def split: option.splits)
  obtain c' i' where ci': "coverage_blocks review e' = Some c'" "independence_observed review e' = Some i'"
    using blocking_reasons_Some [OF assms(1), of review human] by (auto simp: blocking_reasons_def Let_def split: option.splits)
  have "c \<noteq> [] \<longrightarrow> c' \<noteq> []" "i \<noteq> [] \<longrightarrow> i' \<noteq> []"
    using coverage_blocks_mono [OF assms(1) ci(1)] independence_observed_mono [OF assms(1) ci(2)] ci' by auto
  with assms(2,3) ci ci' show ?thesis by (auto simp: blocking_reasons_def Let_def)
qed

definition unread_review :: jobj where
  "unread_review = [(''machine'', JObj [(''status'', JStr ''generated''),
     (''coverage'', JObj [(''coverage_status'', JStr ''insufficient''),
        (''unsupported_files'', JArr [JObj [(''path'', JStr ''img.png'')]])])])]"

theorem blocking_monotone_witness:
  "\<exists>rs. blocking_reasons unread_review ''critical'' None = Some rs \<and> rs \<noteq> []"
  by (rule blocking_monotone [of _ "''high''" _ _ "[InsufficientCoverage [''img.png'']]"]) (code_simp, code_simp, simp)

section \<open>What a verified citation rests on\<close>

lemma anchor_good:
  assumes "validate_anchor tr a = None"
  shows "is_repo_path (str_get a ''path'' '''') \<and>
    (\<exists>content. tr_show tr (str_get a ''path'' '''') = Some content \<and>
      1 \<le> as_int (jget a ''start_line'') (-1) \<and> as_int (jget a ''start_line'') (-1) \<le> as_int (jget a ''end_line'') (-1) \<and>
      as_int (jget a ''end_line'') (-1) \<le> line_count content)"
  using assms by (auto simp: validate_anchor_def Let_def split: if_splits option.splits)

text \<open>A verified citation rests on code that is there: when a claim's integrity comes out verified, it cites
  at least one anchor and every anchor of every statement it cites names a safe path of the repository
  whose committed text has the lines it names.\<close>

theorem verified_rests_on_tree:
  assumes "derive_integrity sha tr ids by_statement = Inr (Verified d)"
  shows "concat (map (lookup_list by_statement) ids) \<noteq> [] \<and>
    filter (\<lambda>a. \<not> is_repo_path (str_get a ''path'' '''') \<or> tr_show tr (str_get a ''path'' '''') = None \<or>
       as_int (jget a ''start_line'') (-1) < 1 \<or>
       line_count (the (tr_show tr (str_get a ''path'' ''''))) < as_int (jget a ''end_line'') (-1))
     (concat (map (lookup_list by_statement) ids)) = []"
proof -
  let ?as = "concat (map (lookup_list by_statement) ids)"
  from assms have n: "?as \<noteq> []" and "\<not> list_ex (\<lambda>a. validate_anchor tr a \<noteq> None) ?as"
    by (auto simp: derive_integrity_def Let_def simp del: concat_eq_Nil_conv split: if_splits)
  then have "validate_anchor tr a = None" if "a \<in> set ?as" for a using that by (auto simp: list_ex_iff)
  from anchor_good [OF this] n show ?thesis by (fastforce simp: filter_empty_conv simp del: concat_eq_Nil_conv set_concat)
qed

definition one_file :: tree where
  "one_file = \<lparr>tr_blob = (\<lambda>p. if p = ''a.py'' then Some ''c0ffee'' else None), tr_show = (\<lambda>p. if p = ''a.py'' then Some ''x'' else None)\<rparr>"

definition one_anchor :: jobj where
  "one_anchor = [(''path'', JStr ''a.py''), (''blob'', JStr ''git-blob:c0ffee''), (''start_line'', JInt 1), (''end_line'', JInt 1)]"

theorem verified_rests_on_tree_witness:
  "\<exists>d. derive_integrity id one_file [''AST-001''] [(''AST-001'', [one_anchor])] = Inr (Verified d) \<and>
     is_repo_path (str_get one_anchor ''path'' '''')"
proof -
  have "case derive_integrity id one_file [''AST-001''] [(''AST-001'', [one_anchor])] of Inr (Verified d) \<Rightarrow> True | _ \<Rightarrow> False"
    by code_simp
  then obtain d where d: "derive_integrity id one_file [''AST-001''] [(''AST-001'', [one_anchor])] = Inr (Verified d)"
    by (auto split: sum.splits integrity.splits)
  have "is_repo_path (str_get one_anchor ''path'' '''')"
    using verified_rests_on_tree [OF d] by (simp add: lookup_list_def split: if_splits)
  with d show ?thesis by blast
qed

end
