(* ===== verification/Cards.thy ===== *)
theory Cards
  imports ReviewPolicy
begin

text \<open>
  \<^verbatim>\<open>decision_cards.py\<close>: the Decision Cards a review leaves for a human, derived from its findings, the
  statements their options mean, and the reading of an answer back through them. The hash that names a
  widened path is a parameter.
\<close>

section \<open>Numbers in ids\<close>

text \<open>\<^verbatim>\<open>f"{n:03d}"\<close> and \<^verbatim>\<open>int(digits)\<close>.\<close>

definition pad3 :: "nat \<Rightarrow> string" where
  "pad3 n = replicate (3 - length (dec_nat n)) (CHR ''0'') @ dec_nat n"

definition dec_val :: "string \<Rightarrow> nat" where
  "dec_val s = foldl (\<lambda>a c. 10 * a + (of_char c - 48)) 0 s"

definition statement_id :: "nat \<Rightarrow> string" where
  "statement_id n = ''STMT-'' @ pad3 n"

definition card_id :: "nat \<Rightarrow> string" where
  "card_id n = ''DC-'' @ pad3 n"

definition statement_number :: "string \<Rightarrow> nat option" where
  "statement_number s = (if id_matches ''statement'' s then Some (dec_val (takeWhile is_digit (drop 5 s))) else None)"

definition next_statement_index :: "json list \<Rightarrow> nat" where
  "next_statement_index referenced =
     Suc (fold max (concat (map (\<lambda>v. case statement_number (py_str v) of Some n \<Rightarrow> [n] | None \<Rightarrow> []) referenced)) 0)"

section \<open>What needs a decision\<close>

record subject =
  sb_id :: string
  sb_kind :: string
  sb_risk :: string
  sb_domains :: "string list"
  sb_question :: string
  sb_options :: "string list"
  sb_evidence :: jobj

definition unsettled_verdicts :: "string list" where
  "unsettled_verdicts = [''diverged'', ''missing'', ''unverified'', ''unknown'']"

definition review_domains :: "string \<Rightarrow> string list" where
  "review_domains name = (if name = ''security'' then [''security''] else [])"

definition max_cards :: nat where
  "max_cards = 64"

definition risk_of :: "jobj \<Rightarrow> string" where
  "risk_of m = (let r = str_get m ''risk'' ''low'' in if r \<in> set risk_order then r else ''low'')"

definition severity_of :: "jobj \<Rightarrow> string" where
  "severity_of m = (let s = str_get m ''severity'' ''medium'' in if s \<in> set risk_order then s else ''medium'')"

definition expansion_id :: "(string \<Rightarrow> string) \<Rightarrow> string \<Rightarrow> string" where
  "expansion_id sha path = ''SCOPE-'' @ take 8 (sha path)"

definition quote :: string where
  "quote = [CHR 0x27]"

definition claim_subject :: "(string \<times> string) list \<Rightarrow> (string \<times> string list) list \<Rightarrow> jobj \<Rightarrow> subject" where
  "claim_subject plan_risk plan_domains claim =
     (let cid = str_get claim ''claim_id'' ''''
      in \<lparr>sb_id = cid, sb_kind = ''claim'', sb_risk = or_else plan_risk cid ''low'', sb_domains = lookup_list plan_domains cid,
          sb_question = cid @ '' is '' @ quote @ str_get claim ''verdict'' ''unknown'' @ quote @
            '': the implementation was not shown to satisfy what the plan says it must. What happens to it?'',
          sb_options = [''revise_implementation'', ''revise_design'', ''run_experiment'', ''request_expert'', ''dispute''],
          sb_evidence = [(''expected'', jget claim ''expected''),
            (''actual_statement_ids'', JArr (as_arr (py_or (jget claim ''actual_statement_ids'') (JArr [])))),
            (''conformance'', jget claim ''conformance''), (''semantic_support'', jget claim ''semantic_support''),
            (''expected_choice'', JStr ''revise_implementation'')]\<rparr>)"

definition gap_subject :: "jobj \<Rightarrow> subject" where
  "gap_subject gap =
     (let gid = str_get gap ''id'' ''''
      in \<lparr>sb_id = gid, sb_kind = ''gap'', sb_risk = risk_of gap, sb_domains = [],
          sb_question = gid @ '' ('' @ str_get gap ''kind'' ''evidence_gap'' @ '') is open'' @
            (if jget gap ''blocking'' = JBool True then '' and blocks the gate'' else []) @ ''. How is it closed?'',
          sb_options = [''revise_implementation'', ''run_experiment'', ''request_expert'', ''reduce_scope'', ''dispute''],
          sb_evidence = [(''gap'', JObj gap), (''expected_choice'', JStr ''revise_implementation'')]\<rparr>)"

definition extra_subject :: "jobj \<Rightarrow> subject" where
  "extra_subject extra =
     (let eid = str_get extra ''id'' ''''
      in \<lparr>sb_id = eid, sb_kind = ''extra_behavior'', sb_risk = risk_of extra, sb_domains = [],
          sb_question = eid @ '' ('' @ str_get extra ''category'' ''unknown'' @
            '') is behaviour no requirement asked for. Keep it or remove it?'',
          sb_options = [''reduce_scope'', ''revise_requirement'', ''request_expert'', ''dispute''],
          sb_evidence = [(''extra_behavior'', JObj extra), (''expected_choice'', JStr ''reduce_scope'')]\<rparr>)"

definition finding_subject :: "jobj \<Rightarrow> subject" where
  "finding_subject f =
     (let sid = str_get f ''id'' ''''
      in \<lparr>sb_id = sid, sb_kind = ''finding'', sb_risk = severity_of f, sb_domains = review_domains (str_get f ''review'' ''''),
          sb_question = sid @ '' ('' @ str_get f ''review'' ''?'' @ '', severity '' @ str_get f ''severity'' ''medium'' @ ''): '' @
            str_get f ''scenario'' ''no scenario recorded'' @ '' What is done about it?'',
          sb_options = [''revise_implementation'', ''reduce_scope'', ''request_expert'', ''dispute''],
          sb_evidence = [(''finding'', JObj f), (''expected_choice'', JStr ''revise_implementation'')]\<rparr>)"

definition expansion_subject :: "(string \<Rightarrow> string) \<Rightarrow> jobj \<Rightarrow> subject" where
  "expansion_subject sha x =
     (let path = str_get x ''path'' ''''; named = join '', '' (map py_str (as_arr (jget x ''findings'')))
      in \<lparr>sb_id = expansion_id sha path, sb_kind = ''scope_expansion'', sb_risk = ''high'', sb_domains = [],
          sb_question = ''Repairing '' @ (if named = [] then ''a finding'' else named) @ '' at its cause, '' @
            str_get x ''task_id'' ''a task'' @ '' changed '' @ path @ '', which the approved mandate'' @ quote @
            ''s scope does not include. Widen the scope to it?'',
          sb_options = [''adopt_scope'', ''reduce_scope'', ''revise_design''],
          sb_evidence = [(''expansion'', JObj x), (''expected_choice'', JStr ''adopt_scope'')]\<rparr>)"

record review_parts =
  pa_claims :: "jobj list"
  pa_gaps :: "jobj list"
  pa_extras :: "jobj list"
  pa_findings :: "jobj list"
  pa_plan_risk :: "(string \<times> string) list"
  pa_plan_domains :: "(string \<times> string list) list"
  pa_expansions :: "jobj list"

definition subjects :: "(string \<Rightarrow> string) \<Rightarrow> review_parts \<Rightarrow> subject list" where
  "subjects sha p =
     map (claim_subject (pa_plan_risk p) (pa_plan_domains p))
       (filter (\<lambda>c. str_get c ''verdict'' ''unknown'' \<in> set unsettled_verdicts) (pa_claims p)) @
     map gap_subject (pa_gaps p) @
     map extra_subject (filter (\<lambda>e. jget e ''grounded'' \<noteq> JBool True) (pa_extras p)) @
     map finding_subject (filter (\<lambda>f. str_get f ''status'' '''' \<noteq> ''resolved'') (pa_findings p)) @
     map (expansion_subject sha) (pa_expansions p)"

section \<open>The options\<close>

definition option_text :: "(string \<times> string) list" where
  "option_text = [
    (''adopt_scope'', ''Adopt it: widen the approved mandate'' @ quote @ ''s scope to this path for the rest of the cycle.''),
    (''revise_implementation'', ''Return it to the implementer: change the code until the review can be regenerated clean.''),
    (''revise_design'', ''Change the expectation: the plan, not the code, is what was wrong here.''),
    (''revise_requirement'', ''Adopt it as intended: reopen the requirement so this behaviour is something we asked for.''),
    (''run_experiment'', ''Run an experiment first: decide this once there is an observation to decide on.''),
    (''request_expert'', ''Route it to a domain expert: this is outside what a general reviewer should sign for.''),
    (''reduce_scope'', ''Take it out of scope: remove the behaviour rather than carry an undecided risk.''),
    (''dispute'', ''Dispute the finding, with a reason: a review that cannot be contradicted makes it infallible.'')]"

definition option_disposition :: "(string \<times> string) list" where
  "option_disposition = [(''adopt_scope'', ''adopt_scope''), (''revise_implementation'', ''revise_implementation''),
    (''revise_design'', ''revise_design''), (''revise_requirement'', ''revise_requirement''), (''run_experiment'', ''run_experiment''),
    (''request_expert'', ''request_expert''), (''reduce_scope'', ''reduce_scope''), (''dispute'', ''dispute_finding'')]"

definition option_letters :: string where
  "option_letters = ''ABCDEFGH''"

text \<open>Every token used is in both tables.\<close>

definition disposition_of :: "string \<Rightarrow> string" where
  "disposition_of token = or_else option_disposition token []"

definition option_statement :: "string \<Rightarrow> string \<Rightarrow> nat \<Rightarrow> jobj" where
  "option_statement subject_id token n =
     [(''id'', JStr (statement_id n)), (''text'', JStr (or_else option_text token [])),
      (''epistemic_status'', JStr ''machine_inferred''),
      (''applicability'', JObj [(''subject_id'', JStr subject_id), (''disposition'', JStr (disposition_of token))])]"

section \<open>The cards\<close>

definition domain_char :: "char \<Rightarrow> bool" where
  "domain_char c \<longleftrightarrow> is_digit c \<or> 97 \<le> (of_char c :: nat) \<and> (of_char c :: nat) \<le> 122"

definition is_domain :: "string \<Rightarrow> bool" where
  "is_domain s = (case chomp s of [] \<Rightarrow> False
     | c # r \<Rightarrow> domain_char c \<and> list_all (\<lambda>x. domain_char x \<or> x \<in> {CHR ''_'', CHR ''-''}) r)"

definition make_card :: "subject \<Rightarrow> nat \<Rightarrow> nat \<Rightarrow> jobj" where
  "make_card sb n first =
     (let options = map (\<lambda>(i, c). JObj [(''id'', JStr [c]), (''statement_id'', JStr (statement_id (first + i)))])
            (zip [0..<length (sb_options sb)] option_letters);
          domains = filter is_domain (sb_domains sb)
      in [(''id'', JStr (card_id n)), (''question'', JStr (concat (take 2000 (chars_of (sb_question sb))))),
          (''risk'', JStr (sb_risk sb)), (''options'', JArr options), (''evidence'', JObj (sb_evidence sb))] @
         (if domains \<noteq> [] then [(''requires_domains'', JArr (map JStr (take 16 domains)))] else []))"

definition statements_of :: "subject \<Rightarrow> nat \<Rightarrow> jobj list" where
  "statements_of sb first =
     map (\<lambda>(i, token). option_statement (sb_id sb) token (first + i)) (enumerate 0 (take (length option_letters) (sb_options sb)))"

fun mint :: "subject list \<Rightarrow> nat \<Rightarrow> nat \<Rightarrow> jobj list \<times> jobj list" where
  "mint [] n first = ([], [])"
| "mint (sb # sbs) n first =
     (let sts = statements_of sb first; (sts', cards) = mint sbs (Suc n) (first + length sts)
      in (sts @ sts', make_card sb n first # cards))"

definition derive_cards :: "(string \<Rightarrow> string) \<Rightarrow> review_parts \<Rightarrow> nat \<Rightarrow> nat + jobj list \<times> jobj list" where
  "derive_cards sha p first =
     (let sbs = subjects sha p in if length sbs > max_cards then Inl (length sbs) else Inr (mint sbs 1 first))"

section \<open>What an answer means\<close>

definition by_id :: "jobj list \<Rightarrow> (string \<times> jobj) list" where
  "by_id ms = dict_of (map (\<lambda>m. (str_get m ''id'' ''None'', m)) ms)"

definition meaning_of :: "(string \<times> jobj) list \<Rightarrow> (string \<times> jobj) list \<Rightarrow> string \<Rightarrow> string \<Rightarrow> (string \<times> string) option" where
  "meaning_of cards statements cid choice =
     (let card = or_else cards cid [];
          option = (case find (\<lambda>x. str_get x ''id'' ''None'' = choice) (objs_in (as_arr (jget card ''options''))) of Some x \<Rightarrow> x | None \<Rightarrow> []);
          statement = or_else statements (str_get option ''statement_id'' '''') []
      in case jget statement ''applicability'' of
           JObj a \<Rightarrow> (let s = str_get a ''subject_id'' ''''; d = str_get a ''disposition'' ''''
              in if s \<noteq> [] \<and> d \<noteq> [] then Some (s, d) else None)
         | _ \<Rightarrow> None)"

definition answered :: "jobj \<Rightarrow> jobj \<Rightarrow> (string \<times> string) list" where
  "answered review human =
     (let cards = by_id (maps_field (rw_machine review) ''decision_cards'');
          statements = by_id (maps_field (rw_machine review) ''statements'')
      in concat (map (\<lambda>d. case meaning_of cards statements (str_get d ''card_id'' ''None'') (str_get d ''choice'' ''None'') of
            Some m \<Rightarrow> [m] | None \<Rightarrow> []) (maps_field human ''decisions'')))"

section \<open>Ids are distinct\<close>

lemma dec_val_append: "dec_val (s @ [c]) = 10 * dec_val s + (of_char c - 48)"
  by (simp add: dec_val_def)

lemma dec_val_dec: "dec_val (dec_nat n) = n"
proof (induction n rule: dec_nat.induct)
  case (1 n)
  show ?case
  proof (cases "n < 10")
    case True
    then show ?thesis by (simp add: dec_nat.simps [of n] dec_val_def of_char_digit)
  next
    case False
    have "dec_val (dec_nat (n div 10) @ [digit (n mod 10)]) = n"
      using 1 [OF False] by (simp add: dec_val_append of_char_digit)
    with False show ?thesis by (simp add: dec_nat.simps [of n])
  qed
qed

lemma dec_val_zeros: "dec_val (replicate k (CHR ''0'') @ s) = dec_val s"
  by (induction k) (simp_all add: dec_val_def)

lemma pad3_inj: "pad3 m = pad3 n \<longleftrightarrow> m = n"
  by (metis dec_val_dec dec_val_zeros pad3_def)

lemma id_inj [simp]: "statement_id m = statement_id n \<longleftrightarrow> m = n" "card_id m = card_id n \<longleftrightarrow> m = n"
  by (simp_all add: statement_id_def card_id_def pad3_inj)

text \<open>A minted id is read back as its number, so minting can go on after ids already in use.\<close>

lemma pad3_digits: "c \<in> set (pad3 n) \<Longrightarrow> is_digit c"
  using dec_nat_digits [of c n] by (auto simp: pad3_def is_digit_def)

lemma statement_number_id: "statement_number (statement_id n) = Some n"
proof -
  have t: "takeWhile is_digit (pad3 n) = pad3 n" "dropWhile is_digit (pad3 n) = []"
    using pad3_digits [of _ n] by (auto simp: takeWhile_eq_all_conv dropWhile_eq_Nil_conv)
  have l: "3 \<le> length (pad3 n)" by (simp add: pad3_def)
  have v: "dec_val (pad3 n) = n" by (simp add: pad3_def dec_val_zeros dec_val_dec)
  show ?thesis
    by (simp add: t l v statement_number_def id_matches_def id_patterns_def statement_id_def digits_then_def
        del: dropWhile_eq_Nil_conv)
qed

lemma fold_max_ge: "x \<in> set xs \<or> x = (a :: nat) \<Longrightarrow> x \<le> fold max xs a"
proof (induction xs arbitrary: a x)
  case (Cons y ys a x)
  have top: "max y a \<le> fold max ys (max y a)" by (rule Cons.IH) simp
  from Cons.prems consider "x \<in> set ys" | "x \<le> max y a" by auto
  then show ?case
  proof cases
    case 1
    then show ?thesis by (simp add: Cons.IH)
  next
    case 2
    from 2 top have "x \<le> fold max ys (max y a)" by (rule le_trans)
    then show ?thesis by simp
  qed
qed simp

lemma next_statement_fresh: "JStr (statement_id n) \<in> set referenced \<Longrightarrow> n < next_statement_index referenced"
proof -
  assume "JStr (statement_id n) \<in> set referenced"
  then have "n \<in> set (concat (map (\<lambda>v. case statement_number (py_str v) of Some n \<Rightarrow> [n] | None \<Rightarrow> []) referenced))"
    by (auto simp: statement_number_id intro!: bexI [of _ "JStr (statement_id n)"])
  then show ?thesis unfolding next_statement_index_def using fold_max_ge by (simp only: less_Suc_eq_le) blast
qed

section \<open>An answer means what its option says\<close>

lemma str_get_first [simp]: "str_get ((k, JStr v) # m) k d = v"
  by (simp add: str_get_def jget_or_def)

lemma statement_ids: "map (\<lambda>m. str_get m ''id'' ''None'') (statements_of sb first) = map statement_id [first..<first + length (statements_of sb first)]"
  by (rule nth_equalityI) (simp_all add: statements_of_def option_statement_def nth_enumerate_eq)

lemma make_card_id: "str_get (make_card sb n first) ''id'' ''None'' = card_id n"
  by (simp add: make_card_def Let_def)

lemma mint_spec:
  "mint sbs n first = (sts, cards) \<Longrightarrow>
     length cards = length sbs \<and>
     map (\<lambda>m. str_get m ''id'' ''None'') sts = map statement_id [first..<first + length sts] \<and>
     map (\<lambda>m. str_get m ''id'' ''None'') cards = map card_id [n..<n + length cards] \<and>
     (\<forall>i < length sbs. \<exists>f. cards ! i = make_card (sbs ! i) (n + i) f \<and> set (statements_of (sbs ! i) f) \<subseteq> set sts)"
proof (induction sbs arbitrary: n first sts cards)
  case (Cons sb sbs)
  let ?sts = "statements_of sb first"
  obtain sts' cards' where m: "mint sbs (Suc n) (first + length ?sts) = (sts', cards')" by (cases "mint sbs (Suc n) (first + length ?sts)")
  with Cons.prems have r: "sts = ?sts @ sts'" "cards = make_card sb n first # cards'" by (simp_all add: Let_def)
  note IH = Cons.IH [OF m]
  have "map (\<lambda>m. str_get m ''id'' ''None'') sts = map statement_id [first..<first + length sts]"
    using IH statement_ids [of sb first] upt_add_eq_append [of first "first + length ?sts" "length sts'"]
    unfolding r by (simp add: add.assoc)
  moreover have "map (\<lambda>m. str_get m ''id'' ''None'') cards = map card_id [n..<n + length cards]"
    using IH unfolding r by (simp add: make_card_id upt_conv_Cons del: upt_Suc)
  moreover have "\<exists>f. cards ! i = make_card ((sb # sbs) ! i) (n + i) f \<and> set (statements_of ((sb # sbs) ! i) f) \<subseteq> set sts"
    if "i < length (sb # sbs)" for i
  proof (cases i)
    case 0
    then show ?thesis using r by auto
  next
    case (Suc k)
    with that have "k < length sbs" by simp
    with IH obtain f where "cards' ! k = make_card (sbs ! k) (Suc n + k) f" "set (statements_of (sbs ! k) f) \<subseteq> set sts'" by blast
    with Suc r show ?thesis by auto
  qed
  ultimately show ?case using IH r by (simp del: upt_Suc)
qed simp

lemma by_id_lookup:
  assumes "map (\<lambda>m. str_get m ''id'' ''None'') ms = map idf [a..<b]" "\<And>x y. idf x = idf y \<longleftrightarrow> x = y" "m \<in> set ms"
  shows "map_of (by_id ms) (str_get m ''id'' ''None'') = Some m"
proof -
  have "distinct (map (\<lambda>m. str_get m ''id'' ''None'') ms)"
    unfolding assms(1) by (simp add: distinct_map inj_on_def assms(2))
  then show ?thesis using assms(3) by (simp add: by_id_def dict_of_id comp_def map_of_self_eq)
qed

lemma letters_distinct: "distinct option_letters" "length option_letters = 8"
  by (simp_all add: option_letters_def)

definition option_entry :: "nat \<Rightarrow> nat \<times> char \<Rightarrow> jobj" where
  "option_entry first ic = [(''id'', JStr [snd ic]), (''statement_id'', JStr (statement_id (first + fst ic)))]"

lemma card_options: "objs_in (as_arr (jget (make_card sb n first) ''options'')) =
    map (option_entry first) (zip [0..<length (sb_options sb)] option_letters)"
proof -
  have "objs_in (map (\<lambda>(i, c). JObj [(''id'', JStr [c]), (''statement_id'', JStr (statement_id (first + i)))]) zs) =
      map (option_entry first) zs" for zs
    by (induction zs) (auto simp: option_entry_def)
  then show ?thesis by (simp add: make_card_def Let_def jget_def)
qed

lemma find_option:
  assumes "j < k" "j < length option_letters"
  shows "find (\<lambda>x. str_get x ''id'' ''None'' = [option_letters ! j]) (map (option_entry first) (zip [0..<k] option_letters)) =
    Some (option_entry first (j, option_letters ! j))"
proof -
  have "option_letters ! i \<noteq> option_letters ! j" if "i < j" for i
    using that assms(2) letters_distinct(1) by (simp add: nth_eq_iff_index_eq)
  then show ?thesis
    unfolding find_Some_iff using assms by (intro exI [of _ j]) (auto simp: option_entry_def)
qed

lemma subject_tokens:
  assumes "sb \<in> set (subjects sha p)"
  shows "length (sb_options sb) \<le> 8 \<and> (\<forall>t \<in> set (sb_options sb). disposition_of t \<noteq> [])"
  using assms
  by (auto simp: subjects_def claim_subject_def gap_subject_def extra_subject_def finding_subject_def expansion_subject_def
      Let_def disposition_of_def or_else_def option_disposition_def)

lemma statement_of_option:
  assumes "j < length (sb_options sb)" "j < 8"
  shows "option_statement (sb_id sb) (sb_options sb ! j) (first + j) \<in> set (statements_of sb first)"
  using assms letters_distinct(2) unfolding statements_of_def
  by (auto simp: in_set_enumerate_eq intro!: image_eqI [of _ _ "(j, sb_options sb ! j)"])

lemma meaning_of_derived:
  assumes "mint sbs n first = (sts, cards)" "i < length sbs" "j < length (sb_options (sbs ! i))" "j < 8"
  shows "meaning_of (by_id cards) (by_id sts) (card_id (n + i)) [option_letters ! j] =
    (let s = sb_id (sbs ! i); d = disposition_of (sb_options (sbs ! i) ! j) in if s \<noteq> [] \<and> d \<noteq> [] then Some (s, d) else None)"
proof -
  let ?sb = "sbs ! i"
  note spec = mint_spec [OF assms(1)]
  then obtain f where c: "cards ! i = make_card ?sb (n + i) f" and sts: "set (statements_of ?sb f) \<subseteq> set sts" using assms(2) by blast
  have in_cards: "make_card ?sb (n + i) f \<in> set cards" using c spec assms(2) by (metis nth_mem)
  have card: "map_of (by_id cards) (card_id (n + i)) = Some (make_card ?sb (n + i) f)"
    using by_id_lookup [of cards card_id _ _ "make_card ?sb (n + i) f"] spec in_cards by (metis make_card_id id_inj(2))
  let ?st = "option_statement (sb_id ?sb) (sb_options ?sb ! j) (f + j)"
  have st_id: "str_get ?st ''id'' ''None'' = statement_id (f + j)" by (simp add: option_statement_def)
  have "?st \<in> set sts" using statement_of_option [OF assms(3,4)] sts by blast
  then have st: "map_of (by_id sts) (statement_id (f + j)) = Some ?st"
    using by_id_lookup [of sts statement_id _ _ ?st] spec by (metis st_id id_inj(1))
  have "str_get (option_entry f (j, option_letters ! j)) ''statement_id'' '''' = statement_id (f + j)"
    by (simp add: option_entry_def str_get_def jget_or_def)
  moreover have "jget ?st ''applicability'' = JObj [(''subject_id'', JStr (sb_id ?sb)), (''disposition'', JStr (disposition_of (sb_options ?sb ! j)))]"
    by (simp add: option_statement_def jget_def)
  moreover have "str_get [(''subject_id'', JStr s), (''disposition'', JStr d)] ''disposition'' '''' = d" for s d
    by (simp add: str_get_def jget_or_def)
  ultimately show ?thesis
    using find_option [OF assms(3)] assms(4) letters_distinct(2)
    by (simp add: meaning_of_def or_else_def card st card_options Let_def)
qed

text \<open>C39: The cards mean what they say: unless there are more open items than one review may carry, which is
  refused and never cut, there is one card per item in order, and answering a card with the letter of one of
  its options is read back as exactly that item and the disposition that option stands for.\<close>

theorem cards_mean_what_they_say:
  assumes "derive_cards sha p first = Inr (statements, cards)" and "i < length (subjects sha p)"
    and "j < length (sb_options (subjects sha p ! i))" and "sb_id (subjects sha p ! i) \<noteq> []"
  shows "length cards = length (subjects sha p) \<and> length cards \<le> max_cards \<and>
    meaning_of (by_id cards) (by_id statements) (card_id (Suc i)) [option_letters ! j] =
      Some (sb_id (subjects sha p ! i), disposition_of (sb_options (subjects sha p ! i) ! j))"
proof -
  from assms(1) have m: "mint (subjects sha p) 1 first = (statements, cards)" and le: "length (subjects sha p) \<le> max_cards"
    by (auto simp: derive_cards_def Let_def split: if_splits)
  have tok: "length (sb_options (subjects sha p ! i)) \<le> 8" "disposition_of (sb_options (subjects sha p ! i) ! j) \<noteq> []"
    using subject_tokens [OF nth_mem [OF assms(2)]] assms(3) by auto
  with meaning_of_derived [OF m assms(2,3)] assms(3,4) mint_spec [OF m] le show ?thesis by simp
qed

definition two_items :: review_parts where
  "two_items = \<lparr>pa_claims = [[(''claim_id'', JStr ''C-001''), (''verdict'', JStr ''diverged'')]], pa_gaps = [],
     pa_extras = [], pa_findings = [[(''id'', JStr ''F-001''), (''review'', JStr ''security''), (''severity'', JStr ''high'')]],
     pa_plan_risk = [(''C-001'', ''high'')], pa_plan_domains = [], pa_expansions = []\<rparr>"

theorem cards_mean_what_they_say_witness:
  "\<exists>statements cards. derive_cards id two_items 1 = Inr (statements, cards) \<and>
     meaning_of (by_id cards) (by_id statements) (card_id 2) ''D'' = Some (''F-001'', ''dispute_finding'')"
proof -
  have "\<not> isl (derive_cards id two_items 1)" by code_simp
  then obtain statements cards where d: "derive_cards id two_items 1 = Inr (statements, cards)"
    by (cases "derive_cards id two_items 1") auto
  have s: "length (subjects id two_items) = 2" "length (sb_options (subjects id two_items ! 1)) = 4"
    "sb_id (subjects id two_items ! 1) = ''F-001''" "disposition_of (sb_options (subjects id two_items ! 1) ! 3) = ''dispute_finding''"
    "option_letters ! 3 = CHR ''D''"
    by (code_simp, code_simp, code_simp, code_simp, code_simp)
  with cards_mean_what_they_say [OF d, of 1 3] d show ?thesis by (simp add: numeral_2_eq_2)
qed

end
