(* ===== verification/Repair.thy ===== *)
theory Repair
  imports Cards
begin

text \<open>
  \<^verbatim>\<open>findings.py\<close> and \<^verbatim>\<open>repair.py\<close>: which task answers each finding of a generated review, and which of them the
  loop repairs, a human decides, or nobody's scope owns. A task is read off the joined graph.
\<close>

section \<open>Who owns a path\<close>

definition better_owner :: "string \<Rightarrow> dtask \<Rightarrow> string \<times> int \<Rightarrow> string \<times> int" where
  "better_owner path t best =
     (if d_scope_include t = [] then best
      else case longest_cover path (d_scope_include t) of
          None \<Rightarrow> best
        | Some cover \<Rightarrow> if int (length cover) > snd best then (d_id t, int (length cover)) else best)"

definition owner_of_path :: "dtask list \<Rightarrow> string \<Rightarrow> string" where
  "owner_of_path tasks path = fst (fold (better_owner path) tasks ([], -1))"

definition anchor_paths :: "jobj \<Rightarrow> string list" where
  "anchor_paths m =
     map (\<lambda>a. str_get a ''path'' '''') (filter (\<lambda>a. truthy (jget a ''path'')) (objs_in (as_arr (jget m ''code_anchors''))))"

definition first_owned :: "dtask list \<Rightarrow> string list \<Rightarrow> string \<times> string" where
  "first_owned tasks paths =
     (case find (\<lambda>p. owner_of_path tasks p \<noteq> []) paths of
        Some p \<Rightarrow> (owner_of_path tasks p, p)
      | None \<Rightarrow> ([], case paths of [] \<Rightarrow> [] | p # _ \<Rightarrow> p))"

text \<open>\<^verbatim>\<open>s.rsplit(":", 1)[0]\<close>.\<close>

definition before_last_colon :: "string \<Rightarrow> string" where
  "before_last_colon s =
     (if CHR '':'' \<in> set s then rev (tl (dropWhile (\<lambda>c. c \<noteq> CHR '':'') (rev s))) else s)"

section \<open>Attribution\<close>

record attribution =
  at_finding :: string
  at_kind :: string
  at_task :: string
  at_basis :: string
  at_detail :: string

definition owned :: "attribution \<Rightarrow> bool" where
  "owned a \<longleftrightarrow> at_task a \<noteq> []"

definition attributed :: "string \<Rightarrow> string \<Rightarrow> string \<Rightarrow> string \<times> string \<Rightarrow> attribution" where
  "attributed fid kind detail ob = \<lparr>at_finding = fid, at_kind = kind, at_task = fst ob, at_basis = snd ob, at_detail = detail\<rparr>"

definition severity_key :: "jobj \<Rightarrow> int" where
  "severity_key f = (case index_of risk_order (py_str (jget f ''severity'')) of
      Some i \<Rightarrow> - int i | None \<Rightarrow> - int (length risk_order))"

definition failing_verdicts :: "string list" where
  "failing_verdicts = [''diverged'', ''missing'']"

definition anchor_path_list :: "string \<Rightarrow> string list" where
  "anchor_path_list anchor = (let p = before_last_colon anchor in if p = [] then [] else [p])"

definition finding_attributions :: "dtask list \<Rightarrow> jobj \<Rightarrow> attribution list" where
  "finding_attributions tasks review =
     map (\<lambda>f. attributed (str_get f ''id'' ''F-?'') ''finding'' [] (first_owned tasks (anchor_paths f)))
       (sort_key severity_key (open_findings review))"

definition extra_paths :: "jobj \<Rightarrow> jobj \<Rightarrow> string list" where
  "extra_paths review x =
     (let statements = by_id (objs_in (as_arr (jget (rw_machine review) ''actual_extraction'')))
      in concat (map (\<lambda>s. anchor_paths (or_else statements (py_str s) [])) (as_arr (jget x ''actual_statement_ids''))))"

definition extra_attributions :: "dtask list \<Rightarrow> jobj \<Rightarrow> attribution list" where
  "extra_attributions tasks review =
     map (\<lambda>x. attributed (str_get x ''id'' ''EXTRA-?'') ''extra_behavior'' [] (first_owned tasks (extra_paths review x)))
       (blocking_of (extra_behaviors review))"

definition observation_attributions :: "dtask list \<Rightarrow> jobj \<Rightarrow> attribution list" where
  "observation_attributions tasks review =
     map (\<lambda>ob. attributed (str_get ob ''id'' ''OB-?'') ''observation'' (str_get ob ''statement'' '''')
         (first_owned tasks (anchor_path_list (str_get ob ''anchor'' '''')))) (rw_observations review)"

definition claim_attributions :: "dtask list \<Rightarrow> jobj \<Rightarrow> attribution list" where
  "claim_attributions tasks review =
     map (\<lambda>r. let c = str_get r ''claim_id'' ''''
         in attributed c ''claim'' [] (case find (\<lambda>t. c \<in> set (d_claim_ids t)) tasks of Some t \<Rightarrow> d_id t | None \<Rightarrow> [], c))
       (filter (\<lambda>r. str_get r ''verdict'' '''' \<in> set failing_verdicts) (claim_results review))"

definition attribute :: "dtask list \<Rightarrow> jobj option \<Rightarrow> attribution list" where
  "attribute tasks review = (case review of
      None \<Rightarrow> []
    | Some r \<Rightarrow> if \<not> is_generated r then []
        else finding_attributions tasks r @ extra_attributions tasks r @ observation_attributions tasks r @ claim_attributions tasks r)"

definition overruled_one :: "dtask list \<Rightarrow> jobj \<Rightarrow> attribution" where
  "overruled_one tasks d =
     (let (owner, basis) = first_owned tasks (anchor_path_list (str_get d ''anchor'' ''''));
          recorder = str_get d ''task'' '''';
          author = (case find (\<lambda>t. d_id t = recorder) tasks of Some t \<Rightarrow> d_id t | None \<Rightarrow> []);
          detail = ''overruled: '' @ str_get d ''statement'' '''' @ '' (it recorded: '' @ str_get d ''rationale'' '''' @ '')''
      in attributed (str_get d ''id'' '''') ''local_decision'' detail
           (if owner \<noteq> [] then (owner, basis) else (author, if author \<noteq> [] then ''recorded by '' @ recorder else basis)))"

definition overruled_decisions :: "dtask list \<Rightarrow> jobj option \<Rightarrow> string list \<Rightarrow> attribution list" where
  "overruled_decisions tasks review ids = (case review of
      None \<Rightarrow> []
    | Some r \<Rightarrow> if \<not> is_generated r then []
        else map (overruled_one tasks) (filter (\<lambda>d. str_get d ''id'' '''' \<in> set ids) (rw_local_decisions r)))"

definition seeds :: "attribution list \<Rightarrow> string list" where
  "seeds as = sorted_set (map at_task (filter owned as))"

definition unowned :: "attribution list \<Rightarrow> attribution list" where
  "unowned as = filter (\<lambda>a. \<not> owned a) as"

section \<open>Routing\<close>

definition repairs_the_code :: string where
  "repairs_the_code = ''revise_implementation''"

definition answered_to_repair :: "jobj \<Rightarrow> jobj \<Rightarrow> string list" where
  "answered_to_repair review human =
     map (\<lambda>e. str_get e ''subject_id'' '''') (filter (\<lambda>e. str_get e ''action'' '''' = repairs_the_code) (maps_field human ''dispositions'')) @
     map fst (filter (\<lambda>sa. snd sa = repairs_the_code) (answered review human))"

record routing =
  rt_code :: "(string \<times> attribution list) list"
  rt_judgement :: "attribution list"
  rt_unowned :: "attribution list"

text \<open>One list per task, tasks in plan order.\<close>

definition place_of :: "dtask list \<Rightarrow> string \<Rightarrow> nat" where
  "place_of tasks tid = (case index_of (g_ids tasks) tid of Some i \<Rightarrow> i | None \<Rightarrow> length tasks)"

definition group_by_task :: "attribution list \<Rightarrow> (string \<times> attribution list) list" where
  "group_by_task as = fold (\<lambda>a d. AList.update (at_task a) (lookup_list d (at_task a) @ [a]) d) as []"

definition to_repair :: "string list \<Rightarrow> attribution \<Rightarrow> bool" where
  "to_repair decided a \<longleftrightarrow> at_kind a \<in> {''finding'', ''observation''} \<or> at_finding a \<in> set decided"

definition route :: "dtask list \<Rightarrow> jobj option \<Rightarrow> jobj option \<Rightarrow> routing" where
  "route tasks review human =
     (case review of
        None \<Rightarrow> \<lparr>rt_code = [], rt_judgement = [], rt_unowned = []\<rparr>
      | Some r \<Rightarrow>
          if \<not> is_generated r then \<lparr>rt_code = [], rt_judgement = [], rt_unowned = []\<rparr>
          else
            (let decided = answered_to_repair r (case human of Some h \<Rightarrow> h | None \<Rightarrow> rw_human r);
                 as = attribute tasks review; ods = overruled_decisions tasks review decided;
                 mine = filter (\<lambda>a. owned a \<and> to_repair decided a) as @ filter owned ods
             in \<lparr>rt_code = sort_key (\<lambda>kv. place_of tasks (fst kv)) (group_by_task mine),
                 rt_judgement = filter (\<lambda>a. owned a \<and> \<not> to_repair decided a) as,
                 rt_unowned = unowned as @ unowned ods\<rparr>))"

section \<open>Ownership is the most specific scope\<close>

definition covers :: "string \<Rightarrow> dtask \<Rightarrow> bool" where
  "covers path t \<longleftrightarrow> (\<exists>p \<in> set (d_scope_include t). path_covered path p)"

definition best_owner :: "string \<Rightarrow> dtask set \<Rightarrow> string \<times> int \<Rightarrow> bool" where
  "best_owner path T best \<longleftrightarrow>
     (if snd best < 0 then fst best = [] \<and> (\<forall>t \<in> T. \<not> covers path t)
      else (\<exists>t \<in> T. d_id t = fst best \<and> (\<exists>c. longest_cover path (d_scope_include t) = Some c \<and> int (length c) = snd best)) \<and>
        (\<forall>u \<in> T. \<forall>c. longest_cover path (d_scope_include u) = Some c \<longrightarrow> int (length c) \<le> snd best))"

lemma covers_cover: "covers path t \<longleftrightarrow> longest_cover path (d_scope_include t) \<noteq> None"
  using best_cover [of path "d_scope_include t"] by (auto simp: covers_def best_cover_def split: option.splits)

lemma better_owner_step: "best_owner path T best \<Longrightarrow> best_owner path (insert t T) (better_owner path t best)"
proof -
  assume b: "best_owner path T best"
  show ?thesis
  proof (cases "longest_cover path (d_scope_include t)")
    case None
    then have "better_owner path t best = best" "\<not> covers path t" by (simp_all add: better_owner_def covers_cover)
    with b None show ?thesis by (auto simp: best_owner_def)
  next
    case (Some c)
    then have "d_scope_include t \<noteq> []" by (auto simp: longest_cover_def)
    with Some have o: "better_owner path t best = (if int (length c) > snd best then (d_id t, int (length c)) else best)" "covers path t"
      by (simp_all add: better_owner_def covers_cover)
    have le: "\<forall>u \<in> T. \<forall>c'. longest_cover path (d_scope_include u) = Some c' \<longrightarrow> int (length c') \<le> snd best"
      using b by (auto simp: best_owner_def covers_cover split: if_splits)
    show ?thesis
    proof (cases "int (length c) > snd best")
      case True
      with o le Some show ?thesis by (fastforce simp: best_owner_def)
    next
      case False
      with b o Some show ?thesis by (auto simp: best_owner_def)
    qed
  qed
qed

lemma best_owner_fold: "best_owner path T best \<Longrightarrow> best_owner path (T \<union> set ts) (fold (better_owner path) ts best)"
proof (induction ts arbitrary: T best)
  case (Cons t ts)
  from Cons.IH [OF better_owner_step [OF Cons.prems]] show ?case by simp
qed simp

lemma owner_best: "best_owner path (set tasks) (fold (better_owner path) tasks ([], -1))"
  using best_owner_fold [of path "{}" "([], -1)" tasks] by (simp add: best_owner_def)

text \<open>A task whose covering pattern is as long as any task's, and a path no declared scope covers.\<close>

definition most_specific :: "dtask list \<Rightarrow> string \<Rightarrow> string \<Rightarrow> bool" where
  "most_specific tasks path tid \<longleftrightarrow> (\<exists>t \<in> set tasks. d_id t = tid \<and> (\<exists>c. longest_cover path (d_scope_include t) = Some c \<and>
     (\<forall>u \<in> set tasks. \<forall>c'. longest_cover path (d_scope_include u) = Some c' \<longrightarrow> length c' \<le> length c)))"

definition no_owner :: "dtask list \<Rightarrow> string \<Rightarrow> bool" where
  "no_owner tasks path \<longleftrightarrow> (\<forall>t \<in> set tasks. \<not> covers path t)"

lemma owner_rule:
  assumes "[] \<notin> set (g_ids tasks)"
  shows "owner_of_path tasks path = [] \<longleftrightarrow> no_owner tasks path"
    and "owner_of_path tasks path \<noteq> [] \<Longrightarrow> most_specific tasks path (owner_of_path tasks path)"
proof -
  have ids: "t \<in> set tasks \<Longrightarrow> d_id t \<noteq> []" for t using assms by (force simp: g_ids_def)
  note b = owner_best [of path tasks, unfolded best_owner_def]
  show "owner_of_path tasks path = [] \<longleftrightarrow> no_owner tasks path"
    using b ids by (auto simp: owner_of_path_def no_owner_def covers_cover split: if_splits)
  show "most_specific tasks path (owner_of_path tasks path)" if "owner_of_path tasks path \<noteq> []"
  proof -
    let ?best = "fold (better_owner path) tasks ([], -1)"
    from that b have "\<not> snd ?best < 0" by (auto simp: owner_of_path_def)
    with b obtain t c where "t \<in> set tasks" "d_id t = fst ?best" "longest_cover path (d_scope_include t) = Some c" "int (length c) = snd ?best"
      and "\<forall>u \<in> set tasks. \<forall>c. longest_cover path (d_scope_include u) = Some c \<longrightarrow> int (length c) \<le> snd ?best" by auto
    then show ?thesis unfolding most_specific_def owner_of_path_def by (metis of_nat_le_iff)
  qed
qed

text \<open>A path belongs to a task that declares it: over tasks with ids, a path has no owner exactly when no
  task's declared scope covers it (a task that declares none owns nothing), and otherwise its owner is one
  whose scope does.\<close>

theorem owner_declares_path:
  assumes "[] \<notin> set (g_ids tasks)"
  shows "if owner_of_path tasks path = [] then filter (covers path) tasks = []
    else filter (\<lambda>t. d_id t = owner_of_path tasks path \<and> covers path t) tasks \<noteq> []"
  using owner_rule [OF assms, of path] by (auto simp: no_owner_def most_specific_def covers_cover filter_empty_conv)

section \<open>Each finding in its place\<close>





lemma attributed_simps [simp]:
  "at_finding (attributed fid kind detail ob) = fid" "at_kind (attributed fid kind detail ob) = kind"
  "at_task (attributed fid kind detail ob) = fst ob" "at_basis (attributed fid kind detail ob) = snd ob"
  "owned (attributed fid kind detail ob) \<longleftrightarrow> fst ob \<noteq> []"
  by (simp_all add: attributed_def owned_def)






section \<open>Nothing is lost\<close>








definition routed_review :: jobj where
  "routed_review = [(''machine'', JObj [(''status'', JStr ''generated''),
     (''reviews'', JObj [(''findings'', JArr [
        JObj [(''id'', JStr ''F-001''), (''severity'', JStr ''low''), (''code_anchors'', JArr [JObj [(''path'', JStr ''src/a.py'')]])],
        JObj [(''id'', JStr ''F-002''), (''severity'', JStr ''high''), (''code_anchors'', JArr [JObj [(''path'', JStr ''doc/b.md'')]])]])]),
     (''claims'', JArr [JObj [(''claim_id'', JStr ''C-001''), (''verdict'', JStr ''diverged'')]])])]"

definition owner_tasks :: "dtask list" where
  "owner_tasks = [(default_task ''T-001'' ''a'' ''parallel'')\<lparr>d_scope_include := [''src''], d_claim_ids := [''C-001'']\<rparr>]"


lemma route_example: "map fst (rt_code (route owner_tasks (Some routed_review) None)) = [''T-001''] \<and>
    map at_finding (rt_judgement (route owner_tasks (Some routed_review) None)) = [''C-001''] \<and>
    map at_finding (rt_unowned (route owner_tasks (Some routed_review) None)) = [''F-002'']"
  by code_simp

theorem owner_declares_path_witness:
  "owner_of_path owner_tasks ''src/a.py'' = ''T-001'' \<and>
   filter (\<lambda>t. d_id t = owner_of_path owner_tasks ''src/a.py'' \<and> covers ''src/a.py'' t) owner_tasks \<noteq> []"
proof -
  have "owner_of_path owner_tasks ''src/a.py'' = ''T-001''" "[] \<notin> set (g_ids owner_tasks)" by (code_simp, code_simp)
  with owner_declares_path [of owner_tasks "''src/a.py''"] show ?thesis by simp
qed

section \<open>Which scope is the most specific\<close>

text \<open>Which of several is decided by the length of the pattern as written, a trailing slash counted, where the
  rule it refers to compares patterns without: of two tasks that declare the same directory the one that
  wrote the slash wins, whatever the plan order.\<close>

lemma slash_decides:
  "owner_of_path [(default_task ''T-001'' ''a'' ''parallel'')\<lparr>d_scope_include := [''src'']\<rparr>,
     (default_task ''T-002'' ''b'' ''parallel'')\<lparr>d_scope_include := [''src/'']\<rparr>] ''src/a.py'' = ''T-002'' \<and>
   longest_cover ''src/a.py'' [''src'', ''src/''] = Some ''src''"
  by code_simp

end
