(* ===== verification/HumanReview.thy ===== *)
theory HumanReview
  imports Repair
begin

text \<open>
  \<^verbatim>\<open>human_review.py\<close>: the human half of the review as a decision procedure. What must be answered before it can be
  frozen, what the answers may hold, and what is left to accept. Each \<^verbatim>\<open>record_*\<close> returns the new human
  half; a refusal is a value.
\<close>

section \<open>Reading the two halves\<close>

definition ladder_risk :: "jobj \<Rightarrow> string" where
  "ladder_risk m = (case jget m ''risk'' of JStr r \<Rightarrow> if r \<in> set risk_order then r else ''low'' | _ \<Rightarrow> ''low'')"

definition machine_list :: "jobj \<Rightarrow> string \<Rightarrow> jobj list" where
  "machine_list review k = objs_in (as_arr (jget (rw_machine review) k))"

definition human_list :: "jobj \<Rightarrow> string \<Rightarrow> jobj list" where
  "human_list human k = objs_in (as_arr (jget human k))"

definition answered_card_ids :: "jobj \<Rightarrow> string list" where
  "answered_card_ids human = map (\<lambda>d. str_get d ''card_id'' ''None'') (human_list human ''decisions'')"

definition unanswered_decisions :: "jobj \<Rightarrow> jobj \<Rightarrow> string \<Rightarrow> string list" where
  "unanswered_decisions review human floor =
     map (\<lambda>c. str_get c ''id'' ''None'')
       (filter (\<lambda>c. risk_at_least (ladder_risk c) floor = Some True \<and> str_get c ''id'' ''None'' \<notin> set (answered_card_ids human))
         (machine_list review ''decision_cards''))"

definition stage_settled :: "jobj \<Rightarrow> jobj \<Rightarrow> string \<Rightarrow> bool option" where
  "stage_settled review human stage =
     (if stage = ''decision'' then Some (unanswered_decisions review human ''high'' = [])
      else if stage = ''accept'' then Some (str_get human ''status'' ''not_started'' = ''frozen'')
      else None)"

section \<open>Expertise\<close>

definition remediating_actions :: "string list" where
  "remediating_actions = [''request_expert'', ''run_experiment'', ''reduce_scope'', ''revise_requirement'', ''revise_design'',
     ''revise_implementation'']"

definition required_domains :: "jobj \<Rightarrow> string list" where
  "required_domains c = map py_str (as_arr (jget c ''requires_domains''))"

definition expert_domains :: "jobj \<Rightarrow> string list" where
  "expert_domains review = concat (map required_domains
     (filter (\<lambda>c. risk_at_least (ladder_risk c) ''high'' = Some True) (machine_list review ''decision_cards'')))"

definition declared_levels :: "jobj \<Rightarrow> (string \<times> string) list" where
  "declared_levels human = dict_of (map (\<lambda>e. (str_get e ''domain'' ''None'', str_get e ''level'' ''None'')) (human_list human ''expertise''))"

definition cards_requiring :: "jobj \<Rightarrow> string \<Rightarrow> string list" where
  "cards_requiring review domain =
     map (\<lambda>c. str_get c ''id'' ''None'') (filter (\<lambda>c. domain \<in> set (required_domains c)) (machine_list review ''decision_cards''))"

definition domain_remediated :: "jobj \<Rightarrow> jobj \<Rightarrow> string \<Rightarrow> bool" where
  "domain_remediated review human domain \<longleftrightarrow>
     list_ex (\<lambda>r. str_get r ''domain'' ''None'' = domain) (human_list human ''requested_experts'') \<or>
     list_ex (\<lambda>d. str_get d ''action'' ''None'' \<in> set remediating_actions \<and>
       str_get d ''subject_id'' ''None'' \<in> set (cards_requiring review domain)) (human_list human ''dispositions'')"

definition expertise_gaps :: "jobj \<Rightarrow> jobj \<Rightarrow> (string \<times> string) list" where
  "expertise_gaps review human =
     map (\<lambda>d. (d, or_else (declared_levels human) d ''undeclared''))
       (filter (\<lambda>d. or_else (declared_levels human) d ''undeclared'' \<noteq> ''familiar'' \<and> \<not> domain_remediated review human d)
         (sorted_set (expert_domains review)))"

section \<open>What keeps the review open\<close>

definition overruled_ids :: "jobj \<Rightarrow> string list" where
  "overruled_ids human = map (\<lambda>d. str_get d ''subject_id'' ''None'')
     (filter (\<lambda>d. prefix ''LD-'' (str_get d ''subject_id'' '''') \<and> jget d ''action'' = JStr ''revise_implementation'')
       (human_list human ''dispositions''))"

datatype blocker =
    NotGenerated
  | MachineBlock block_reason
  | Undecided "string list"
  | Unrepaired "string list"
  | ExpertNeeded "(string \<times> string) list"

text \<open>The effective risk of a review is always on the ladder, so its reasons are always defined.\<close>

definition machine_blocks :: "jobj \<Rightarrow> jobj \<Rightarrow> block_reason list" where
  "machine_blocks review human =
     (case blocking_reasons review (rw_effective_risk review) (Some human) of Some rs \<Rightarrow> rs | None \<Rightarrow> [])"

definition completion_blockers :: "jobj option \<Rightarrow> jobj option \<Rightarrow> blocker list" where
  "completion_blockers review human =
     (case review of
        None \<Rightarrow> [NotGenerated]
      | Some r \<Rightarrow>
          if \<not> is_generated r then [NotGenerated]
          else
            (let h = (case human of Some h \<Rightarrow> h | None \<Rightarrow> rw_human r);
                 undecided = unanswered_decisions r h ''high''; overruled = sorted_set (overruled_ids h); gaps = expertise_gaps r h
             in map MachineBlock (machine_blocks r h) @
                (if undecided \<noteq> [] then [Undecided undecided] else []) @
                (if overruled \<noteq> [] then [Unrepaired overruled] else []) @
                (if gaps \<noteq> [] then [ExpertNeeded gaps] else [])))"

definition can_freeze :: "jobj option \<Rightarrow> jobj option \<Rightarrow> bool" where
  "can_freeze review human \<longleftrightarrow> completion_blockers review human = []"

section \<open>What is left to accept\<close>

definition cut :: "nat \<Rightarrow> string \<Rightarrow> string" where
  "cut n s = concat (take n (chars_of s))"

definition claim_residue :: "jobj list \<Rightarrow> string list \<times> string list" where
  "claim_residue results =
     (let verdict = (\<lambda>r. str_get r ''verdict'' ''unknown'');
          basis = (\<lambda>r. case jget r ''semantic_support'' of JObj s \<Rightarrow> str_get s ''assessment_basis'' '''' | _ \<Rightarrow> [])
      in (map (\<lambda>r. str_get r ''claim_id'' '''' @ '': '' @ verdict r) (filter (\<lambda>r. verdict r \<noteq> ''aligned'') results),
          map (\<lambda>r. str_get r ''claim_id'' '''' @ '': aligned on an AI'' @ quote @ ''s reading alone'')
            (filter (\<lambda>r. verdict r = ''aligned'' \<and> basis r \<in> set [[], ''machine_assessed'']) results)))"

definition residue :: "jobj \<Rightarrow> jobj option \<Rightarrow> (string \<times> string list) list" where
  "residue review human =
     (let h = (case human of Some h \<Rightarrow> h | None \<Rightarrow> rw_human review);
          settled = answered_card_ids h; overruling = overruled_ids h
      in [(''unsettled'', fst (claim_residue (claim_results review))),
          (''undecided'', map (\<lambda>c. str_get c ''id'' ''None'' @ '': '' @ cut 200 (str_get c ''question'' ''''))
             (filter (\<lambda>c. str_get c ''id'' ''None'' \<notin> set settled) (machine_list review ''decision_cards''))),
          (''decided_alone'', map (\<lambda>d. str_get d ''id'' ''None'' @ '' '' @ str_get d ''task'' '''' @ '': '' @ cut 200 (str_get d ''statement'' '''') @
               '' (overruling it redoes: '' @ cut 200 (str_get d ''undo'' '''') @ '')'')
             (filter (\<lambda>d. str_get d ''id'' ''None'' \<notin> set overruling) (machine_list review ''local_decisions''))),
          (''observed'', map (\<lambda>ob. str_get ob ''id'' ''None'' @ '' ('' @ str_get ob ''seen_in'' '''' @ ''): '' @ cut 200 (str_get ob ''statement'' ''''))
             (machine_list review ''observations'')),
          (''inferred'', snd (claim_residue (claim_results review))),
          (''questions'', map (\<lambda>f. str_get f ''task_id'' '''' @ '': '' @ cut 200 (str_get f ''statement'' ''''))
             (filter (\<lambda>f. jget f ''severity'' = JStr ''question'') (machine_list review ''residual_findings''))),
          (''not_read'',
             (if coverage_sufficient review then [] else [''the coverage manifest is insufficient: parts of the change could not be analysed'']) @
             map (\<lambda>g. str_get g ''id'' '''' @ '': '' @ str_get g ''kind'' ''gap'') (machine_list review ''gaps'') @
             (if extraction_read review then [] else [''nobody read the code blind for what it does (`reviews.yaml` `acceptance.actual_extraction`)'']) @
             (if comparison_read review then [] else [''nobody compared the change with the mandate'' @ quote @ ''s claims (`reviews.yaml` `acceptance.comparison`)'']) @
             (if reviews_read review \<noteq> [] then [] else [''no review read the whole change (`reviews.yaml` `acceptance.reviews`)'']))])"

section \<open>Recording\<close>

datatype human_error =
    NoDigestPresented
  | MachineChanged string string
  | UndigestableMachine digest_error
  | UnknownCard string
  | NotAnOption string string
  | BadConfidence string
  | BadLevel string
  | BadAction string
  | NoSubjects
  | NotAMapping
  | Blocked "blocker list"

definition assert_machine_current :: "(string \<Rightarrow> string) \<Rightarrow> jobj \<Rightarrow> string \<Rightarrow> human_error + unit" where
  "assert_machine_current sha review expected =
     (case machine_digest sha review of
        Inl err \<Rightarrow> Inl (UndigestableMachine err)
      | Inr current \<Rightarrow>
          if expected = [] then Inl NoDigestPresented
          else if current \<noteq> expected then Inl (MachineChanged expected current) else Inr ())"

definition list_keys :: "string list" where
  "list_keys = [''expertise'', ''decisions'', ''dispositions'', ''requested_experts'']"

definition human_base :: "jobj \<Rightarrow> jobj" where
  "human_base human = fold (\<lambda>k h. jset k (JArr (as_arr (jget h k))) h) list_keys human"

definition in_progress :: "jobj \<Rightarrow> jobj" where
  "in_progress h = jset ''status'' (JStr ''in_progress'') h"

definition append_to :: "string \<Rightarrow> jobj \<Rightarrow> jobj \<Rightarrow> jobj" where
  "append_to k e h = jset k (JArr (as_arr (jget h k) @ [JObj e])) h"

text \<open>Dropping the entries of a list whose field has a value; an entry that is no mapping has no fields.\<close>

definition drop_where :: "string \<Rightarrow> string \<Rightarrow> string \<Rightarrow> jobj \<Rightarrow> human_error + jobj" where
  "drop_where k field v h =
     (let xs = as_arr (jget h k)
      in if list_ex (\<lambda>x. \<not> is_obj x) xs then Inl NotAMapping
         else Inr (jset k (JArr (filter (\<lambda>x. str_get (as_obj x) field ''None'' \<noteq> v) xs)) h))"

definition confidence_values :: "string list" where
  "confidence_values = [''low'', ''medium'', ''high'']"

definition expertise_level_values :: "string list" where
  "expertise_level_values = [''familiar'', ''partial'', ''unfamiliar'']"

definition disposition_values :: "string list" where
  "disposition_values = [''adopt_scope'', ''acknowledge_corrected_model'', ''revise_requirement'', ''revise_design'',
     ''revise_implementation'', ''request_expert'', ''run_experiment'', ''reduce_scope'', ''dispute_finding'']"

definition with_note :: "string \<Rightarrow> string \<Rightarrow> jobj" where
  "with_note k note = (if blank note then [] else [(k, JStr note)])"

definition record_decision :: "jobj \<Rightarrow> jobj \<Rightarrow> string \<Rightarrow> string \<Rightarrow> string \<Rightarrow> string \<Rightarrow> human_error + jobj" where
  "record_decision review human cid choice confidence reason =
     (case find (\<lambda>c. str_get c ''id'' ''None'' = cid) (machine_list review ''decision_cards'') of
        None \<Rightarrow> Inl (UnknownCard cid)
      | Some c \<Rightarrow>
          if choice \<notin> set (map (\<lambda>x. str_get x ''id'' ''None'') (objs_in (as_arr (jget c ''options'')))) then Inl (NotAnOption choice cid)
          else if confidence \<notin> set confidence_values then Inl (BadConfidence confidence)
          else bind_err (drop_where ''decisions'' ''card_id'' cid (human_base human)) (\<lambda>h.
            Inr (in_progress (append_to ''decisions''
              ([(''card_id'', JStr cid), (''choice'', JStr choice), (''confidence'', JStr confidence)] @ with_note ''reason'' reason) h))))"

definition record_expertise :: "jobj \<Rightarrow> string \<Rightarrow> string \<Rightarrow> human_error + jobj" where
  "record_expertise human domain level =
     (if level \<notin> set expertise_level_values then Inl (BadLevel level)
      else bind_err (drop_where ''expertise'' ''domain'' domain (human_base human)) (\<lambda>h.
        Inr (in_progress (append_to ''expertise'' [(''domain'', JStr domain), (''level'', JStr level)] h))))"

definition record_disposition :: "jobj \<Rightarrow> string \<Rightarrow> string \<Rightarrow> string \<Rightarrow> human_error + jobj" where
  "record_disposition human subject action note =
     (if action \<notin> set disposition_values then Inl (BadAction action)
      else Inr (in_progress (append_to ''dispositions''
        ([(''subject_id'', JStr subject), (''action'', JStr action)] @ with_note ''note'' note) (human_base human))))"

definition request_expert :: "jobj \<Rightarrow> string \<Rightarrow> string list \<Rightarrow> string \<Rightarrow> human_error + jobj" where
  "request_expert human domain subject_ids reason =
     (if subject_ids = [] then Inl NoSubjects
      else Inr (in_progress (append_to ''requested_experts''
        ([(''domain'', JStr domain), (''subject_ids'', JArr (map JStr subject_ids))] @ with_note ''reason'' reason) (human_base human))))"

definition freeze :: "jobj \<Rightarrow> jobj \<Rightarrow> human_error + jobj" where
  "freeze review human =
     (let bs = completion_blockers (Some review) (Some human)
      in if bs \<noteq> [] then Inl (Blocked bs) else Inr (jset ''status'' (JStr ''frozen'') (human_base human)))"

section \<open>What a frozen review says\<close>

lemma machine_blocks_some: "\<exists>rs. blocking_reasons review (rw_effective_risk review) human = Some rs"
proof -
  have "rw_effective_risk review \<in> set risk_order" by (simp add: rw_effective_risk_def risk_order_def Let_def)
  then obtain i where "index_of risk_order (rw_effective_risk review) = Some i" by (metis index_of_None option.exhaust)
  then have "risk_at_least (rw_effective_risk review) (rw_effective_risk review) = Some True" by (simp add: risk_at_least_iff)
  then show ?thesis by (rule blocking_reasons_Some)
qed

lemma clean_machine:
  assumes "machine_blocks review human = []"
  shows "standing_findings review human = [] \<and> blocking_of (gaps_of review) = [] \<and> blocking_of (extra_behaviors review) = [] \<and>
    coverage_blocks review (rw_effective_risk review) = Some [] \<and> independence_observed review (rw_effective_risk review) = Some []"
proof -
  obtain rs where "blocking_reasons review (rw_effective_risk review) (Some human) = Some rs" using machine_blocks_some by blast
  with assms show ?thesis
    by (auto simp: machine_blocks_def blocking_reasons_def Let_def split: option.splits)
qed

lemma sorted_set_empty: "sorted_set xs = [] \<longleftrightarrow> xs = []"
  by (metis set_empty set_sorted_set)

lemma no_blockers:
  "completion_blockers (Some r) (Some h) = [] \<longleftrightarrow>
     is_generated r \<and> machine_blocks r h = [] \<and> unanswered_decisions r h ''high'' = [] \<and> overruled_ids h = [] \<and> expertise_gaps r h = []"
  by (auto simp: completion_blockers_def Let_def sorted_set_empty)

text \<open>C35: A frozen review holds every judgement it needs: when freezing goes through, the review is generated, every
  card of high or critical risk has a recorded answer, every blocking finding is disputed, no gap and no extra behaviour
  blocks, what was read covers the change as far as its effective risk asks (at high or above a manifest that says it is
  sufficient, at critical not one composed of parts), at critical risk the two models observed as extractor and comparator
  are not the same one, no overruled decision waits for its repair, and every domain such a card requires is one the
  reviewer declared familiar or has been given an expert or a remedy.\<close>

theorem freeze_needs_judgement:
  assumes "freeze review human = Inr frozen"
  shows "is_generated review \<and> unanswered_decisions review human ''high'' = [] \<and>
    filter (\<lambda>f. str_get f ''id'' '''' \<notin> set (disputed_subjects human)) (blocking_findings review) = [] \<and>
    blocking_of (gaps_of review) = [] \<and> blocking_of (extra_behaviors review) = [] \<and> overruled_ids human = [] \<and>
    coverage_blocks review (rw_effective_risk review) = Some [] \<and> independence_observed review (rw_effective_risk review) = Some [] \<and>
    filter (\<lambda>d. or_else (declared_levels human) d ''undeclared'' \<noteq> ''familiar'' \<and> \<not> domain_remediated review human d)
      (expert_domains review) = [] \<and> jget frozen ''status'' = JStr ''frozen''"
proof -
  from assms have b: "completion_blockers (Some review) (Some human) = []" and f: "frozen = jset ''status'' (JStr ''frozen'') (human_base human)"
    by (auto simp: freeze_def Let_def split: if_splits)
  from b have parts: "is_generated review" "machine_blocks review human = []" "unanswered_decisions review human ''high'' = []"
    "overruled_ids human = []" "expertise_gaps review human = []" by (simp_all add: no_blockers)
  from parts(5) have "filter (\<lambda>d. or_else (declared_levels human) d ''undeclared'' \<noteq> ''familiar'' \<and> \<not> domain_remediated review human d)
      (expert_domains review) = []"
    by (simp add: expertise_gaps_def filter_empty_conv)
  with parts clean_machine [OF parts(2)] f show ?thesis by (simp add: standing_findings_def jget_def)
qed

definition settled_review :: jobj where
  "settled_review = [(''machine'', JObj [(''status'', JStr ''generated''), (''effective_risk'', JStr ''medium''),
     (''decision_cards'', JArr [JObj [(''id'', JStr ''DC-001''), (''risk'', JStr ''high''),
        (''options'', JArr [JObj [(''id'', JStr ''A'')], JObj [(''id'', JStr ''B'')]])],
        JObj [(''id'', JStr ''DC-002''), (''risk'', JStr ''high''), (''options'', JArr [JObj [(''id'', JStr ''A'')]])]])])]"

definition one_answer :: jobj where
  "one_answer = [(''decisions'', JArr [JObj [(''card_id'', JStr ''DC-002''), (''choice'', JStr ''A'')]])]"

definition both_answers :: jobj where
  "both_answers = [(''decisions'', JArr [JObj [(''card_id'', JStr ''DC-002''), (''choice'', JStr ''A'')], JObj [(''card_id'', JStr ''DC-001''), (''choice'', JStr ''B'')]])]"

theorem freeze_needs_judgement_witness:
  "\<exists>frozen. freeze settled_review both_answers = Inr frozen \<and> jget frozen ''status'' = JStr ''frozen''"
proof -
  have "\<not> isl (freeze settled_review both_answers)" by code_simp
  then obtain frozen where f: "freeze settled_review both_answers = Inr frozen" by (cases "freeze settled_review both_answers") auto
  with freeze_needs_judgement [OF f] show ?thesis by simp
qed

section \<open>What an answer changes\<close>

lemma human_base_other: "k \<notin> set list_keys \<Longrightarrow> jget (human_base h) k = jget h k"
  by (simp add: human_base_def list_keys_def jget_def)

lemma human_base_arr: "k \<in> set list_keys \<Longrightarrow> jget (human_base h) k = JArr (as_arr (jget h k))"
  by (auto simp: human_base_def list_keys_def jget_def)

lemma human_base_list [simp]: "human_list (human_base h) k = human_list h k"
  by (cases "k \<in> set list_keys") (simp_all add: human_list_def human_base_arr human_base_other)

lemma human_list_jset: "human_list (jset k (JArr xs) h) k' = (if k' = k then objs_in xs else human_list h k')"
  by (simp add: human_list_def jget_def)

lemma human_list_status [simp]: "k \<noteq> ''status'' \<Longrightarrow> human_list (in_progress h) k = human_list h k"
  by (simp add: human_list_def in_progress_def jget_def)

lemma objs_in_append [simp]: "objs_in (xs @ ys) = objs_in xs @ objs_in ys"
  by (induction xs rule: objs_in.induct) auto

lemma human_list_append: "human_list (append_to k e h) k' = human_list h k' @ (if k' = k then [e] else [])"
  by (simp add: append_to_def human_list_def jget_def)

lemma objs_in_filter: "objs_in (filter (\<lambda>x. P (as_obj x)) xs) = filter P (objs_in xs)"
  if "list_all is_obj xs"
  using that by (induction xs rule: objs_in.induct) auto

lemma drop_where_lists:
  assumes "drop_where k field v h = Inr h'"
  shows "human_list h' k' = (if k' = k then filter (\<lambda>e. str_get e field ''None'' \<noteq> v) (human_list h k) else human_list h k')"
proof -
  from assms have a: "list_all is_obj (as_arr (jget h k))"
    and h': "h' = jset k (JArr (filter (\<lambda>x. str_get (as_obj x) field ''None'' \<noteq> v) (as_arr (jget h k)))) h"
    by (auto simp: drop_where_def Let_def list_ex_iff list_all_iff split: if_splits)
  show ?thesis unfolding h' human_list_jset using objs_in_filter [OF a, of "\<lambda>e. str_get e field ''None'' \<noteq> v"]
    by (simp add: human_list_def)
qed

lemma record_decision_lists:
  assumes "record_decision review human cid choice confidence reason = Inr h"
  shows "\<exists>e. str_get e ''card_id'' ''None'' = cid \<and> str_get e ''choice'' ''None'' = choice \<and>
      human_list h ''decisions'' = filter (\<lambda>d. str_get d ''card_id'' ''None'' \<noteq> cid) (human_list human ''decisions'') @ [e]"
    and "k \<noteq> ''decisions'' \<Longrightarrow> k \<noteq> ''status'' \<Longrightarrow> human_list h k = human_list human k"
proof -
  let ?e = "[(''card_id'', JStr cid), (''choice'', JStr choice), (''confidence'', JStr confidence)] @ with_note ''reason'' reason"
  from assms obtain h1 where d: "drop_where ''decisions'' ''card_id'' cid (human_base human) = Inr h1"
    and h: "h = in_progress (append_to ''decisions'' ?e h1)"
    by (auto simp: record_decision_def split: option.splits if_splits)
  note lists = drop_where_lists [OF d]
  have e: "str_get ?e ''card_id'' ''None'' = cid" "str_get ?e ''choice'' ''None'' = choice"
    by (simp_all add: str_get_def jget_or_def)
  show "\<exists>e. str_get e ''card_id'' ''None'' = cid \<and> str_get e ''choice'' ''None'' = choice \<and>
      human_list h ''decisions'' = filter (\<lambda>d. str_get d ''card_id'' ''None'' \<noteq> cid) (human_list human ''decisions'') @ [e]"
    using e lists [of "''decisions''"] unfolding h by (intro exI [of _ ?e]) (simp add: human_list_append)
  show "human_list h k = human_list human k" if "k \<noteq> ''decisions''" "k \<noteq> ''status''"
    using that lists [of k] unfolding h by (simp add: human_list_append)
qed

text \<open>An answer settles its card and nothing else: recording a choice takes exactly that card off the
  unanswered list at any floor, the card then has exactly one recorded answer, which is the choice made, the
  answers to the other cards and the dispositions, expertise and expert requests are as they were, and an
  answered card can be answered again.\<close>

theorem answer_settles_card:
  assumes "record_decision review human cid choice confidence reason = Inr h"
  shows "unanswered_decisions review h floor = filter (\<lambda>c. c \<noteq> cid) (unanswered_decisions review human floor) \<and>
    map (\<lambda>d. str_get d ''choice'' ''None'') (filter (\<lambda>d. str_get d ''card_id'' ''None'' = cid) (human_list h ''decisions'')) = [choice] \<and>
    filter (\<lambda>d. str_get d ''card_id'' ''None'' \<noteq> cid) (human_list h ''decisions'') =
      filter (\<lambda>d. str_get d ''card_id'' ''None'' \<noteq> cid) (human_list human ''decisions'') \<and>
    map (human_list h) [''dispositions'', ''expertise'', ''requested_experts''] =
      map (human_list human) [''dispositions'', ''expertise'', ''requested_experts'']"
proof -
  note other = record_decision_lists(2) [OF assms]
  obtain e where e: "str_get e ''card_id'' ''None'' = cid" "str_get e ''choice'' ''None'' = choice"
    "human_list h ''decisions'' = filter (\<lambda>d. str_get d ''card_id'' ''None'' \<noteq> cid) (human_list human ''decisions'') @ [e]"
    using record_decision_lists(1) [OF assms] by blast
  have "set (answered_card_ids h) = insert cid (set (answered_card_ids human))"
    using e by (auto simp: answered_card_ids_def)
  then have "unanswered_decisions review h floor = filter (\<lambda>c. c \<noteq> cid) (unanswered_decisions review human floor)"
    by (simp add: unanswered_decisions_def filter_map comp_def conj_ac cong: filter_cong)
  with e other show ?thesis by (simp add: filter_False)
qed

theorem answer_settles_card_witness:
  "\<exists>h. record_decision settled_review one_answer ''DC-001'' ''B'' ''high'' '''' = Inr h \<and>
     unanswered_decisions settled_review one_answer ''high'' = [''DC-001''] \<and> unanswered_decisions settled_review h ''high'' = []"
proof -
  have "\<not> isl (record_decision settled_review one_answer ''DC-001'' ''B'' ''high'' '''')" by code_simp
  then obtain h where h: "record_decision settled_review one_answer ''DC-001'' ''B'' ''high'' '''' = Inr h"
    by (cases "record_decision settled_review one_answer ''DC-001'' ''B'' ''high'' ''''") auto
  have "unanswered_decisions settled_review one_answer ''high'' = [''DC-001'']" by code_simp
  with answer_settles_card [OF h, of "''high''"] h show ?thesis by simp
qed

end
