(* ===== verification/Checkout.thy ===== *)
theory Checkout
  imports Store CrossRef
begin

text \<open>
  What the program reads of a checkout: a file's text with every way reading it can fail, the documents
  under the store's checks (\<^verbatim>\<open>Store.read_plan\<close> and its siblings), and the log as \<^verbatim>\<open>event_chain.scan\<close> finds it.
  Resolving a path (\<^verbatim>\<open>Repo.rel\<close> follows symbolic links), git's answers and the control plane's are parameters.
\<close>

section \<open>Files\<close>

text \<open>\<^verbatim>\<open>read_text(encoding="utf-8")\<close>: a text that is not UTF-8 raises a \<^verbatim>\<open>UnicodeDecodeError\<close>, which is a
  \<^verbatim>\<open>ValueError\<close> and not an \<^verbatim>\<open>OSError\<close>.\<close>

datatype file_text = Missing | Denied | Undecodable | Contents string

datatype raised =
    NotUtf8 string
  | CannotRead string
  | DigestFailed digest_error
  | NotIterable string
  | ReviewsRecord nat
  | ParseFailed strict_error

record checkout =
  ck_rel :: "string \<Rightarrow> string option"
  ck_read :: "string \<Rightarrow> file_text"
  ck_git_head_state :: "string option"
  ck_git_status :: "string option"
  ck_granted :: bool

definition state_path :: string where
  "state_path = ''.rein/state.yaml''"

definition plan_path :: string where
  "plan_path = ''.rein/plan.yaml''"

definition config_path :: string where
  "config_path = ''.rein/config.yaml''"

definition reviews_path :: string where
  "reviews_path = ''.rein/reviews.yaml''"

definition review_path :: string where
  "review_path = ''.rein/review.yaml''"

definition events_path :: string where
  "events_path = ''.rein/events.ndjson''"

section \<open>Documents\<close>

text \<open>A document under its checks: \<open>Inl\<close> is a raise of the reading itself, \<open>Inr None\<close> an absent file, and a
  document that does not parse (\<^verbatim>\<open>StrictParseError\<close>) or does not validate (\<^verbatim>\<open>DocumentError\<close>) says which.\<close>

datatype doc = Unparsed strict_error | Rejected | Valid jobj

definition read_checked :: "env \<Rightarrow> checkout \<Rightarrow> string \<Rightarrow> (jobj \<Rightarrow> bool) \<Rightarrow> raised + doc option" where
  "read_checked en ck path ok =
     (case ck_read ck path of
        Missing \<Rightarrow> Inr None
      | Denied \<Rightarrow> Inl (CannotRead path)
      | Undecodable \<Rightarrow> Inl (NotUtf8 path)
      | Contents t \<Rightarrow> (case en_load_doc en t of
          Inl e \<Rightarrow> Inr (Some (Unparsed e))
        | Inr m \<Rightarrow> Inr (Some (if ok m then Valid m else Rejected))))"

definition plan_ok :: "env \<Rightarrow> jobj \<Rightarrow> bool" where
  "plan_ok en raw \<longleftrightarrow> en_schema en ''plan'' raw \<and> cross_reference_errors raw = []"

definition read_plan :: "env \<Rightarrow> checkout \<Rightarrow> raised + doc option" where
  "read_plan en ck = read_checked en ck plan_path (plan_ok en)"

definition read_state :: "env \<Rightarrow> checkout \<Rightarrow> raised + doc option" where
  "read_state en ck = read_checked en ck state_path (en_schema en ''state'')"

definition read_config :: "env \<Rightarrow> checkout \<Rightarrow> raised + doc option" where
  "read_config en ck = read_checked en ck config_path (\<lambda>raw. en_schema en ''config'' raw \<and> config_problems raw = [])"

definition read_review :: "env \<Rightarrow> checkout \<Rightarrow> raised + doc option" where
  "read_review en ck = read_checked en ck review_path (en_schema en ''review'')"

definition read_reviews :: "env \<Rightarrow> checkout \<Rightarrow> raised + doc option" where
  "read_reviews en ck = read_checked en ck reviews_path (\<lambda>raw. en_schema en ''reviews'' raw \<and> rv_problems raw = [])"

section \<open>The log\<close>

text \<open>\<^verbatim>\<open>event_chain.scan\<close>: never raises on damage, an absent log is an empty one.\<close>

definition scan_log :: "env \<Rightarrow> checkout \<Rightarrow> raised + event list \<times> defect list" where
  "scan_log en ck =
     (case ck_read ck events_path of
        Missing \<Rightarrow> Inr ([], [])
      | Denied \<Rightarrow> Inr ([], [(0, LogUnreadable)])
      | Undecodable \<Rightarrow> Inl (NotUtf8 events_path)
      | Contents t \<Rightarrow> map_err DigestFailed (scan_text (en_sha en) (en_loads en) (en_event_ok en) t))"

end
