(* ===== verification/Guard.thy ===== *)
theory Guard
  imports Checkout
begin

text \<open>
  \<^verbatim>\<open>gate_guard.py\<close>: may this path be written now? The rules over one path (\<open>evaluate\<close>, at the editor hook and
  at commit), the scope of an approved mandate (\<open>outside_the_mandate\<close>), what a frozen document and an opened
  gate must be backed by at commit, and the reading of a host's hook payload. A refusal is a constructor of
  \<open>denial\<close>; \<open>Inl\<close> is an exception the code does not catch.
\<close>

section \<open>The rules' tables\<close>

definition machine_written :: "string list" where
  "machine_written = [''.rein/state.yaml'', ''.rein/review.yaml'', ''.rein/reviews.yaml'', ''.rein/events.ndjson'',
     ''.rein/rein.lock'']"

definition hook_registration :: "string list" where
  "hook_registration = [''.claude/settings.json'', ''.claude/settings.local.json'', ''.codex/hooks.json'',
     ''.codex/config.toml'', ''.github/hooks/'']"

definition frozen_after_mandate :: "string list" where
  "frozen_after_mandate = [''.rein/plan.yaml'', config_path, ''.rein/prompts/'', ''.rein/oci/'']"

definition default_guard_paths :: "string list" where
  "default_guard_paths = [''src/'', ''lib/'', ''app/'', ''backend/'', ''frontend/'', ''scripts/'']"

section \<open>Settings\<close>

datatype unreadable = ConfigDenied | ConfigParse strict_error | GuardNotMapping | TemplateNotBool | PathsNotList

record guard_settings =
  gs_template :: bool
  gs_paths :: "string list"
  gs_unreadable :: "unreadable option"

definition default_settings :: guard_settings where
  "default_settings = \<lparr>gs_template = False, gs_paths = default_guard_paths, gs_unreadable = None\<rparr>"

definition unreadable_settings :: "unreadable \<Rightarrow> guard_settings" where
  "unreadable_settings why = default_settings\<lparr>gs_unreadable := Some why\<rparr>"

definition nonempty_str :: "json \<Rightarrow> bool" where
  "nonempty_str v = (case v of JStr s \<Rightarrow> s \<noteq> [] | _ \<Rightarrow> False)"

definition settings_of :: "jobj \<Rightarrow> guard_settings" where
  "settings_of document =
     (case jget_or document ''guard'' (JObj []) of
        JObj guard \<Rightarrow>
          (case jget_or guard ''template_mode'' (JBool False) of
             JBool template \<Rightarrow>
               (case jget guard ''paths'' of
                  JNull \<Rightarrow> default_settings\<lparr>gs_template := template\<rparr>
                | JArr entries \<Rightarrow>
                    if list_all nonempty_str entries
                    then default_settings\<lparr>gs_template := template,
                           gs_paths := (if entries = [] then default_guard_paths else strs_in entries)\<rparr>
                    else unreadable_settings PathsNotList
                | _ \<Rightarrow> unreadable_settings PathsNotList)
           | _ \<Rightarrow> unreadable_settings TemplateNotBool)
      | _ \<Rightarrow> unreadable_settings GuardNotMapping)"

definition read_settings :: "env \<Rightarrow> checkout \<Rightarrow> raised + guard_settings" where
  "read_settings en ck =
     (case ck_read ck config_path of
        Missing \<Rightarrow> Inr default_settings
      | Denied \<Rightarrow> Inr (unreadable_settings ConfigDenied)
      | Undecodable \<Rightarrow> Inl (NotUtf8 config_path)
      | Contents t \<Rightarrow> (case en_load_doc en t of
          Inl e \<Rightarrow> Inr (unreadable_settings (ConfigParse e))
        | Inr document \<Rightarrow> Inr (settings_of document)))"

definition is_guarded :: "checkout \<Rightarrow> string \<Rightarrow> string list \<Rightarrow> bool" where
  "is_guarded ck file paths \<longleftrightarrow> (case ck_rel ck file of None \<Rightarrow> False | Some rel \<Rightarrow> longest_cover rel paths \<noteq> None)"

text \<open>\<^verbatim>\<open>_read_state\<close>: no schema, and \<open>None\<close> for what cannot be read or parsed.\<close>

definition guard_state :: "env \<Rightarrow> checkout \<Rightarrow> raised + jobj option" where
  "guard_state en ck =
     (case ck_read ck state_path of
        Missing \<Rightarrow> Inr None
      | Denied \<Rightarrow> Inr None
      | Undecodable \<Rightarrow> Inl (NotUtf8 state_path)
      | Contents t \<Rightarrow> Inr (case en_load_doc en t of Inl _ \<Rightarrow> None | Inr m \<Rightarrow> Some m))"

section \<open>The scope of a mandate\<close>

definition adoptions :: "event list \<Rightarrow> string list" where
  "adoptions es = filter (\<lambda>p. p \<noteq> []) (map (\<lambda>e. str_get (ev_detail e) ''path'' '''')
     (filter (\<lambda>e. ev_kind e = ''disposition_recorded'' \<and> jget (ev_detail e) ''action'' = JStr ''adopt_scope'') es))"

definition expansions_in_force :: "env \<Rightarrow> checkout \<Rightarrow> jobj \<Rightarrow> raised + (string \<times> string) list" where
  "expansions_in_force en ck state =
     (let statuses = map (\<lambda>(path, entry). (path, str_get entry ''status'' ''None'')) (scope_expansions state)
      in if ''adopted'' \<notin> snd ` set statuses then Inr statuses
         else bind_err (scan_log en ck) (\<lambda>(es, ds).
           let adopted = (if ds \<noteq> [] then [] else adoptions es)
           in Inr (filter (\<lambda>(path, status). status \<noteq> ''adopted'' \<or> path \<in> set adopted) statuses)))"

datatype outside = Excluded | NotIncluded "string list" | RefusedWidening "string list"

definition outside_the_mandate ::
  "string \<Rightarrow> string list \<Rightarrow> string list \<Rightarrow> string list \<Rightarrow> (string \<times> string) list \<Rightarrow> bool \<Rightarrow> outside option" where
  "outside_the_mandate rel include exclude guarded expansions granted =
     (if longest_cover rel exclude \<noteq> None then Some Excluded
      else if longest_cover rel guarded = None then None
      else if include \<noteq> [] \<and> longest_cover rel include = None then
        (let status = (case map_of expansions rel of Some s \<Rightarrow> s | None \<Rightarrow> [])
         in if status = ''adopted'' then None
            else if status = ''refused'' then Some (RefusedWidening include)
            else if granted then None
            else Some (NotIncluded include))
      else None)"

text \<open>\<^verbatim>\<open>Plan.scope\<close> read off a document nobody validated: iterating a string gives its characters, a mapping its
  keys, and anything else that is not a list raises.\<close>

definition iterated :: "string \<Rightarrow> json \<Rightarrow> raised + string list" where
  "iterated what v = (case v of
      JArr vs \<Rightarrow> Inr (strs_in vs)
    | JStr s \<Rightarrow> Inr (chars_of s)
    | JObj kvs \<Rightarrow> Inr (map fst kvs)
    | _ \<Rightarrow> Inl (NotIterable what))"

definition raw_scope :: "jobj \<Rightarrow> raised + string list \<times> string list" where
  "raw_scope plan =
     (let s = obj_field plan ''scope''
      in bind_err (iterated ''include'' (jget_or s ''include'' (JArr []))) (\<lambda>inc.
         bind_err (iterated ''exclude'' (jget_or s ''exclude'' (JArr []))) (\<lambda>exc. Inr (inc, exc))))"

section \<open>One path\<close>

datatype denial =
    MachineWritten
  | HookRegistered
  | StateUnreadable
  | PlanFrozen
  | ConfigUnreadable unreadable
  | GatesUnreadable
  | NoMandate
  | PlanUnreadable
  | OutsideMandate outside

definition inside_the_mandate ::
  "env \<Rightarrow> checkout \<Rightarrow> string \<Rightarrow> string list \<Rightarrow> jobj \<Rightarrow> bool option \<Rightarrow> raised + denial option" where
  "inside_the_mandate en ck rel guarded state repair =
     (case ck_read ck plan_path of
        Missing \<Rightarrow> Inr (Some PlanUnreadable)
      | Denied \<Rightarrow> Inr (Some PlanUnreadable)
      | Undecodable \<Rightarrow> Inl (NotUtf8 plan_path)
      | Contents t \<Rightarrow> (case en_load_doc en t of
          Inl _ \<Rightarrow> Inr (Some PlanUnreadable)
        | Inr document \<Rightarrow>
            bind_err (raw_scope document) (\<lambda>(inc, exc).
            bind_err (expansions_in_force en ck state) (\<lambda>expansions.
              let why = (\<lambda>granted. outside_the_mandate rel inc exc guarded expansions granted)
              in Inr (case why False of
                   None \<Rightarrow> None
                 | Some reason \<Rightarrow>
                     if why True = None \<and> (case repair of Some r \<Rightarrow> r | None \<Rightarrow> ck_granted ck) then None
                     else Some (OutsideMandate reason))))))"

definition rule_three :: "env \<Rightarrow> checkout \<Rightarrow> string \<Rightarrow> string \<Rightarrow> bool option \<Rightarrow> raised + denial option" where
  "rule_three en ck file rel repair =
     bind_err (read_settings en ck) (\<lambda>settings.
       if gs_unreadable settings \<noteq> None \<and> rel \<noteq> config_path
       then Inr (Some (ConfigUnreadable (the (gs_unreadable settings))))
       else if gs_template settings then Inr None
       else bind_err (guard_state en ck) (\<lambda>state.
         case state of
           Some st \<Rightarrow>
             if gate_status st ''mandate'' = ''approved'' then inside_the_mandate en ck rel (gs_paths settings) st repair
             else if \<not> is_guarded ck file (gs_paths settings) then Inr None
             else Inr (Some NoMandate)
         | None \<Rightarrow> if \<not> is_guarded ck file (gs_paths settings) then Inr None else Inr (Some GatesUnreadable)))"

datatype stage = Edit | Commit

definition evaluate :: "env \<Rightarrow> checkout \<Rightarrow> string \<Rightarrow> stage \<Rightarrow> bool option \<Rightarrow> raised + denial option" where
  "evaluate en ck file stage repair =
     (case ck_rel ck file of
        None \<Rightarrow> Inr None
      | Some rel \<Rightarrow>
          if stage = Commit then rule_three en ck file rel repair
          else if longest_cover rel machine_written \<noteq> None then Inr (Some MachineWritten)
          else if longest_cover rel hook_registration \<noteq> None then Inr (Some HookRegistered)
          else bind_err (guard_state en ck) (\<lambda>state.
            if longest_cover rel frozen_after_mandate \<noteq> None then
              Inr (case state of
                  None \<Rightarrow> Some StateUnreadable
                | Some st \<Rightarrow> if st_plan_status st = ''frozen'' then Some PlanFrozen else None)
            else rule_three en ck file rel repair))"

section \<open>What the mandate authorizes\<close>

text \<open>The rule stated by its cases: nothing excluded, and one of four reasons to let the path through.\<close>

definition covered_by :: "string \<Rightarrow> string list \<Rightarrow> bool" where
  "covered_by path patterns \<longleftrightarrow> list_ex (path_covered path) patterns"

inductive authorized :: "string list \<Rightarrow> string list \<Rightarrow> string list \<Rightarrow> (string \<times> string) list \<Rightarrow> bool \<Rightarrow> string \<Rightarrow> bool"
  for inc exc guarded expansions granted where
  not_product: "\<not> covered_by rel exc \<Longrightarrow> \<not> covered_by rel guarded \<Longrightarrow> authorized inc exc guarded expansions granted rel"
| in_scope: "\<not> covered_by rel exc \<Longrightarrow> inc = [] \<or> covered_by rel inc \<Longrightarrow> authorized inc exc guarded expansions granted rel"
| adopted: "\<not> covered_by rel exc \<Longrightarrow> map_of expansions rel = Some ''adopted'' \<Longrightarrow> authorized inc exc guarded expansions granted rel"
| by_repair: "\<not> covered_by rel exc \<Longrightarrow> granted \<Longrightarrow> map_of expansions rel \<noteq> Some ''refused'' \<Longrightarrow>
    authorized inc exc guarded expansions granted rel"

inductive_simps authorized_iff: "authorized inc exc guarded expansions granted rel"

lemma longest_cover_covered [simp]: "longest_cover path patterns = None \<longleftrightarrow> \<not> covered_by path patterns"
  using best_cover [of path patterns] by (auto simp: best_cover_def covered_by_def list_ex_iff split: option.splits)

text \<open>The check decides exactly the mandate's rule: a path is let through when it is not excluded and is
  either no part of the product, or inside the included scope, or adopted into it since, or written by a repair
  nobody refused it to.\<close>

theorem outside_exact:
  "outside_the_mandate rel inc exc guarded expansions granted = None \<longleftrightarrow>
     authorized inc exc guarded expansions granted rel"
  by (cases "map_of expansions rel") (auto simp: outside_the_mandate_def authorized_iff Let_def)

lemma authorized_by_grant: "authorized inc exc guarded expansions False rel \<Longrightarrow> authorized inc exc guarded expansions True rel"
  by (auto simp: authorized_iff)

section \<open>What a write that is let through rests on\<close>

lemma bind_err_Some: "bind_err m f = Inr y \<longleftrightarrow> (\<exists>x. m = Inr x \<and> f x = Inr y)"
  by (cases m) (auto simp: bind_err_def)

lemma inside_lets_through:
  assumes "inside_the_mandate en ck rel guarded state repair = Inr None"
  shows "\<exists>t plan inc exc expansions. ck_read ck plan_path = Contents t \<and> en_load_doc en t = Inr plan \<and>
    raw_scope plan = Inr (inc, exc) \<and> expansions_in_force en ck state = Inr expansions \<and>
    authorized inc exc guarded expansions (case repair of Some r \<Rightarrow> r | None \<Rightarrow> ck_granted ck) rel"
proof -
  let ?g = "case repair of Some r \<Rightarrow> r | None \<Rightarrow> ck_granted ck"
  from assms obtain t plan where t: "ck_read ck plan_path = Contents t" and plan: "en_load_doc en t = Inr plan"
    by (auto simp: inside_the_mandate_def split: file_text.splits sum.splits)
  with assms obtain inc exc expansions where r: "raw_scope plan = Inr (inc, exc)" "expansions_in_force en ck state = Inr expansions"
      and v: "(case outside_the_mandate rel inc exc guarded expansions False of None \<Rightarrow> None
        | Some reason \<Rightarrow> if outside_the_mandate rel inc exc guarded expansions True = None \<and> ?g then None
            else Some (OutsideMandate reason)) = None"
    by (auto simp: inside_the_mandate_def bind_err_Some Let_def)
  from v have "authorized inc exc guarded expansions ?g rel"
  proof (cases "outside_the_mandate rel inc exc guarded expansions False")
    case None
    then show ?thesis unfolding outside_exact using authorized_by_grant by (cases ?g) auto
  next
    case (Some reason)
    with v have "outside_the_mandate rel inc exc guarded expansions True = None" and "?g" by (simp_all split: if_splits)
    then show ?thesis by (simp add: outside_exact)
  qed
  with t plan r show ?thesis by blast
qed

lemma rule_three_guarded:
  assumes "rule_three en ck file rel repair = Inr None" and "ck_rel ck file = Some rel"
    and "read_settings en ck = Inr settings" and "gs_unreadable settings = None \<or> rel \<noteq> config_path"
    and "\<not> gs_template settings" and "covered_by rel (gs_paths settings)"
  shows "\<exists>st. guard_state en ck = Inr (Some st) \<and> gate_status st ''mandate'' = ''approved'' \<and>
    inside_the_mandate en ck rel (gs_paths settings) st repair = Inr None"
  using assms by (auto simp: rule_three_def is_guarded_def bind_err_Some split: if_splits option.splits)

text \<open>C14: What the editor hook lets an agent write, of the paths inside the repository: never a machine-written
  document (the paths of \<^verbatim>\<open>MACHINE_WRITTEN\<close>; the plan and the configuration are not among them) and never the
  guard's own registration. A path the mandate freezes (the plan, the configuration, the prompts, the container
  files) only while there is a state and its plan is not frozen. Any other path only with guard settings that could be read, and then for one of three reasons: the settings are in
  \<^verbatim>\<open>template_mode\<close>, which switches the product's protection off; the path is not under the guarded paths; or the mandate
  is approved and the plan, as it is on disk, authorizes the path (never one its scope excludes; inside the scope, or
  adopted by a person, or written from a repair's own launch and not refused).\<close>

theorem guard_lets_through:
  assumes "evaluate en ck file Edit repair = Inr None" and "ck_rel ck file = Some rel"
  shows "\<not> covered_by rel (machine_written @ hook_registration) \<and>
    (if covered_by rel frozen_after_mandate then \<exists>st. guard_state en ck = Inr (Some st) \<and> st_plan_status st \<noteq> ''frozen''
     else \<exists>settings. read_settings en ck = Inr settings \<and> gs_unreadable settings = None \<and>
       (gs_template settings \<or> \<not> covered_by rel (gs_paths settings) \<or>
        (\<exists>st t plan inc exc expansions. guard_state en ck = Inr (Some st) \<and> gate_status st ''mandate'' = ''approved'' \<and>
          ck_read ck plan_path = Contents t \<and> en_load_doc en t = Inr plan \<and> raw_scope plan = Inr (inc, exc) \<and>
          expansions_in_force en ck st = Inr expansions \<and>
          authorized inc exc (gs_paths settings) expansions (case repair of Some r \<Rightarrow> r | None \<Rightarrow> ck_granted ck) rel)))"
proof -
  have config: "covered_by config_path frozen_after_mandate"
    by (simp add: covered_by_def frozen_after_mandate_def config_path_def path_covered_def rstrip_slash_def)
  from assms have own: "\<not> covered_by rel machine_written" "\<not> covered_by rel hook_registration"
    by (auto simp: evaluate_def split: if_splits)
  show ?thesis
  proof (cases "covered_by rel frozen_after_mandate")
    case True
    with assms own show ?thesis
      by (auto simp: evaluate_def bind_err_Some covered_by_def split: option.splits if_splits)
  next
    case False
    with assms own have r: "rule_three en ck file rel repair = Inr None"
      by (auto simp: evaluate_def bind_err_Some split: if_splits)
    then obtain settings where s: "read_settings en ck = Inr settings" by (auto simp: rule_three_def bind_err_Some)
    have "rel \<noteq> config_path" using False config by blast
    with r s have u: "gs_unreadable settings = None" by (auto simp: rule_three_def bind_err_Some split: if_splits)
    show ?thesis
    proof (cases "gs_template settings \<or> \<not> covered_by rel (gs_paths settings)")
      case True
      with own s u False show ?thesis by (auto simp: covered_by_def)
    next
      case product: False
      with rule_three_guarded [OF r assms(2) s] u
      obtain st where st: "guard_state en ck = Inr (Some st)" "gate_status st ''mandate'' = ''approved''"
          and ins: "inside_the_mandate en ck rel (gs_paths settings) st repair = Inr None"
        by auto
      from inside_lets_through [OF ins] own s u False st show ?thesis by (auto simp: covered_by_def)
    qed
  qed
qed

text \<open>C15: Widening the mandate is a person's decision: for guard settings that are readable and not in
  \<^verbatim>\<open>template_mode\<close>, and a path inside the repository that the guarded paths cover and that is not one the mandate
  freezes, under a plan that can be read and whose scope includes something: outside a repair's own launch, a write to
  a path that scope does not include gets through (at the editor and at commit alike) only when
  the undamaged log records a person adopting that very path, and never when the scope excludes it.\<close>

theorem widening_needs_human:
  assumes "evaluate en ck file stage repair = Inr None" and "ck_rel ck file = Some rel"
    and "\<not> (case repair of Some r \<Rightarrow> r | None \<Rightarrow> ck_granted ck)"
    and "read_settings en ck = Inr settings" and "\<not> gs_template settings" and "covered_by rel (gs_paths settings)"
    and "\<not> covered_by rel frozen_after_mandate"
    and "ck_read ck plan_path = Contents t" and "en_load_doc en t = Inr plan" and "raw_scope plan = Inr (inc, exc)"
    and "inc \<noteq> []" and "\<not> covered_by rel inc"
  shows "\<not> covered_by rel exc \<and> (\<exists>es. scan_log en ck = Inr (es, []) \<and> rel \<in> set (adoptions es))"
proof -
  have config: "covered_by config_path frozen_after_mandate"
    by (simp add: covered_by_def frozen_after_mandate_def config_path_def path_covered_def rstrip_slash_def)
  then have "rel \<noteq> config_path" using assms(7) by blast
  have "rule_three en ck file rel repair = Inr None"
    using assms(1,2,7) by (auto simp: evaluate_def bind_err_Some split: if_splits)
  from rule_three_guarded [OF this assms(2,4) _ assms(5,6)] \<open>rel \<noteq> config_path\<close>
  obtain st where "inside_the_mandate en ck rel (gs_paths settings) st repair = Inr None" by auto
  from inside_lets_through [OF this] assms(8-10)
  obtain expansions where e: "expansions_in_force en ck st = Inr expansions"
      and a: "authorized inc exc (gs_paths settings) expansions (case repair of Some r \<Rightarrow> r | None \<Rightarrow> ck_granted ck) rel"
    by auto
  from a assms(3,6,11,12) have exc: "\<not> covered_by rel exc" and ad: "map_of expansions rel = Some ''adopted''"
    by (auto simp: authorized_iff)
  from ad have "(rel, ''adopted'') \<in> set expansions" by (rule map_of_SomeD)
  with e have "\<exists>es. scan_log en ck = Inr (es, []) \<and> rel \<in> set (adoptions es)"
    by (force simp: expansions_in_force_def Let_def bind_err_Some image_iff split: if_splits)
  with exc show ?thesis by blast
qed

definition adopt_event :: event where
  "adopt_event = \<lparr>ev_seq = 0, ev_id = ''e1'', ev_tx = ''t1'', ev_ts = ''now'', ev_kind = ''disposition_recorded'',
     ev_cycle = ''c1'', ev_actor = ''ui'', ev_subjects = [''SCOPE-1''], ev_prev = '''', ev_digest = '''',
     ev_detail = [(''action'', JStr ''adopt_scope''), (''path'', JStr ''src/b.py'')]\<rparr>"

definition adopt_linked :: event where
  "adopt_linked = (case link toy_sha None adopt_event of Inr l \<Rightarrow> l | Inl _ \<Rightarrow> adopt_event)"

definition scoped_plan :: jobj where
  "scoped_plan = [(''scope'', JObj [(''include'', JArr [JStr ''src/a'']), (''exclude'', JArr [JStr ''src/c''])])]"

definition scoped_state :: jobj where
  "scoped_state = [(''gates'', JObj [(''mandate'', JObj [(''status'', JStr ''approved'')])]),
     (''plan'', JObj [(''status'', JStr ''frozen'')]),
     (''scope_expansions'', JObj [(''src/b.py'', JObj [(''status'', JStr ''adopted'')]),
        (''src/d.py'', JObj [(''status'', JStr ''proposed'')])])]"

definition scoped_env :: env where
  "scoped_env = \<lparr>en_sha = toy_sha, en_loads = table_loads [JObj (to_mapping adopt_linked)],
     en_load_doc = (\<lambda>s. if s = ''plan'' then Inr scoped_plan else if s = ''state'' then Inr scoped_state else Inl EmptyDocument),
     en_dump = (\<lambda>m. ser (JObj m)), en_schema = (\<lambda>_ _. True), en_event_ok = (\<lambda>_. True)\<rparr>"

definition scoped_checkout :: checkout where
  "scoped_checkout = \<lparr>ck_rel = Some,
     ck_read = (\<lambda>p. if p = plan_path then Contents ''plan'' else if p = state_path then Contents ''state''
       else if p = events_path then Contents (ser (JObj (to_mapping adopt_linked)) @ newline) else Missing),
     ck_git_head_state = None, ck_git_status = Some '''', ck_granted = False\<rparr>"

lemma scoped_log: "scan_log scoped_env scoped_checkout = Inr ([norm_event adopt_linked], [])"
proof -
  have "\<not> isl (link toy_sha None adopt_event)" by code_simp
  then have l: "link toy_sha None adopt_event = Inr adopt_linked"
    by (cases "link toy_sha None adopt_event") (simp_all add: adopt_linked_def)
  have "plain (JObj (to_mapping adopt_linked))" unfolding plain_def by code_simp
  moreover have "one_line adopt_linked" "within small_limits (norm (JObj (to_mapping adopt_linked)))"
    "length (ser (JObj (to_mapping adopt_linked))) \<le> max_bytes small_limits"
    by (code_simp, code_simp, code_simp)
  ultimately have "scan_text toy_sha (table_loads [JObj (to_mapping adopt_linked)]) (\<lambda>_. True)
      (ser (JObj (to_mapping adopt_linked)) @ newline) = Inr ([norm_event adopt_linked], [])"
    by (rule one_event_log [OF l])
  then show ?thesis
    by (simp add: scan_log_def scoped_env_def scoped_checkout_def map_err_def plan_path_def state_path_def events_path_def)
qed

lemma scoped_expansions:
  "expansions_in_force scoped_env scoped_checkout scoped_state = Inr [(''src/b.py'', ''adopted''), (''src/d.py'', ''proposed'')]"
proof -
  have "adoptions [norm_event adopt_linked] = [''src/b.py'']" by code_simp
  moreover have "map (\<lambda>(path, entry). (path, str_get entry ''status'' ''None'')) (scope_expansions scoped_state) =
      [(''src/b.py'', ''adopted''), (''src/d.py'', ''proposed'')]" by code_simp
  ultimately show ?thesis by (simp add: expansions_in_force_def scoped_log bind_err_def)
qed

lemma scoped_readings:
  "read_settings scoped_env scoped_checkout = Inr default_settings" "guard_state scoped_env scoped_checkout = Inr (Some scoped_state)"
  "raw_scope scoped_plan = Inr ([''src/a''], [''src/c''])" "gate_status scoped_state ''mandate'' = ''approved''"
  "st_plan_status scoped_state = ''frozen''" "\<not> gs_template default_settings" "gs_unreadable default_settings = None"
  by code_simp+

lemma scoped_checkout_simps:
  "ck_rel scoped_checkout = Some" "ck_read scoped_checkout plan_path = Contents ''plan''"
  "en_load_doc scoped_env ''plan'' = Inr scoped_plan" "\<not> ck_granted scoped_checkout"
  by (simp_all add: scoped_checkout_def scoped_env_def)

lemma scoped_inside:
  "inside_the_mandate scoped_env scoped_checkout rel guarded scoped_state repair =
     (let why = outside_the_mandate rel [''src/a''] [''src/c''] guarded [(''src/b.py'', ''adopted''), (''src/d.py'', ''proposed'')]
      in Inr (case why False of None \<Rightarrow> None
         | Some reason \<Rightarrow> if why True = None \<and> repair = Some True then None else Some (OutsideMandate reason)))"
  by (cases repair) (simp_all add: inside_the_mandate_def scoped_checkout_simps scoped_readings scoped_expansions bind_err_def Let_def
      cong: option.case_cong)

lemma scoped_evaluate:
  "evaluate scoped_env scoped_checkout rel Edit repair =
     (if longest_cover rel machine_written \<noteq> None then Inr (Some MachineWritten)
      else if longest_cover rel hook_registration \<noteq> None then Inr (Some HookRegistered)
      else if longest_cover rel frozen_after_mandate \<noteq> None then Inr (Some PlanFrozen)
      else inside_the_mandate scoped_env scoped_checkout rel default_guard_paths scoped_state repair)"
  by (simp add: evaluate_def rule_three_def scoped_checkout_simps scoped_readings bind_err_def default_settings_def
      del: longest_cover_covered)

text \<open>The rules on one checkout: an adopted path, a proposed one, an excluded one (refused even to a repair), and
  the store's own documents.\<close>

lemma scoped_verdicts:
  "evaluate scoped_env scoped_checkout ''src/b.py'' Edit None = Inr None"
  "evaluate scoped_env scoped_checkout ''src/a/x.py'' Edit None = Inr None"
  "evaluate scoped_env scoped_checkout ''src/d.py'' Edit None = Inr (Some (OutsideMandate (NotIncluded [''src/a''])))"
  "evaluate scoped_env scoped_checkout ''src/d.py'' Edit (Some True) = Inr None"
  "evaluate scoped_env scoped_checkout ''src/c/y.py'' Edit (Some True) = Inr (Some (OutsideMandate Excluded))"
  "evaluate scoped_env scoped_checkout ''.rein/state.yaml'' Edit None = Inr (Some MachineWritten)"
  "evaluate scoped_env scoped_checkout ''.rein/plan.yaml'' Edit None = Inr (Some PlanFrozen)"
  unfolding scoped_evaluate scoped_inside by code_simp+

theorem widening_needs_human_witness:
  "\<exists>es. scan_log scoped_env scoped_checkout = Inr (es, []) \<and> ''src/b.py'' \<in> set (adoptions es)"
proof -
  have "covered_by ''src/b.py'' (gs_paths default_settings)" "\<not> covered_by ''src/b.py'' frozen_after_mandate"
    "\<not> covered_by ''src/b.py'' [''src/a'']" by code_simp+
  then show ?thesis
    using widening_needs_human [OF scoped_verdicts(1), where settings = default_settings and rel = "''src/b.py''"]
    by (simp add: scoped_checkout_simps scoped_readings)
qed

theorem guard_lets_through_witness:
  "\<not> covered_by ''src/a/x.py'' (machine_written @ hook_registration) \<and>
   evaluate scoped_env scoped_checkout ''src/a/x.py'' Edit None = Inr None"
  using guard_lets_through [OF scoped_verdicts(2), of "''src/a/x.py''"] scoped_verdicts(2) by (simp add: scoped_checkout_simps)

text \<open>The guard says that unreadable state fails closed. A state (or plan, or configuration) that is not UTF-8 is
  not an \<^verbatim>\<open>OSError\<close>: reading it raises out of the hook, which then exits with a failure that denies nothing.\<close>

lemma undecodable_state_raises:
  assumes "ck_read ck state_path = Undecodable" and "ck_rel ck file = Some ''src/a.py''"
  shows "evaluate en ck file Edit repair = Inl (NotUtf8 state_path)"
proof -
  have "\<not> covered_by ''src/a.py'' machine_written" "\<not> covered_by ''src/a.py'' hook_registration" by code_simp+
  with assms show ?thesis by (simp add: evaluate_def guard_state_def bind_err_def)
qed

end
