(* ===== verification/Hooks.thy ===== *)
theory Hooks
  imports Guard
begin

text \<open>
  The other half of \<^verbatim>\<open>gate_guard.py\<close>: the text an edit of the state would leave (rule 4), what the commit stage
  asks of an opened gate, a frozen document and \<^verbatim>\<open>reviews.yaml\<close> (with \<^verbatim>\<open>reviews_cmd.binding_problem\<close>), the whole
  commit-stage check, the paths a host's payload names, and what registers the commit-stage check.
\<close>

section \<open>An edit of the state\<close>

text \<open>\<^verbatim>\<open>str.replace\<close>, all occurrences and the first one.\<close>

function replace_all :: "string \<Rightarrow> string \<Rightarrow> string \<Rightarrow> string" where
  "replace_all old new [] = []"
| "replace_all old new (c # r) =
     (if old \<noteq> [] \<and> prefix old (c # r) then new @ replace_all old new (drop (length old) (c # r))
      else c # replace_all old new r)"
  by pat_completeness auto

termination by (relation "measure (\<lambda>(_, _, s). length s)") auto

fun replace_first :: "string \<Rightarrow> string \<Rightarrow> string \<Rightarrow> string" where
  "replace_first old new [] = []"
| "replace_first old new (c # r) =
     (if prefix old (c # r) then new @ drop (length old) (c # r) else c # replace_first old new r)"

definition edit_step :: "json \<Rightarrow> string \<times> bool \<Rightarrow> string \<times> bool" where
  "edit_step e st =
     (case e of
        JObj m \<Rightarrow>
          (case (py_or (jget m ''old_string'') (jget m ''oldString''),
                 jget_or m ''new_string'' (jget m ''newString'')) of
             (JStr old, JStr new) \<Rightarrow>
               if old = [] then st
               else if truthy (py_or (jget m ''replace_all'') (jget m ''replaceAll''))
               then (replace_all old new (fst st), True) else (replace_first old new (fst st), True)
           | _ \<Rightarrow> st)
      | _ \<Rightarrow> st)"

definition proposed_text :: "string \<Rightarrow> jobj \<Rightarrow> string option" where
  "proposed_text current tool_input =
     (case jget tool_input ''content'' of
        JStr s \<Rightarrow> Some s
      | _ \<Rightarrow>
          (let edits = (case jget tool_input ''edits'' of JArr es \<Rightarrow> es | _ \<Rightarrow> [JObj tool_input]);
               (text, saw) = fold edit_step edits (current, False)
           in if saw then Some text else None))"

definition gates_or_empty :: "env \<Rightarrow> string \<Rightarrow> (string \<times> string) list" where
  "gates_or_empty en text =
     (case en_load_doc en text of Inl _ \<Rightarrow> [] | Inr raw \<Rightarrow> map (\<lambda>(g, _). (g, gate_status raw g)) (st_gates raw))"

definition flips :: "(string \<times> string) list \<Rightarrow> (string \<times> string) list \<Rightarrow> string list" where
  "flips current proposed =
     map fst (filter (\<lambda>(g, v). v = ''approved'' \<and> map_of current g \<noteq> Some ''approved'') proposed)"

definition gate_flip_denial :: "env \<Rightarrow> checkout \<Rightarrow> jobj \<Rightarrow> raised + string list" where
  "gate_flip_denial en ck tool_input =
     (case ck_read ck state_path of
        Undecodable \<Rightarrow> Inl (NotUtf8 state_path)
      | r \<Rightarrow>
          (let current = (case r of Contents t \<Rightarrow> t | _ \<Rightarrow> [])
           in Inr (case proposed_text current tool_input of
               None \<Rightarrow> []
             | Some proposed \<Rightarrow> flips (gates_or_empty en current) (gates_or_empty en proposed))))"

section \<open>Opened gates at commit\<close>

datatype commit_failure =
    FlipOverDamage "string list"
  | FlipWithoutApproval string
  | FlipRolledBack string
  | FlipWithoutReceipt string
  | FlipOtherApproval string string
  | FrozenUncheckable
  | FrozenInvalid string
  | FrozenGone string
  | FrozenChanged string
  | ReviewsAbsent
  | ReviewsUnrecorded
  | ReviewsMissing
  | ReviewsAltered

definition last_index :: "event list \<Rightarrow> string \<Rightarrow> string \<Rightarrow> int" where
  "last_index es kind gate =
     (case find (\<lambda>i. ev_kind (es ! i) = kind \<and> gate \<in> set (ev_subjects (es ! i))) (rev [0..<length es]) of
        None \<Rightarrow> -1 | Some i \<Rightarrow> int i)"

definition flip_problem :: "jobj \<Rightarrow> event list \<Rightarrow> string \<Rightarrow> commit_failure option" where
  "flip_problem state es gate =
     (let approved_at = max (last_index es ''gate_approved'' gate) (last_index es ''gate_carried'' gate)
      in if approved_at < 0 then Some (FlipWithoutApproval gate)
         else if approved_at < last_index es ''gate_revised'' gate then Some (FlipRolledBack gate)
         else (case gate_receipt state gate of
             None \<Rightarrow> Some (FlipWithoutReceipt gate)
           | Some receipt \<Rightarrow>
               (let approval_id = str_get receipt ''approval_id'' ''''
                in if approval_id \<notin> set (ev_subjects (es ! nat approved_at)) then Some (FlipOtherApproval gate approval_id)
                   else None)))"

definition somes :: "('a \<Rightarrow> 'b option) \<Rightarrow> 'a list \<Rightarrow> 'b list" where
  "somes f xs = concat (map (\<lambda>x. case f x of None \<Rightarrow> [] | Some y \<Rightarrow> [y]) xs)"

definition flip_failures :: "env \<Rightarrow> checkout \<Rightarrow> raised + commit_failure list" where
  "flip_failures en ck =
     (case ck_read ck state_path of
        Undecodable \<Rightarrow> Inl (NotUtf8 state_path)
      | Contents worktree \<Rightarrow>
          (case ck_git_head_state ck of
             None \<Rightarrow> Inr []
           | Some head \<Rightarrow>
               (let opened = flips (gates_or_empty en head) (gates_or_empty en worktree)
                in if opened = [] then Inr []
                   else bind_err (scan_log en ck) (\<lambda>(es, ds).
                     if ds \<noteq> [] then Inr [FlipOverDamage opened]
                     else case en_load_doc en worktree of
                         Inl e \<Rightarrow> Inl (ParseFailed e)
                       | Inr state \<Rightarrow> Inr (somes (flip_problem state es) opened))))
      | _ \<Rightarrow> Inr [])"

section \<open>Frozen documents at commit\<close>

definition frozen_check :: "string \<Rightarrow> string \<Rightarrow> raised + doc option \<Rightarrow> (jobj \<Rightarrow> digest_error + string) \<Rightarrow>
    raised + commit_failure list" where
  "frozen_check label recorded live digest =
     (if recorded = [] then Inr []
      else bind_err live (\<lambda>d. case d of
          None \<Rightarrow> Inr [FrozenGone label]
        | Some (Unparsed _) \<Rightarrow> Inr [FrozenInvalid label]
        | Some Rejected \<Rightarrow> Inr [FrozenInvalid label]
        | Some (Valid m) \<Rightarrow> bind_err (map_err DigestFailed (digest m)) (\<lambda>current.
            Inr (if current \<noteq> recorded then [FrozenChanged label] else []))))"

definition frozen_artifact_failures :: "env \<Rightarrow> checkout \<Rightarrow> raised + commit_failure list" where
  "frozen_artifact_failures en ck =
     bind_err (read_state en ck) (\<lambda>d. case d of
         None \<Rightarrow> Inr []
       | Some (Unparsed _) \<Rightarrow> Inr [FrozenUncheckable]
       | Some Rejected \<Rightarrow> Inr [FrozenUncheckable]
       | Some (Valid st) \<Rightarrow>
           if st_plan_status st \<noteq> ''frozen'' then Inr []
           else bind_err (frozen_check ''plan.yaml'' (st_plan_digest st) (read_plan en ck) (plan_digest (en_sha en))) (\<lambda>a.
                bind_err (frozen_check ''config.yaml'' (st_plan_config_digest st) (read_config en ck) (frozen_digest (en_sha en))) (\<lambda>b.
                Inr (a @ b))))"

section \<open>The reviews document\<close>

record reviews_record =
  rr_document :: jobj
  rr_digest :: string
  rr_actor :: string
  rr_ts :: string
  rr_reason :: string
  rr_index :: nat

definition record_detail :: "event \<Rightarrow> (jobj \<times> string) option" where
  "record_detail e =
     (if ev_kind e = ''reviews_changed'' then Some (ev_detail e, str_get (ev_detail e) ''reason'' '''')
      else if ev_kind e = ''cycle_initialized'' then
        (case jget (ev_detail e) ''reviews'' of
           JObj m \<Rightarrow> Some (m, ''carried over from cycle '' @ str_get (ev_detail e) ''previous_cycle'' '''')
         | _ \<Rightarrow> None)
      else None)"

fun records_from :: "nat \<Rightarrow> event list \<Rightarrow> raised + reviews_record list" where
  "records_from index [] = Inr []"
| "records_from index (e # es) =
     (case record_detail e of
        None \<Rightarrow> records_from (Suc index) es
      | Some (detail, reason) \<Rightarrow>
          (case jget detail ''document'' of
             JObj document \<Rightarrow>
               if \<not> truthy (jget detail ''digest'') then Inl (ReviewsRecord index)
               else bind_err (records_from (Suc index) es) (\<lambda>rs.
                 Inr (\<lparr>rr_document = document, rr_digest = py_str (jget detail ''digest''), rr_actor = ev_actor e,
                       rr_ts = ev_ts e, rr_reason = reason, rr_index = index\<rparr> # rs))
           | _ \<Rightarrow> Inl (ReviewsRecord index)))"

definition recorded :: "env \<Rightarrow> checkout \<Rightarrow> raised + reviews_record option" where
  "recorded en ck = bind_err (scan_log en ck) (\<lambda>(es, _).
     bind_err (records_from 0 es) (\<lambda>rs. Inr (if rs = [] then None else Some (last rs))))"

definition live_reviews :: "env \<Rightarrow> checkout \<Rightarrow> raised + string" where
  "live_reviews en ck =
     (case ck_read ck reviews_path of
        Missing \<Rightarrow> Inr []
      | Denied \<Rightarrow> Inl (CannotRead reviews_path)
      | Undecodable \<Rightarrow> Inl (NotUtf8 reviews_path)
      | Contents t \<Rightarrow> bind_err (map_err ParseFailed (en_load_doc en t)) (\<lambda>m.
          map_err DigestFailed (digest_of (en_sha en) (JObj m) [])))"

definition binding_problem :: "env \<Rightarrow> checkout \<Rightarrow> raised + commit_failure option" where
  "binding_problem en ck =
     bind_err (recorded en ck) (\<lambda>last. bind_err (live_reviews en ck) (\<lambda>live. Inr (
       case last of
         None \<Rightarrow> Some (if live = [] then ReviewsAbsent else ReviewsUnrecorded)
       | Some r \<Rightarrow> if live = rr_digest r then None
                   else Some (if live = [] then ReviewsMissing else ReviewsAltered))))"

definition reviews_failures :: "env \<Rightarrow> checkout \<Rightarrow> raised + commit_failure list" where
  "reviews_failures en ck =
     (if ck_read ck events_path = Missing then Inr []
      else bind_err (binding_problem en ck) (\<lambda>p. Inr (case p of None \<Rightarrow> [] | Some f \<Rightarrow> [f])))"

section \<open>The commit-stage check\<close>

text \<open>What follows the first \<^verbatim>\<open>" -> "\<close>, when there is one; and \<^verbatim>\<open>strip('"')\<close>.\<close>

fun after_arrow :: "string \<Rightarrow> string option" where
  "after_arrow [] = None"
| "after_arrow (c # r) = (if prefix '' -> '' (c # r) then Some (drop 4 (c # r)) else after_arrow r)"

definition strip_quotes :: "string \<Rightarrow> string" where
  "strip_quotes s = rev (dropWhile (\<lambda>c. c = CHR 0x22) (rev (dropWhile (\<lambda>c. c = CHR 0x22) s)))"

definition status_path :: "string \<Rightarrow> string option" where
  "status_path line =
     (if length (chars_of line) < 4 then None
      else let path = concat (drop 3 (chars_of line))
           in Some (strip_quotes (case after_arrow path of None \<Rightarrow> path | Some new \<Rightarrow> new)))"

definition changed_paths :: "checkout \<Rightarrow> string list option" where
  "changed_paths ck = map_option (\<lambda>out. somes status_path (splitlines out)) (ck_git_status ck)"

fun denied_paths :: "env \<Rightarrow> checkout \<Rightarrow> string list \<Rightarrow> raised + (string \<times> denial) list" where
  "denied_paths en ck [] = Inr []"
| "denied_paths en ck (p # ps) =
     bind_err (evaluate en ck p Commit None) (\<lambda>d. bind_err (denied_paths en ck ps) (\<lambda>ds.
       Inr (case d of None \<Rightarrow> ds | Some why \<Rightarrow> (p, why) # ds)))"

definition check_diff :: "env \<Rightarrow> checkout \<Rightarrow> raised + nat" where
  "check_diff en ck =
     (case changed_paths ck of
        None \<Rightarrow> Inr 0
      | Some paths \<Rightarrow>
          bind_err (denied_paths en ck paths) (\<lambda>denied.
          bind_err (if state_path \<in> set paths then flip_failures en ck else Inr []) (\<lambda>opened.
          bind_err (frozen_artifact_failures en ck) (\<lambda>frozen.
          bind_err (if reviews_path \<in> set paths then reviews_failures en ck else Inr []) (\<lambda>reviews.
          Inr (if denied = [] \<and> opened @ frozen @ reviews = [] then 0 else 1))))))"

section \<open>What a host is about to write\<close>

definition patch_preamble :: string where
  "patch_preamble = ''*** Begin Patch''"

definition patch_headers :: "string list" where
  "patch_headers = [''*** Add File: '', ''*** Update File: '', ''*** Delete File: '', ''*** Move to: '']"

text \<open>One line against the header expression: what it captures.\<close>

definition header_target :: "string \<Rightarrow> string option" where
  "header_target line =
     (case find (\<lambda>h. prefix h line \<and> length h < length line) patch_headers of
        None \<Rightarrow> None | Some h \<Rightarrow> Some (drop (length h) line))"

definition patch_targets :: "string \<Rightarrow> string list" where
  "patch_targets command =
     (if \<not> sublist patch_preamble command then []
      else fold (\<lambda>t out. if t \<noteq> [] \<and> t \<notin> set out then out @ [t] else out)
             (map py_strip (somes header_target (split_on (CHR 0x0A) command))) [])"

definition path_keys :: "string list" where
  "path_keys = [''file_path'', ''filePath'', ''notebook_path'', ''notebookPath'']"

definition tool_args_keys :: "string list" where
  "tool_args_keys = [''tool_input'', ''tool_args'', ''toolInput'', ''toolArgs'']"

definition tool_arguments :: "jobj \<Rightarrow> jobj option" where
  "tool_arguments hook_call =
     (case find (\<lambda>k. is_obj (jget hook_call k)) tool_args_keys of None \<Rightarrow> None | Some k \<Rightarrow> Some (as_obj (jget hook_call k)))"

definition hook_paths :: "jobj \<Rightarrow> string list" where
  "hook_paths tool_input =
     (case find (\<lambda>k. nonempty_str (jget tool_input k)) path_keys of
        Some k \<Rightarrow> [py_str (jget tool_input k)]
      | None \<Rightarrow> (case jget tool_input ''command'' of JStr command \<Rightarrow> patch_targets command | _ \<Rightarrow> []))"

text \<open>\<^verbatim>\<open>main\<close>'s loop over those paths: the first refusal is the answer. \<open>resolve\<close> makes a path absolute.\<close>

datatype refusal = Refused denial | FlipRefused "string list"

fun first_refusal :: "env \<Rightarrow> checkout \<Rightarrow> (string \<Rightarrow> string) \<Rightarrow> jobj \<Rightarrow> string list \<Rightarrow> raised + (string \<times> refusal) option" where
  "first_refusal en ck resolve tool_input [] = Inr None"
| "first_refusal en ck resolve tool_input (raw # raws) =
     bind_err (evaluate en ck (resolve raw) Edit None) (\<lambda>verdict.
     bind_err (if verdict = None \<and> ck_rel ck (resolve raw) = Some state_path then gate_flip_denial en ck tool_input else Inr []) (\<lambda>opened.
       case verdict of
         Some why \<Rightarrow> Inr (Some (raw, Refused why))
       | None \<Rightarrow> if opened \<noteq> [] then Inr (Some (raw, FlipRefused opened)) else first_refusal en ck resolve tool_input raws))"

definition hook_answer :: "env \<Rightarrow> checkout \<Rightarrow> (string \<Rightarrow> string) \<Rightarrow> jobj \<Rightarrow> raised + (string \<times> refusal) option" where
  "hook_answer en ck resolve hook_call =
     (case tool_arguments hook_call of
        None \<Rightarrow> Inr None
      | Some tool_input \<Rightarrow> first_refusal en ck resolve tool_input (hook_paths tool_input))"

section \<open>Who registers the commit stage\<close>

definition invocation :: "jobj \<Rightarrow> string list" where
  "invocation hook = words_of (str_get hook ''entry'' '''') @ map py_str (as_arr (jget hook ''args''))"

fun invokes_guard :: "string list \<Rightarrow> bool" where
  "invokes_guard (w # v # ws) = (w = ''rein'' \<and> v = ''guard'' \<or> invokes_guard (v # ws))"
| "invokes_guard _ = False"

fun scan_hooks :: "string list list \<Rightarrow> string \<Rightarrow> string" where
  "scan_hooks [] verdict = verdict"
| "scan_hooks (w # ws) verdict =
     (if \<not> invokes_guard w then scan_hooks ws verdict
      else if ''--check-diff'' \<in> set w then ''registered'' else scan_hooks ws ''neutered'')"

definition commit_stage_registration :: "env \<Rightarrow> string \<Rightarrow> string" where
  "commit_stage_registration en text =
     (if blank text then ''absent''
      else case en_load_doc en text of
          Inl _ \<Rightarrow> ''unreadable''
        | Inr document \<Rightarrow>
            scan_hooks (map invocation (objs_in (concat (map (\<lambda>r. as_arr (jget r ''hooks''))
              (objs_in (as_arr (jget document ''repos''))))))) ''absent'')"

section \<open>Backed gates\<close>

definition concerns :: "string \<Rightarrow> string \<Rightarrow> event \<Rightarrow> bool" where
  "concerns kind gate e \<longleftrightarrow> ev_kind e = kind \<and> gate \<in> set (ev_subjects e)"

lemma find_upto_last:
  "find P (rev [0..<n]) = Some i \<longleftrightarrow> i < n \<and> P i \<and> (\<forall>j. i < j \<and> j < n \<longrightarrow> \<not> P j)"
proof (induction n)
  case (Suc n)
  show ?case
  proof (cases "P n")
    case True
    then show ?thesis by (auto simp: less_Suc_eq)
  next
    case False
    with Suc show ?thesis by (auto simp: less_Suc_eq)
  qed
qed simp

lemma last_index_find:
  "last_index es kind gate = (case find (\<lambda>i. concerns kind gate (es ! i)) (rev [0..<length es]) of None \<Rightarrow> -1 | Some i \<Rightarrow> int i)"
  by (simp add: last_index_def concerns_def)

lemma last_index_at:
  assumes "0 \<le> last_index es kind gate"
  shows "nat (last_index es kind gate) < length es \<and> concerns kind gate (es ! nat (last_index es kind gate))"
proof (cases "find (\<lambda>i. concerns kind gate (es ! i)) (rev [0..<length es])")
  case None
  with assms show ?thesis by (simp add: last_index_find)
next
  case (Some i)
  then have "last_index es kind gate = int i" by (simp add: last_index_find)
  moreover from Some have "i < length es \<and> concerns kind gate (es ! i)" unfolding find_upto_last by blast
  ultimately show ?thesis by simp
qed

lemma last_index_after:
  assumes "last_index es kind gate < int j" "j < length es"
  shows "\<not> concerns kind gate (es ! j)"
  using assms
  by (cases "find (\<lambda>i. concerns kind gate (es ! i)) (rev [0..<length es])")
    (auto simp: last_index_find find_upto_last find_None_iff)

text \<open>An approval that backs an open gate: recorded in the chain after every roll back of that gate, and the
  receipt in the state names it.\<close>

definition backed :: "jobj \<Rightarrow> event list \<Rightarrow> string \<Rightarrow> bool" where
  "backed state es gate \<longleftrightarrow> (\<exists>i < length es. (\<exists>kind \<in> set [''gate_approved'', ''gate_carried'']. concerns kind gate (es ! i)) \<and>
     (\<forall>j < length es. concerns ''gate_revised'' gate (es ! j) \<longrightarrow> j \<le> i) \<and>
     (\<exists>receipt. gate_receipt state gate = Some receipt \<and> str_get receipt ''approval_id'' '''' \<in> set (ev_subjects (es ! i))))"

lemma flip_problem_backed:
  assumes "flip_problem state es gate = None"
  shows "backed state es gate"
proof -
  let ?a = "last_index es ''gate_approved'' gate" and ?c = "last_index es ''gate_carried'' gate"
    and ?r = "last_index es ''gate_revised'' gate"
  let ?i = "nat (max ?a ?c)"
  from assms have pos: "0 \<le> max ?a ?c" and after: "?r \<le> max ?a ?c"
    and rec: "\<exists>receipt. gate_receipt state gate = Some receipt \<and> str_get receipt ''approval_id'' '''' \<in> set (ev_subjects (es ! ?i))"
    by (auto simp: flip_problem_def Let_def split: if_splits option.splits)
  have "?i < length es \<and> (\<exists>kind \<in> set [''gate_approved'', ''gate_carried'']. concerns kind gate (es ! ?i))"
  proof (cases "?c \<le> ?a")
    case True
    then have "max ?a ?c = ?a" by simp
    with last_index_at [of es "''gate_approved''" gate] pos show ?thesis by auto
  next
    case False
    then have "max ?a ?c = ?c" by simp
    with last_index_at [of es "''gate_carried''" gate] pos show ?thesis by auto
  qed
  moreover have "j \<le> ?i" if "j < length es" "concerns ''gate_revised'' gate (es ! j)" for j
  proof (rule ccontr)
    assume "\<not> j \<le> ?i"
    with after have "?r < int j" by linarith
    with last_index_after that show False by blast
  qed
  ultimately show ?thesis using rec unfolding backed_def by blast
qed

lemma set_somes: "set (somes f xs) = {y. \<exists>x \<in> set xs. f x = Some y}"
  by (auto simp: somes_def split: option.splits)

lemma denied_none: "denied_paths en ck ps = Inr [] \<Longrightarrow> p \<in> set ps \<Longrightarrow> evaluate en ck p Commit None = Inr None"
  by (induction ps) (auto simp: bind_err_Some split: option.splits)

lemma frozen_check_none:
  assumes "frozen_check label pinned live digest = Inr []" and "pinned \<noteq> []"
  shows "\<exists>m. live = Inr (Some (Valid m)) \<and> digest m = Inr pinned"
proof -
  from assms obtain d where d: "live = Inr d" and r: "(case d of None \<Rightarrow> Inr [FrozenGone label]
      | Some (Unparsed _) \<Rightarrow> Inr [FrozenInvalid label] | Some Rejected \<Rightarrow> Inr [FrozenInvalid label]
      | Some (Valid m) \<Rightarrow> bind_err (map_err DigestFailed (digest m)) (\<lambda>current.
          Inr (if current \<noteq> pinned then [FrozenChanged label] else []))) = Inr []"
    by (auto simp: frozen_check_def bind_err_Some)
  from r obtain m where m: "d = Some (Valid m)" by (auto split: option.splits doc.splits)
  with r have "digest m = Inr pinned" by (auto simp: bind_err_Some split: if_splits)
  with d m show ?thesis by blast
qed

lemma passed_parts:
  assumes "check_diff en ck = Inr 0" and "changed_paths ck = Some paths"
  shows "denied_paths en ck paths = Inr []" and "state_path \<in> set paths \<Longrightarrow> flip_failures en ck = Inr []"
    and "frozen_artifact_failures en ck = Inr []" and "reviews_path \<in> set paths \<Longrightarrow> reviews_failures en ck = Inr []"
  using assms by (auto simp: check_diff_def bind_err_Some split: if_splits)

lemma flips_backed:
  assumes "flip_failures en ck = Inr []" and "ck_read ck state_path = Contents worktree" and "ck_git_head_state ck = Some head"
    and "g \<in> set (flips (gates_or_empty en head) (gates_or_empty en worktree))" and "en_load_doc en worktree = Inr st"
  shows "\<exists>es. scan_log en ck = Inr (es, []) \<and> backed st es g"
proof -
  let ?opened = "flips (gates_or_empty en head) (gates_or_empty en worktree)"
  from assms(4) have "?opened \<noteq> []" by auto
  with assms(1-3,5) obtain es where es: "scan_log en ck = Inr (es, [])" "somes (flip_problem st es) ?opened = []"
    by (auto simp: flip_failures_def bind_err_Some Let_def split: if_splits)
  from es(2) assms(4) have "flip_problem st es g = None"
    using set_somes [of "flip_problem st es" ?opened] by (cases "flip_problem st es g") auto
  then show ?thesis using flip_problem_backed es(1) by blast
qed

lemma frozen_artifacts_pinned:
  assumes "frozen_artifact_failures en ck = Inr []" and "read_state en ck = Inr (Some (Valid st))" and "st_plan_status st = ''frozen''"
  shows "st_plan_digest st \<noteq> [] \<Longrightarrow>
      \<exists>plan. read_plan en ck = Inr (Some (Valid plan)) \<and> plan_digest (en_sha en) plan = Inr (st_plan_digest st)"
    and "st_plan_config_digest st \<noteq> [] \<Longrightarrow>
      \<exists>config. read_config en ck = Inr (Some (Valid config)) \<and> frozen_digest (en_sha en) config = Inr (st_plan_config_digest st)"
proof -
  from assms have "frozen_check ''plan.yaml'' (st_plan_digest st) (read_plan en ck) (plan_digest (en_sha en)) = Inr []"
    "frozen_check ''config.yaml'' (st_plan_config_digest st) (read_config en ck) (frozen_digest (en_sha en)) = Inr []"
    by (auto simp: frozen_artifact_failures_def bind_err_Some)
  from frozen_check_none [OF this(1)] frozen_check_none [OF this(2)]
  show "st_plan_digest st \<noteq> [] \<Longrightarrow>
      \<exists>plan. read_plan en ck = Inr (Some (Valid plan)) \<and> plan_digest (en_sha en) plan = Inr (st_plan_digest st)"
    and "st_plan_config_digest st \<noteq> [] \<Longrightarrow>
      \<exists>config. read_config en ck = Inr (Some (Valid config)) \<and> frozen_digest (en_sha en) config = Inr (st_plan_config_digest st)"
    by blast+
qed

lemma reviews_bound:
  assumes "reviews_failures en ck = Inr []" and "ck_read ck events_path \<noteq> Missing"
  shows "\<exists>r. recorded en ck = Inr (Some r) \<and> live_reviews en ck = Inr (rr_digest r)"
proof -
  from assms have "binding_problem en ck = Inr None" by (auto simp: reviews_failures_def bind_err_Some split: option.splits)
  then show ?thesis by (auto simp: binding_problem_def bind_err_Some split: option.splits if_splits)
qed

text \<open>C16: What a commit that passes the check holds, where git could list the changed paths; each part under its own
  condition. Every changed path is one the guard lets through at the commit stage. When \<^verbatim>\<open>state.yaml\<close> is among them and
  both the state in the worktree and the one in HEAD could be read, every gate the worktree's opens and HEAD's did not is
  backed by an approval in an undamaged chain, newer than any roll back of it and named by its receipt. When
  \<^verbatim>\<open>reviews.yaml\<close> is among them and there is a log, the digest of the file on disk is the one the last record in the log
  holds. Whatever changed, while the state is valid and its plan frozen, the plan on disk is the one whose digest the
  mandate recorded, and so is the configuration, each if a digest of it was recorded at all.\<close>

theorem commit_check_holds:
  assumes "check_diff en ck = Inr 0" and "changed_paths ck = Some paths"
  shows "(\<forall>p \<in> set paths. evaluate en ck p Commit None = Inr None) \<and>
    (\<forall>worktree head st. state_path \<in> set paths \<and> ck_read ck state_path = Contents worktree \<and>
       ck_git_head_state ck = Some head \<and> en_load_doc en worktree = Inr st \<longrightarrow>
       (\<forall>g \<in> set (flips (gates_or_empty en head) (gates_or_empty en worktree)).
          \<exists>es. scan_log en ck = Inr (es, []) \<and> backed st es g)) \<and>
    (reviews_path \<in> set paths \<and> ck_read ck events_path \<noteq> Missing \<longrightarrow>
       (\<exists>r. recorded en ck = Inr (Some r) \<and> live_reviews en ck = Inr (rr_digest r))) \<and>
    (\<forall>st. read_state en ck = Inr (Some (Valid st)) \<and> st_plan_status st = ''frozen'' \<longrightarrow>
       (st_plan_digest st \<noteq> [] \<longrightarrow>
          (\<exists>plan. read_plan en ck = Inr (Some (Valid plan)) \<and> plan_digest (en_sha en) plan = Inr (st_plan_digest st))) \<and>
       (st_plan_config_digest st \<noteq> [] \<longrightarrow>
          (\<exists>config. read_config en ck = Inr (Some (Valid config)) \<and> frozen_digest (en_sha en) config = Inr (st_plan_config_digest st))))"
  using passed_parts [OF assms] denied_none flips_backed reviews_bound frozen_artifacts_pinned
  by (intro conjI ballI allI impI; (elim conjE)?) blast+

section \<open>The paths of a patch\<close>

lemma add_new_targets:
  "distinct out \<Longrightarrow> distinct (fold (\<lambda>t out. if t \<noteq> [] \<and> t \<notin> set out then out @ [t] else out) ts out) \<and>
   set (fold (\<lambda>t out. if t \<noteq> [] \<and> t \<notin> set out then out @ [t] else out) ts out) = set out \<union> (set ts - {[]})"
  by (induction ts arbitrary: out) auto

text \<open>No path of a patch goes unseen: of a command that carries a patch, the guard checks exactly the
  non-empty targets its header lines name, a moved file's source and destination both, each once; and a command
  that carries none names no path.\<close>

theorem patch_targets_exact:
  "distinct (patch_targets command) \<and>
   set (patch_targets command) =
     (if sublist patch_preamble command
      then {t. t \<noteq> [] \<and> (\<exists>line target. line \<in> set (split_on (CHR 0x0A) command) \<and> header_target line = Some target \<and> t = py_strip target)}
      else {})"
  using add_new_targets [of "[]" "map py_strip (somes header_target (split_on (CHR 0x0A) command))"]
  by (auto simp: patch_targets_def set_somes)

section \<open>The hook's answer\<close>

text \<open>The flip check of \<^verbatim>\<open>main\<close> is asked only about a path the rules let through that resolves to the state, and
  the rules never let that path through: its message is never given.\<close>

lemma state_never_allowed: "ck_rel ck file = Some state_path \<Longrightarrow> evaluate en ck file Edit repair = Inr (Some MachineWritten)"
proof -
  assume a: "ck_rel ck file = Some state_path"
  have "covered_by state_path machine_written" by code_simp
  with a show ?thesis by (simp add: evaluate_def)
qed

lemma first_refusal_allows:
  "first_refusal en ck resolve tool_input raws = Inr None \<longleftrightarrow>
     list_all (\<lambda>raw. evaluate en ck (resolve raw) Edit None = Inr None) raws"
proof (induction raws)
  case (Cons raw raws)
  show ?case
  proof (cases "evaluate en ck (resolve raw) Edit None")
    case (Inr verdict)
    with state_never_allowed [of ck "resolve raw" en None] Cons show ?thesis
      by (cases verdict) (auto simp: bind_err_def)
  qed (simp add: bind_err_def)
qed simp

lemma flip_message_never_given: "first_refusal en ck resolve tool_input raws \<noteq> Inr (Some (raw, FlipRefused opened))"
proof (induction raws)
  case (Cons r raws)
  show ?case
  proof (cases "evaluate en ck (resolve r) Edit None")
    case (Inr verdict)
    with state_never_allowed [of ck "resolve r" en None] Cons show ?thesis
      by (cases verdict) (auto simp: bind_err_def)
  qed (simp add: bind_err_def)
qed simp

text \<open>One refused path refuses the whole call: the hook lets a call through exactly when it carries no
  arguments the guard knows (which it cannot check) or every path those arguments name is allowed.\<close>

theorem hook_allows_iff:
  "hook_answer en ck resolve hook_call = Inr None \<longleftrightarrow>
     (case tool_arguments hook_call of None \<Rightarrow> True
      | Some tool_input \<Rightarrow> list_all (\<lambda>raw. evaluate en ck (resolve raw) Edit None = Inr None) (hook_paths tool_input))"
  by (simp add: hook_answer_def first_refusal_allows split: option.splits)

section \<open>Registration\<close>

lemma scan_hooks_cases:
  "scan_hooks ws verdict =
     (if list_ex (\<lambda>w. invokes_guard w \<and> ''--check-diff'' \<in> set w) ws then ''registered''
      else if list_ex invokes_guard ws then ''neutered'' else verdict)"
  by (induction ws verdict rule: scan_hooks.induct) auto

lemma invokes_guard_adjacent: "invokes_guard ws \<longleftrightarrow> (\<exists>us vs. ws = us @ [''rein'', ''guard''] @ vs)"
proof (induction ws rule: invokes_guard.induct)
  case (1 w v ws)
  show ?case
  proof
    assume "invokes_guard (w # v # ws)"
    then show "\<exists>us vs. w # v # ws = us @ [''rein'', ''guard''] @ vs"
      using 1 by (metis append_Cons append_Nil invokes_guard.simps(1))
  next
    assume "\<exists>us vs. w # v # ws = us @ [''rein'', ''guard''] @ vs"
    then obtain us vs where "w # v # ws = us @ [''rein'', ''guard''] @ vs" by blast
    then have "w = ''rein'' \<and> v = ''guard'' \<or> (\<exists>us vs. v # ws = us @ [''rein'', ''guard''] @ vs)"
      by (cases us) auto
    with 1 show "invokes_guard (w # v # ws)" by (metis invokes_guard.simps(1))
  qed
qed (auto simp: append_eq_Cons_conv)

section \<open>A commit that passes\<close>

definition opening_event :: event where
  "opening_event = \<lparr>ev_seq = 0, ev_id = ''e1'', ev_tx = ''t1'', ev_ts = ''now'', ev_kind = ''gate_approved'',
     ev_cycle = ''c1'', ev_actor = ''local-confirmation'', ev_subjects = [''mandate'', ''GA-1''], ev_prev = '''',
     ev_digest = '''', ev_detail = []\<rparr>"

definition opening_linked :: event where
  "opening_linked = (case link toy_sha None opening_event of Inr l \<Rightarrow> l | Inl _ \<Rightarrow> opening_event)"

definition opened_state :: "string \<Rightarrow> string \<Rightarrow> jobj" where
  "opened_state plan config = [(''gates'', JObj [(''mandate'', JObj [(''status'', JStr ''approved''),
       (''receipt'', JObj [(''approval_id'', JStr ''GA-1'')])])]),
     (''plan'', JObj [(''status'', JStr ''frozen''), (''digest'', JStr plan), (''config_digest'', JStr config)])]"

definition opening_pins :: "string \<times> string" where
  "opening_pins = (case (plan_digest toy_sha tidy_plan, frozen_digest toy_sha []) of (Inr p, Inr c) \<Rightarrow> (p, c) | _ \<Rightarrow> ([], []))"

definition opening_state :: jobj where
  "opening_state = opened_state (fst opening_pins) (snd opening_pins)"

definition opening_env :: env where
  "opening_env = \<lparr>en_sha = toy_sha, en_loads = table_loads [JObj (to_mapping opening_linked)],
     en_load_doc = (\<lambda>s. if s = ''plan'' then Inr tidy_plan else if s = ''state'' then Inr opening_state
       else if s = ''config'' then Inr [] else Inr []),
     en_dump = (\<lambda>m. ser (JObj m)), en_schema = (\<lambda>_ _. True), en_event_ok = (\<lambda>_. True)\<rparr>"

definition opening_checkout :: checkout where
  "opening_checkout = \<lparr>ck_rel = Some,
     ck_read = (\<lambda>p. if p = plan_path then Contents ''plan'' else if p = state_path then Contents ''state''
       else if p = config_path then Contents ''config''
       else if p = events_path then Contents (ser (JObj (to_mapping opening_linked)) @ newline) else Missing),
     ck_git_head_state = Some ''head'', ck_git_status = Some '' M .rein/state.yaml'', ck_granted = False\<rparr>"

lemma opening_log: "scan_log opening_env opening_checkout = Inr ([norm_event opening_linked], [])"
proof -
  have "\<not> isl (link toy_sha None opening_event)" by code_simp
  then have l: "link toy_sha None opening_event = Inr opening_linked"
    by (cases "link toy_sha None opening_event") (simp_all add: opening_linked_def)
  have "plain (JObj (to_mapping opening_linked))" unfolding plain_def by code_simp
  moreover have "one_line opening_linked" "within small_limits (norm (JObj (to_mapping opening_linked)))"
    "length (ser (JObj (to_mapping opening_linked))) \<le> max_bytes small_limits"
    by (code_simp, code_simp, code_simp)
  ultimately have "scan_text toy_sha (table_loads [JObj (to_mapping opening_linked)]) (\<lambda>_. True)
      (ser (JObj (to_mapping opening_linked)) @ newline) = Inr ([norm_event opening_linked], [])"
    by (rule one_event_log [OF l])
  then show ?thesis
    by (simp add: scan_log_def opening_env_def opening_checkout_def map_err_def plan_path_def state_path_def
        config_path_def events_path_def)
qed

lemma opening_reads:
  "ck_read opening_checkout plan_path = Contents ''plan''" "ck_read opening_checkout state_path = Contents ''state''"
  "ck_read opening_checkout config_path = Contents ''config''" "ck_git_head_state opening_checkout = Some ''head''"
  "en_load_doc opening_env ''plan'' = Inr tidy_plan" "en_load_doc opening_env ''state'' = Inr opening_state"
  "en_load_doc opening_env ''config'' = Inr []" "en_load_doc opening_env ''head'' = Inr []" "en_sha opening_env = toy_sha"
  "en_schema opening_env = (\<lambda>_ _. True)" "ck_rel opening_checkout = Some"
  by (simp_all add: opening_checkout_def opening_env_def plan_path_def state_path_def config_path_def)

lemma opening_pinned:
  "plan_digest toy_sha tidy_plan = Inr (fst opening_pins)" "frozen_digest toy_sha [] = Inr (snd opening_pins)"
proof -
  have "\<not> isl (plan_digest toy_sha tidy_plan)" "\<not> isl (frozen_digest toy_sha [])" by code_simp+
  then show "plan_digest toy_sha tidy_plan = Inr (fst opening_pins)" "frozen_digest toy_sha [] = Inr (snd opening_pins)"
    by (cases "plan_digest toy_sha tidy_plan"; cases "frozen_digest toy_sha []"; simp add: opening_pins_def)+
qed

lemma digest_nonempty: "digest_of sha v ks = Inr d \<Longrightarrow> d \<noteq> []"
  by (auto simp: digest_of_def of_bytes_def digest_prefix_def bind_err_Some)

lemma opening_pins_nonempty: "fst opening_pins \<noteq> []" "snd opening_pins \<noteq> []"
  using opening_pinned by (auto simp: plan_digest_def frozen_digest_def dest: digest_nonempty)

lemma opened_fields:
  "gate_status (opened_state p c) ''mandate'' = ''approved''" "st_plan_status (opened_state p c) = ''frozen''"
  "st_plan_digest (opened_state p c) = p" "st_plan_config_digest (opened_state p c) = c"
  "scope_expansions (opened_state p c) = []" "map fst (st_gates (opened_state p c)) = [''mandate'']"
  "gate_receipt (opened_state p c) ''mandate'' = Some [(''approval_id'', JStr ''GA-1'')]"
  by (simp_all add: opened_state_def gate_status_def gate_receipt_def st_gates_def st_plan_status_def st_plan_digest_def
      st_plan_config_digest_def scope_expansions_def obj_field_def jget_def jget_or_def str_field_def)

lemma opening_more:
  "last_index [norm_event opening_linked] ''gate_approved'' ''mandate'' = 0"
  "last_index [norm_event opening_linked] ''gate_carried'' ''mandate'' = -1"
  "last_index [norm_event opening_linked] ''gate_revised'' ''mandate'' = -1"
  "ev_subjects (norm_event opening_linked) = [''mandate'', ''GA-1'']"
  by code_simp+

lemma opening_rest:
  "config_problems [] = []" "somes status_path (splitlines '' M .rein/state.yaml'') = [state_path]"
  "raw_scope tidy_plan = Inr ([], [])" "settings_of [] = default_settings"
  "longest_cover state_path default_guard_paths = None" "st_gates [] = []"
  by code_simp+

lemma opening_allowed: "evaluate opening_env opening_checkout state_path Commit None = Inr None"
proof -
  have "read_settings opening_env opening_checkout = Inr default_settings"
    by (simp add: read_settings_def opening_reads opening_rest)
  moreover have "guard_state opening_env opening_checkout = Inr (Some opening_state)"
    by (simp add: guard_state_def opening_reads)
  moreover have "expansions_in_force opening_env opening_checkout opening_state = Inr []"
    by (simp add: expansions_in_force_def opening_state_def opened_fields)
  then have "inside_the_mandate opening_env opening_checkout state_path default_guard_paths opening_state None = Inr None"
    using opening_rest by (simp add: inside_the_mandate_def opening_reads bind_err_def outside_the_mandate_def covered_by_def)
  ultimately show ?thesis
    by (simp add: evaluate_def rule_three_def opening_reads bind_err_def default_settings_def opening_state_def opened_fields)
qed

lemma opening_flips: "flips (gates_or_empty opening_env ''head'') (gates_or_empty opening_env ''state'') = [''mandate'']"
proof -
  obtain entry where "st_gates opening_state = [(''mandate'', entry)]"
    using opened_fields(6) [of "fst opening_pins" "snd opening_pins"] by (auto simp: opening_state_def)
  then show ?thesis
    by (simp add: flips_def gates_or_empty_def opening_reads opening_rest) (simp add: opening_state_def opened_fields)
qed

lemma opening_changed: "changed_paths opening_checkout = Some [state_path]"
  by (simp add: changed_paths_def opening_rest opening_checkout_def)

lemma opening_passes: "check_diff opening_env opening_checkout = Inr 0"
proof -
  note c = opening_changed
  have f: "flip_failures opening_env opening_checkout = Inr []"
    by (simp add: flip_failures_def opening_reads opening_flips opening_log bind_err_def Let_def somes_def flip_problem_def
        opening_more opening_state_def opened_fields)
       (simp add: str_get_def jget_or_def)
  have z: "frozen_artifact_failures opening_env opening_checkout = Inr []"
    by (simp add: frozen_artifact_failures_def read_state_def read_plan_def read_config_def read_checked_def plan_ok_def tidy_clean
        opening_reads opening_rest bind_err_def map_err_def frozen_check_def opening_pinned)
       (simp add: opening_state_def opened_fields)
  have "reviews_path \<noteq> state_path" by (simp add: reviews_path_def state_path_def)
  then show ?thesis by (simp add: check_diff_def c f z opening_allowed bind_err_def)
qed

lemma opening_state_read: "read_state opening_env opening_checkout = Inr (Some (Valid opening_state))"
  by (simp add: read_state_def read_checked_def opening_reads opening_rest)

theorem commit_check_holds_witness:
  "evaluate opening_env opening_checkout state_path Commit None = Inr None \<and>
   (\<exists>es. scan_log opening_env opening_checkout = Inr (es, []) \<and> backed opening_state es ''mandate'') \<and>
   (\<exists>plan. read_plan opening_env opening_checkout = Inr (Some (Valid plan)) \<and>
      plan_digest (en_sha opening_env) plan = Inr (st_plan_digest opening_state))"
proof -
  note h = commit_check_holds [OF opening_passes opening_changed]
  have "evaluate opening_env opening_checkout state_path Commit None = Inr None" using h by simp
  moreover have "\<exists>es. scan_log opening_env opening_checkout = Inr (es, []) \<and> backed opening_state es ''mandate''"
    using h opening_flips by (auto simp: opening_reads)
  moreover have "st_plan_status opening_state = ''frozen''" "st_plan_digest opening_state \<noteq> []"
    by (simp_all add: opening_state_def opened_fields opening_pins_nonempty)
  with h opening_state_read have "\<exists>plan. read_plan opening_env opening_checkout = Inr (Some (Valid plan)) \<and>
      plan_digest (en_sha opening_env) plan = Inr (st_plan_digest opening_state)" by blast
  ultimately show ?thesis by blast
qed

end
