(* ===== verification/Approve.thy ===== *)
theory Approve
  imports Changes HumanReview Hooks EventQueries Revise
begin

text \<open>
  \<^verbatim>\<open>approve.py\<close> from the digests an approval covers to the transaction that records it:
  \<^verbatim>\<open>approval_subject\<close>, the crossings a mandate approval carries back (\<^verbatim>\<open>carried_crossings\<close>,
  \<^verbatim>\<open>_withdrawn_approval\<close>), the freeze of the plan (\<^verbatim>\<open>_frozen_plan_block\<close>) and \<^verbatim>\<open>record_approval\<close>. What is
  shown on the screen, the confirmation itself and the observations recorded afterwards are not modelled. The
  documents and the log are the store's \<^term>\<open>disk\<close>; the configuration, which the store reads and never writes, and
  the other files of the repository stand beside it.
\<close>

section \<open>What an approval reads\<close>

record workspace =
  ws_disk :: disk
  ws_config :: "string option"
  ws_bytes :: "string \<Rightarrow> string option"

datatype approve_error =
    UnknownChannel string
  | NoStateToRecord
  | LogHasDefects
  | ChainMoved
  | NothingToAuthorize string
  | NoSuchTask string
  | NoGeneratedReview
  | CannotFreeze "blocker list"
  | AnswersMoved
  | NoPlanToFreeze
  | NoConfigToFreeze
  | DocumentMoved string
  | NoGates
  | NotAContainer string
  | EventBad make_error
  | FromTheStore store_error

abbreviation ok_store :: "store_error + 'a \<Rightarrow> approve_error + 'a" where
  "ok_store \<equiv> map_err FromTheStore"

abbreviation ok_digest :: "digest_error + 'a \<Rightarrow> approve_error + 'a" where
  "ok_digest \<equiv> map_err (\<lambda>e. FromTheStore (NoDigest e))"

text \<open>\<^verbatim>\<open>Store.read_plan\<close> and \<^verbatim>\<open>Store.read_config\<close>, with the checks beside the schema.\<close>

definition read_the_plan :: "env \<Rightarrow> workspace \<Rightarrow> store_error + jobj option" where
  "read_the_plan en ws =
     bind_err (read_document en (ws_disk ws) ''plan'') (\<lambda>plan. case plan of
         None \<Rightarrow> Inr None
       | Some raw \<Rightarrow> if cross_reference_errors raw = [] then Inr (Some raw) else Inl (DocumentRejected ''plan''))"

definition read_the_config :: "env \<Rightarrow> workspace \<Rightarrow> store_error + jobj option" where
  "read_the_config en ws =
     (case ws_config ws of
        None \<Rightarrow> Inr None
      | Some t \<Rightarrow> bind_err (map_err (Unreadable ''config'') (en_load_doc en t)) (\<lambda>raw.
          if en_schema en ''config'' raw \<and> config_problems raw = [] then Inr (Some raw) else Inl (DocumentRejected ''config'')))"

definition scan_disk :: "env \<Rightarrow> workspace \<Rightarrow> approve_error + event list \<times> defect list" where
  "scan_disk en ws = ok_digest (scan_text (en_sha en) (en_loads en) (en_event_ok en) (dk_log (ws_disk ws)))"

section \<open>What an approval covers\<close>

definition mandate_sources :: "string list" where
  "mandate_sources = [''docs/10-requirements.md'', ''docs/20-design.md'']"

definition receipt_digests :: "string list" where
  "receipt_digests = [''plan_digest'', ''crossing_digest'', ''config_digest'', ''environment_digest'', ''machine_digest'',
     ''human_digest'', ''artifact_digest'', ''validation_digest'', ''attested_chain_root'']"

definition source_docs :: "string list" where
  "source_docs = [''docs/10-requirements.md'', ''docs/20-design.md'', ''docs/05-current-state.md'']"

definition ticket_path :: "string \<Rightarrow> string" where
  "ticket_path tid = ''docs/tasks/'' @ tid @ ''.md''"

definition file_digests :: "env \<Rightarrow> workspace \<Rightarrow> string list \<Rightarrow> (string \<times> string) list" where
  "file_digests en ws paths =
     concat (map (\<lambda>p. case ws_bytes ws p of None \<Rightarrow> [] | Some b \<Rightarrow> [(p, of_bytes (en_sha en) b)]) paths)"

definition str_obj :: "(string \<times> string) list \<Rightarrow> jobj" where
  "str_obj kvs = map (\<lambda>kv. (fst kv, JStr (snd kv))) kvs"

definition approved_human :: "jobj \<Rightarrow> jobj" where
  "approved_human review =
     (if human_status review = ''frozen'' then review
      else case freeze review (rw_human review) of
          Inl _ \<Rightarrow> review
        | Inr h \<Rightarrow> jset ''human'' (JObj h) review)"

definition crossing_digest :: "env \<Rightarrow> workspace \<Rightarrow> jobj \<Rightarrow> jobj \<Rightarrow> string \<Rightarrow> approve_error + string" where
  "crossing_digest en ws plan config tid =
     (case crossing_subject plan tid of
        None \<Rightarrow> Inl (NoSuchTask tid)
      | Some subject \<Rightarrow>
          bind_err (ok_digest (frozen_digest (en_sha en) config)) (\<lambda>frozen.
          ok_digest (digest_of (en_sha en) (JObj (as_obj subject @
            [(''ticket'', JStr (case ws_bytes ws (ticket_path tid) of None \<Rightarrow> [] | Some b \<Rightarrow> of_bytes (en_sha en) b)),
             (''config'', JStr frozen)])) [])))"

text \<open>What the subject says of the plan and the configuration: of a crossing gate, what it authorizes.\<close>

definition bound_content :: "env \<Rightarrow> workspace \<Rightarrow> bool \<Rightarrow> jobj option \<Rightarrow> jobj option \<Rightarrow> string \<Rightarrow>
    approve_error + (string \<times> string) list" where
  "bound_content en ws crossing plan config gate =
     (if crossing then
        (case (plan, config) of
           (Some p, Some c) \<Rightarrow> bind_err (crossing_digest en ws p c gate) (\<lambda>d. Inr [(''crossing_digest'', d)])
         | _ \<Rightarrow> Inl (NothingToAuthorize gate))
      else
        bind_err (case plan of None \<Rightarrow> Inr [] | Some p \<Rightarrow> bind_err (ok_digest (plan_digest (en_sha en) p)) (\<lambda>d. Inr [(''plan_digest'', d)])) (\<lambda>a.
        bind_err (case config of None \<Rightarrow> Inr [] | Some c \<Rightarrow> bind_err (ok_digest (frozen_digest (en_sha en) c)) (\<lambda>d. Inr [(''config_digest'', d)])) (\<lambda>b.
          Inr (a @ b))))"

definition bound_review :: "env \<Rightarrow> jobj option \<Rightarrow> string \<Rightarrow> approve_error + (string \<times> string) list" where
  "bound_review en review gate =
     (case review of
        None \<Rightarrow> Inr []
      | Some r \<Rightarrow>
          if \<not> is_generated r then Inr []
          else bind_err (ok_digest (machine_digest (en_sha en) r)) (\<lambda>m.
               bind_err (ok_digest (human_digest (en_sha en) (if gate = ''acceptance'' then approved_human r else r))) (\<lambda>h.
                 Inr [(''machine_digest'', m), (''human_digest'', h)])))"

definition bound_artifacts :: "env \<Rightarrow> workspace \<Rightarrow> string \<Rightarrow> approve_error + (string \<times> string) list" where
  "bound_artifacts en ws gate =
     (let present = file_digests en ws mandate_sources
      in if gate = ''mandate'' \<and> present \<noteq> []
         then bind_err (ok_digest (digest_of (en_sha en) (JObj (str_obj present)) [])) (\<lambda>d. Inr [(''artifact_digest'', d)])
         else Inr [])"

definition approval_subject :: "env \<Rightarrow> string \<Rightarrow> workspace \<Rightarrow> string \<Rightarrow> approve_error + (string \<times> string) list" where
  "approval_subject en repository ws gate =
     bind_err (ok_store (read_document en (ws_disk ws) ''state'')) (\<lambda>state.
     bind_err (ok_store (read_the_plan en ws)) (\<lambda>plan.
     bind_err (ok_store (read_document en (ws_disk ws) ''review'')) (\<lambda>review.
     bind_err (ok_store (read_the_config en ws)) (\<lambda>config.
     bind_err (scan_disk en ws) (\<lambda>sc.
     bind_err (bound_content en ws (case state of None \<Rightarrow> False | Some st \<Rightarrow> gate \<in> set (crossing_gates st)) plan config gate) (\<lambda>content.
     bind_err (case config of None \<Rightarrow> Inr [] | Some c \<Rightarrow> bind_err (ok_digest (environment_digest (en_sha en) c)) (\<lambda>d. Inr [(''environment_digest'', d)])) (\<lambda>environment.
     bind_err (bound_review en review gate) (\<lambda>reviewed.
     bind_err (bound_artifacts en ws gate) (\<lambda>artifacts.
     bind_err (ok_digest (digest_of (en_sha en) (JObj [(''gate'', JStr gate), (''readiness'', JStr ''clear'')]) [])) (\<lambda>validation.
       Inr ([(''repository_id'', repository), (''cycle_id'', case state of None \<Rightarrow> [] | Some st \<Rightarrow> st_cycle_id st),
             (''attested_chain_root'', chain_root (en_sha en) (fst sc))] @ content @ environment @ reviewed @ artifacts @
            [(''validation_digest'', validation)])))))))))))"

section \<open>Crossings carried back\<close>

definition gate_events :: "string list" where
  "gate_events = [''gate_approved'', ''gate_carried'', ''gate_revised'']"

text \<open>Python's \<^verbatim>\<open>in\<close> on what a detail holds under a key.\<close>

fun names_gate :: "string \<Rightarrow> json \<Rightarrow> bool option" where
  "names_gate g (JArr xs) = Some (JStr g \<in> set xs)"
| "names_gate g (JObj kvs) = Some (g \<in> fst ` set kvs)"
| "names_gate g (JStr s) = Some (sublist g s)"
| "names_gate g _ = None"

definition reset_by :: "event \<Rightarrow> string \<Rightarrow> approve_error + bool" where
  "reset_by e g = (case names_gate g (jget_or (ev_detail e) ''gates_reset'' (JArr [])) of
      None \<Rightarrow> Inl (NotAContainer ''gates_reset'') | Some b \<Rightarrow> Inr b)"

definition about :: "event \<Rightarrow> string \<Rightarrow> approve_error + bool" where
  "about e g = (if ev_kind e = ''gate_revised'' then reset_by e g else Inr (take 1 (ev_subjects e) = [g]))"

definition confirmed_by :: "event \<Rightarrow> (string \<times> string) option" where
  "confirmed_by e =
     (let original = (if ev_kind e = ''gate_approved'' then (if length (ev_subjects e) > 1 then ev_subjects e ! 1 else [])
                      else str_get (ev_detail e) ''carried_from'' '''');
          d = str_get (ev_detail e) ''crossing_digest'' ''''
      in if original \<noteq> [] \<and> d \<noteq> [] then Some (original, d) else None)"

text \<open>The walk of \<^verbatim>\<open>_withdrawn_approval\<close>, latest event first.\<close>

fun withdrawn_walk :: "string \<Rightarrow> bool \<Rightarrow> event list \<Rightarrow> approve_error + (string \<times> string) option" where
  "withdrawn_walk g revised [] = Inr None"
| "withdrawn_walk g revised (e # es) =
     (if ev_kind e \<notin> set gate_events then withdrawn_walk g revised es
      else if ev_kind e = ''gate_approved'' \<and> take 1 (ev_subjects e) = [''mandate''] \<and> \<not> revised then Inr None
      else bind_err (about e g) (\<lambda>here.
        if \<not> here then withdrawn_walk g revised es
        else if \<not> revised then
          (if ev_kind e \<noteq> ''gate_revised'' \<or> jget (ev_detail e) ''target_gate'' = JStr g then Inr None
           else withdrawn_walk g True es)
        else if ev_kind e \<in> set [''gate_approved'', ''gate_carried''] then Inr (confirmed_by e)
        else Inr None))"

definition withdrawn_approval :: "event list \<Rightarrow> string \<Rightarrow> approve_error + (string \<times> string) option" where
  "withdrawn_approval es g = withdrawn_walk g False (rev es)"

fun carried_from :: "env \<Rightarrow> workspace \<Rightarrow> event list \<Rightarrow> jobj \<Rightarrow> jobj \<Rightarrow> string list \<Rightarrow>
    approve_error + (string \<times> string \<times> string) list" where
  "carried_from en ws es plan config [] = Inr []"
| "carried_from en ws es plan config (t # ts) =
     bind_err (withdrawn_approval es t) (\<lambda>w.
     bind_err (case w of
         None \<Rightarrow> Inr []
       | Some (original, d) \<Rightarrow> bind_err (crossing_digest en ws plan config t) (\<lambda>now.
           Inr (if d = now then [(t, original, d)] else []))) (\<lambda>here.
     bind_err (carried_from en ws es plan config ts) (\<lambda>rest. Inr (here @ rest))))"

definition carried_crossings :: "env \<Rightarrow> workspace \<Rightarrow> event list \<Rightarrow> jobj \<Rightarrow> jobj option \<Rightarrow>
    approve_error + (string \<times> string \<times> string) list" where
  "carried_crossings en ws es plan config =
     (case config of None \<Rightarrow> Inr [] | Some c \<Rightarrow> carried_from en ws es plan c (crossing_task_ids plan))"

section \<open>The freeze\<close>

definition artifact_refs :: "jobj \<Rightarrow> string list" where
  "artifact_refs plan = (case jget (obj_field plan ''cycle'') ''artifacts'' of
      JObj kvs \<Rightarrow> map (\<lambda>m. str_get m ''path'' '''') (objs_in (map snd kvs)) | _ \<Rightarrow> [])"

definition implementation_sources :: "env \<Rightarrow> workspace \<Rightarrow> jobj \<Rightarrow> (string \<times> string) list" where
  "implementation_sources en ws plan =
     file_digests en ws (sorted_set (filter (\<lambda>p. p \<noteq> []) (source_docs @ map ticket_path (plan_task_ids plan) @ artifact_refs plan)))"

definition still_presented :: "string \<Rightarrow> string \<Rightarrow> string \<Rightarrow> approve_error + unit" where
  "still_presented name current presented =
     (if presented \<noteq> [] \<and> \<not> matches presented current then Inl (DocumentMoved name) else Inr ())"

definition frozen_plan_block :: "env \<Rightarrow> workspace \<Rightarrow> (string \<times> string) list \<Rightarrow> string \<Rightarrow> approve_error + jobj" where
  "frozen_plan_block en ws subject now =
     bind_err (ok_store (read_the_plan en ws)) (\<lambda>plan.
     bind_err (ok_store (read_the_config en ws)) (\<lambda>config.
     case plan of None \<Rightarrow> Inl NoPlanToFreeze | Some p \<Rightarrow> (case config of None \<Rightarrow> Inl NoConfigToFreeze | Some c \<Rightarrow>
       bind_err (ok_digest (plan_digest (en_sha en) p)) (\<lambda>pd.
       bind_err (ok_digest (frozen_digest (en_sha en) c)) (\<lambda>cd.
       bind_err (still_presented ''plan.yaml'' pd (or_else subject ''plan_digest'' '''')) (\<lambda>_.
       bind_err (still_presented ''config.yaml'' cd (or_else subject ''config_digest'' '''')) (\<lambda>_.
       bind_err (ok_digest (environment_digest (en_sha en) c)) (\<lambda>ed.
         Inr [(''status'', JStr ''frozen''), (''digest'', JStr pd), (''config_digest'', JStr cd), (''environment_digest'', JStr ed),
              (''sources'', JObj (str_obj (implementation_sources en ws p))), (''frozen_at'', JStr now)]))))))))"

section \<open>The state an approval leaves\<close>

definition pending_entry :: jobj where
  "pending_entry = [(''status'', JStr ''pending''), (''receipt'', JNull)]"

definition approved_entry :: "jobj \<Rightarrow> jobj" where
  "approved_entry receipt = [(''status'', JStr ''approved''), (''receipt'', JObj receipt)]"

definition receipt_of :: "string \<Rightarrow> string \<Rightarrow> string \<Rightarrow> string \<Rightarrow> (string \<times> string) list \<Rightarrow> jobj" where
  "receipt_of appr now via root subject =
     [(''approval_id'', JStr appr), (''confirmed_at'', JStr now), (''confirmed_via'', JStr via), (''result_chain_root'', JStr root)] @
     concat (map (\<lambda>k. if or_else subject k '''' = [] then [] else [(k, JStr (or_else subject k ''''))]) receipt_digests)"

text \<open>The cycle's gates, derived again from the plan being frozen; then the carried crossings, opened by this
  confirmation and saying which earlier one they carry.\<close>

definition recut_gates :: "string list \<Rightarrow> jobj \<Rightarrow> jobj" where
  "recut_gates crossings gates =
     fold (\<lambda>t. jset t (JObj pending_entry)) crossings (filter (\<lambda>gv. fst gv \<in> set gate_ends) gates)"

definition carried_receipt :: "jobj \<Rightarrow> string \<Rightarrow> string \<Rightarrow> jobj" where
  "carried_receipt receipt original d =
     jset ''carried_from'' (JStr original) (jset ''crossing_digest'' (JStr d)
       (filter (\<lambda>kv. fst kv \<notin> set [''plan_digest'', ''config_digest'']) receipt))"

definition carry_gates :: "jobj \<Rightarrow> (string \<times> string \<times> string) list \<Rightarrow> jobj \<Rightarrow> jobj" where
  "carry_gates receipt carried gates =
     fold (\<lambda>(t, original, d). jset t (JObj (approved_entry (carried_receipt receipt original d)))) carried gates"

record freeze_part =
  fp_crossings :: "string list"
  fp_carried :: "(string \<times> string \<times> string) list"
  fp_block :: jobj

definition dropped_gates :: "jobj \<Rightarrow> string list \<Rightarrow> string list" where
  "dropped_gates state crossings = filter (\<lambda>g. g \<notin> set crossings) (crossing_gates state)"

definition approved_state :: "jobj \<Rightarrow> string \<Rightarrow> jobj \<Rightarrow> string \<Rightarrow> freeze_part option \<Rightarrow> jobj" where
  "approved_state raw gate receipt now freezing =
     (let opened = jset ''updated_at'' (JStr now) (set_gate gate (approved_entry receipt) raw);
          dropped = (case freezing of None \<Rightarrow> [] | Some f \<Rightarrow> dropped_gates raw (fp_crossings f));
          closed = fst (resolve_addressed opened (gate # dropped))
      in case freezing of
           None \<Rightarrow> closed
         | Some f \<Rightarrow> jset ''plan'' (JObj (fp_block f))
             (jset ''gates'' (JObj (carry_gates receipt (fp_carried f) (recut_gates (fp_crossings f) (obj_field closed ''gates'')))) closed))"

section \<open>Recording an approval\<close>

definition confirmation_channels :: "string list" where
  "confirmation_channels = [''terminal'', ''ui-session'']"

text \<open>A plan the schema rejects is an answer here (\<^verbatim>\<open>except DocumentError\<close>); one that cannot be read at all is not.\<close>

definition plan_if_valid :: "env \<Rightarrow> workspace \<Rightarrow> store_error + jobj option" where
  "plan_if_valid en ws =
     (case read_the_plan en ws of Inl (DocumentRejected _) \<Rightarrow> Inr None | r \<Rightarrow> r)"

definition reach_movement :: "env \<Rightarrow> workspace \<Rightarrow> approve_error + string list \<times> (string \<times> string) list option" where
  "reach_movement en ws =
     bind_err (ok_store (plan_if_valid en ws)) (\<lambda>plan. case plan of
         None \<Rightarrow> Inr ([], None)
       | Some p \<Rightarrow> bind_err (scan_disk en ws) (\<lambda>sc.
           let before = derived_reaches (fst sc)
           in Inr (map el_id (filter (\<lambda>d. map_of before (el_id d) = Some ''mandate'' \<and> decision_reach d = ''local'') (plan_decisions p)),
                   Some (dict_of (map (\<lambda>d. (el_id d, decision_reach d)) (plan_decisions p))))))"

text \<open>What is read before the transaction opens.\<close>

record approval_reading =
  ar_state :: jobj
  ar_seen :: string
  ar_reaches :: "(string \<times> string) list option"
  ar_crossings :: "string list"
  ar_plan :: "jobj option"
  ar_config :: "jobj option"

definition read_for_approval :: "env \<Rightarrow> workspace \<Rightarrow> string \<Rightarrow> approve_error + approval_reading" where
  "read_for_approval en ws gate =
     bind_err (ok_store (read_document en (ws_disk ws) ''state'')) (\<lambda>state. case state of
         None \<Rightarrow> Inl NoStateToRecord
       | Some st \<Rightarrow>
           bind_err (ok_store (read_digest en (Some st))) (\<lambda>seen.
           if gate \<noteq> ''mandate''
           then Inr \<lparr>ar_state = st, ar_seen = seen, ar_reaches = None, ar_crossings = [], ar_plan = None, ar_config = None\<rparr>
           else
             bind_err (reach_movement en ws) (\<lambda>moved.
             bind_err (ok_store (plan_if_valid en ws)) (\<lambda>draft.
             let crossings = (case draft of None \<Rightarrow> [] | Some p \<Rightarrow> crossing_task_ids p)
             in bind_err (if crossings = [] then Inr None else ok_store (read_the_plan en ws)) (\<lambda>plan.
                bind_err (if crossings = [] then Inr None else ok_store (read_the_config en ws)) (\<lambda>config.
                  Inr \<lparr>ar_state = st, ar_seen = seen, ar_reaches = snd moved, ar_crossings = crossings, ar_plan = plan,
                       ar_config = config\<rparr>))))))"

text \<open>\<^verbatim>\<open>tx.append\<close>, with the id the store draws for the transaction's next event.\<close>

definition note_event :: "approval_reading \<Rightarrow> string \<Rightarrow> string list \<Rightarrow> jobj \<Rightarrow> (nat \<Rightarrow> string) \<Rightarrow> string \<Rightarrow> txn \<Rightarrow> approve_error + txn" where
  "note_event rd kind ids detail fresh now tx =
     bind_err (map_err EventBad (EventQueries.make kind (st_cycle_id (ar_state rd)) ''local-confirmation'' ids detail
         (tx_id tx) (fresh (length (tx_events tx))) now)) (\<lambda>e. Inr (tx_append e tx))"

definition approval_detail :: "env \<Rightarrow> workspace \<Rightarrow> string \<Rightarrow> (string \<times> string) list \<Rightarrow> string \<Rightarrow> approve_error + jobj" where
  "approval_detail en ws gate subject root =
     bind_err (ok_digest (digest_of (en_sha en) (JObj (str_obj subject)) [])) (\<lambda>d.
     let crossing = or_else subject ''crossing_digest'' ''''; planned = or_else subject ''plan_digest'' '''';
         base = [(''attested_chain_root'', JStr root), (''subject_digest'', JStr d)] @
           (if crossing \<noteq> [] then [(''crossing_digest'', JStr crossing)] else [])
     in if gate = ''mandate'' \<and> planned \<noteq> []
        then bind_err (ok_store (read_the_plan en ws)) (\<lambda>p. Inr (base @ [(''plan_digest'', JStr planned)] @
               (case p of None \<Rightarrow> [] | Some p \<Rightarrow> [(''sources'', JObj (str_obj (implementation_sources en ws p)))])))
        else Inr base)"

text \<open>At acceptance: the answers frozen by this very approval, if they are the ones the subject presented.\<close>

definition freeze_answers :: "env \<Rightarrow> workspace \<Rightarrow> (string \<times> string) list \<Rightarrow> approval_reading \<Rightarrow> (nat \<Rightarrow> string) \<Rightarrow> string \<Rightarrow> txn \<Rightarrow>
    approve_error + txn" where
  "freeze_answers en ws subject rd fresh now tx =
     bind_err (ok_store (read_document en (ws_disk ws) ''review'')) (\<lambda>review. case review of
         None \<Rightarrow> Inl NoGeneratedReview
       | Some r \<Rightarrow>
           let approved = approved_human r
           in if \<not> is_generated r then Inl NoGeneratedReview
              else if human_status approved \<noteq> ''frozen'' then Inl (CannotFreeze (completion_blockers (Some r) (Some (rw_human r))))
              else
                bind_err (ok_digest (human_digest (en_sha en) approved)) (\<lambda>h.
                if h \<noteq> or_else subject ''human_digest'' '''' then Inl AnswersMoved
                else if human_status r = ''frozen'' then Inr tx
                else
                  bind_err (ok_store (read_digest en (Some r))) (\<lambda>seen.
                  bind_err (ok_store (tx_write en ''review'' approved (Some seen) tx)) (\<lambda>tx1.
                    note_event rd ''human_review_frozen'' [] [] fresh now tx1))))"

fun note_carried :: "approval_reading \<Rightarrow> string \<Rightarrow> (nat \<Rightarrow> string) \<Rightarrow> string \<Rightarrow> (string \<times> string \<times> string) list \<Rightarrow> txn \<Rightarrow>
    approve_error + txn" where
  "note_carried rd appr fresh now [] tx = Inr tx"
| "note_carried rd appr fresh now ((t, original, d) # cs) tx =
     bind_err (note_event rd ''gate_carried'' [t, appr] [(''crossing_digest'', JStr d), (''carried_from'', JStr original)] fresh now tx)
       (note_carried rd appr fresh now cs)"

definition note_reaches :: "approval_reading \<Rightarrow> (nat \<Rightarrow> string) \<Rightarrow> string \<Rightarrow> event list \<Rightarrow> txn \<Rightarrow> approve_error + txn" where
  "note_reaches rd fresh now es tx =
     (case ar_reaches rd of
        None \<Rightarrow> Inr tx
      | Some reaches \<Rightarrow>
          if sort_key fst reaches = sort_key fst (derived_reaches es) then Inr tx
          else note_event rd ''decisions_derived'' [] [(''reaches'', JObj (str_obj reaches))] fresh now tx)"

definition freeze_plan :: "env \<Rightarrow> workspace \<Rightarrow> (string \<times> string) list \<Rightarrow> approval_reading \<Rightarrow> string \<Rightarrow> (nat \<Rightarrow> string) \<Rightarrow> string \<Rightarrow>
    event list \<Rightarrow> (string \<times> string \<times> string) list \<Rightarrow> txn \<Rightarrow> approve_error + jobj \<times> txn" where
  "freeze_plan en ws subject rd appr fresh now es carried tx =
     bind_err (note_carried rd appr fresh now carried tx) (\<lambda>tx1.
     bind_err (frozen_plan_block en ws subject now) (\<lambda>blk.
     bind_err (note_event rd ''plan_frozen'' [appr] (map (\<lambda>k. (k, jget blk k)) frozen_plan_keys) fresh now tx1) (\<lambda>tx2.
     bind_err (note_reaches rd fresh now es tx2) (\<lambda>tx3. Inr (blk, tx3)))))"

text \<open>The body of the transaction, with the store's lock held.\<close>

definition stage_approval :: "env \<Rightarrow> workspace \<Rightarrow> string \<Rightarrow> (string \<times> string) list \<Rightarrow> string \<Rightarrow> string \<Rightarrow> string \<Rightarrow> string \<Rightarrow>
    (nat \<Rightarrow> string) \<Rightarrow> approval_reading \<Rightarrow> approve_error + txn" where
  "stage_approval en ws gate subject via appr now tid fresh rd =
     bind_err (scan_disk en ws) (\<lambda>(es, ds).
     if ds \<noteq> [] then Inl LogHasDefects
     else if \<not> verify_root (en_sha en) es (or_else subject ''attested_chain_root'' '''') then Inl ChainMoved
     else
       bind_err (case ar_plan rd of None \<Rightarrow> Inr [] | Some p \<Rightarrow> carried_crossings en ws es p (ar_config rd)) (\<lambda>carried.
       bind_err (approval_detail en ws gate subject (chain_root (en_sha en) es)) (\<lambda>detail.
       bind_err (note_event rd ''gate_approved'' [gate, appr] detail fresh now (begin_tx tid)) (\<lambda>tx1.
       bind_err (ok_store (projected_chain_root en (ws_disk ws) tx1)) (\<lambda>root.
       let receipt = receipt_of appr now via root subject
       in if \<not> is_obj (jget (ar_state rd) ''gates'') then Inl NoGates
          else
            bind_err (if gate = ''acceptance'' then freeze_answers en ws subject rd fresh now tx1 else Inr tx1) (\<lambda>tx2.
            bind_err (if gate = ''mandate''
                then bind_err (freeze_plan en ws subject rd appr fresh now es carried tx2) (\<lambda>(blk, tx3).
                       Inr (Some \<lparr>fp_crossings = ar_crossings rd, fp_carried = carried, fp_block = blk\<rparr>, tx3))
                else Inr (None, tx2)) (\<lambda>(freezing, tx3).
              ok_store (tx_write en ''state'' (approved_state (ar_state rd) gate receipt now freezing) (Some (ar_seen rd)) tx3))))))))"

definition upper_ascii :: "string \<Rightarrow> string" where
  "upper_ascii s = map (\<lambda>c. if 97 \<le> (of_char c :: nat) \<and> (of_char c :: nat) \<le> 122 then char_of (of_char c - (32 :: nat)) else c) s"

definition approval_id :: "string \<Rightarrow> string \<Rightarrow> string" where
  "approval_id gate drawn = ''GA-'' @ upper_ascii gate @ ''-'' @ upper_ascii (take 8 drawn)"

text \<open>\<^verbatim>\<open>record_approval\<close>: \<open>before\<close> is the checkout as it stood when the approval was prepared, \<open>ws\<close> as the
  transaction finds it; \<open>drawn\<close> and \<open>fresh\<close> are the ids drawn, \<open>now\<close> the clock.\<close>

definition record_approval :: "env \<Rightarrow> string option \<Rightarrow> workspace \<Rightarrow> workspace \<Rightarrow> string \<Rightarrow> (string \<times> string) list \<Rightarrow> string \<Rightarrow>
    string \<Rightarrow> string \<Rightarrow> string \<Rightarrow> (nat \<Rightarrow> string) \<Rightarrow> disk \<times> approve_error option" where
  "record_approval en refusal before ws gate subject via drawn now tid fresh =
     (if via \<notin> set confirmation_channels then (ws_disk ws, Some (UnknownChannel via))
      else case read_for_approval en before gate of
          Inl err \<Rightarrow> (ws_disk ws, Some err)
        | Inr rd \<Rightarrow> transaction en FromTheStore refusal True
            (\<lambda>dk. stage_approval en (ws\<lparr>ws_disk := dk\<rparr>) gate subject via (approval_id gate drawn) now tid fresh rd) (ws_disk ws))"

section \<open>The gates an approval leaves\<close>

lemma resolve_other [simp]:
  "k \<noteq> ''change_requests'' \<Longrightarrow> jget (fst (resolve_addressed raw gs)) k = jget raw k"
  "k \<noteq> ''change_requests'' \<Longrightarrow> obj_field (fst (resolve_addressed raw gs)) k = obj_field raw k"
  by (auto simp: resolve_addressed_def obj_field_def jget_def split: json.splits)

lemma obj_field_other [simp]: "k \<noteq> h \<Longrightarrow> obj_field (jset h v raw) k = obj_field raw k"
  by (simp add: obj_field_def jget_def)

lemma set_gate_gates [simp]: "obj_field (set_gate g e raw) ''gates'' = jset g (JObj e) (obj_field raw ''gates'')"
  by (simp add: set_gate_def)

lemma approved_state_gates:
  "obj_field (approved_state raw gate receipt now None) ''gates'' = obj_field (set_gate gate (approved_entry receipt) raw) ''gates''"
  "obj_field (approved_state raw gate receipt now (Some f)) ''gates'' =
     carry_gates receipt (fp_carried f) (recut_gates (fp_crossings f) (jset gate (JObj (approved_entry receipt)) (obj_field raw ''gates'')))"
  by (simp_all add: approved_state_def Let_def)

lemma approved_state_plan:
  "obj_field (approved_state raw gate receipt now (Some f)) ''plan'' = fp_block f"
  by (simp add: approved_state_def Let_def)

lemma fold_jset_const: "map_of (fold (\<lambda>t. jset t v) ts d) k = (if k \<in> set ts then Some v else map_of d k)"
  by (induction ts arbitrary: d) auto

lemma keys_fold_jset: "distinct (map fst d) \<Longrightarrow> distinct (map fst (fold (\<lambda>x. jset (f x) (h x)) xs d))"
  by (induction xs arbitrary: d) (simp_all add: distinct_update)

lemma carry_gates_lookup:
  "map_of (carry_gates receipt carried gates) k =
     (case map_of (rev carried) k of
        None \<Rightarrow> map_of gates k
      | Some (original, d) \<Rightarrow> Some (JObj (approved_entry (carried_receipt receipt original d))))"
proof (induction carried arbitrary: gates)
  case (Cons c cs)
  obtain t original d where c: "c = (t, original, d)" by (cases c)
  show ?case using Cons.IH by (auto simp: c carry_gates_def map_add_def split: option.splits)
qed (simp add: carry_gates_def)

lemma map_of_filter_keys: "map_of (filter (\<lambda>gv. fst gv \<in> S) d) k = (if k \<in> S then map_of d k else None)"
  by (induction d) auto

lemma recut_lookup:
  "map_of (recut_gates crossings gates) k =
     (if k \<in> set crossings then Some (JObj pending_entry) else if k \<in> set gate_ends then map_of gates k else None)"
  by (simp add: recut_gates_def fold_jset_const map_of_filter_keys)

definition carried_ids :: "(string \<times> string \<times> string) list \<Rightarrow> string list" where
  "carried_ids carried = map fst carried"

lemma approved_entry_status [simp]: "str_field (approved_entry r) ''status'' d = ''approved''"
  "jget (approved_entry r) ''receipt'' = JObj r"
  by (simp_all add: approved_entry_def str_field_eq jget_def)

lemma pending_entry_status [simp]: "str_field pending_entry ''status'' d = ''pending''" "jget pending_entry ''receipt'' = JNull"
  by (simp_all add: pending_entry_def str_field_eq jget_def)

lemma gate_entry: "state_ok raw \<Longrightarrow> map_of (st_gates raw) g = (case map_of (obj_field raw ''gates'') g of Some (JObj m) \<Rightarrow> Some m | _ \<Rightarrow> None)"
  by (simp add: st_gates_def state_ok_def map_of_obj_items)

lemma mandate_gates:
  fixes receipt :: jobj and now :: string
  assumes "state_ok raw" and f: "fp_crossings f = crossings" "fp_carried f = carried"
    and ends: "set crossings \<inter> set gate_ends = {}" and sub: "fst ` set carried \<subseteq> set crossings"
    and sorted: "sorted crossings" "distinct crossings"
  defines "raw' \<equiv> approved_state raw gate_first receipt now (Some f)"
  shows "state_ok raw'"
    and "gate_approved raw' g \<longleftrightarrow> g = gate_first \<or> g \<in> fst ` set carried \<or> g = gate_last \<and> gate_approved raw gate_last"
    and "crossing_gates raw' = crossings"
    and "map_of (rev carried) t = Some (original, d) \<Longrightarrow> gate_receipt raw' t = Some (carried_receipt receipt original d)"
    and "gate_receipt raw' gate_first = Some receipt"
proof -
  let ?gates = "jset gate_first (JObj (approved_entry receipt)) (obj_field raw ''gates'')"
  have m: "gate_first = ''mandate''" by (simp add: gate_first_def)
  have g': "obj_field raw' ''gates'' = carry_gates receipt carried (recut_gates crossings ?gates)"
    by (simp add: raw'_def approved_state_gates f)
  have d: "distinct (map fst (recut_gates crossings ?gates))"
    using assms(1) unfolding recut_gates_def state_ok_def
    by (intro keys_fold_jset) (simp add: distinct_map_filter distinct_update)
  show ok: "state_ok raw'"
    unfolding state_ok_def g' carry_gates_def split_def by (rule keys_fold_jset [OF d])
  have look: "map_of (obj_field raw' ''gates'') h =
      (case map_of (rev carried) h of
         Some (original, d) \<Rightarrow> Some (JObj (approved_entry (carried_receipt receipt original d)))
       | None \<Rightarrow> if h \<in> set crossings then Some (JObj pending_entry)
           else if h = gate_first then Some (JObj (approved_entry receipt))
           else if h = gate_last then map_of (obj_field raw ''gates'') gate_last else None)" for h
    by (auto simp: g' carry_gates_lookup recut_lookup gate_ends_def split: option.splits)
  have keys: "map_of (rev carried) h = None \<longleftrightarrow> h \<notin> fst ` set carried" for h
    by (simp add: map_of_eq_None_iff)
  have notc: "map_of (rev carried) gate_first = None" "map_of (rev carried) gate_last = None"
    using ends sub by (auto simp: map_of_eq_None_iff gate_ends_def image_subset_iff)
  show "gate_approved raw' g \<longleftrightarrow> g = gate_first \<or> g \<in> fst ` set carried \<or> g = gate_last \<and> gate_approved raw gate_last"
  proof (cases "map_of (rev carried) g")
    case None
    then show ?thesis using keys [of g] ends assms(1)
      by (auto simp: gate_approved_def gate_status_def gate_entry ok look notc gate_ends_def split: option.splits json.splits)
  next
    case (Some cd)
    then have "g \<in> fst ` set carried" using keys [of g] by simp
    with Some show ?thesis
      by (cases cd) (auto simp: gate_approved_def gate_status_def gate_entry ok look)
  qed
  have "set (crossing_gates raw') = set crossings"
  proof -
    have "h \<in> set (crossing_gates raw') \<longleftrightarrow> h \<in> set crossings" for h
    proof -
      have "h \<in> fst ` set (st_gates raw') \<longleftrightarrow> map_of (st_gates raw') h \<noteq> None"
        by (simp add: map_of_eq_None_iff)
      moreover have "map_of (st_gates raw') h \<noteq> None \<longleftrightarrow> h \<in> set crossings" if "h \<noteq> gate_first" "h \<noteq> gate_last"
        using that sub keys [of h] by (auto simp: gate_entry ok look image_subset_iff split: option.splits)
      ultimately show ?thesis using ends by (auto simp: set_crossing_gates gate_ends_def)
    qed
    then show ?thesis by blast
  qed
  moreover have "distinct (crossing_gates raw')" by (simp add: crossing_gates_def st_gates_keys [OF ok])
  moreover have "sorted (crossing_gates raw')" by (simp add: crossing_gates_def)
  ultimately show "crossing_gates raw' = crossings"
    using sorted sorted_distinct_set_unique by blast
  show "gate_receipt raw' t = Some (carried_receipt receipt original d)" if "map_of (rev carried) t = Some (original, d)"
    using that by (simp add: gate_receipt_def gate_entry ok look)
  show "gate_receipt raw' gate_first = Some receipt"
    using ends by (auto simp: gate_receipt_def gate_entry ok look notc gate_ends_def)
qed

lemma other_gates:
  fixes receipt :: jobj and now gate :: string
  assumes "state_ok raw"
  defines "raw' \<equiv> approved_state raw gate receipt now None"
  shows "state_ok raw'" "gate_approved raw' g \<longleftrightarrow> g = gate \<or> gate_approved raw g"
    "gate \<in> set (gate_ids raw) \<Longrightarrow> gate_ids raw' = gate_ids raw"
    "gate_receipt raw' gate = Some receipt"
proof -
  note same = same_gates [OF approved_state_gates(1), of raw gate receipt now, folded raw'_def]
  show "state_ok raw'" by (simp add: same state_ok_set_gate assms(1))
  show "gate_approved raw' g \<longleftrightarrow> g = gate \<or> gate_approved raw g"
    by (simp add: gate_approved_def same) (simp add: gate_status_def st_gates_set_gate assms(1))
  show "gate_ids raw' = gate_ids raw" if "gate \<in> set (gate_ids raw)"
    unfolding same(2) by (simp add: gate_ids_def crossing_gates_set_gate [OF assms(1) that])
  show "gate_receipt raw' gate = Some receipt"
    by (simp add: same) (simp add: gate_receipt_def st_gates_set_gate assms(1))
qed

lemma mandate_clear:
  fixes receipt :: jobj and now :: string
  assumes "state_ok raw" "fan.clear raw" "\<not> gate_approved raw gate_first"
    and f: "fp_crossings f = crossings" "fp_carried f = carried"
    and ends: "set crossings \<inter> set gate_ends = {}" and sub: "fst ` set carried \<subseteq> set crossings"
    and sorted: "sorted crossings" "distinct crossings"
  defines "raw' \<equiv> approved_state raw gate_first receipt now (Some f)"
  shows "fan.clear raw'" and "gate_ids raw' = gate_first # crossings @ [gate_last]"
    and "gate_approved raw' g \<longleftrightarrow> g = gate_first \<or> g \<in> fst ` set carried"
proof -
  note m = mandate_gates [OF assms(1) f ends sub sorted, where receipt = receipt and now = now, folded raw'_def]
  have "gate_last \<in> set (gate_ids raw)" "gate_first \<in> set (upstream_of raw gate_last)"
    by (simp_all add: gate_ids_def upstream_of_def)
  with assms(2,3) have "\<not> gate_approved raw gate_last" by (auto simp: fan.clear_def)
  then show a: "gate_approved raw' g \<longleftrightarrow> g = gate_first \<or> g \<in> fst ` set carried" for g by (simp add: m(2))
  show "gate_ids raw' = gate_first # crossings @ [gate_last]" by (simp add: gate_ids_def m(3))
  show "fan.clear raw'"
    using ends sub by (auto simp: fan.clear_def a upstream_of_def gate_ends_def image_subset_iff)
qed

lemma other_clear:
  fixes receipt :: jobj and now gate :: string
  assumes "state_ok raw" "fan.clear raw" "gate \<in> set (gate_ids raw)" "\<forall>u \<in> set (upstream_of raw gate). gate_approved raw u"
  shows "fan.clear (approved_state raw gate receipt now None)"
  using fan.approve_clear [OF assms, of "approved_entry receipt"] same_gates(6) [OF approved_state_gates(1) [of raw gate receipt now]]
  by simp

section \<open>What a staged approval consists of\<close>

lemma note_event_parts:
  assumes "note_event rd kind ids detail fresh now tx = Inr tx'"
  obtains e where "tx' = tx_append e tx" "ev_kind e = kind" "ev_subjects e = ids" "ev_detail e = detail"
    "ev_id e = fresh (length (tx_events tx))"
  using assms by (auto simp: note_event_def EventQueries.make_def map_err_def split: if_splits sum.splits)

text \<open>What a step of the body may do to the transaction: append events of these kinds, numbered on.\<close>

definition extends :: "(nat \<Rightarrow> string) \<Rightarrow> (event \<Rightarrow> bool) \<Rightarrow> txn \<Rightarrow> txn \<Rightarrow> bool" where
  "extends fresh ok tx tx' \<longleftrightarrow> (\<exists>es. tx_events tx' = tx_events tx @ es \<and> list_all ok es \<and> tx_id tx' = tx_id tx \<and>
     map ev_id es = map fresh [length (tx_events tx)..<length (tx_events tx')])"

lemma extends_refl [intro]: "extends fresh ok tx tx"
  by (simp add: extends_def)

lemma extends_trans: "extends fresh ok a b \<Longrightarrow> extends fresh ok b c \<Longrightarrow> extends fresh ok a c"
proof -
  assume "extends fresh ok a b" "extends fresh ok b c"
  then obtain es es' where e: "tx_events b = tx_events a @ es" "tx_events c = tx_events b @ es'" "list_all ok es" "list_all ok es'"
    "tx_id c = tx_id a" and m: "map ev_id es = map fresh [length (tx_events a)..<length (tx_events b)]"
    "map ev_id es' = map fresh [length (tx_events b)..<length (tx_events c)]"
    by (auto simp: extends_def)
  have "length (tx_events a) \<le> length (tx_events b)" "length (tx_events b) \<le> length (tx_events c)" using e by simp_all
  then have "[length (tx_events a)..<length (tx_events c)] = [length (tx_events a)..<length (tx_events b)] @ [length (tx_events b)..<length (tx_events c)]"
    using upt_add_eq_append le_Suc_ex by metis
  with e m show ?thesis unfolding extends_def by (intro exI [of _ "es @ es'"]) simp
qed

lemma note_event_extends:
  assumes "note_event rd kind ids detail fresh now tx = Inr tx'" "\<And>e. ev_kind e = kind \<Longrightarrow> ev_subjects e = ids \<Longrightarrow> ok e"
  shows "extends fresh ok tx tx'" "tx_writes tx' = tx_writes tx" "tx_expect tx' = tx_expect tx"
proof -
  from assms(1) obtain e where e: "tx' = tx_append e tx" "ev_kind e = kind" "ev_subjects e = ids" "ev_id e = fresh (length (tx_events tx))"
    by (rule note_event_parts)
  with assms(2) show "extends fresh ok tx tx'" "tx_writes tx' = tx_writes tx" "tx_expect tx' = tx_expect tx"
    by (auto simp: extends_def tx_append_def)
qed

text \<open>The events an approval may add after its own: none rolls anything back, and one that opens a gate names this
  approval.\<close>

definition follows_up :: "string \<Rightarrow> event \<Rightarrow> bool" where
  "follows_up appr e \<longleftrightarrow> ev_kind e \<in> {''human_review_frozen'', ''plan_frozen'', ''decisions_derived''} \<or>
     ev_kind e = ''gate_carried'' \<and> (\<exists>t. ev_subjects e = [t, appr])"

lemma note_carried_all:
  assumes "note_carried rd appr fresh now cs tx = Inr tx'"
  shows "extends fresh (follows_up appr) tx tx' \<and> tx_writes tx' = tx_writes tx \<and> tx_expect tx' = tx_expect tx \<and>
    (\<exists>es. tx_events tx' = tx_events tx @ es \<and> map ev_kind es = map (\<lambda>_. ''gate_carried'') cs \<and>
       map ev_subjects es = map (\<lambda>c. [fst c, appr]) cs)"
  using assms
proof (induction rd appr fresh now cs tx rule: note_carried.induct)
  case (2 rd appr fresh now t original d cs tx)
  from 2(2) obtain tx1 where n: "note_event rd ''gate_carried'' [t, appr] [(''crossing_digest'', JStr d), (''carried_from'', JStr original)] fresh now tx = Inr tx1"
    and c: "note_carried rd appr fresh now cs tx1 = Inr tx'" by auto
  note ih = 2(1) [OF c]
  have x: "extends fresh (follows_up appr) tx tx1" "tx_writes tx1 = tx_writes tx" "tx_expect tx1 = tx_expect tx"
    by (rule note_event_extends [OF n, where ok = "follows_up appr"], simp add: follows_up_def)+
  from n obtain e where "tx1 = tx_append e tx" "ev_kind e = ''gate_carried''" "ev_subjects e = [t, appr]"
    by (rule note_event_parts)
  with ih have "\<exists>es. tx_events tx' = tx_events tx @ es \<and> map ev_kind es = map (\<lambda>_. ''gate_carried'') ((t, original, d) # cs) \<and>
       map ev_subjects es = map (\<lambda>c. [fst c, appr]) ((t, original, d) # cs)"
    by (auto simp: tx_append_def intro: exI [of _ "e # _"])
  with extends_trans [OF x(1)] ih x(2,3) show ?case by simp
qed auto

lemmas note_carried_parts = note_carried_all [THEN conjunct1] note_carried_all [THEN conjunct2, THEN conjunct1]
  note_carried_all [THEN conjunct2, THEN conjunct2, THEN conjunct1] note_carried_all [THEN conjunct2, THEN conjunct2, THEN conjunct2]

lemma note_reaches_cases:
  assumes "note_reaches rd fresh now es tx = Inr tx'"
  obtains "tx' = tx" | detail where "note_event rd ''decisions_derived'' [] detail fresh now tx = Inr tx'"
proof (cases "ar_reaches rd")
  case None
  with assms have "tx' = tx" by (simp add: note_reaches_def)
  then show ?thesis by (rule that(1))
next
  case (Some reaches)
  show ?thesis
  proof (cases "sort_key fst reaches = sort_key fst (derived_reaches es)")
    case True
    from assms [unfolded note_reaches_def Some option.case if_P [OF True]] have "tx' = tx" by simp
    then show ?thesis by (rule that(1))
  next
    case False
    with assms Some have "note_event rd ''decisions_derived'' [] [(''reaches'', JObj (str_obj reaches))] fresh now tx = Inr tx'"
      unfolding note_reaches_def by (simp only: option.case if_False)
    then show ?thesis by (rule that(2))
  qed
qed

lemma freeze_plan_parts:
  assumes "freeze_plan en ws subject rd appr fresh now es carried tx = Inr (blk, tx')"
  shows "frozen_plan_block en ws subject now = Inr blk" "extends fresh (follows_up appr) tx tx'"
    "tx_writes tx' = tx_writes tx" "tx_expect tx' = tx_expect tx"
    "\<exists>a b. tx_events tx' = tx_events tx @ a @ b \<and> map ev_kind a = map (\<lambda>_. ''gate_carried'') carried \<and>
       map ev_subjects a = map (\<lambda>c. [fst c, appr]) carried \<and> set (map ev_kind b) \<subseteq> {''plan_frozen'', ''decisions_derived''}"
proof -
  from assms obtain tx1 tx2 where c: "note_carried rd appr fresh now carried tx = Inr tx1"
    and b: "frozen_plan_block en ws subject now = Inr blk"
    and n: "note_event rd ''plan_frozen'' [appr] (map (\<lambda>k. (k, jget blk k)) frozen_plan_keys) fresh now tx1 = Inr tx2"
    and r: "note_reaches rd fresh now es tx2 = Inr tx'"
    by (auto simp: freeze_plan_def)
  show "frozen_plan_block en ws subject now = Inr blk" by (rule b)
  note cp = note_carried_parts [OF c]
  have np: "extends fresh (follows_up appr) tx1 tx2" "tx_writes tx2 = tx_writes tx1" "tx_expect tx2 = tx_expect tx1"
    by (rule note_event_extends [OF n, where ok = "follows_up appr"], simp add: follows_up_def)+
  have rp: "extends fresh (follows_up appr) tx2 tx'" "tx_writes tx' = tx_writes tx2" "tx_expect tx' = tx_expect tx2"
    "\<exists>b. tx_events tx' = tx_events tx2 @ b \<and> set (map ev_kind b) \<subseteq> {''decisions_derived''}"
  proof -
    from r have "extends fresh (follows_up appr) tx2 tx' \<and> tx_writes tx' = tx_writes tx2 \<and> tx_expect tx' = tx_expect tx2 \<and>
      (\<exists>b. tx_events tx' = tx_events tx2 @ b \<and> set (map ev_kind b) \<subseteq> {''decisions_derived''})"
    proof (cases rule: note_reaches_cases)
      case (2 detail)
      then obtain e where "tx' = tx_append e tx2" "ev_kind e = ''decisions_derived''" by (rule note_event_parts)
      moreover have "extends fresh (follows_up appr) tx2 tx'"
        by (rule note_event_extends [OF 2]) (simp add: follows_up_def)
      ultimately show ?thesis by (simp add: tx_append_def)
    qed auto
    then show "extends fresh (follows_up appr) tx2 tx'" "tx_writes tx' = tx_writes tx2" "tx_expect tx' = tx_expect tx2"
      "\<exists>b. tx_events tx' = tx_events tx2 @ b \<and> set (map ev_kind b) \<subseteq> {''decisions_derived''}" by auto
  qed
  show "extends fresh (follows_up appr) tx tx'" using cp(1) np(1) rp(1) extends_trans by blast
  show "tx_writes tx' = tx_writes tx" "tx_expect tx' = tx_expect tx" using cp np rp by simp_all
  from cp(4) obtain a where a: "tx_events tx1 = tx_events tx @ a" "map ev_kind a = map (\<lambda>_. ''gate_carried'') carried"
    "map ev_subjects a = map (\<lambda>c. [fst c, appr]) carried" by blast
  from n obtain e where "tx2 = tx_append e tx1" "ev_kind e = ''plan_frozen''" by (rule note_event_parts)
  with a rp(4) show "\<exists>a b. tx_events tx' = tx_events tx @ a @ b \<and> map ev_kind a = map (\<lambda>_. ''gate_carried'') carried \<and>
       map ev_subjects a = map (\<lambda>c. [fst c, appr]) carried \<and> set (map ev_kind b) \<subseteq> {''plan_frozen'', ''decisions_derived''}"
    by (fastforce simp: tx_append_def)
qed

lemma freeze_answers_parts:
  assumes "freeze_answers en ws subject rd fresh now tx = Inr tx'"
  obtains r where "read_document en (ws_disk ws) ''review'' = Inr (Some r)" "is_generated r"
    "human_status (approved_human r) = ''frozen''" "human_digest (en_sha en) (approved_human r) = Inr (or_else subject ''human_digest'' '''')"
    "tx_writes tx' = (if human_status r = ''frozen'' then tx_writes tx else AList.update ''review'' (approved_human r) (tx_writes tx))"
    "extends fresh (follows_up appr) tx tx'"
proof -
  from assms obtain review where v: "read_document en (ws_disk ws) ''review'' = Inr review"
    and k: "(case review of None \<Rightarrow> Inl NoGeneratedReview
       | Some r \<Rightarrow>
           let approved = approved_human r
           in if \<not> is_generated r then Inl NoGeneratedReview
              else if human_status approved \<noteq> ''frozen'' then Inl (CannotFreeze (completion_blockers (Some r) (Some (rw_human r))))
              else
                bind_err (ok_digest (human_digest (en_sha en) approved)) (\<lambda>h.
                if h \<noteq> or_else subject ''human_digest'' '''' then Inl AnswersMoved
                else if human_status r = ''frozen'' then Inr tx
                else
                  bind_err (ok_store (read_digest en (Some r))) (\<lambda>seen.
                  bind_err (ok_store (tx_write en ''review'' approved (Some seen) tx)) (\<lambda>tx1.
                    note_event rd ''human_review_frozen'' [] [] fresh now tx1)))) = Inr tx'"
    by (auto simp: freeze_answers_def)
  then obtain r where r: "review = Some r" by (cases review) simp_all
  with k have g: "is_generated r" "human_status (approved_human r) = ''frozen''" by (auto simp: Let_def split: if_splits)
  with k r obtain h where h: "human_digest (en_sha en) (approved_human r) = Inr h" "h = or_else subject ''human_digest'' ''''"
    and rest: "human_status r = ''frozen'' \<and> tx' = tx \<or> human_status r \<noteq> ''frozen'' \<and> (\<exists>seen tx1. read_digest en (Some r) = Inr seen \<and>
      tx_write en ''review'' (approved_human r) (Some seen) tx = Inr tx1 \<and> note_event rd ''human_review_frozen'' [] [] fresh now tx1 = Inr tx')"
    by (auto simp: Let_def split: if_splits)
  show ?thesis
  proof (rule that [OF _ g _])
    show "read_document en (ws_disk ws) ''review'' = Inr (Some r)" by (simp add: v r)
    show "human_digest (en_sha en) (approved_human r) = Inr (or_else subject ''human_digest'' '''')" by (simp add: h)
    from rest show "tx_writes tx' = (if human_status r = ''frozen'' then tx_writes tx else AList.update ''review'' (approved_human r) (tx_writes tx))"
    proof
      assume "human_status r \<noteq> ''frozen'' \<and> (\<exists>seen tx1. read_digest en (Some r) = Inr seen \<and>
        tx_write en ''review'' (approved_human r) (Some seen) tx = Inr tx1 \<and> note_event rd ''human_review_frozen'' [] [] fresh now tx1 = Inr tx')"
      then obtain seen tx1 where n: "human_status r \<noteq> ''frozen''" "tx_write en ''review'' (approved_human r) (Some seen) tx = Inr tx1"
        "note_event rd ''human_review_frozen'' [] [] fresh now tx1 = Inr tx'" by blast
      from n(3) obtain e where "tx' = tx_append e tx1" by (rule note_event_parts)
      with n(1,2) show ?thesis by (auto simp: tx_write_def tx_append_def split: if_splits)
    qed simp
    from rest show "extends fresh (follows_up appr) tx tx'"
    proof
      assume "human_status r \<noteq> ''frozen'' \<and> (\<exists>seen tx1. read_digest en (Some r) = Inr seen \<and>
        tx_write en ''review'' (approved_human r) (Some seen) tx = Inr tx1 \<and> note_event rd ''human_review_frozen'' [] [] fresh now tx1 = Inr tx')"
      then obtain seen tx1 where n: "tx_write en ''review'' (approved_human r) (Some seen) tx = Inr tx1"
        "note_event rd ''human_review_frozen'' [] [] fresh now tx1 = Inr tx'" by blast
      have "extends fresh (follows_up appr) tx1 tx'" by (rule note_event_extends [OF n(2)]) (simp add: follows_up_def)
      moreover have "tx_events tx1 = tx_events tx" "tx_id tx1 = tx_id tx" using n(1) by (auto simp: tx_write_def split: if_splits)
      ultimately show ?thesis by (simp add: extends_def)
    qed auto
  qed
qed

lemma stage_approval_parts:
  assumes "stage_approval en ws gate subject via appr now tid fresh rd = Inr tx"
  obtains es carried detail root freezing e0 more where
    "scan_disk en ws = Inr (es, [])" "verify_root (en_sha en) es (or_else subject ''attested_chain_root'' '''')"
    "(case ar_plan rd of None \<Rightarrow> Inr [] | Some p \<Rightarrow> carried_crossings en ws es p (ar_config rd)) = Inr carried"
    "approval_detail en ws gate subject (chain_root (en_sha en) es) = Inr detail"
    "map_of (tx_writes tx) ''state'' = Some (approved_state (ar_state rd) gate (receipt_of appr now via root subject) now freezing)"
    "map_of (tx_expect tx) ''state'' = Some (ar_seen rd)" "distinct (map fst (tx_writes tx))"
    "if gate = ''mandate'' then \<exists>blk. frozen_plan_block en ws subject now = Inr blk \<and>
       freezing = Some \<lparr>fp_crossings = ar_crossings rd, fp_carried = carried, fp_block = blk\<rparr> else freezing = None"
    "tx_events tx = e0 # more" "ev_kind e0 = ''gate_approved''" "ev_subjects e0 = [gate, appr]" "ev_detail e0 = detail"
    "list_all (follows_up appr) more" "map ev_id (tx_events tx) = map fresh [0..<length (tx_events tx)]" "tx_id tx = tid"
    "gate = ''mandate'' \<longrightarrow> (\<exists>a b. more = a @ b \<and> map ev_kind a = map (\<lambda>_. ''gate_carried'') carried \<and>
       map ev_subjects a = map (\<lambda>c. [fst c, appr]) carried \<and> set (map ev_kind b) \<subseteq> {''plan_frozen'', ''decisions_derived''})"
    "gate = ''acceptance'' \<longrightarrow> (\<exists>r. read_document en (ws_disk ws) ''review'' = Inr (Some r) \<and> is_generated r \<and>
       human_status (approved_human r) = ''frozen'' \<and> human_digest (en_sha en) (approved_human r) = Inr (or_else subject ''human_digest'' '''') \<and>
       (if human_status r = ''frozen'' then map_of (tx_writes tx) ''review'' = None else map_of (tx_writes tx) ''review'' = Some (approved_human r)))"
proof -
  from assms obtain es where sc: "scan_disk en ws = Inr (es, [])"
    and ve: "verify_root (en_sha en) es (or_else subject ''attested_chain_root'' '''')"
    by (auto simp: stage_approval_def split: if_splits)
  let ?freezing = "\<lambda>tx2 carried. if gate = ''mandate''
                then bind_err (freeze_plan en ws subject rd appr fresh now es carried tx2) (\<lambda>(blk, tx3).
                       Inr (Some \<lparr>fp_crossings = ar_crossings rd, fp_carried = carried, fp_block = blk\<rparr>, tx3))
                else Inr (None, tx2)"
  let ?answers = "\<lambda>tx1. if gate = ''acceptance'' then freeze_answers en ws subject rd fresh now tx1 else Inr tx1"
  let ?stw = "\<lambda>root freezing tx3. tx_write en ''state'' (approved_state (ar_state rd) gate (receipt_of appr now via root subject) now freezing)
    (Some (ar_seen rd)) tx3"
  have "\<exists>carried detail tx1 root. (case ar_plan rd of None \<Rightarrow> Inr [] | Some p \<Rightarrow> carried_crossings en ws es p (ar_config rd)) = Inr carried \<and>
    approval_detail en ws gate subject (chain_root (en_sha en) es) = Inr detail \<and>
    note_event rd ''gate_approved'' [gate, appr] detail fresh now (begin_tx tid) = Inr tx1 \<and>
    (if \<not> is_obj (jget (ar_state rd) ''gates'') then Inl NoGates
     else bind_err (?answers tx1) (\<lambda>tx2. bind_err (?freezing tx2 carried) (\<lambda>(freezing, tx3). ok_store (?stw root freezing tx3)))) = Inr tx"
    using assms [unfolded stage_approval_def sc bind_err_Inr prod.case Let_def] ve by (simp only: bind_err_Inr prod.case sum.inject if_False if_True simp_thms) blast
  then obtain carried detail tx1 root where
    c: "(case ar_plan rd of None \<Rightarrow> Inr [] | Some p \<Rightarrow> carried_crossings en ws es p (ar_config rd)) = Inr carried"
    and d: "approval_detail en ws gate subject (chain_root (en_sha en) es) = Inr detail"
    and n: "note_event rd ''gate_approved'' [gate, appr] detail fresh now (begin_tx tid) = Inr tx1"
    and k: "(if \<not> is_obj (jget (ar_state rd) ''gates'') then Inl NoGates
     else bind_err (?answers tx1) (\<lambda>tx2. bind_err (?freezing tx2 carried) (\<lambda>(freezing, tx3). ok_store (?stw root freezing tx3)))) = Inr tx"
    by blast
  from k obtain tx2 freezing tx3 where a: "?answers tx1 = Inr tx2" and m: "?freezing tx2 carried = Inr (freezing, tx3)"
    and w: "?stw root freezing tx3 = Inr tx"
    by (cases "is_obj (jget (ar_state rd) ''gates'')") (simp_all only: bind_err_Inr map_err_Inr split_paired_Ex prod.case if_True if_False simp_thms, blast+)
  obtain e0 where e0: "tx1 = tx_append e0 (begin_tx tid)" "ev_kind e0 = ''gate_approved''" "ev_subjects e0 = [gate, appr]"
    "ev_detail e0 = detail" "ev_id e0 = fresh 0"
    using n by (rule note_event_parts) (simp add: begin_tx_def)
  have x2: "extends fresh (follows_up appr) tx1 tx2"
    using a by (auto split: if_splits elim: freeze_answers_parts)
  have w2: "if gate = ''acceptance'' then \<exists>r. read_document en (ws_disk ws) ''review'' = Inr (Some r) \<and> is_generated r \<and>
       human_status (approved_human r) = ''frozen'' \<and> human_digest (en_sha en) (approved_human r) = Inr (or_else subject ''human_digest'' '''') \<and>
       tx_writes tx2 = (if human_status r = ''frozen'' then [] else [(''review'', approved_human r)])
     else tx_writes tx2 = []"
    using a e0(1) by (auto simp: tx_append_def begin_tx_def split: if_splits elim!: freeze_answers_parts)
  have x3: "extends fresh (follows_up appr) tx2 tx3" "tx_writes tx3 = tx_writes tx2"
    using m by (auto split: if_splits dest: freeze_plan_parts)
  from x2 x3(1) have "extends fresh (follows_up appr) tx1 tx3" by (rule extends_trans)
  then obtain more where more: "tx_events tx3 = e0 # more" "list_all (follows_up appr) more" "tx_id tx3 = tid"
    "map ev_id more = map fresh [1..<length (tx_events tx3)]"
    using e0(1) by (auto simp: extends_def tx_append_def begin_tx_def)
  have tx: "tx_events tx = tx_events tx3" "tx_id tx = tx_id tx3" "map_of (tx_expect tx) ''state'' = Some (ar_seen rd)"
    "tx_writes tx = AList.update ''state'' (approved_state (ar_state rd) gate (receipt_of appr now via root subject) now freezing) (tx_writes tx3)"
    using w by (auto simp: tx_write_def split: if_splits)
  show ?thesis
  proof (rule that [OF sc ve c d])
    show "map_of (tx_writes tx) ''state'' = Some (approved_state (ar_state rd) gate (receipt_of appr now via root subject) now freezing)"
      by (simp add: tx)
    show "map_of (tx_expect tx) ''state'' = Some (ar_seen rd)" by (rule tx)
    show "distinct (map fst (tx_writes tx))" using w2 x3(2) by (auto simp: tx distinct_update split: if_splits)
    show "if gate = ''mandate'' then \<exists>blk. frozen_plan_block en ws subject now = Inr blk \<and>
       freezing = Some \<lparr>fp_crossings = ar_crossings rd, fp_carried = carried, fp_block = blk\<rparr> else freezing = None"
      using m by (auto split: if_splits dest: freeze_plan_parts)
    show "tx_events tx = e0 # more" "ev_kind e0 = ''gate_approved''" "ev_subjects e0 = [gate, appr]" "ev_detail e0 = detail"
      "list_all (follows_up appr) more" "tx_id tx = tid"
      using more e0 by (simp_all add: tx)
    show "map ev_id (tx_events tx) = map fresh [0..<length (tx_events tx)]"
      using more e0(5) upt_conv_Cons [of 0 "length (tx_events tx3)"] by (simp add: tx del: upt_Suc)
    show "gate = ''mandate'' \<longrightarrow> (\<exists>a b. more = a @ b \<and> map ev_kind a = map (\<lambda>_. ''gate_carried'') carried \<and>
       map ev_subjects a = map (\<lambda>c. [fst c, appr]) carried \<and> set (map ev_kind b) \<subseteq> {''plan_frozen'', ''decisions_derived''})"
    proof
      assume that: "gate = ''mandate''"
      from that a e0(1) have "tx_events tx2 = [e0]" by (auto simp: tx_append_def begin_tx_def)
      moreover from m that obtain blk where "freeze_plan en ws subject rd appr fresh now es carried tx2 = Inr (blk, tx3)" by auto
      ultimately show "\<exists>a b. more = a @ b \<and> map ev_kind a = map (\<lambda>_. ''gate_carried'') carried \<and>
        map ev_subjects a = map (\<lambda>c. [fst c, appr]) carried \<and> set (map ev_kind b) \<subseteq> {''plan_frozen'', ''decisions_derived''}"
        using freeze_plan_parts(5) more(1) by fastforce
    qed
    show "gate = ''acceptance'' \<longrightarrow> (\<exists>r. read_document en (ws_disk ws) ''review'' = Inr (Some r) \<and> is_generated r \<and>
       human_status (approved_human r) = ''frozen'' \<and> human_digest (en_sha en) (approved_human r) = Inr (or_else subject ''human_digest'' '''') \<and>
       (if human_status r = ''frozen'' then map_of (tx_writes tx) ''review'' = None else map_of (tx_writes tx) ''review'' = Some (approved_human r)))"
    proof
      assume that: "gate = ''acceptance''"
      from that w2 obtain r where "read_document en (ws_disk ws) ''review'' = Inr (Some r)" "is_generated r"
       "human_status (approved_human r) = ''frozen''" "human_digest (en_sha en) (approved_human r) = Inr (or_else subject ''human_digest'' '''')"
       "tx_writes tx2 = (if human_status r = ''frozen'' then [] else [(''review'', approved_human r)])" by auto
      then show "\<exists>r. read_document en (ws_disk ws) ''review'' = Inr (Some r) \<and> is_generated r \<and>
       human_status (approved_human r) = ''frozen'' \<and> human_digest (en_sha en) (approved_human r) = Inr (or_else subject ''human_digest'' '''') \<and>
       (if human_status r = ''frozen'' then map_of (tx_writes tx) ''review'' = None else map_of (tx_writes tx) ''review'' = Some (approved_human r))"
        by (intro exI [of _ r]) (simp add: tx x3(2))
    qed
  qed
qed

end
