(* ===== verification/Approvals.thy ===== *)
theory Approvals
  imports Approve
begin

text \<open>
  What an approval establishes: which crossings a mandate approval carries back, which gates an approval leaves
  open, that the documents and answers it binds are the ones that were shown, and that the guard's commit check
  finds every gate it opened backed by the chain; with the approvals the statements are tried on.
\<close>

section \<open>What a carried crossing rests on\<close>

definition ends_history :: "event \<Rightarrow> bool" where
  "ends_history e \<longleftrightarrow> ev_kind e = ''gate_approved'' \<and> take 1 (ev_subjects e) = [''mandate'']"

definition silent :: "string \<Rightarrow> event \<Rightarrow> bool" where
  "silent g e \<longleftrightarrow> ev_kind e \<notin> set gate_events \<or> about e g = Inr False"

text \<open>A confirmation of the gate, then nothing about it, then the roll back that withdrew it without aiming at it, then
  nothing about it and no approval of a mandate.\<close>

definition withdrew :: "event list \<Rightarrow> string \<Rightarrow> string \<times> string \<Rightarrow> bool" where
  "withdrew es g w \<longleftrightarrow> (\<exists>pre e mid r post. es = pre @ e # mid @ r # post \<and>
     ev_kind e \<in> {''gate_approved'', ''gate_carried''} \<and> take 1 (ev_subjects e) = [g] \<and> confirmed_by e = Some w \<and>
     ev_kind r = ''gate_revised'' \<and> reset_by r g = Inr True \<and> jget (ev_detail r) ''target_gate'' \<noteq> JStr g \<and>
     list_all (silent g) mid \<and> list_all (\<lambda>x. silent g x \<and> \<not> ends_history x) post)"

lemma walk_silent: "silent g e \<Longrightarrow> revised \<or> \<not> ends_history e \<Longrightarrow> withdrawn_walk g revised (e # es) = withdrawn_walk g revised es"
  by (auto simp: silent_def ends_history_def bind_err_def)

lemma walk_silents:
  "list_all (\<lambda>x. silent g x \<and> (revised \<or> \<not> ends_history x)) xs \<Longrightarrow> withdrawn_walk g revised (xs @ es) = withdrawn_walk g revised es"
proof (induction xs)
  case (Cons x xs)
  then show ?case using walk_silent [of g x revised "xs @ es"] by simp
qed simp

lemma about_cases:
  "ev_kind e = ''gate_revised'' \<Longrightarrow> about e g = reset_by e g"
  "ev_kind e \<in> {''gate_approved'', ''gate_carried''} \<Longrightarrow> about e g = Inr (take 1 (ev_subjects e) = [g])"
  by (auto simp: about_def)

lemma walk_revised_iff:
  "withdrawn_walk g True es = Inr (Some w) \<longleftrightarrow> (\<exists>mid e pre. es = mid @ e # pre \<and> list_all (silent g) mid \<and>
     ev_kind e \<in> {''gate_approved'', ''gate_carried''} \<and> take 1 (ev_subjects e) = [g] \<and> confirmed_by e = Some w)"
    (is "_ \<longleftrightarrow> ?R es")
proof
  assume "withdrawn_walk g True es = Inr (Some w)"
  then show "?R es"
  proof (induction es)
    case (Cons e es)
    show ?case
    proof (cases "silent g e")
      case True
      with Cons.prems have "withdrawn_walk g True es = Inr (Some w)" using walk_silent [of g e True es] by simp
      from Cons.IH [OF this] obtain mid c pre where "es = mid @ c # pre" "list_all (silent g) mid"
        "ev_kind c \<in> {''gate_approved'', ''gate_carried''}" "take 1 (ev_subjects c) = [g]" "confirmed_by c = Some w" by blast
      with True show ?thesis by (intro exI [of _ "e # mid"] exI [of _ c] exI [of _ pre]) simp
    next
      case False
      with Cons.prems have "about e g = Inr True" "ev_kind e \<in> {''gate_approved'', ''gate_carried''}" "confirmed_by e = Some w"
        by (auto simp: silent_def split: if_splits)
      then show ?thesis using about_cases(2) [of e g] by (intro exI [of _ "[]"] exI [of _ e] exI [of _ es]) simp
    qed
  qed simp
next
  assume "?R es"
  then obtain mid e pre where e: "es = mid @ e # pre" "list_all (silent g) mid"
    "ev_kind e \<in> {''gate_approved'', ''gate_carried''}" "take 1 (ev_subjects e) = [g]" "confirmed_by e = Some w" by blast
  from e(2) have "list_all (\<lambda>x. silent g x \<and> (True \<or> \<not> ends_history x)) mid" by simp
  from walk_silents [OF this, of "e # pre"] e show "withdrawn_walk g True es = Inr (Some w)"
    using about_cases(2) [OF e(3), of g] by (auto simp: gate_events_def)
qed

lemma walk_iff:
  "withdrawn_walk g False es = Inr (Some w) \<longleftrightarrow> (\<exists>post r rest. es = post @ r # rest \<and>
     list_all (\<lambda>x. silent g x \<and> \<not> ends_history x) post \<and> ev_kind r = ''gate_revised'' \<and> reset_by r g = Inr True \<and>
     jget (ev_detail r) ''target_gate'' \<noteq> JStr g \<and> withdrawn_walk g True rest = Inr (Some w))" (is "_ \<longleftrightarrow> ?R es")
proof
  assume "withdrawn_walk g False es = Inr (Some w)"
  then show "?R es"
  proof (induction es)
    case (Cons e es)
    then have n: "\<not> ends_history e" by (auto simp: ends_history_def gate_events_def)
    show ?case
    proof (cases "silent g e")
      case True
      with Cons.prems n have "withdrawn_walk g False es = Inr (Some w)" using walk_silent [of g e False es] by simp
      from Cons.IH [OF this] obtain post r rest where "es = post @ r # rest" "list_all (\<lambda>x. silent g x \<and> \<not> ends_history x) post"
        "ev_kind r = ''gate_revised'' \<and> reset_by r g = Inr True \<and> jget (ev_detail r) ''target_gate'' \<noteq> JStr g \<and>
         withdrawn_walk g True rest = Inr (Some w)" by blast
      with True n show ?thesis by (intro exI [of _ "e # post"] exI [of _ r] exI [of _ rest]) simp
    next
      case False
      with Cons.prems n have "about e g = Inr True" "ev_kind e = ''gate_revised''" "jget (ev_detail e) ''target_gate'' \<noteq> JStr g"
        "withdrawn_walk g True es = Inr (Some w)"
        by (auto simp: silent_def ends_history_def split: if_splits)
      then show ?thesis using about_cases(1) [of e g] by (intro exI [of _ "[]"] exI [of _ e] exI [of _ es]) simp
    qed
  qed simp
next
  assume "?R es"
  then obtain post r rest where r: "es = post @ r # rest" "list_all (\<lambda>x. silent g x \<and> \<not> ends_history x) post"
    "ev_kind r = ''gate_revised''" "reset_by r g = Inr True" "jget (ev_detail r) ''target_gate'' \<noteq> JStr g"
    "withdrawn_walk g True rest = Inr (Some w)" by blast
  then have "list_all (\<lambda>x. silent g x \<and> (False \<or> \<not> ends_history x)) post" by simp
  from walk_silents [OF this, of "r # rest"] r show "withdrawn_walk g False es = Inr (Some w)"
    using about_cases(1) [OF r(3), of g] by (auto simp: gate_events_def)
qed

lemma list_all_rev: "list_all P (rev xs) = list_all P xs"
  by (simp add: list_all_iff)

lemma withdrawn_approval_walk:
  "withdrawn_approval es g = Inr (Some w) \<longleftrightarrow> withdrew es g w"
proof -
  have "withdrawn_approval es g = Inr (Some w) \<longleftrightarrow> (\<exists>post r mid e pre. rev es = post @ r # mid @ e # pre \<and>
     list_all (\<lambda>x. silent g x \<and> \<not> ends_history x) post \<and> ev_kind r = ''gate_revised'' \<and> reset_by r g = Inr True \<and>
     jget (ev_detail r) ''target_gate'' \<noteq> JStr g \<and> list_all (silent g) mid \<and>
     ev_kind e \<in> {''gate_approved'', ''gate_carried''} \<and> take 1 (ev_subjects e) = [g] \<and> confirmed_by e = Some w)"
    unfolding withdrawn_approval_def walk_iff walk_revised_iff by blast
  note walk = this
  have turned: "rev es = post @ r # mid @ e # pre \<longleftrightarrow> es = rev pre @ e # rev mid @ r # rev post" for post r mid e pre
    by (metis append.assoc append_Cons append_Nil rev.simps(2) rev_append rev_rev_ident)
  from walk have w: "withdrawn_approval es g = Inr (Some w) \<longleftrightarrow> (\<exists>post r mid e pre. es = rev pre @ e # rev mid @ r # rev post \<and>
     list_all (\<lambda>x. silent g x \<and> \<not> ends_history x) post \<and> ev_kind r = ''gate_revised'' \<and> reset_by r g = Inr True \<and>
     jget (ev_detail r) ''target_gate'' \<noteq> JStr g \<and> list_all (silent g) mid \<and>
     ev_kind e \<in> {''gate_approved'', ''gate_carried''} \<and> take 1 (ev_subjects e) = [g] \<and> confirmed_by e = Some w)" unfolding turned .
  show ?thesis
  proof
    assume "withdrawn_approval es g = Inr (Some w)"
    then obtain post r mid e pre where h: "es = rev pre @ e # rev mid @ r # rev post"
      "list_all (\<lambda>x. silent g x \<and> \<not> ends_history x) (rev post)" "ev_kind r = ''gate_revised''" "reset_by r g = Inr True"
      "jget (ev_detail r) ''target_gate'' \<noteq> JStr g" "list_all (silent g) (rev mid)"
      "ev_kind e \<in> {''gate_approved'', ''gate_carried''}" "take 1 (ev_subjects e) = [g]" "confirmed_by e = Some w"
      unfolding w list_all_rev by blast
    show "withdrew es g w" unfolding withdrew_def using h by blast
  next
    assume "withdrew es g w"
    then obtain pre e mid r post where "es = rev (rev pre) @ e # rev (rev mid) @ r # rev (rev post) \<and>
      ev_kind e \<in> {''gate_approved'', ''gate_carried''} \<and> take 1 (ev_subjects e) = [g] \<and> confirmed_by e = Some w \<and>
      ev_kind r = ''gate_revised'' \<and> reset_by r g = Inr True \<and> jget (ev_detail r) ''target_gate'' \<noteq> JStr g \<and>
      list_all (silent g) (rev mid) \<and> list_all (\<lambda>x. silent g x \<and> \<not> ends_history x) (rev post)"
      unfolding withdrew_def list_all_rev rev_rev_ident by blast
    then show "withdrawn_approval es g = Inr (Some w)" unfolding w by blast
  qed
qed

text \<open>C27: A mandate approval carries a crossing back on the chain's word alone: the approval found is the one a person
  confirmed (or an earlier carry of it) over the recorded digest, withdrawn by a later roll back that did not
  aim at the gate, with nothing about the gate in between or since and no mandate approval after the roll
  back; and whenever the chain holds such a history it is found.\<close>

theorem withdrawn_approval_exact:
  "withdrawn_approval es g = Inr (Some w) \<longleftrightarrow> withdrew es g w"
  by (rule withdrawn_approval_walk)

section \<open>What was read for the approval\<close>

lemma id_errors_none: "id_errors sec kind seen ids = [] \<Longrightarrow> list_all (id_matches kind) ids"
  by (induction sec kind seen ids rule: id_errors.induct) (auto split: if_splits)

lemma plan_issues_sub: "set (plan_issues plan) \<subseteq> set (maps_field plan ''issues'')"
  using dict_of_subset by (fastforce simp: plan_issues_def plan_section_def plan_index_def)

lemma clean_task_ids:
  assumes "cross_reference_errors plan = []" "tid \<in> set (plan_task_ids plan)"
  shows "id_matches ''task'' tid"
proof -
  have "list_all (id_matches ''task'') (map el_id (sub_entries plan))"
    using assms(1) by (auto simp: cross_reference_errors_def all_id_errors_def intro: id_errors_none)
  moreover obtain i e where "i \<in> set (plan_issues plan)" "e \<in> set (maps_field i ''sub_issues'')" "tid = el_id e"
    using assms(2) dict_of_subset by (fastforce simp: plan_task_ids_def plan_task_index_def Let_def)
  moreover from this have "e \<in> set (sub_entries plan)" using plan_issues_sub by (auto simp: sub_entries_def)
  ultimately show ?thesis by (auto simp: list_all_iff)
qed

lemma crossings_not_ends:
  assumes "cross_reference_errors plan = []"
  shows "set (crossing_task_ids plan) \<inter> set gate_ends = {}"
proof -
  have "set (crossing_task_ids plan) \<subseteq> set (plan_task_ids plan)"
    unfolding map_pt_id_plan_tasks [symmetric] by (auto simp: crossing_task_ids_def)
  then have "\<forall>t \<in> set (crossing_task_ids plan). t \<notin> set gate_ends"
    using clean_task_ids [OF assms] Vocabulary.task_id_is_gate_name by blast
  then show ?thesis by blast
qed

lemma read_the_plan_clean: "read_the_plan en ws = Inr (Some p) \<Longrightarrow> cross_reference_errors p = []"
  by (auto simp: read_the_plan_def split: option.splits if_splits)

lemma carried_from_parts:
  assumes "carried_from en ws es plan config ts = Inr carried"
  shows "subseq (map fst carried) ts" and
    "(t, original, d) \<in> set carried \<Longrightarrow> withdrawn_approval es t = Inr (Some (original, d)) \<and> crossing_digest en ws plan config t = Inr d"
proof -
  from assms have "subseq (map fst carried) ts \<and> ((t, original, d) \<in> set carried \<longrightarrow>
      withdrawn_approval es t = Inr (Some (original, d)) \<and> crossing_digest en ws plan config t = Inr d)"
  proof (induction ts arbitrary: carried)
    case (Cons u ts)
    then obtain w here rest where w: "withdrawn_approval es u = Inr w"
      and h: "(case w of None \<Rightarrow> Inr [] | Some (original, d) \<Rightarrow> bind_err (crossing_digest en ws plan config u) (\<lambda>now.
           Inr (if d = now then [(u, original, d)] else []))) = Inr here"
      and r: "carried_from en ws es plan config ts = Inr rest" "carried = here @ rest" by auto
    have "here = [] \<or> (\<exists>original d. here = [(u, original, d)] \<and> w = Some (original, d) \<and> crossing_digest en ws plan config u = Inr d)"
      using h by (auto split: option.splits if_splits)
    with Cons.IH [OF r(1)] w r(2) show ?case by auto
  qed simp
  then show "subseq (map fst carried) ts" and
    "(t, original, d) \<in> set carried \<Longrightarrow> withdrawn_approval es t = Inr (Some (original, d)) \<and> crossing_digest en ws plan config t = Inr d"
    by blast+
qed

lemma carried_from_set:
  assumes "carried_from en ws es plan config ts = Inr carried"
  shows "set carried = {(t, original, d). t \<in> set ts \<and> withdrawn_approval es t = Inr (Some (original, d)) \<and>
    crossing_digest en ws plan config t = Inr d}"
  using assms
proof (induction ts arbitrary: carried)
  case (Cons u ts)
  then obtain w here rest where w: "withdrawn_approval es u = Inr w"
    and h: "(case w of None \<Rightarrow> Inr [] | Some (original, d) \<Rightarrow> bind_err (crossing_digest en ws plan config u) (\<lambda>now.
         Inr (if d = now then [(u, original, d)] else []))) = Inr here"
    and r: "carried_from en ws es plan config ts = Inr rest" "carried = here @ rest" by auto
  have "set here = {(t, original, d). t = u \<and> w = Some (original, d) \<and> crossing_digest en ws plan config u = Inr d}"
    using h by (auto simp: bind_err_Some split: option.splits prod.splits if_splits)
  with Cons.IH [OF r(1)] w r(2) show ?case by auto
qed simp

text \<open>The reading fixes what the transaction may carry.\<close>

lemma reading_parts:
  assumes "read_for_approval en before gate = Inr rd"
  shows "read_document en (ws_disk before) ''state'' = Inr (Some (ar_state rd))"
    "read_digest en (Some (ar_state rd)) = Inr (ar_seen rd)"
    "set (ar_crossings rd) \<inter> set gate_ends = {}" "sorted (ar_crossings rd)" "distinct (ar_crossings rd)"
    "ar_plan rd = None \<or> gate = ''mandate'' \<and> (\<exists>p. ar_plan rd = Some p \<and> ar_crossings rd = crossing_task_ids p)"
proof -
  from assms obtain st seen where st: "read_document en (ws_disk before) ''state'' = Inr (Some st)" "read_digest en (Some st) = Inr seen"
    and k: "(if gate \<noteq> ''mandate''
           then Inr \<lparr>ar_state = st, ar_seen = seen, ar_reaches = None, ar_crossings = [], ar_plan = None, ar_config = None\<rparr>
           else
             bind_err (reach_movement en before) (\<lambda>moved.
             bind_err (ok_store (plan_if_valid en before)) (\<lambda>draft.
             let crossings = (case draft of None \<Rightarrow> [] | Some p \<Rightarrow> crossing_task_ids p)
             in bind_err (if crossings = [] then Inr None else ok_store (read_the_plan en before)) (\<lambda>plan.
                bind_err (if crossings = [] then Inr None else ok_store (read_the_config en before)) (\<lambda>config.
                  Inr \<lparr>ar_state = st, ar_seen = seen, ar_reaches = snd moved, ar_crossings = crossings, ar_plan = plan,
                       ar_config = config\<rparr>))))) = Inr rd"
    by (auto simp: read_for_approval_def split: option.splits)
  have "ar_state rd = st \<and> ar_seen rd = seen \<and> (gate \<noteq> ''mandate'' \<and> ar_crossings rd = [] \<and> ar_plan rd = None \<or>
    gate = ''mandate'' \<and> (\<exists>draft plan. plan_if_valid en before = Inr draft \<and>
      ar_crossings rd = (case draft of None \<Rightarrow> [] | Some p \<Rightarrow> crossing_task_ids p) \<and> ar_plan rd = plan \<and>
      (if ar_crossings rd = [] then plan = None else read_the_plan en before = Inr plan)))"
    using k by (auto simp: Let_def split: if_splits)
  moreover have "plan_if_valid en before = Inr (Some p) \<Longrightarrow> read_the_plan en before = Inr (Some p)" for p
    by (auto simp: plan_if_valid_def split: sum.splits store_error.splits)
  ultimately have r: "ar_state rd = st" "ar_seen rd = seen"
    and c: "ar_crossings rd = [] \<and> ar_plan rd = None \<or> gate = ''mandate'' \<and> (\<exists>p. read_the_plan en before = Inr (Some p) \<and>
       ar_crossings rd = crossing_task_ids p \<and> (ar_plan rd = None \<or> ar_plan rd = Some p))"
    by (auto split: option.splits if_splits)
  show "read_document en (ws_disk before) ''state'' = Inr (Some (ar_state rd))" "read_digest en (Some (ar_state rd)) = Inr (ar_seen rd)"
    using st r by simp_all
  show "set (ar_crossings rd) \<inter> set gate_ends = {}" using c crossings_not_ends read_the_plan_clean by fastforce
  show "sorted (ar_crossings rd)" "distinct (ar_crossings rd)" using c by (auto simp: crossing_task_ids_def)
  show "ar_plan rd = None \<or> gate = ''mandate'' \<and> (\<exists>p. ar_plan rd = Some p \<and> ar_crossings rd = crossing_task_ids p)" using c by auto
qed

lemma carried_parts:
  assumes "(case ar_plan rd of None \<Rightarrow> Inr [] | Some p \<Rightarrow> carried_crossings en ws es p (ar_config rd)) = Inr carried"
    and "ar_plan rd = None \<or> gate = ''mandate'' \<and> (\<exists>p. ar_plan rd = Some p \<and> ar_crossings rd = crossing_task_ids p)"
  shows "fst ` set carried \<subseteq> set (ar_crossings rd)" "distinct (ar_crossings rd) \<Longrightarrow> distinct (map fst carried)" "gate \<noteq> ''mandate'' \<Longrightarrow> carried = []"
    "(t, original, d) \<in> set carried \<Longrightarrow> \<exists>p c. ar_plan rd = Some p \<and> ar_config rd = Some c \<and>
       withdrawn_approval es t = Inr (Some (original, d)) \<and> crossing_digest en ws p c t = Inr d"
proof -
  have "carried = [] \<or> (\<exists>p c. ar_plan rd = Some p \<and> ar_config rd = Some c \<and> gate = ''mandate'' \<and>
    carried_from en ws es p c (ar_crossings rd) = Inr carried)"
    using assms by (auto simp: carried_crossings_def split: option.splits)
  then consider (none) "carried = []" | (some) p c where "ar_plan rd = Some p" "ar_config rd = Some c" "gate = ''mandate''"
    "carried_from en ws es p c (ar_crossings rd) = Inr carried" by blast
  then have c: "carried = [] \<or> (\<exists>p c. ar_plan rd = Some p \<and> ar_config rd = Some c \<and> gate = ''mandate'' \<and>
    subseq (map fst carried) (ar_crossings rd) \<and> (\<forall>(t, original, d) \<in> set carried.
      withdrawn_approval es t = Inr (Some (original, d)) \<and> crossing_digest en ws p c t = Inr d))"
  proof cases
    case (some p c)
    then show ?thesis using carried_from_parts [OF some(4)] by (intro disjI2 exI [of _ p] exI [of _ c]) auto
  qed simp
  have sub: "subseq xs ys \<Longrightarrow> set xs \<subseteq> set ys \<and> (distinct ys \<longrightarrow> distinct xs)" for xs ys :: "string list"
    by (induction xs ys rule: list_emb.induct) auto
  from c show "fst ` set carried \<subseteq> set (ar_crossings rd)" using sub by fastforce
  from c show "distinct (ar_crossings rd) \<Longrightarrow> distinct (map fst carried)" using sub by auto
  from c show "gate \<noteq> ''mandate'' \<Longrightarrow> carried = []" by auto
  from c show "(t, original, d) \<in> set carried \<Longrightarrow> \<exists>p c. ar_plan rd = Some p \<and> ar_config rd = Some c \<and>
       withdrawn_approval es t = Inr (Some (original, d)) \<and> crossing_digest en ws p c t = Inr d" by auto
qed

lemma carried_exact:
  assumes "(case ar_plan rd of None \<Rightarrow> Inr [] | Some p \<Rightarrow> carried_crossings en ws es p (ar_config rd)) = Inr carried"
    and "ar_plan rd = None \<or> gate = ''mandate'' \<and> (\<exists>p. ar_plan rd = Some p \<and> ar_crossings rd = crossing_task_ids p)"
  shows "set carried = {(t, original, d). t \<in> set (ar_crossings rd) \<and> withdrew es t (original, d) \<and>
    (\<exists>p c. ar_plan rd = Some p \<and> ar_config rd = Some c \<and> crossing_digest en ws p c t = Inr d)}"
proof (cases "ar_plan rd")
  case (Some p)
  with assms(2) have "ar_crossings rd = crossing_task_ids p" by auto
  with assms(1) Some show ?thesis
    by (cases "ar_config rd") (auto simp: carried_crossings_def withdrawn_approval_walk dest: carried_from_set)
qed (use assms(1) in simp)

text \<open>An approval keeps the requests, closing the addressed ones against the gates it opens or drops.\<close>

lemma approved_state_steps: "request_step\<^sup>*\<^sup>* raw (approved_state raw gate receipt now freezing)"
proof -
  have "request_step\<^sup>*\<^sup>* raw (jset ''updated_at'' (JStr now) (set_gate gate (approved_entry receipt) raw))"
    by (simp add: set_gate_def jset_steps)
  then have "request_step\<^sup>*\<^sup>* raw (fst (resolve_addressed (jset ''updated_at'' (JStr now) (set_gate gate (approved_entry receipt) raw)) gs))" for gs
    by (rule rtranclp.rtrancl_into_rtrancl) (rule close [OF refl])
  then show ?thesis by (auto simp: approved_state_def Let_def intro!: jset_steps split: option.splits)
qed

section \<open>What an approval establishes\<close>

lemma nothing_before_mandate: "fan.clear raw \<Longrightarrow> \<not> gate_approved raw ''mandate'' \<Longrightarrow> \<not> gate_approved raw g"
  using approved_has_id [of raw g] by (cases "g = ''mandate''")
    (force simp: fan.clear_def upstream_of_def gate_first_def gate_last_def split: if_splits)+

text \<open>C17: An approval opens its gate and no other. For a gate that is decidable, over a state whose gates are distinct
  and whose chain of gates has no violation: the state written has none either, the gates it leaves approved are
  those that were, its own and the crossings carried back (at the mandate, which cuts the cycle's gates again from the
  plan as it was read), and carried back are exactly those of the plan's crossings whose withdrawn confirmation the chain
  holds over the very digest of what they authorize now.\<close>

theorem approval_keeps_chain:
  assumes "read_for_approval en before gate = Inr rd" and "stage_approval en ws gate subject via appr now tid fresh rd = Inr tx"
    and "state_ok (ar_state rd)" and "gate_chain_violations (ar_state rd) = []" and "gate \<in> set (decidable_gates (ar_state rd))"
  shows "\<exists>raw es carried. map_of (tx_writes tx) ''state'' = Some raw \<and> scan_disk en ws = Inr (es, []) \<and>
    gate_chain_violations raw = [] \<and>
    gate_ids raw = (if gate = ''mandate'' then ''mandate'' # ar_crossings rd @ [''acceptance''] else gate_ids (ar_state rd)) \<and>
    set (approved_gates raw) = insert gate (set (approved_gates (ar_state rd)) \<union> fst ` set carried) \<and>
    (gate \<noteq> ''mandate'' \<longrightarrow> carried = []) \<and>
    set carried = {(t, original, d). t \<in> set (ar_crossings rd) \<and> withdrew es t (original, d) \<and>
      (\<exists>p c. ar_plan rd = Some p \<and> ar_config rd = Some c \<and> crossing_digest en ws p c t = Inr d)}"
proof -
  note r = reading_parts [OF assms(1)]
  from assms(4) have clear: "fan.clear (ar_state rd)" by (simp add: gate_chain_violations_clear)
  from assms(5) have gate: "gate \<in> set (gate_ids (ar_state rd))" "\<not> gate_approved (ar_state rd) gate"
    "\<forall>u \<in> set (upstream_of (ar_state rd) gate). gate_approved (ar_state rd) u"
    by (auto simp: decidable_gates_def gate_approved_def pending_upstream_None)
  from assms(2) obtain es carried detail root freezing e0 more where
    s: "scan_disk en ws = Inr (es, [])" and
    c: "(case ar_plan rd of None \<Rightarrow> Inr [] | Some p \<Rightarrow> carried_crossings en ws es p (ar_config rd)) = Inr carried" and
    w: "map_of (tx_writes tx) ''state'' = Some (approved_state (ar_state rd) gate (receipt_of appr now via root subject) now freezing)" and
    f: "if gate = ''mandate'' then \<exists>blk. frozen_plan_block en ws subject now = Inr blk \<and>
       freezing = Some \<lparr>fp_crossings = ar_crossings rd, fp_carried = carried, fp_block = blk\<rparr> else freezing = None"
    by (rule stage_approval_parts)
  note cp = carried_parts [OF c r(6)]
  let ?raw = "approved_state (ar_state rd) gate (receipt_of appr now via root subject) now freezing"
  have set_approved: "set (approved_gates raw) = {g. gate_approved raw g}" for raw
    using approved_has_id by (auto simp: approved_gates_def)
  have "fan.clear ?raw \<and> gate_ids ?raw = (if gate = ''mandate'' then ''mandate'' # ar_crossings rd @ [''acceptance''] else gate_ids (ar_state rd)) \<and>
    (\<forall>g. gate_approved ?raw g \<longleftrightarrow> g = gate \<or> gate_approved (ar_state rd) g \<or> g \<in> fst ` set carried)"
  proof (cases "gate = ''mandate''")
    case True
    with f obtain blk where fz: "freezing = Some \<lparr>fp_crossings = ar_crossings rd, fp_carried = carried, fp_block = blk\<rparr>" by auto
    have first: "\<not> gate_approved (ar_state rd) gate_first" using gate(2) True by (simp add: gate_first_def)
    note m = mandate_clear [OF assms(3) clear first _ _ r(3) cp(1) r(4,5), of "\<lparr>fp_crossings = ar_crossings rd, fp_carried = carried, fp_block = blk\<rparr>"
        "receipt_of appr now via root subject" now]
    from m(1) m(2) m(3) show ?thesis using nothing_before_mandate [OF clear] gate(2) True
      by (simp add: fz gate_first_def gate_last_def)
  next
    case False
    with f cp(3) show ?thesis
      using other_clear [OF assms(3) clear gate(1,3)] other_gates(2,3) [OF assms(3)] gate(1) by simp
  qed
  moreover note carried_exact [OF c r(6)] cp(3)
  ultimately show ?thesis using w s
    by (intro exI [of _ ?raw] exI [of _ es] exI [of _ carried]) (auto simp: gate_chain_violations_clear set_approved)
qed

section \<open>The commit check accepts it\<close>

lemma last_index_ge: "j < length es \<Longrightarrow> concerns kind g (es ! j) \<Longrightarrow> int j \<le> last_index es kind g"
  using last_index_after [of es kind g j] by force

lemma flip_problem_none:
  assumes "\<forall>e \<in> set new. ev_kind e \<noteq> ''gate_revised'' \<and>
      (ev_kind e \<in> {''gate_approved'', ''gate_carried''} \<longrightarrow> appr \<in> set (ev_subjects e))"
    and "e \<in> set new" "ev_kind e \<in> {''gate_approved'', ''gate_carried''}" "g \<in> set (ev_subjects e)"
    and "gate_receipt raw g = Some receipt" "str_get receipt ''approval_id'' '''' = appr"
  shows "flip_problem raw (es @ new) g = None"
proof -
  let ?log = "es @ new"
  let ?a = "last_index ?log ''gate_approved'' g" and ?c = "last_index ?log ''gate_carried'' g"
    and ?r = "last_index ?log ''gate_revised'' g"
  from assms(2) obtain i where i: "i < length new" "new ! i = e" by (auto simp: in_set_conv_nth)
  then have at: "length es + i < length ?log" "?log ! (length es + i) = e" by (auto simp: nth_append)
  have "concerns (ev_kind e) g e" by (simp add: concerns_def assms(4))
  then have "int (length es + i) \<le> max ?a ?c"
    using assms(3) last_index_ge [OF at(1), of "ev_kind e" g] at(2) by (auto simp: le_max_iff_disj)
  then have m: "int (length es) \<le> max ?a ?c" by simp
  let ?i = "nat (max ?a ?c)"
  have "?i < length ?log \<and> (concerns ''gate_approved'' g (?log ! ?i) \<or> concerns ''gate_carried'' g (?log ! ?i))"
    using last_index_at [of ?log "''gate_approved''" g] last_index_at [of ?log "''gate_carried''" g] m
    by (cases "?c \<le> ?a") (auto simp: max_def)
  then have named: "appr \<in> set (ev_subjects (?log ! ?i))"
  proof -
    assume h: "?i < length ?log \<and> (concerns ''gate_approved'' g (?log ! ?i) \<or> concerns ''gate_carried'' g (?log ! ?i))"
    from m have "length es \<le> ?i" by linarith
    with h have "?log ! ?i \<in> set new" by (auto simp: nth_append)
    with h assms(1) show ?thesis by (auto simp: concerns_def)
  qed
  have "?r < int (length es)"
  proof (rule ccontr)
    assume "\<not> ?r < int (length es)"
    with last_index_at [of ?log "''gate_revised''" g] have r: "nat ?r < length ?log" "concerns ''gate_revised'' g (?log ! nat ?r)"
      "length es \<le> nat ?r" by auto
    then have "?log ! nat ?r \<in> set new" by (auto simp: nth_append)
    with assms(1) r(2) show False by (auto simp: concerns_def)
  qed
  with m have "\<not> max ?a ?c < 0" "\<not> max ?a ?c < ?r" by linarith+
  then show ?thesis unfolding flip_problem_def Let_def assms(5) option.case assms(6) by (simp only: if_False named not_True_eq_False)
qed

lemma link_keeps: "link sha previous e = Inr l \<Longrightarrow> ev_kind l = ev_kind e \<and> ev_subjects l = ev_subjects e"
  by (auto simp: link_def sealed_def)

abbreviation headline :: "event \<Rightarrow> string \<times> string list" where
  "headline e \<equiv> (ev_kind e, ev_subjects e)"

lemma link_all_keeps: "link_all sha previous es = Inr ls \<Longrightarrow> map headline ls = map headline es"
  by (induction es arbitrary: previous ls) (auto dest: link_keeps)

lemma same_image: "f ` A = f ` B \<Longrightarrow> x \<in> A \<Longrightarrow> \<exists>y \<in> B. f x = f y"
  by blast

lemma receipt_names:
  "str_get (receipt_of appr now via root subject) ''approval_id'' d = appr"
  "str_get (carried_receipt (receipt_of appr now via root subject) original x) ''approval_id'' d = appr"
  by (simp_all add: str_get_def jget_or_def receipt_of_def carried_receipt_def)

text \<open>The gates a staged approval opens, each with its receipt and the event of the transaction that opens it.\<close>

lemma opened_gates:
  assumes "read_for_approval en before gate = Inr rd" and "stage_approval en ws gate subject via appr now tid fresh rd = Inr tx"
    and "state_ok (ar_state rd)"
  obtains raw where "map_of (tx_writes tx) ''state'' = Some raw" "gate_approved raw gate"
    "\<And>g. gate_approved raw g \<Longrightarrow> gate_approved (ar_state rd) g \<or>
       (\<exists>receipt. gate_receipt raw g = Some receipt \<and> str_get receipt ''approval_id'' '''' = appr) \<and>
       (\<exists>e \<in> set (tx_events tx). ev_kind e \<in> {''gate_approved'', ''gate_carried''} \<and> g \<in> set (ev_subjects e))"
proof -
  note r = reading_parts [OF assms(1)]
  from assms(2) obtain es carried detail root freezing e0 more where
    c: "(case ar_plan rd of None \<Rightarrow> Inr [] | Some p \<Rightarrow> carried_crossings en ws es p (ar_config rd)) = Inr carried" and
    w: "map_of (tx_writes tx) ''state'' = Some (approved_state (ar_state rd) gate (receipt_of appr now via root subject) now freezing)" and
    f: "if gate = ''mandate'' then \<exists>blk. frozen_plan_block en ws subject now = Inr blk \<and>
       freezing = Some \<lparr>fp_crossings = ar_crossings rd, fp_carried = carried, fp_block = blk\<rparr> else freezing = None" and
    e0: "tx_events tx = e0 # more" "ev_kind e0 = ''gate_approved''" "ev_subjects e0 = [gate, appr]" and
    m: "gate = ''mandate'' \<longrightarrow> (\<exists>a b. more = a @ b \<and> map ev_kind a = map (\<lambda>_. ''gate_carried'') carried \<and>
       map ev_subjects a = map (\<lambda>c. [fst c, appr]) carried \<and> set (map ev_kind b) \<subseteq> {''plan_frozen'', ''decisions_derived''})"
    by (rule stage_approval_parts)
  note cp = carried_parts [OF c r(6)]
  let ?receipt = "receipt_of appr now via root subject"
  let ?raw = "approved_state (ar_state rd) gate ?receipt now freezing"
  have own: "\<exists>e \<in> set (tx_events tx). ev_kind e \<in> {''gate_approved'', ''gate_carried''} \<and> gate \<in> set (ev_subjects e)"
    using e0 by auto
  show ?thesis
  proof (cases "gate = ''mandate''")
    case False
    with f have z: "freezing = None" by simp
    note o = other_gates(2,4) [OF assms(3)]
    show ?thesis using w own by (intro that [of ?raw]) (auto simp: z o receipt_names)
  next
    case True
    with f obtain blk where fz: "freezing = Some \<lparr>fp_crossings = ar_crossings rd, fp_carried = carried, fp_block = blk\<rparr>" by auto
    let ?f = "\<lparr>fp_crossings = ar_crossings rd, fp_carried = carried, fp_block = blk\<rparr>"
    note g = mandate_gates(2,4,5) [OF assms(3) _ _ r(3) cp(1) r(4,5), of ?f, where receipt = ?receipt and now = now]
    have raw: "?raw = approved_state (ar_state rd) gate_first ?receipt now (Some ?f)" using True by (simp add: fz gate_first_def)
    from True m obtain a b where a: "more = a @ b" "map ev_kind a = map (\<lambda>_. ''gate_carried'') carried"
      "map ev_subjects a = map (\<lambda>c. [fst c, appr]) carried" by blast
    have carried_event: "\<exists>e \<in> set (tx_events tx). ev_kind e \<in> {''gate_approved'', ''gate_carried''} \<and> t \<in> set (ev_subjects e)"
      if "t \<in> fst ` set carried" for t
    proof -
      from that obtain i where i: "i < length carried" "fst (carried ! i) = t" by (metis imageE in_set_conv_nth)
      have "length a = length carried" using a(2) by (metis length_map)
      with i have "a ! i \<in> set a" "ev_kind (a ! i) = ''gate_carried''" "ev_subjects (a ! i) = [t, appr]"
        using a(2,3) nth_map [of i a ev_kind] nth_map [of i a ev_subjects] by auto
      then show ?thesis using e0(1) a(1) by auto
    qed
    show ?thesis
    proof (rule that [OF w])
      show "gate_approved ?raw gate" unfolding raw using g(1) True by (simp add: gate_first_def)
      fix h assume "gate_approved ?raw h"
      then consider "h = gate" | "h \<in> fst ` set carried" | "h = gate_last" "gate_approved (ar_state rd) gate_last"
        unfolding raw using g(1) True by (auto simp: gate_first_def)
      then show "gate_approved (ar_state rd) h \<or>
       (\<exists>receipt. gate_receipt ?raw h = Some receipt \<and> str_get receipt ''approval_id'' '''' = appr) \<and>
       (\<exists>e \<in> set (tx_events tx). ev_kind e \<in> {''gate_approved'', ''gate_carried''} \<and> h \<in> set (ev_subjects e))"
      proof cases
        case 1
        then show ?thesis using own g(3) True unfolding raw by (simp add: receipt_names gate_first_def)
      next
        case 2
        then obtain original d where "map_of (rev carried) h = Some (original, d)"
          using map_of_eq_None_iff [of "rev carried" h] by (cases "map_of (rev carried) h") auto
        then show ?thesis using carried_event [OF 2] g(2) unfolding raw by (simp add: receipt_names)
      qed simp
    qed
  qed
qed

text \<open>C28: What an approval recorded, the commit check finds backed: for an approval staged over a state whose gates are
  distinct and whose commit went through, on a log that loads and ends its last line, with fresh distinct event ids whose
  appended lines read back and hold no character \<^verbatim>\<open>splitlines\<close> breaks at (\<^verbatim>\<open>log_ready\<close>): the log left on disk is
  readable, the gate asked for is open in the state left on disk, and every gate that
  state opens and the old one did not has a confirmation in the chain after every roll back of it,
  naming the approval its receipt names, so the guard has no objection to committing it.\<close>

theorem recorded_approval_backed:
  assumes "read_for_approval en before gate = Inr rd" and "stage_approval en ws gate subject via appr now tid fresh rd = Inr tx"
    and "state_ok (ar_state rd)" and "snd (commit en (ws_disk ws) tx) = None" and "log_ready en (ws_disk ws) tx current"
  shows "\<exists>raw log. map_of (dk_docs (fst (commit en (ws_disk ws) tx))) ''state'' = Some (en_dump en raw) \<and>
    read_events en (fst (commit en (ws_disk ws) tx)) = Inr log \<and> gate_approved raw gate \<and>
    somes (flip_problem raw log) (filter (\<lambda>g. \<not> gate_approved (ar_state rd) g) (approved_gates raw)) = []"
proof -
  from assms(1-3) obtain raw where raw: "map_of (tx_writes tx) ''state'' = Some raw" "gate_approved raw gate"
    and opened: "\<And>g. gate_approved raw g \<Longrightarrow> gate_approved (ar_state rd) g \<or>
       (\<exists>receipt. gate_receipt raw g = Some receipt \<and> str_get receipt ''approval_id'' '''' = appr) \<and>
       (\<exists>e \<in> set (tx_events tx). ev_kind e \<in> {''gate_approved'', ''gate_carried''} \<and> g \<in> set (ev_subjects e))"
    by (rule opened_gates) blast
  from assms(2) obtain e0 more where e: "tx_events tx = e0 # more" "ev_kind e0 = ''gate_approved''" "ev_subjects e0 = [gate, appr]"
    "list_all (follows_up appr) more" and d: "distinct (map fst (tx_writes tx))"
    by (rule stage_approval_parts)
  have some: "tx_writes tx \<noteq> [] \<or> tx_events tx \<noteq> []" using e by simp
  obtain new where new: "link_all (en_sha en) (last_event current) (tx_tagged tx) = Inr new"
    "read_events en (fst (commit en (ws_disk ws) tx)) = Inr (current @ map norm_event new)"
    "map_of (dk_docs (fst (commit en (ws_disk ws) tx))) ''state'' = Some (en_dump en raw)"
    using lands_whole [OF assms(4) some d assms(5), of "''state''"] raw(1) by auto
  let ?new = "map norm_event new"
  have "map headline ?new = map headline (tx_events tx)"
    using link_all_keeps [OF new(1)] by (simp add: tx_tagged_def with_tx_def comp_def norm_event_def)
  then have "set (map headline ?new) = set (map headline (tx_events tx))" by (rule arg_cong)
  then have heads: "headline ` set ?new = headline ` set (tx_events tx)" by (simp only: set_map)
  have quiet: "\<forall>x \<in> set ?new. ev_kind x \<noteq> ''gate_revised'' \<and>
      (ev_kind x \<in> {''gate_approved'', ''gate_carried''} \<longrightarrow> appr \<in> set (ev_subjects x))"
  proof
    fix x assume "x \<in> set ?new"
    from same_image [OF heads this] obtain y where "y \<in> set (tx_events tx)" "headline x = headline y" by blast
    with e show "ev_kind x \<noteq> ''gate_revised'' \<and> (ev_kind x \<in> {''gate_approved'', ''gate_carried''} \<longrightarrow> appr \<in> set (ev_subjects x))"
      by (auto simp: list_all_iff follows_up_def)
  qed
  have "flip_problem raw (current @ ?new) g = None" if "gate_approved raw g" "\<not> gate_approved (ar_state rd) g" for g
  proof -
    from opened [OF that(1)] that(2) obtain receipt where rc: "gate_receipt raw g = Some receipt" "str_get receipt ''approval_id'' '''' = appr"
      and ev: "\<exists>x \<in> set (tx_events tx). ev_kind x \<in> {''gate_approved'', ''gate_carried''} \<and> g \<in> set (ev_subjects x)" by blast
    from ev obtain x where x: "x \<in> set (tx_events tx)" "ev_kind x \<in> {''gate_approved'', ''gate_carried''}" "g \<in> set (ev_subjects x)" by blast
    from same_image [OF heads [symmetric] x(1)] obtain y where "y \<in> set ?new" "headline x = headline y" by blast
    with x have "y \<in> set ?new" "ev_kind y \<in> {''gate_approved'', ''gate_carried''}" "g \<in> set (ev_subjects y)" by auto
    then show ?thesis using flip_problem_none [OF quiet _ _ _ rc] by blast
  qed
  then have "somes (flip_problem raw (current @ ?new)) (filter (\<lambda>g. \<not> gate_approved (ar_state rd) g) (approved_gates raw)) = []"
    by (auto simp: somes_def approved_gates_def)
  with new raw show ?thesis by blast
qed

section \<open>What was shown is what is approved\<close>

lemma subject_parts:
  assumes "approval_subject en repository ws gate = Inr subject"
  obtains state plan review config es ds content environment reviewed artifacts validation where
    "read_document en (ws_disk ws) ''state'' = Inr state" "read_the_plan en ws = Inr plan"
    "read_document en (ws_disk ws) ''review'' = Inr review" "read_the_config en ws = Inr config"
    "bound_content en ws (case state of None \<Rightarrow> False | Some st \<Rightarrow> gate \<in> set (crossing_gates st)) plan config gate = Inr content"
    "bound_review en review gate = Inr reviewed"
    "fst ` set environment \<subseteq> {''environment_digest''}" "fst ` set artifacts \<subseteq> {''artifact_digest''}"
    "subject = [(''repository_id'', repository), (''cycle_id'', case state of None \<Rightarrow> [] | Some st \<Rightarrow> st_cycle_id st),
       (''attested_chain_root'', chain_root (en_sha en) es)] @ content @ environment @ reviewed @ artifacts @
      [(''validation_digest'', validation)]"
proof -
  from assms obtain state plan review config sc content environment reviewed artifacts validation where
    "read_document en (ws_disk ws) ''state'' = Inr state" "read_the_plan en ws = Inr plan"
    "read_document en (ws_disk ws) ''review'' = Inr review" "read_the_config en ws = Inr config"
    "bound_content en ws (case state of None \<Rightarrow> False | Some st \<Rightarrow> gate \<in> set (crossing_gates st)) plan config gate = Inr content"
    "bound_review en review gate = Inr reviewed" "bound_artifacts en ws gate = Inr artifacts" "scan_disk en ws = Inr sc"
    "(case config of None \<Rightarrow> Inr [] | Some c \<Rightarrow> bind_err (ok_digest (environment_digest (en_sha en) c)) (\<lambda>d. Inr [(''environment_digest'', d)])) = Inr environment"
    "Inr ([(''repository_id'', repository), (''cycle_id'', case state of None \<Rightarrow> [] | Some st \<Rightarrow> st_cycle_id st),
       (''attested_chain_root'', chain_root (en_sha en) (fst sc))] @ content @ environment @ reviewed @ artifacts @
      [(''validation_digest'', validation)]) = (Inr subject :: approve_error + (string \<times> string) list)"
    unfolding approval_subject_def bind_err_Inr map_err_Inr apply (elim exE conjE) apply (rule that) apply assumption+ done
  moreover from this(7) have "fst ` set artifacts \<subseteq> {''artifact_digest''}" by (auto simp: bound_artifacts_def Let_def split: if_splits)
  moreover from calculation(9) have "fst ` set environment \<subseteq> {''environment_digest''}" by (auto split: option.splits)
  moreover from calculation(10) have "subject = [(''repository_id'', repository), (''cycle_id'', case state of None \<Rightarrow> [] | Some st \<Rightarrow> st_cycle_id st),
       (''attested_chain_root'', chain_root (en_sha en) (fst sc))] @ content @ environment @ reviewed @ artifacts @
      [(''validation_digest'', validation)]" by simp
  ultimately show ?thesis by (intro that [of state plan review config content reviewed environment artifacts "fst sc" validation])
qed

lemma or_else_append: "or_else (a @ b) k d = (if k \<in> fst ` set a then or_else a k d else or_else b k d)"
proof (cases "map_of a k")
  case None
  then have "k \<notin> fst ` set a" by (simp add: map_of_eq_None_iff)
  then show ?thesis by (simp add: or_else_def map_add_def None)
next
  case (Some v)
  then have "k \<in> fst ` set a" by (rule map_of_Some_in)
  then show ?thesis by (simp add: or_else_def map_add_def Some)
qed

lemma matches_eq: "matches a b \<Longrightarrow> a = b"
  by (simp add: matches_def)

lemma str_items_str_obj [simp]: "str_items (str_obj kvs) = kvs"
  by (induction kvs) (auto simp: str_items_def str_obj_def)

lemma plan_digest_nonempty: "plan_digest sha p = Inr d \<Longrightarrow> d \<noteq> []" "frozen_digest sha p = Inr d \<Longrightarrow> d \<noteq> []"
  by (auto simp: plan_digest_def frozen_digest_def dest: digest_nonempty)

lemma mandate_not_crossing: "''mandate'' \<notin> set (crossing_gates st)" "''acceptance'' \<notin> set (crossing_gates st)"
  by (simp_all add: set_crossing_gates gate_first_def gate_last_def)

lemma shown_plan:
  assumes "approval_subject en repository shown ''mandate'' = Inr subject"
    and "read_the_plan en shown = Inr (Some p)" and "read_the_config en shown = Inr (Some c)"
  shows "plan_digest (en_sha en) p = Inr (or_else subject ''plan_digest'' '''')"
    "frozen_digest (en_sha en) c = Inr (or_else subject ''config_digest'' '''')"
  using assms by (auto elim!: subject_parts simp: bound_content_def or_else_def mandate_not_crossing split: option.splits)

lemma frozen_block_parts:
  assumes "frozen_plan_block en ws subject now = Inr blk"
  obtains p c where "read_the_plan en ws = Inr (Some p)" "read_the_config en ws = Inr (Some c)"
    "str_field blk ''status'' d = ''frozen''" "plan_digest (en_sha en) p = Inr (str_field blk ''digest'' d')"
    "frozen_digest (en_sha en) c = Inr (str_field blk ''config_digest'' d'')"
    "str_items (obj_field blk ''sources'') = implementation_sources en ws p"
    "or_else subject ''plan_digest'' '''' \<noteq> [] \<longrightarrow> or_else subject ''plan_digest'' '''' = str_field blk ''digest'' d'"
    "or_else subject ''config_digest'' '''' \<noteq> [] \<longrightarrow> or_else subject ''config_digest'' '''' = str_field blk ''config_digest'' d''"
proof -
  have "\<exists>p c pd cd ed. read_the_plan en ws = Inr (Some p) \<and> read_the_config en ws = Inr (Some c) \<and> plan_digest (en_sha en) p = Inr pd \<and>
    frozen_digest (en_sha en) c = Inr cd \<and> still_presented ''plan.yaml'' pd (or_else subject ''plan_digest'' '''') = Inr () \<and>
    still_presented ''config.yaml'' cd (or_else subject ''config_digest'' '''') = Inr () \<and>
    blk = [(''status'', JStr ''frozen''), (''digest'', JStr pd), (''config_digest'', JStr cd), (''environment_digest'', JStr ed),
              (''sources'', JObj (str_obj (implementation_sources en ws p))), (''frozen_at'', JStr now)]"
  proof -
    from assms obtain plan config where r: "read_the_plan en ws = Inr plan" "read_the_config en ws = Inr config"
      by (auto simp: frozen_plan_block_def)
    then show ?thesis using assms by (cases plan; cases config) (auto simp: frozen_plan_block_def)
  qed
  then obtain p c pd cd ed where p: "read_the_plan en ws = Inr (Some p)" "read_the_config en ws = Inr (Some c)" "plan_digest (en_sha en) p = Inr pd"
    "frozen_digest (en_sha en) c = Inr cd" and s: "still_presented ''plan.yaml'' pd (or_else subject ''plan_digest'' '''') = Inr ()"
    "still_presented ''config.yaml'' cd (or_else subject ''config_digest'' '''') = Inr ()"
    and b: "blk = [(''status'', JStr ''frozen''), (''digest'', JStr pd), (''config_digest'', JStr cd), (''environment_digest'', JStr ed),
              (''sources'', JObj (str_obj (implementation_sources en ws p))), (''frozen_at'', JStr now)]" by blast
  have presented: "still_presented name current presented = Inr () \<Longrightarrow> presented \<noteq> [] \<longrightarrow> presented = current" for name current presented
    by (auto simp: still_presented_def split: if_splits dest: matches_eq)
  show ?thesis
    by (rule that [OF p(1,2)]) (use p(3,4) presented [OF s(1)] presented [OF s(2)] in \<open>simp_all add: b str_field_eq obj_field_eq\<close>)
qed

text \<open>C26: A mandate freezes the bytes the person was shown: the plan and the configuration the transaction finds have
  the digests of the ones the approval's subject was computed from, those digests are what the new state pins,
  and the sources it pins beside them are the documents as they stand; had either document moved, nothing
  would have been staged.\<close>

theorem freeze_binds_what_was_shown:
  assumes "approval_subject en repository shown ''mandate'' = Inr subject"
    and "read_the_plan en shown = Inr (Some p0)" and "read_the_config en shown = Inr (Some c0)"
    and "stage_approval en ws ''mandate'' subject via appr now tid fresh rd = Inr tx"
  shows "\<exists>raw p c. map_of (tx_writes tx) ''state'' = Some raw \<and> read_the_plan en ws = Inr (Some p) \<and>
    read_the_config en ws = Inr (Some c) \<and> st_plan_status raw = ''frozen'' \<and>
    plan_digest (en_sha en) p = Inr (st_plan_digest raw) \<and> plan_digest (en_sha en) p0 = Inr (st_plan_digest raw) \<and>
    frozen_digest (en_sha en) c = Inr (st_plan_config_digest raw) \<and> frozen_digest (en_sha en) c0 = Inr (st_plan_config_digest raw) \<and>
    frozen_sources raw = implementation_sources en ws p"
proof -
  from assms(4) obtain carried root freezing where
    w: "map_of (tx_writes tx) ''state'' = Some (approved_state (ar_state rd) ''mandate'' (receipt_of appr now via root subject) now freezing)" and
    f: "if ''mandate'' = ''mandate'' then \<exists>blk. frozen_plan_block en ws subject now = Inr blk \<and>
       freezing = Some \<lparr>fp_crossings = ar_crossings rd, fp_carried = carried, fp_block = blk\<rparr> else freezing = None"
    by (rule stage_approval_parts)
  from f obtain blk where b: "frozen_plan_block en ws subject now = Inr blk"
    and z: "freezing = Some \<lparr>fp_crossings = ar_crossings rd, fp_carried = carried, fp_block = blk\<rparr>" by auto
  note shown = shown_plan [OF assms(1-3)]
  note some = plan_digest_nonempty(1) [OF shown(1)] plan_digest_nonempty(2) [OF shown(2)]
  from b obtain p c where pc: "read_the_plan en ws = Inr (Some p)" "read_the_config en ws = Inr (Some c)"
    "str_field blk ''status'' ''draft'' = ''frozen''" "plan_digest (en_sha en) p = Inr (str_field blk ''digest'' '''')"
    "frozen_digest (en_sha en) c = Inr (str_field blk ''config_digest'' '''')"
    "str_items (obj_field blk ''sources'') = implementation_sources en ws p"
    "or_else subject ''plan_digest'' '''' = str_field blk ''digest'' ''''"
    "or_else subject ''config_digest'' '''' = str_field blk ''config_digest'' ''''"
    using some by (elim frozen_block_parts [where d = "''draft''" and d' = "''''" and d'' = "''''"]) blast
  show ?thesis using w pc shown
    by (intro exI [of _ "approved_state (ar_state rd) ''mandate'' (receipt_of appr now via root subject) now freezing"] exI [of _ p] exI [of _ c])
      (simp add: z st_plan_status_def st_plan_digest_def st_plan_config_digest_def frozen_sources_def approved_state_plan)
qed

lemma approved_human_parts:
  "rw_machine (approved_human r) = rw_machine r" "human_status r = ''frozen'' \<Longrightarrow> approved_human r = r"
  "human_status (approved_human r) = ''frozen'' \<Longrightarrow> human_status r = ''frozen'' \<or> completion_blockers (Some r) (Some (rw_human r)) = []"
  by (auto simp: approved_human_def freeze_def rw_machine_def Let_def split: sum.splits if_splits)

lemma shown_answers:
  assumes "approval_subject en repository shown ''acceptance'' = Inr subject"
    and "read_document en (ws_disk shown) ''review'' = Inr (Some r0)" and "is_generated r0"
  shows "human_digest (en_sha en) (approved_human r0) = Inr (or_else subject ''human_digest'' '''')"
proof -
  from assms(1) obtain state plan review config es content environment reviewed artifacts validation where
    review: "read_document en (ws_disk shown) ''review'' = Inr review" and
    content: "bound_content en shown (case state of None \<Rightarrow> False | Some st \<Rightarrow> ''acceptance'' \<in> set (crossing_gates st)) plan config ''acceptance'' = Inr content" and
    reviewed: "bound_review en review ''acceptance'' = Inr reviewed" and
    environment: "fst ` set environment \<subseteq> {''environment_digest''}" and
    subject: "subject = [(''repository_id'', repository), (''cycle_id'', case state of None \<Rightarrow> [] | Some st \<Rightarrow> st_cycle_id st),
       (''attested_chain_root'', chain_root (en_sha en) es)] @ content @ environment @ reviewed @ artifacts @
      [(''validation_digest'', validation)]"
    by (rule subject_parts)
  have "fst ` set content \<subseteq> {''plan_digest'', ''config_digest''}"
    using content by (auto simp: bound_content_def mandate_not_crossing split: option.splits)
  then have "''human_digest'' \<notin> fst ` set content" "''human_digest'' \<notin> fst ` set environment" using environment by auto
  moreover from review assms(2,3) reviewed obtain m h where "reviewed = [(''machine_digest'', m), (''human_digest'', h)]"
    "human_digest (en_sha en) (approved_human r0) = Inr h"
    by (auto simp: bound_review_def)
  ultimately show ?thesis unfolding subject or_else_append by (simp add: or_else_def)
qed

text \<open>C29: Acceptance is given on the answers that were shown, and it freezes them: the review it leaves has a frozen
  human half with the digest of the half presented, over an unchanged machine half, and unless it was frozen
  already nothing was left to decide in it.\<close>

theorem acceptance_binds_answers:
  assumes "approval_subject en repository shown ''acceptance'' = Inr subject"
    and "read_document en (ws_disk shown) ''review'' = Inr (Some r0)" and "is_generated r0"
    and "stage_approval en ws ''acceptance'' subject via appr now tid fresh rd = Inr tx"
  shows "\<exists>r written. read_document en (ws_disk ws) ''review'' = Inr (Some r) \<and>
    map_of (tx_writes tx) ''review'' = (if written = r then None else Some written) \<and> human_status written = ''frozen'' \<and>
    rw_machine written = rw_machine r \<and> human_digest (en_sha en) written = human_digest (en_sha en) (approved_human r0) \<and>
    (human_status r = ''frozen'' \<or> completion_blockers (Some r) (Some (rw_human r)) = [])"
proof -
  note h = shown_answers [OF assms(1-3)]
  from assms(4) obtain r where r: "read_document en (ws_disk ws) ''review'' = Inr (Some r)"
    "human_status (approved_human r) = ''frozen''" "human_digest (en_sha en) (approved_human r) = Inr (or_else subject ''human_digest'' '''')"
    "if human_status r = ''frozen'' then map_of (tx_writes tx) ''review'' = None else map_of (tx_writes tx) ''review'' = Some (approved_human r)"
    by (elim stage_approval_parts) blast
  show ?thesis
    using r h approved_human_parts [of r]
    by (intro exI [of _ r] exI [of _ "approved_human r"]) (auto split: if_splits)
qed

section \<open>An approval taken\<close>

definition flat_sha :: "string \<Rightarrow> string" where
  "flat_sha s = replicate 64 (CHR ''0'')"

definition flat_digest :: string where
  "flat_digest = of_bytes flat_sha ''''"

definition fork_state :: jobj where
  "fork_state = [(''cycle_id'', JStr ''c1''), (''gates'', JObj [(''mandate'', JObj [(''status'', JStr ''approved'')]),
     (''T-002'', JObj [(''status'', JStr ''pending''), (''receipt'', JNull)])])]"

definition fork_subject :: "(string \<times> string) list" where
  "fork_subject = [(''attested_chain_root'', flat_digest)]"

definition fork_event :: event where
  "fork_event = \<lparr>ev_seq = 0, ev_id = ''e'', ev_tx = ''t1'', ev_ts = ''now'', ev_kind = ''gate_approved'', ev_cycle = ''c1'',
     ev_actor = ''local-confirmation'', ev_subjects = [''T-002'', ''GA-1''], ev_prev = '''', ev_digest = '''',
     ev_detail = [(''attested_chain_root'', JStr flat_digest), (''subject_digest'', JStr flat_digest)]\<rparr>"

definition fork_linked :: event where
  "fork_linked = (case link flat_sha None fork_event of Inr l \<Rightarrow> l | Inl _ \<Rightarrow> fork_event)"

definition fork_env :: env where
  "fork_env = \<lparr>en_sha = flat_sha, en_loads = table_loads [JObj (to_mapping fork_linked)],
     en_load_doc = (\<lambda>s. if s = ''state'' then Inr fork_state else Inl EmptyDocument),
     en_dump = (\<lambda>m. ser (JObj m)), en_schema = (\<lambda>_ _. True), en_event_ok = (\<lambda>_. True)\<rparr>"

definition fork_ws :: workspace where
  "fork_ws = \<lparr>ws_disk = \<lparr>dk_docs = [(''state'', ''state'')], dk_log = '''', dk_journal = None\<rparr>, ws_config = None, ws_bytes = (\<lambda>_. None)\<rparr>"

definition fork_reading :: approval_reading where
  "fork_reading = \<lparr>ar_state = fork_state, ar_seen = flat_digest, ar_reaches = None, ar_crossings = [], ar_plan = None, ar_config = None\<rparr>"

definition fork_receipt :: jobj where
  "fork_receipt = receipt_of ''GA-1'' ''now'' ''terminal'' flat_digest fork_subject"

definition fork_tx :: txn where
  "fork_tx = \<lparr>tx_id = ''t1'', tx_writes = [(''state'', approved_state fork_state ''T-002'' fork_receipt ''now'' None)],
     tx_expect = [(''state'', flat_digest)], tx_events = [fork_event]\<rparr>"

lemma flat_digest_of: "finite_floats (prune v ks) \<Longrightarrow> digest_of flat_sha v ks = Inr flat_digest"
  by (simp add: digest_of_iff flat_digest_def of_bytes_def flat_sha_def)

lemma flat_root: "chain_root flat_sha es = flat_digest" "verify_root flat_sha es flat_digest"
proof -
  show r: "chain_root flat_sha es = flat_digest"
    by (simp add: chain_root_def of_texts_def of_bytes_def flat_digest_def flat_sha_def)
  have "is_digest flat_digest" by code_simp
  then show "verify_root flat_sha es flat_digest" by (simp add: verify_root_def r matches_def)
qed

lemma fork_reads: "read_document fork_env (ws_disk fork_ws) ''state'' = Inr (Some fork_state)"
  "read_digest fork_env (Some fork_state) = Inr flat_digest" "read_events fork_env (ws_disk fork_ws) = Inr []"
  "scan_disk fork_env fork_ws = Inr ([], [])"
proof -
  have "finite_floats (prune (JObj fork_state) [])" by code_simp
  then show "read_digest fork_env (Some fork_state) = Inr flat_digest"
    by (simp add: read_digest_def fork_env_def flat_digest_of map_err_def)
qed (simp_all add: read_document_def read_raw_def fork_env_def fork_ws_def bind_err_def map_err_def read_events_def scan_disk_def
    load_log_def scan_text_def splitlines_def)

lemma fork_link: "link flat_sha None fork_event = Inr fork_linked"
proof -
  have "\<not> isl (link flat_sha None fork_event)" by code_simp
  then show ?thesis by (cases "link flat_sha None fork_event") (simp_all add: fork_linked_def)
qed

lemma fork_read: "read_for_approval fork_env fork_ws ''T-002'' = Inr fork_reading"
  by (simp add: read_for_approval_def fork_reads bind_err_def map_err_def fork_reading_def)

lemma fork_staged: "stage_approval fork_env fork_ws ''T-002'' fork_subject ''terminal'' ''GA-1'' ''now'' ''t1'' (\<lambda>_. ''e'') fork_reading = Inr fork_tx"
proof -
  have "finite_floats (prune (JObj (str_obj fork_subject)) [])" by code_simp
  then have d: "approval_detail fork_env fork_ws ''T-002'' fork_subject flat_digest = Inr (ev_detail fork_event)"
    by (simp add: approval_detail_def fork_env_def flat_digest_of map_err_def bind_err_def fork_event_def)
      (simp add: fork_subject_def or_else_def Let_def)
  have "EventQueries.make ''gate_approved'' (st_cycle_id fork_state) ''local-confirmation'' [''T-002'', ''GA-1''] (ev_detail fork_event)
      ''t1'' ''e'' ''now'' = Inr fork_event"
    by code_simp
  then have n: "note_event fork_reading ''gate_approved'' [''T-002'', ''GA-1''] (ev_detail fork_event) (\<lambda>_. ''e'') ''now'' (begin_tx ''t1'') =
      Inr (tx_append fork_event (begin_tx ''t1''))"
    by (simp add: note_event_def fork_reading_def begin_tx_def map_err_def bind_err_def)
  have "with_tx ''t1'' fork_event = fork_event" by (simp add: with_tx_def fork_event_def)
  moreover have "en_sha fork_env = flat_sha" by (simp add: fork_env_def)
  ultimately have p: "projected_chain_root fork_env (ws_disk fork_ws) (tx_append fork_event (begin_tx ''t1'')) = Inr flat_digest"
    by (simp add: projected_chain_root_def fork_reads bind_err_def map_err_def tx_append_def begin_tx_def last_event_def fork_link flat_root)
  have "or_else fork_subject ''attested_chain_root'' '''' = flat_digest" by (simp add: fork_subject_def or_else_def)
  moreover have "jget fork_state ''gates'' = JObj [(''mandate'', JObj [(''status'', JStr ''approved'')]),
     (''T-002'', JObj [(''status'', JStr ''pending''), (''receipt'', JNull)])]" by (simp add: fork_state_def jget_def)
  moreover have "en_schema fork_env = (\<lambda>_ _. True)" "en_sha fork_env = flat_sha" by (simp_all add: fork_env_def)
  moreover have "ar_state fork_reading = fork_state" "ar_plan fork_reading = None" "ar_seen fork_reading = flat_digest"
    by (simp_all add: fork_reading_def)
  ultimately show ?thesis
    by (simp add: stage_approval_def fork_reads flat_root map_err_def d n [unfolded begin_tx_def tx_append_def, simplified]
        p [unfolded begin_tx_def tx_append_def, simplified] tx_write_def documents_def
        tx_append_def begin_tx_def fork_tx_def fork_receipt_def Let_def)
qed

lemma fork_facts: "state_ok fork_state" "gate_chain_violations fork_state = []" "''T-002'' \<in> set (decidable_gates fork_state)"
  by code_simp+

theorem approval_keeps_chain_witness:
  "\<exists>raw. map_of (tx_writes fork_tx) ''state'' = Some raw \<and> gate_chain_violations raw = [] \<and> ''T-002'' \<in> set (approved_gates raw)"
proof -
  have "ar_state fork_reading = fork_state" by (simp add: fork_reading_def)
  with approval_keeps_chain [OF fork_read fork_staged] fork_facts show ?thesis by auto
qed

lemma fork_line: "line_for (en_loads fork_env) (en_event_ok fork_env) fork_linked = Inr (ser (JObj (to_mapping fork_linked)))"
  "plain (JObj (to_mapping fork_linked))" "one_line fork_linked"
proof -
  show p: "plain (JObj (to_mapping fork_linked))" unfolding plain_def by code_simp
  have "within small_limits (norm (JObj (to_mapping fork_linked)))"
    "length (ser (JObj (to_mapping fork_linked))) \<le> max_bytes small_limits" by (code_simp, code_simp)
  with p have "line_for (table_loads [JObj (to_mapping fork_linked)]) (\<lambda>_. True) fork_linked =
      Inr (ser (JObj (to_mapping fork_linked)))" by (intro table_line) simp_all
  then show "line_for (en_loads fork_env) (en_event_ok fork_env) fork_linked = Inr (ser (JObj (to_mapping fork_linked)))"
    by (simp add: fork_env_def)
  show "one_line fork_linked" by code_simp
qed

lemma fork_chained: "chained fork_env None [fork_event] = Inr [fork_linked]"
  using fork_line(1) fork_link by (simp add: fork_env_def map_err_def bind_err_def)

lemma fork_checks: "\<exists>ds. commit_checks fork_env (ws_disk fork_ws) fork_tx = Inr ([fork_event], ds)"
proof -
  have "precheck_events fork_env (ws_disk fork_ws) [fork_event] = Inr ()"
    using fork_chained by (simp add: precheck_events_def fork_reads bind_err_def last_event_def)
  moreover have "check_expect fork_env (ws_disk fork_ws) (tx_expect fork_tx) = Inr ()"
  proof -
    have "read_raw fork_env (ws_disk fork_ws) ''state'' = Inr (Some fork_state)"
      by (simp add: read_raw_def fork_env_def fork_ws_def bind_err_def map_err_def)
    then show ?thesis by (simp add: fork_tx_def document_digest_def fork_reads bind_err_def)
  qed
  moreover have "check_reviews fork_env fork_tx = Inr ()" by (simp add: check_reviews_def fork_tx_def)
  moreover have "with_tx ''t1'' fork_event = fork_event" by (simp add: with_tx_def fork_event_def)
  moreover have "finite_floats (prune (JObj (approved_state fork_state ''T-002'' fork_receipt ''now'' None)) [])" by code_simp
  then have "write_digests fork_env (tx_writes fork_tx) = Inr [(''state'', JStr flat_digest)]"
    by (simp add: fork_tx_def fork_env_def flat_digest_of map_err_def bind_err_def)
  ultimately have "commit_checks fork_env (ws_disk fork_ws) fork_tx = Inr ([fork_event], [(''state'', JStr flat_digest)])"
    by (simp add: commit_checks_def bind_err_def fork_tx_def)
  then show ?thesis by blast
qed

lemma fork_commits: "snd (commit fork_env (ws_disk fork_ws) fork_tx) = None"
proof -
  have e: "tx_writes fork_tx \<noteq> [] \<or> tx_events fork_tx \<noteq> []" by (simp add: fork_tx_def)
  obtain ds where "commit_checks fork_env (ws_disk fork_ws) fork_tx = Inr ([fork_event], ds)" using fork_checks by blast
  then show ?thesis using commit_result [OF e] by (metis snd_conv)
qed

lemma fork_log_ready: "log_ready fork_env (ws_disk fork_ws) fork_tx []"
proof -
  have "with_tx ''t1'' fork_event = fork_event" by (simp add: with_tx_def fork_event_def)
  then have l: "link_all (en_sha fork_env) (last_event []) (tx_tagged fork_tx) = Inr [fork_linked]"
    using fork_chained by (simp add: chained_iff tx_tagged_def fork_tx_def last_event_def)
  have "reads_back (en_loads fork_env) fork_linked"
    using table_reads [of "JObj (to_mapping fork_linked)" "[JObj (to_mapping fork_linked)]"] fork_line(2)
    by (auto simp: reads_back_def fork_env_def)
  moreover have "load_log (en_sha fork_env) (en_loads fork_env) (en_event_ok fork_env) (dk_log (ws_disk fork_ws)) = Inr []"
    using fork_reads(3) by (simp add: read_events_def)
  moreover have "ends_line (dk_log (ws_disk fork_ws))" by (simp add: fork_ws_def ends_line_def)
  moreover have "fresh_for fork_tx []" by (simp add: fresh_for_def fork_tx_def)
  ultimately show ?thesis unfolding log_ready_def l by (simp add: fork_line(3))
qed

theorem recorded_approval_backed_witness:
  "\<exists>raw log. read_events fork_env (fst (commit fork_env (ws_disk fork_ws) fork_tx)) = Inr log \<and> gate_approved raw ''T-002'' \<and>
     somes (flip_problem raw log) (filter (\<lambda>g. \<not> gate_approved fork_state g) (approved_gates raw)) = []"
proof -
  have "ar_state fork_reading = fork_state" by (simp add: fork_reading_def)
  with recorded_approval_backed [OF fork_read fork_staged _ fork_commits fork_log_ready] fork_facts(1) show ?thesis by auto
qed

section \<open>A mandate approved, and an acceptance\<close>

definition eve_state :: jobj where
  "eve_state = [(''cycle_id'', JStr ''c1''), (''gates'', JObj [(''mandate'', JObj [(''status'', JStr ''pending'')])])]"

definition eve_review :: jobj where
  "eve_review = jset ''human'' (JObj both_answers) settled_review"

definition eve_env :: env where
  "eve_env = \<lparr>en_sha = flat_sha, en_loads = (\<lambda>_. None),
     en_load_doc = (\<lambda>s. if s = ''plan'' then Inr tidy_plan else if s = ''review'' then Inr eve_review else if s = ''state'' then Inr eve_state else Inr []),
     en_dump = (\<lambda>m. ser (JObj m)), en_schema = (\<lambda>_ _. True), en_event_ok = (\<lambda>_. True)\<rparr>"

definition eve_ws :: workspace where
  "eve_ws = \<lparr>ws_disk = \<lparr>dk_docs = [(''state'', ''state''), (''plan'', ''plan''), (''review'', ''review'')], dk_log = '''', dk_journal = None\<rparr>,
     ws_config = Some ''config'', ws_bytes = (\<lambda>p. if p = ''docs/10-requirements.md'' then Some ''R-1'' else None)\<rparr>"

definition eve_reading :: approval_reading where
  "eve_reading = \<lparr>ar_state = eve_state, ar_seen = flat_digest, ar_reaches = None, ar_crossings = [], ar_plan = None, ar_config = None\<rparr>"

definition eve_approval :: "string \<Rightarrow> approve_error + (string \<times> string) list \<times> txn" where
  "eve_approval gate = bind_err (approval_subject eve_env ''r'' eve_ws gate) (\<lambda>subject.
     bind_err (stage_approval eve_env eve_ws gate subject ''terminal'' ''GA-1'' ''now'' ''t1'' (\<lambda>_. ''e'') eve_reading) (\<lambda>tx. Inr (subject, tx)))"

lemma eve_approves:
  assumes "\<not> isl (eve_approval gate)"
  obtains subject tx where "approval_subject eve_env ''r'' eve_ws gate = Inr subject"
    "stage_approval eve_env eve_ws gate subject ''terminal'' ''GA-1'' ''now'' ''t1'' (\<lambda>_. ''e'') eve_reading = Inr tx"
  using assms by (cases "eve_approval gate") (auto simp: eve_approval_def)

lemma eve_reads: "read_the_plan eve_env eve_ws = Inr (Some tidy_plan)" "read_the_config eve_env eve_ws = Inr (Some [])"
  "read_document eve_env (ws_disk eve_ws) ''review'' = Inr (Some eve_review)"
proof -
  have "config_problems [] = []" by code_simp
  then show "read_the_config eve_env eve_ws = Inr (Some [])"
    by (simp add: read_the_config_def eve_env_def eve_ws_def bind_err_def map_err_def)
qed (simp_all add: read_the_plan_def read_document_def read_raw_def eve_env_def eve_ws_def bind_err_def map_err_def tidy_clean)

theorem freeze_binds_what_was_shown_witness:
  "\<exists>raw c. read_the_config eve_env eve_ws = Inr (Some c) \<and> st_plan_status raw = ''frozen'' \<and>
     plan_digest flat_sha tidy_plan = Inr (st_plan_digest raw) \<and> frozen_digest flat_sha c = Inr (st_plan_config_digest raw)"
proof -
  have "\<not> isl (eve_approval ''mandate'')" by code_simp
  then obtain subject tx where "approval_subject eve_env ''r'' eve_ws ''mandate'' = Inr subject"
    "stage_approval eve_env eve_ws ''mandate'' subject ''terminal'' ''GA-1'' ''now'' ''t1'' (\<lambda>_. ''e'') eve_reading = Inr tx"
    by (rule eve_approves)
  moreover have "en_sha eve_env = flat_sha" by (simp add: eve_env_def)
  ultimately show ?thesis using freeze_binds_what_was_shown [OF _ eve_reads(1,2)] eve_reads(2) by fastforce
qed

theorem acceptance_binds_answers_witness:
  "\<exists>written. human_status written = ''frozen'' \<and> rw_machine written = rw_machine eve_review \<and>
     human_digest flat_sha written = human_digest flat_sha (approved_human eve_review)"
proof -
  have "\<not> isl (eve_approval ''acceptance'')" by code_simp
  then obtain subject tx where "approval_subject eve_env ''r'' eve_ws ''acceptance'' = Inr subject"
    "stage_approval eve_env eve_ws ''acceptance'' subject ''terminal'' ''GA-1'' ''now'' ''t1'' (\<lambda>_. ''e'') eve_reading = Inr tx"
    by (rule eve_approves)
  moreover have "is_generated eve_review" by code_simp
  moreover have "en_sha eve_env = flat_sha" by (simp add: eve_env_def)
  ultimately show ?thesis using acceptance_binds_answers [OF _ eve_reads(3)] eve_reads(3) by fastforce
qed

end
