(* ===== verification/Trace.thy ===== *)
theory Trace
  imports Checkout Text
begin

text \<open>
  \<^verbatim>\<open>dag_trace.py\<close>: the requirements a document declares by its headings, whether a text refers to one, and the
  thread from requirement to claim to task that the mandate's readiness rests on. The two regular expressions are
  written out as scanners over the characters of a line; which characters outside ASCII Python counts as digits and
  as word characters, and what \<^verbatim>\<open>int\<close> reads, are parameters. The report's sentences and \<^verbatim>\<open>render_trace\<close> are not
  modelled.
\<close>

record unicode =
  un_digit :: "string \<Rightarrow> bool"
  un_word :: "string \<Rightarrow> bool"
  un_int :: "string \<Rightarrow> nat"

section \<open>Headings and mentions\<close>

definition ascii_word :: "char \<Rightarrow> bool" where
  "ascii_word c \<longleftrightarrow> is_digit c \<or> c = CHR ''_'' \<or> 65 \<le> (of_char c :: nat) \<and> (of_char c :: nat) \<le> 90 \<or>
     97 \<le> (of_char c :: nat) \<and> (of_char c :: nat) \<le> 122"

definition word_char :: "unicode \<Rightarrow> string \<Rightarrow> bool" where
  "word_char un cs = (case cs of [c] \<Rightarrow> ascii_word c | _ \<Rightarrow> un_word un cs)"

definition digit_char :: "unicode \<Rightarrow> string \<Rightarrow> bool" where
  "digit_char un cs = (case cs of [c] \<Rightarrow> is_digit c | _ \<Rightarrow> un_digit un cs)"

definition pad_char :: "string \<Rightarrow> bool" where
  "pad_char cs \<longleftrightarrow> cs = [CHR '' ''] \<or> cs = [CHR 0x09]"

definition id_stem :: "string list \<Rightarrow> (string \<times> string list) option" where
  "id_stem cs =
     (if prefix (chars_of ''NFR-'') cs then Some (''NFR-'', drop 4 cs)
      else if prefix (chars_of ''R-'') cs then Some (''R-'', drop 2 cs) else None)"

text \<open>What \<^verbatim>\<open>_HEADING_RE\<close> takes from one line: the id and the title after it.\<close>

definition heading_of :: "unicode \<Rightarrow> string \<Rightarrow> (string \<times> string list) option" where
  "heading_of un line =
     (let cs = chars_of line; marks = takeWhile (\<lambda>c. c = ''#'') cs; rest = dropWhile (\<lambda>c. c = ''#'') cs
      in if length marks < 1 \<or> 6 < length marks \<or> takeWhile pad_char rest = [] then None
         else case id_stem (dropWhile pad_char rest) of
             None \<Rightarrow> None
           | Some (stem, tail) \<Rightarrow>
               (let number = takeWhile (digit_char un) tail; after = dropWhile (digit_char un) tail
                in if number = [] \<or> after \<noteq> [] \<and> word_char un (hd after) then None
                   else let gap = dropWhile pad_char after
                        in Some (stem @ concat number,
                             if gap \<noteq> [] \<and> hd gap = '':'' then dropWhile pad_char (tl gap) else gap)))"

definition still_placeholder :: "string list \<Rightarrow> bool" where
  "still_placeholder title \<longleftrightarrow> take 1 (dropWhile space_char title) = [''<'']"

definition declared_requirements :: "unicode \<Rightarrow> string \<Rightarrow> string list" where
  "declared_requirements un text =
     dedup (concat (map (\<lambda>line. case heading_of un line of
         None \<Rightarrow> [] | Some (rid, title) \<Rightarrow> if still_placeholder title then [] else [rid]) (split_on (CHR 0x0A) text)))"

definition joined :: "unicode \<Rightarrow> string \<Rightarrow> bool" where
  "joined un cs \<longleftrightarrow> word_char un cs \<or> cs = ''-''"

fun mentioned :: "unicode \<Rightarrow> string list \<Rightarrow> bool \<Rightarrow> string list \<Rightarrow> bool" where
  "mentioned un rid before [] = (\<not> before \<and> rid = [])"
| "mentioned un rid before (c # cs) =
     (\<not> before \<and> prefix rid (c # cs) \<and>
        (case drop (length rid) (c # cs) of [] \<Rightarrow> True | d # _ \<Rightarrow> \<not> joined un d) \<or>
      mentioned un rid (joined un c) cs)"

definition mentions :: "unicode \<Rightarrow> string \<Rightarrow> string \<Rightarrow> bool" where
  "mentions un text rid = mentioned un (chars_of rid) False (chars_of text)"

definition is_nfr :: "string \<Rightarrow> bool" where
  "is_nfr rid \<longleftrightarrow> prefix ''NFR-'' rid"

section \<open>The thread\<close>

text \<open>\<^verbatim>\<open>partition('-')\<close>, and the order that puts R-2 before R-10 and every R before every NFR.\<close>

definition order_key :: "unicode \<Rightarrow> string \<Rightarrow> nat \<times> nat \<times> string" where
  "order_key un rid =
     (let head = takeWhile (\<lambda>c. c \<noteq> CHR ''-'') rid; number = drop (length head + 1) rid
      in (if head = ''NFR'' then 1 else 0,
          if number \<noteq> [] \<and> list_all (digit_char un) (chars_of number) then un_int un number else 0, rid))"

record trace_report =
  tr_requirements :: "string list"
  tr_claims_by_requirement :: "(string \<times> string list) list"
  tr_tasks_by_claim :: "(string \<times> string list) list"
  tr_issue_of :: "(string \<times> string) list"
  tr_without_claims :: "string list"
  tr_without_tasks :: "string list"
  tr_orphan_tasks :: "string list"
  tr_dangling :: "(string \<times> string) list"
  tr_undesigned :: "string list"
  tr_untested :: "string list"
  tr_checked :: bool
  tr_checked_design :: bool
  tr_checked_test_plan :: bool

definition answering :: "graph option \<Rightarrow> string \<Rightarrow> string list" where
  "answering g cid = (case g of None \<Rightarrow> [] | Some ts \<Rightarrow>
     sort (concat (map (\<lambda>t. map (\<lambda>_. d_id t) (filter (\<lambda>c. c = cid) (d_claim_ids t))) ts)))"

definition citing :: "jobj \<Rightarrow> string \<Rightarrow> string list" where
  "citing plan rid = concat (map (\<lambda>c. map (\<lambda>_. el_id c) (filter (\<lambda>r. r = rid) (claim_requirement_ids c))) (plan_claims plan))"

definition cited :: "jobj \<Rightarrow> string list" where
  "cited plan = dedup (concat (map claim_requirement_ids (plan_claims plan)))"

definition trace :: "unicode \<Rightarrow> jobj \<Rightarrow> graph option \<Rightarrow> string list \<Rightarrow> string option \<Rightarrow> string option \<Rightarrow> trace_report" where
  "trace un plan g declared design test_plan =
     \<lparr>tr_requirements = sort_key (order_key un) (dedup (declared @ cited plan)),
      tr_claims_by_requirement = map (\<lambda>r. (r, citing plan r)) (cited plan),
      tr_tasks_by_claim = dict_of (map (\<lambda>c. (el_id c, answering g (el_id c))) (plan_claims plan)),
      tr_issue_of = dict_of (map (\<lambda>t. (pt_id t, t_issue t)) (plan_tasks plan)),
      tr_without_claims = filter (\<lambda>r. r \<notin> set (cited plan)) declared,
      tr_without_tasks = (if g = None then [] else filter (\<lambda>c. answering g c = []) (map el_id (plan_claims plan))),
      tr_orphan_tasks = (case g of None \<Rightarrow> [] | Some ts \<Rightarrow> sort (map d_id (filter (\<lambda>t. d_claim_ids t = []) ts))),
      tr_dangling = (if declared = [] then [] else concat (map (\<lambda>c. map (\<lambda>r. (el_id c, r))
         (filter (\<lambda>r. r \<notin> set declared) (claim_requirement_ids c))) (plan_claims plan))),
      tr_undesigned = (case design of None \<Rightarrow> [] | Some text \<Rightarrow> filter (\<lambda>r. \<not> mentions un text r) declared),
      tr_untested = (case test_plan of None \<Rightarrow> [] | Some text \<Rightarrow> filter (\<lambda>r. \<not> mentions un text r) declared),
      tr_checked = (declared @ cited plan \<noteq> []), tr_checked_design = (design \<noteq> None), tr_checked_test_plan = (test_plan \<noteq> None)\<rparr>"

datatype trace_error = NoClaimFor string | CitesUndeclared string string | NoDesignFor string | NotInTestPlan string | TaskForNothing string

definition trace_errors :: "trace_report \<Rightarrow> trace_error list" where
  "trace_errors r =
     map NoClaimFor (filter (\<lambda>x. \<not> is_nfr x) (tr_without_claims r)) @ map (\<lambda>(c, x). CitesUndeclared c x) (tr_dangling r) @
     map NoDesignFor (filter (\<lambda>x. \<not> is_nfr x) (tr_undesigned r)) @ map NotInTestPlan (tr_untested r) @
     map TaskForNothing (tr_orphan_tasks r)"

datatype trace_warning = NoClaimYet string | NoTaskFor string | NoDesignYet string | DesignAbsent

definition trace_warnings :: "trace_report \<Rightarrow> trace_warning list" where
  "trace_warnings r =
     map NoClaimYet (filter is_nfr (tr_without_claims r)) @ map NoTaskFor (tr_without_tasks r) @
     map NoDesignYet (filter is_nfr (tr_undesigned r)) @ (if tr_checked_design r then [] else [DesignAbsent])"

definition trace_ok :: "trace_report \<Rightarrow> bool" where
  "trace_ok r \<longleftrightarrow> tr_checked r \<and> trace_errors r = []"

definition requirements_doc :: string where
  "requirements_doc = ''docs/10-requirements.md''"

definition design_doc :: string where
  "design_doc = ''docs/20-design.md''"

definition readable_text :: "checkout \<Rightarrow> string \<Rightarrow> string option" where
  "readable_text ck path = (case ck_read ck path of Contents t \<Rightarrow> Some t | _ \<Rightarrow> None)"

definition trace_repo :: "unicode \<Rightarrow> checkout \<Rightarrow> jobj \<Rightarrow> graph option \<Rightarrow> string option \<Rightarrow> trace_report" where
  "trace_repo un ck plan g test_plan =
     trace un plan g (declared_requirements un (case readable_text ck requirements_doc of None \<Rightarrow> [] | Some t \<Rightarrow> t))
       (readable_text ck design_doc) test_plan"

section \<open>What a whole thread says\<close>

lemma sort_empty [simp]: "sort xs = [] \<longleftrightarrow> xs = []"
  by (metis length_0_conv length_sort)

text \<open>A thread without errors is whole: every functional requirement the document declares is cited by a claim,
  every requirement a claim cites is one the document declares (when it declares any), every functional
  requirement appears in the design that was read, every one in the test plan, and no task is left answering
  for nothing; and the other way round, a break of any of these is an error.\<close>

theorem trace_errors_exact:
  "trace_errors (trace un plan g declared design test_plan) = [] \<longleftrightarrow>
     set (filter (\<lambda>r. \<not> is_nfr r) declared) \<subseteq> set (cited plan) \<and>
     (declared = [] \<or> set (cited plan) \<subseteq> set declared) \<and>
     (design = None \<or> list_all (\<lambda>r. is_nfr r \<or> mentions un (the design) r) declared) \<and>
     (test_plan = None \<or> list_all (mentions un (the test_plan)) declared) \<and>
     (g = None \<or> list_all (\<lambda>t. d_claim_ids t \<noteq> []) (the g))"
proof -
  have "tr_dangling (trace un plan g declared design test_plan) = [] \<longleftrightarrow> declared = [] \<or> set (cited plan) \<subseteq> set declared"
    by (auto simp: trace_def cited_def filter_empty_conv)
  moreover have "filter (\<lambda>x. \<not> is_nfr x) (tr_without_claims (trace un plan g declared design test_plan)) = [] \<longleftrightarrow>
      set (filter (\<lambda>r. \<not> is_nfr r) declared) \<subseteq> set (cited plan)"
    by (auto simp: trace_def filter_empty_conv)
  moreover have "filter (\<lambda>x. \<not> is_nfr x) (tr_undesigned (trace un plan g declared design test_plan)) = [] \<longleftrightarrow>
      design = None \<or> list_all (\<lambda>r. is_nfr r \<or> mentions un (the design) r) declared"
    by (cases design) (auto simp: trace_def filter_empty_conv list_all_iff)
  moreover have "tr_untested (trace un plan g declared design test_plan) = [] \<longleftrightarrow>
      test_plan = None \<or> list_all (mentions un (the test_plan)) declared"
    by (cases test_plan) (auto simp: trace_def filter_empty_conv list_all_iff)
  moreover have "tr_orphan_tasks (trace un plan g declared design test_plan) = [] \<longleftrightarrow>
      g = None \<or> list_all (\<lambda>t. d_claim_ids t \<noteq> []) (the g)"
    by (cases g) (auto simp: trace_def filter_empty_conv list_all_iff)
  ultimately show ?thesis by (simp add: trace_errors_def)
qed

text \<open>Word boundaries: an id is not found inside a longer one.\<close>

lemma mentions_bounded:
  assumes "mentioned un rid before cs"
  shows "\<exists>u v. cs = u @ rid @ v \<and> (u = [] \<and> \<not> before \<or> u \<noteq> [] \<and> \<not> joined un (last u)) \<and> (v = [] \<or> \<not> joined un (hd v))"
  using assms
proof (induction un rid before cs rule: mentioned.induct)
  case (2 un rid before c cs)
  show ?case
  proof (cases "mentioned un rid (joined un c) cs")
    case True
    from 2(1) [OF this] obtain u v where "cs = u @ rid @ v" "u = [] \<and> \<not> joined un c \<or> u \<noteq> [] \<and> \<not> joined un (last u)"
      "v = [] \<or> \<not> joined un (hd v)" by blast
    then show ?thesis by (intro exI [of _ "c # u"] exI [of _ v]) auto
  next
    case False
    with 2(2) have h: "\<not> before" "prefix rid (c # cs)" "case drop (length rid) (c # cs) of [] \<Rightarrow> True | d # _ \<Rightarrow> \<not> joined un d" by auto
    then obtain v where v: "c # cs = rid @ v" by (auto simp: prefix_def)
    with h(3) have "v = [] \<or> \<not> joined un (hd v)" by (cases v) auto
    with v h(1) show ?thesis by (intro exI [of _ "[]"] exI [of _ v]) simp
  qed
qed simp

end
