(* ===== verification/AuditRecord.thy ===== *)
theory AuditRecord
  imports ConfigDoc Paths
begin

text \<open>
  \<^verbatim>\<open>audit.py\<close>, what is asked of a recorded dependency audit: the block of the configuration, the digest of the
  manifests a tree carries (\<^verbatim>\<open>diff_facts._DEPENDENCY_FILES\<close> says which files those are) and \<^verbatim>\<open>staleness\<close>. Launching
  the audit is not modelled. A moment is its number of microseconds since the epoch; how a timestamp is
  parsed, with UTC where it names no zone, is a parameter.
\<close>

section \<open>The configured audit\<close>

definition audit_configured :: "jobj option \<Rightarrow> jobj" where
  "audit_configured config = (case config of None \<Rightarrow> [] | Some c \<Rightarrow> obj_field (obj_field c ''security'') ''dependency_audit'')"

definition default_max_age_days :: int where
  "default_max_age_days = 7"

definition max_age_days :: "jobj option \<Rightarrow> int" where
  "max_age_days config = as_int (jget (audit_configured config) ''max_age_days'') default_max_age_days"

section \<open>What an audit is about\<close>

definition dependency_names :: "string list" where
  "dependency_names = [''pyproject.toml'', ''uv.lock'', ''poetry.lock'', ''Pipfile'', ''Pipfile.lock'', ''package.json'',
     ''package-lock.json'', ''yarn.lock'', ''pnpm-lock.yaml'', ''Cargo.toml'', ''Cargo.lock'', ''go.mod'', ''go.sum'', ''Gemfile'',
     ''Gemfile.lock'', ''composer.json'', ''composer.lock'']"

definition manifest_name :: "string \<Rightarrow> bool" where
  "manifest_name b \<longleftrightarrow> b \<in> set dependency_names \<or>
     prefix ''requirements'' b \<and> suffix ''.txt'' (drop (length ''requirements'') b)"

text \<open>The last component of the path; a \<^verbatim>\<open>$\<close> also matches before a final newline.\<close>

definition dependency_file :: "string \<Rightarrow> bool" where
  "dependency_file path =
     (let b = last (split_on (CHR ''/'') path)
      in manifest_name b \<or> b \<noteq> [] \<and> last b = CHR 0x0A \<and> manifest_name (butlast b))"

definition dependency_digest :: "(string \<Rightarrow> string) \<Rightarrow> string option \<Rightarrow> digest_error + string" where
  "dependency_digest sha ls_tree =
     (case ls_tree of
        None \<Rightarrow> Inr []
      | Some out \<Rightarrow> bind_err (parse_ls_tree out) (\<lambda>entries. tree_digest sha (filter (\<lambda>e. dependency_file (te_path e)) entries)))"

section \<open>Whether a record still speaks\<close>

datatype audit_stale = NeverAudited | AuditFailed string | OtherManifests | UnreadableTime | AuditExpired int int

definition day :: int where
  "day = 86400 * 1000000"

definition summary_max :: nat where
  "summary_max = 400"

definition staleness :: "(string \<Rightarrow> int option) \<Rightarrow> json \<Rightarrow> string \<Rightarrow> int \<Rightarrow> int \<Rightarrow> bool \<Rightarrow> audit_stale option" where
  "staleness parse_time audit_record dependencies now max_age require_pass =
     (let r = as_obj audit_record
      in if \<not> is_obj audit_record \<or> \<not> truthy (jget r ''ran_at'') then Some NeverAudited
         else if require_pass \<and> jget r ''passed'' \<noteq> JBool True
           then Some (AuditFailed (concat (take summary_max (chars_of (py_strip (str_get r ''summary'' ''''))))))
         else if dependencies \<noteq> [] \<and> str_get r ''dependencies'' '''' \<notin> {[], dependencies} then Some OtherManifests
         else (case parse_time (py_str (jget r ''ran_at'')) of
             None \<Rightarrow> Some UnreadableTime
           | Some since \<Rightarrow> if now - since > max_age * day then Some (AuditExpired ((now - since) div day) max_age) else None))"

lemma whole_days: "m * day < d \<Longrightarrow> m \<le> d div day"
  using zdiv_mono1 [of "m * day" d day] by (simp add: day_def)

lemma in_the_past: "m * day < now - since \<Longrightarrow> \<not> since < now \<Longrightarrow> m < 0"
  by (simp add: day_def)

text \<open>C31: An audit speaks for a release exactly when one ran at a moment that can be read and lies at most
  \<open>max_age\<close> days back, it did not bind other manifests than the release has (where both digests are known), and,
  where a pass is asked for, it passed. It is called expired exactly when only the moment stands against it: it lies
  more than \<open>max_age\<close> days back, and the answer names the allowance and the whole days since, which are no fewer. So with an
  allowance that is not negative, a record dated now or in the future is never expired.\<close>

theorem staleness_exact:
  "(staleness parse_time audit_record dependencies now max_age require_pass = None \<longleftrightarrow>
     (\<exists>r since. audit_record = JObj r \<and> truthy (jget r ''ran_at'') \<and> parse_time (py_str (jget r ''ran_at'')) = Some since \<and>
        now \<le> since + max_age * day \<and> (dependencies = [] \<or> str_get r ''dependencies'' '''' \<in> {[], dependencies}) \<and>
        \<not> (require_pass \<and> jget r ''passed'' \<noteq> JBool True))) \<and>
   (staleness parse_time audit_record dependencies now max_age require_pass = Some (AuditExpired n m) \<longleftrightarrow>
     (\<exists>r since. audit_record = JObj r \<and> truthy (jget r ''ran_at'') \<and> parse_time (py_str (jget r ''ran_at'')) = Some since \<and>
        since + max_age * day < now \<and> (max_age < 0 \<or> since < now) \<and> m = max_age \<and> n = (now - since) div day \<and> max_age \<le> n \<and>
        (dependencies = [] \<or> str_get r ''dependencies'' '''' \<in> {[], dependencies}) \<and>
        \<not> (require_pass \<and> jget r ''passed'' \<noteq> JBool True)))"
proof (cases audit_record)
  case (JObj r)
  then show ?thesis
    by (auto simp: staleness_def Let_def split: option.splits if_splits intro: whole_days dest: in_the_past)
qed (simp_all add: staleness_def)

end
