(* ===== verification/Readiness.thy ===== *)
theory Readiness
  imports Approve Trace AuditRecord
begin

text \<open>
  \<^verbatim>\<open>approve.readiness\<close>: every mechanical reason a gate cannot be approved. Each check is a definition, in the
  order the code calls them; an obstacle is a constructor with the names it carries, and \<^verbatim>\<open>readiness\<close> drops an
  obstacle whose sentence was told before. Git's answers, the freshness of the review, the obstacles of the
  integration and the sentence of an obstacle are parameters of a \<open>site\<close>.
\<close>

section \<open>Obstacles\<close>

datatype party = Machine | Human

datatype obstacle =
    ToolBehind string
  | DocumentInvalid string
  | StateAbsent
  | LogDamaged nat
  | UpstreamPending string
  | AlreadyApproved
  | BaselineAbsent
  | BaselineRed "string list"
  | SubjectUnnamed
  | ChangeUnknown
  | WideningProposed "string list"
  | WideningRefused "string list"
  | PathsOutside "(string \<times> Guard.outside) list"
  | IntegrationUnreadable string
  | IntegrationBlocked party string
  | AuditNotConfigured
  | AuditStale audit_stale
  | AuditOwedFirst audit_stale
  | RequestOpen string string string
  | RequestOnDropped string string
  | SourceUnreadable string
  | Unclarified string "nat list"
  | DecisionsUnknown "(string \<times> string) list"
  | DecisionsUnasked "(string \<times> string) list"
  | PlanAbsent
  | ThreadBroken trace_error
  | ThreadUnknown
  | ClaimsAbsent
  | TasksAbsent
  | GraphRefused dag_error
  | ClaimUnanswered string
  | TasksUnfinished "string list"
  | RehearsalAbsent string
  | RehearsalNotAwaited string string
  | RehearsalCrosses string string
  | ScaleAbsent string
  | AttemptsAbsent string
  | ProductIgnored string string
  | ReadUntracked string string
  | ReviewAbsent
  | ReviewOpen blocker
  | ReviewStale string
  | ReviewsUnbound "commit_failure option"
  | ReadingMoved string bool bool
  | ReviewsMoved "string list" "string list"

text \<open>Whose an obstacle is to clear: what the code builds with \<^verbatim>\<open>by="machine"\<close>, and a person's otherwise.\<close>

fun owner :: "obstacle \<Rightarrow> party" where
  "owner (IntegrationBlocked p _) = p"
| "owner (WideningRefused _) = Machine"
| "owner (AuditStale _) = Machine"
| "owner (TasksUnfinished _) = Machine"
| "owner ReviewAbsent = Machine"
| "owner (ReviewStale _) = Machine"
| "owner (ReadingMoved _ _ _) = Machine"
| "owner (ReviewsMoved _ _) = Machine"
| "owner _ = Human"

record site =
  si_checkout :: checkout
  si_unicode :: unicode
  si_behind :: "string option"
  si_diff :: "string \<Rightarrow> string \<Rightarrow> string option"
  si_ignored :: "string \<Rightarrow> bool"
  si_tracked :: "string \<Rightarrow> bool"
  si_integration :: "string + (party \<times> string) list"
  si_ls_tree :: "string option"
  si_time :: "string \<Rightarrow> int option"
  si_now :: int
  si_freshness :: "jobj \<Rightarrow> jobj \<Rightarrow> string"
  si_say :: "obstacle \<Rightarrow> string"

text \<open>How \<^verbatim>\<open>readiness\<close> ends early: it raises, or it answers with one obstacle.\<close>

datatype early = BadGate gate_absence | InvalidDocument string | Raises raised | Answers obstacle

section \<open>The checks\<close>

definition chain_blockers :: "jobj \<Rightarrow> string \<Rightarrow> bool \<Rightarrow> obstacle list" where
  "chain_blockers state gate already_approved_blocks =
     (case pending_upstream state gate of
        Some u \<Rightarrow> [UpstreamPending u]
      | None \<Rightarrow> if already_approved_blocks \<and> gate_status state gate = ''approved'' then [AlreadyApproved] else [])"

definition plan_blockers :: "site \<Rightarrow> jobj option \<Rightarrow> obstacle list" where
  "plan_blockers si plan =
     (case plan of
        None \<Rightarrow> [PlanAbsent]
      | Some p \<Rightarrow>
          (let report = trace_repo (si_unicode si) (si_checkout si) p None None
           in map ThreadBroken (trace_errors report) @
              (if tr_checked report then [] else [ThreadUnknown]) @
              (if plan_claims p = [] then [ClaimsAbsent] else []) @
              (if plan_tasks p = [] then [TasksAbsent] else [])))"

definition waits_of :: "jobj \<Rightarrow> (string \<times> string list) list" where
  "waits_of plan = map (\<lambda>t. (pt_id t, pt_blocked_by t)) (plan_tasks plan)"

definition ancestors :: "jobj \<Rightarrow> string \<Rightarrow> string list" where
  "ancestors plan tid =
     filter (\<lambda>x. map_of (waits_of plan) x \<noteq> None)
       (worklist (waits_of plan) (rev (case map_of (waits_of plan) tid of None \<Rightarrow> [] | Some ds \<Rightarrow> ds)) [])"

definition rehearsal_blockers :: "jobj \<Rightarrow> ptask \<Rightarrow> json \<Rightarrow> obstacle list" where
  "rehearsal_blockers plan t r =
     (case r of
        JStr rid \<Rightarrow>
          if rid \<notin> set (ancestors plan (pt_id t)) then [RehearsalNotAwaited (pt_id t) rid]
          else (case plan_task plan rid of
              Some u \<Rightarrow> if pt_irreversible_surfaces u \<noteq> [] then [RehearsalCrosses (pt_id t) rid] else []
            | None \<Rightarrow> [])
      | _ \<Rightarrow> [RehearsalNotAwaited (pt_id t) (py_str r)])"

definition crossing_blockers :: "jobj \<Rightarrow> ptask \<Rightarrow> obstacle list" where
  "crossing_blockers plan t =
     (let rehearsal = pt_rehearsal t; tasks = jget rehearsal ''tasks''
      in (if rehearsal = [] then [RehearsalAbsent (pt_id t)] else []) @
         concat (map (rehearsal_blockers plan t) (as_arr tasks)) @
         (if truthy tasks \<and> \<not> is_obj (jget rehearsal ''scale'') then [ScaleAbsent (pt_id t)] else []) @
         (if pt_attempt_max t \<le> 0 then [AttemptsAbsent (pt_id t)] else []))"

definition irreversible_blockers :: "jobj option \<Rightarrow> string \<Rightarrow> obstacle list" where
  "irreversible_blockers plan gate =
     (case plan of
        Some p \<Rightarrow> if gate \<noteq> ''mandate'' then []
                  else concat (map (crossing_blockers p) (filter (\<lambda>t. pt_irreversible_surfaces t \<noteq> []) (plan_tasks p)))
      | None \<Rightarrow> [])"

definition produced_paths :: "jobj \<Rightarrow> (string \<times> string) list" where
  "produced_paths plan = concat (map (\<lambda>t. map (\<lambda>p. (pt_id t, p)) (pt_produces t)) (plan_tasks plan))"

definition worktree_blockers :: "site \<Rightarrow> jobj option \<Rightarrow> string \<Rightarrow> obstacle list" where
  "worktree_blockers si plan gate =
     (case plan of
        Some p \<Rightarrow> if gate \<noteq> ''mandate'' then []
          else concat (map (\<lambda>(tid, path). if si_ignored si path then [ProductIgnored tid path] else []) (produced_paths p)) @
               concat (map (\<lambda>t. concat (map (\<lambda>path.
                   if list_ex (\<lambda>(_, theirs). outside_scope [path] [theirs] [] = []) (produced_paths p) then []
                   else if si_tracked si path then [] else [ReadUntracked (pt_id t) path]) (pt_reads t))) (plan_tasks p))
      | None \<Rightarrow> [])"

definition task_blockers :: "jobj option \<Rightarrow> jobj \<Rightarrow> string \<Rightarrow> obstacle list" where
  "task_blockers plan state gate =
     (case plan of
        None \<Rightarrow> []
      | Some p \<Rightarrow> (case join_graph p (Some state) of
          Inl e \<Rightarrow> [GraphRefused e]
        | Inr g \<Rightarrow>
            (let unfinished = sort (map d_id (filter (\<lambda>t. \<not> is_done t) g))
             in map ClaimUnanswered (claims_without_a_task g p) @
                (if gate = ''acceptance'' \<and> unfinished \<noteq> [] then [TasksUnfinished unfinished] else []))))"

text \<open>\<^verbatim>\<open>reviews_cmd.require_bound\<close>: an unbound record is an obstacle, a document that does not parse or validate raises.\<close>

definition require_bound :: "env \<Rightarrow> checkout \<Rightarrow> early + (commit_failure option + jobj)" where
  "require_bound en ck =
     bind_err (map_err Raises (binding_problem en ck)) (\<lambda>problem.
       case problem of
         Some f \<Rightarrow> Inr (Inl (Some f))
       | None \<Rightarrow> bind_err (map_err Raises (read_reviews en ck)) (\<lambda>d. case d of
             None \<Rightarrow> Inr (Inl None)
           | Some (Valid raw) \<Rightarrow> Inr (Inr raw)
           | Some (Unparsed e) \<Rightarrow> Inl (Raises (ParseFailed e))
           | Some Rejected \<Rightarrow> Inl (InvalidDocument ''reviews'')))"

definition reading_blockers :: "jobj \<Rightarrow> jobj \<Rightarrow> obstacle list" where
  "reading_blockers review reviews =
     (let rd = rv_readings reviews
      in (if extraction_read review \<noteq> rd_extraction rd then [ReadingMoved ''actual_extraction'' (extraction_read review) (rd_extraction rd)] else []) @
         (if comparison_read review \<noteq> rd_comparison rd then [ReadingMoved ''comparison'' (comparison_read review) (rd_comparison rd)] else []) @
         (if reviews_read review \<noteq> rd_reviews rd then [ReviewsMoved (reviews_read review) (rd_reviews rd)] else []))"

definition review_blockers :: "env \<Rightarrow> site \<Rightarrow> jobj option \<Rightarrow> jobj \<Rightarrow> string \<Rightarrow> early + obstacle list" where
  "review_blockers en si review state gate =
     (if gate \<noteq> ''acceptance'' then Inr []
      else case review of
        None \<Rightarrow> Inr [ReviewAbsent]
      | Some r \<Rightarrow>
          if \<not> is_generated r then Inr [ReviewAbsent]
          else bind_err (require_bound en (si_checkout si)) (\<lambda>bound.
            let stale = si_freshness si r state
            in Inr (map ReviewOpen (completion_blockers (Some r) (Some (rw_human r))) @
                    (if stale = [] then [] else [ReviewStale stale]) @
                    (case bound of Inl f \<Rightarrow> [ReviewsUnbound f] | Inr reviews \<Rightarrow> reading_blockers r reviews))))"

definition audit_answer :: "env \<Rightarrow> site \<Rightarrow> jobj \<Rightarrow> jobj option \<Rightarrow> bool \<Rightarrow> early + audit_stale option" where
  "audit_answer en si state config require_pass =
     bind_err (map_err (\<lambda>e. Raises (DigestFailed e)) (dependency_digest (en_sha en) (si_ls_tree si))) (\<lambda>dependencies.
       Inr (staleness (si_time si) (jget state ''dependency_audit'') dependencies (si_now si) (max_age_days config) require_pass))"

definition audit_blockers :: "env \<Rightarrow> site \<Rightarrow> jobj \<Rightarrow> jobj option \<Rightarrow> string \<Rightarrow> early + obstacle list" where
  "audit_blockers en si state config gate =
     (if gate = ''mandate'' then
        (if audit_configured config = [] then Inr []
         else bind_err (audit_answer en si state config False) (\<lambda>stale.
           Inr (case stale of None \<Rightarrow> [] | Some why \<Rightarrow> [AuditOwedFirst why])))
      else if gate \<noteq> ''acceptance'' then Inr []
      else if audit_configured config = [] then Inr [AuditNotConfigured]
      else bind_err (audit_answer en si state config True) (\<lambda>stale.
        Inr (case stale of None \<Rightarrow> [] | Some why \<Rightarrow> [AuditStale why])))"

definition diff_paths :: "string \<Rightarrow> string list" where
  "diff_paths out = sorted_set (filter (\<lambda>p. p \<noteq> []) (split_on (CHR 0x00) out))"

definition outside_paths :: "guard_settings \<Rightarrow> jobj \<Rightarrow> (string \<times> string) list \<Rightarrow> string list \<Rightarrow> (string \<times> Guard.outside) list" where
  "outside_paths settings plan expansions paths =
     concat (map (\<lambda>p. case outside_the_mandate p (fst (plan_scope plan)) (snd (plan_scope plan)) (gs_paths settings) expansions False of
         None \<Rightarrow> [] | Some why \<Rightarrow> [(p, why)]) paths)"

definition named_as :: "string \<Rightarrow> (string \<times> string) list \<Rightarrow> (string \<times> Guard.outside) list \<Rightarrow> string list" where
  "named_as status expansions found = map fst (filter (\<lambda>(p, _). map_of expansions p = Some status) found)"

definition widening_blockers :: "(string \<times> string) list \<Rightarrow> (string \<times> Guard.outside) list \<Rightarrow> obstacle list" where
  "widening_blockers expansions found =
     (let proposed = named_as ''proposed'' expansions found; refused = named_as ''refused'' expansions found;
          others = filter (\<lambda>(p, _). p \<notin> set proposed \<and> p \<notin> set refused) found
      in (if proposed \<noteq> [] then [WideningProposed proposed] else []) @
         (if refused \<noteq> [] then [WideningRefused refused] else []) @
         (if others \<noteq> [] then [PathsOutside others] else []))"

definition boundary_blockers :: "env \<Rightarrow> site \<Rightarrow> jobj option \<Rightarrow> jobj \<Rightarrow> jobj option \<Rightarrow> string \<Rightarrow> early + obstacle list" where
  "boundary_blockers en si plan state review gate =
     (if gate \<noteq> ''acceptance'' \<or> st_plan_status state \<noteq> ''frozen'' then Inr []
      else case (plan, review) of
        (Some p, Some r) \<Rightarrow>
          if \<not> is_generated r then Inr []
          else
            (let base = (let v = jget (rw_binding r) ''trusted_base_sha'' in if truthy v then py_str v else []); head = subject_head_sha r
             in if base = [] \<or> head = [] then Inr [SubjectUnnamed]
                else bind_err (map_err Raises (read_settings en (si_checkout si))) (\<lambda>settings.
                  if gs_template settings then Inr []
                  else case si_diff si base head of
                      None \<Rightarrow> Inr [ChangeUnknown]
                    | Some out \<Rightarrow> bind_err (map_err Raises (expansions_in_force en (si_checkout si) state)) (\<lambda>expansions.
                        Inr (widening_blockers expansions (outside_paths settings p expansions (diff_paths out))))))
      | _ \<Rightarrow> Inr [])"

definition integration_blockers :: "site \<Rightarrow> jobj option \<Rightarrow> string \<Rightarrow> obstacle list" where
  "integration_blockers si config gate =
     (if gate \<noteq> ''acceptance'' \<or> config = None then []
      else case si_integration si of
          Inl why \<Rightarrow> [IntegrationUnreadable why]
        | Inr found \<Rightarrow> map (\<lambda>(p, text). IntegrationBlocked p text) found)"

definition baseline_blockers :: "jobj \<Rightarrow> string \<Rightarrow> obstacle list" where
  "baseline_blockers state gate =
     (if gate \<noteq> ''mandate'' then []
      else if st_baseline state = [] then [BaselineAbsent]
      else (let red = sort (map fst (baseline_red state))
            in if red \<noteq> [] \<and> jget (st_baseline state) ''frozen'' \<noteq> JBool True then [BaselineRed red] else []))"

definition change_request_blockers :: "jobj option \<Rightarrow> jobj \<Rightarrow> string \<Rightarrow> obstacle list" where
  "change_request_blockers plan state gate =
     map (\<lambda>cr. RequestOpen (str_get cr ''id'' ''None'') (str_get cr ''target'' ''None'') (str_get cr ''reason'' ''None'')) (change_requests_for state gate [''open'']) @
     (case plan of
        Some p \<Rightarrow> if gate \<noteq> ''mandate'' then []
          else map (\<lambda>cr. RequestOnDropped (str_get cr ''id'' ''None'') (str_get cr ''gate'' ''None''))
                 (open_against state (dropped_gates state (crossing_task_ids p)))
      | None \<Rightarrow> [])"

definition comment_end :: string where
  "comment_end = ''-->''"

text \<open>\<^verbatim>\<open>mdlite.strip_comments\<close>: each comment collapses to the newlines it spanned; one that never closes is text.\<close>

fun after_comment :: "string \<Rightarrow> string \<Rightarrow> (string \<times> string) option" where
  "after_comment seen [] = None"
| "after_comment seen (c # cs) =
     (if prefix comment_end (c # cs) then Some (filter (\<lambda>x. x = CHR 0x0A) (rev seen), drop 2 cs)
      else after_comment (c # seen) cs)"

lemma after_comment_shorter: "after_comment seen cs = Some (ns, rest) \<Longrightarrow> length rest < length cs"
  by (induction seen cs rule: after_comment.induct) (auto split: if_splits)

function strip_comments :: "string \<Rightarrow> string" where
  "strip_comments [] = []"
| "strip_comments (c # cs) =
     (if prefix ''<!--'' (c # cs)
      then (case after_comment [] (drop 3 cs) of
          Some (newlines, rest) \<Rightarrow> newlines @ strip_comments rest
        | None \<Rightarrow> c # strip_comments cs)
      else c # strip_comments cs)"
  by pat_completeness auto
termination
  by (relation "measure length") (auto dest!: after_comment_shorter)

definition clarification :: string where
  "clarification = ''[NEEDS CLARIFICATION''"

fun marked :: "unicode \<Rightarrow> string \<Rightarrow> bool" where
  "marked un [] = False"
| "marked un (c # cs) =
     (prefix clarification (c # cs) \<and>
        (case chars_of (drop (length clarification) (c # cs)) of [] \<Rightarrow> True | d # _ \<Rightarrow> \<not> word_char un d) \<or>
      marked un cs)"

definition marked_lines :: "unicode \<Rightarrow> string \<Rightarrow> nat list" where
  "marked_lines un body =
     map fst (filter (\<lambda>(_, line). marked un line) (enumerate 1 (splitlines (strip_comments body))))"

text \<open>Only an \<^verbatim>\<open>OSError\<close> is caught: a document that is not UTF-8 raises out of the check.\<close>

definition clarification_of :: "site \<Rightarrow> string \<Rightarrow> early + obstacle list" where
  "clarification_of si artifact =
     (case ck_read (si_checkout si) artifact of
        Missing \<Rightarrow> Inr []
      | Denied \<Rightarrow> Inr [SourceUnreadable artifact]
      | Undecodable \<Rightarrow> Inl (Raises (NotUtf8 artifact))
      | Contents body \<Rightarrow> (let ns = marked_lines (si_unicode si) body in Inr (if ns \<noteq> [] then [Unclarified artifact ns] else [])))"

fun clarifications :: "site \<Rightarrow> string list \<Rightarrow> early + obstacle list" where
  "clarifications si [] = Inr []"
| "clarifications si (a # as) = bind_err (clarification_of si a) (\<lambda>here. bind_err (clarifications si as) (\<lambda>rest. Inr (here @ rest)))"

definition clarification_blockers :: "site \<Rightarrow> string \<Rightarrow> early + obstacle list" where
  "clarification_blockers si gate = (if gate = ''mandate'' then clarifications si mandate_sources else Inr [])"

definition decision_line :: "jobj \<Rightarrow> string \<times> string" where
  "decision_line d = (el_id d, str_field d ''subject'' [])"

definition decision_blockers :: "jobj option \<Rightarrow> string \<Rightarrow> obstacle list" where
  "decision_blockers plan gate =
     (case plan of
        Some p \<Rightarrow> if gate \<noteq> ''mandate'' then []
          else (let unknown = filter (\<lambda>d. decision_reach d = ''mandate'' \<and> decision_status d = ''unknown'') (plan_decisions p);
                    unasked = filter decision_settled_without_asking (plan_decisions p)
                in (if unknown \<noteq> [] then [DecisionsUnknown (map decision_line unknown)] else []) @
                   (if unasked \<noteq> [] then [DecisionsUnasked (map decision_line unasked)] else []))
      | None \<Rightarrow> [])"

section \<open>Readiness\<close>

definition document_for :: "string \<Rightarrow> raised + doc option \<Rightarrow> early + jobj option" where
  "document_for name d =
     bind_err (map_err Raises d) (\<lambda>found. case found of
         None \<Rightarrow> Inr None
       | Some (Valid raw) \<Rightarrow> Inr (Some raw)
       | Some (Unparsed e) \<Rightarrow> Inl (Raises (ParseFailed e))
       | Some Rejected \<Rightarrow> Inl (Answers (DocumentInvalid name)))"

fun told_once :: "('a \<Rightarrow> 'b) \<Rightarrow> 'b list \<Rightarrow> 'a list \<Rightarrow> 'a list" where
  "told_once say told [] = []"
| "told_once say told (x # xs) =
     (if say x \<in> set told then told_once say told xs else x # told_once say (say x # told) xs)"

definition all_blockers :: "env \<Rightarrow> site \<Rightarrow> string \<Rightarrow> bool \<Rightarrow> jobj \<Rightarrow> jobj option \<Rightarrow> jobj option \<Rightarrow> jobj option \<Rightarrow>
    early + obstacle list" where
  "all_blockers en si gate already_approved_blocks state plan review config =
     bind_err (map_err Raises (scan_log en (si_checkout si))) (\<lambda>(_, defects).
     bind_err (boundary_blockers en si plan state review gate) (\<lambda>boundary.
     bind_err (audit_blockers en si state config gate) (\<lambda>audits.
     bind_err (clarification_blockers si gate) (\<lambda>unclear.
     bind_err (review_blockers en si review state gate) (\<lambda>reviewed.
       Inr ((if defects \<noteq> [] then [LogDamaged (length defects)] else []) @
            chain_blockers state gate already_approved_blocks @
            baseline_blockers state gate @
            boundary @
            integration_blockers si config gate @
            audits @
            change_request_blockers plan state gate @
            unclear @
            decision_blockers plan gate @
            plan_blockers si plan @
            task_blockers plan state gate @
            irreversible_blockers plan gate @
            worktree_blockers si plan gate @
            reviewed))))))"

definition gathered :: "env \<Rightarrow> site \<Rightarrow> string \<Rightarrow> bool \<Rightarrow> early + obstacle list" where
  "gathered en si gate already_approved_blocks =
     (let ck = si_checkout si
      in if \<not> gate_name_ok gate then Inl (BadGate (UnknownGate gate))
         else case si_behind si of
           Some why \<Rightarrow> Inl (Answers (ToolBehind why))
         | None \<Rightarrow>
             bind_err (document_for ''state'' (read_state en ck)) (\<lambda>state.
             bind_err (document_for ''plan'' (read_plan en ck)) (\<lambda>plan.
             bind_err (document_for ''review'' (read_review en ck)) (\<lambda>review.
             bind_err (document_for ''config'' (read_config en ck)) (\<lambda>config.
               case state of
                 None \<Rightarrow> Inl (Answers StateAbsent)
               | Some st \<Rightarrow> (case gate_absence_reason st gate of
                   Some absent \<Rightarrow> Inl (BadGate absent)
                 | None \<Rightarrow> all_blockers en si gate already_approved_blocks st plan review config))))))"

definition readiness :: "env \<Rightarrow> site \<Rightarrow> string \<Rightarrow> bool \<Rightarrow> early + obstacle list" where
  "readiness en si gate already_approved_blocks =
     (case gathered en si gate already_approved_blocks of
        Inl (Answers o1) \<Rightarrow> Inr [o1]
      | Inl e \<Rightarrow> Inl e
      | Inr os \<Rightarrow> Inr (told_once (si_say si) [] os))"

end
