(* ===== verification/Cleared.thy ===== *)
theory Cleared
  imports Readiness
begin

text \<open>
  What \<^verbatim>\<open>approve.readiness\<close> answering with no obstacle establishes: the gate can be decided and the log is whole;
  at the mandate, that the plan is one to build; at acceptance, that the change stayed inside the mandate and
  that the approval's own freeze will not be refused.
\<close>

lemma told_once_Nil [simp]: "told_once say told xs = [] \<longleftrightarrow> set (map say xs) \<subseteq> set told"
  by (induction say told xs rule: told_once.induct) auto

lemma document_for_Inr: "document_for name d = Inr r \<longleftrightarrow>
    d = Inr None \<and> r = None \<or> (\<exists>raw. d = Inr (Some (Valid raw)) \<and> r = Some raw)"
  by (cases d) (auto simp: document_for_def map_err_def bind_err_def split: option.splits doc.splits)

lemma readiness_parts:
  assumes "readiness en si gate again = Inr []"
  obtains st plan review config es where
    "gate_name_ok gate" "si_behind si = None" "read_state en (si_checkout si) = Inr (Some (Valid st))" "gate_absence_reason st gate = None"
    "document_for ''plan'' (read_plan en (si_checkout si)) = Inr plan" "document_for ''review'' (read_review en (si_checkout si)) = Inr review"
    "document_for ''config'' (read_config en (si_checkout si)) = Inr config" "scan_log en (si_checkout si) = Inr (es, [])"
    "chain_blockers st gate again = []" "baseline_blockers st gate = []" "boundary_blockers en si plan st review gate = Inr []"
    "integration_blockers si config gate = []" "audit_blockers en si st config gate = Inr []" "change_request_blockers plan st gate = []"
    "clarification_blockers si gate = Inr []" "decision_blockers plan gate = []" "plan_blockers si plan = []" "task_blockers plan st gate = []"
    "irreversible_blockers plan gate = []" "worktree_blockers si plan gate = []" "review_blockers en si review st gate = Inr []"
proof -
  let ?ck = "si_checkout si"
  from assms have g: "gathered en si gate again = Inr []"
    by (auto simp: readiness_def split: sum.splits early.splits)
  then have n: "gate_name_ok gate" "si_behind si = None" by (auto simp: gathered_def Let_def split: if_splits option.splits)
  with g obtain state plan review config where d: "document_for ''state'' (read_state en ?ck) = Inr state"
    "document_for ''plan'' (read_plan en ?ck) = Inr plan" "document_for ''review'' (read_review en ?ck) = Inr review"
    "document_for ''config'' (read_config en ?ck) = Inr config"
    and k: "(case state of None \<Rightarrow> Inl (Answers StateAbsent)
      | Some st \<Rightarrow> (case gate_absence_reason st gate of Some absent \<Rightarrow> Inl (BadGate absent)
          | None \<Rightarrow> all_blockers en si gate again st plan review config)) = Inr []"
    by (simp add: gathered_def Let_def) blast
  from k obtain st where st: "state = Some st" "gate_absence_reason st gate = None" "all_blockers en si gate again st plan review config = Inr []"
    by (auto split: option.splits)
  from d(1) st(1) have r: "read_state en ?ck = Inr (Some (Valid st))" by (simp add: document_for_Inr)
  from st(3) obtain es where es: "scan_log en ?ck = Inr (es, [])" by (auto simp: all_blockers_def split: if_splits)
  from st(3) es show ?thesis
    by (intro that [OF n r st(2) d(2-4) es]) (simp_all add: all_blockers_def)
qed

section \<open>Any gate\<close>

lemma gate_open_iff: "chain_blockers st gate True = [] \<and> gate_absence_reason st gate = None \<longleftrightarrow> gate \<in> set (decidable_gates st)"
  by (auto simp: chain_blockers_def gate_absence_reason_def decidable_gates_def split: option.splits if_splits)

lemma join_accepted: "join_graph plan st = Inr g \<Longrightarrow> accepted g"
  by (auto simp: join_graph_def Let_def from_tasks_iff accepted_iff split: if_splits)

lemma task_blockers_Nil: "task_blockers (Some p) st gate = [] \<longleftrightarrow>
    (\<exists>g. join_graph p (Some st) = Inr g \<and> claims_without_a_task g p = [] \<and> (gate = ''acceptance'' \<longrightarrow> list_all is_done g))"
  by (auto simp: task_blockers_def Let_def filter_empty_conv list_all_iff split: sum.splits)

lemma plan_blockers_Nil: "plan_blockers si plan = [] \<longleftrightarrow>
    (\<exists>p. plan = Some p \<and> trace_ok (trace_repo (si_unicode si) (si_checkout si) p None None) \<and> plan_claims p \<noteq> [] \<and> plan_tasks p \<noteq> [])"
  by (auto simp: plan_blockers_def trace_ok_def Let_def split: option.splits)

text \<open>C23: A gate with nothing standing in its way is one the approval may record: the state is valid and the gate is among
  those a person can decide now (it is the cycle's, it is pending, and everything it rests on is approved), the log
  has no defect, no change request is open against it, and the plan states claims and tasks, keeps the thread from
  requirements to claims whole, joins with the state to an acyclic graph and leaves no claim without a task.\<close>

theorem clear_gate_decidable:
  assumes "readiness en si gate True = Inr []"
  shows "\<exists>st es p g. read_state en (si_checkout si) = Inr (Some (Valid st)) \<and> gate \<in> set (decidable_gates st) \<and>
    scan_log en (si_checkout si) = Inr (es, []) \<and> change_requests_for st gate [''open''] = [] \<and>
    read_plan en (si_checkout si) = Inr (Some (Valid p)) \<and> plan_claims p \<noteq> [] \<and> plan_tasks p \<noteq> [] \<and>
    trace_ok (trace_repo (si_unicode si) (si_checkout si) p None None) \<and>
    join_graph p (Some st) = Inr g \<and> accepted g \<and> claims_without_a_task g p = []"
proof -
  from assms obtain st plan es where st: "read_state en (si_checkout si) = Inr (Some (Valid st))" "gate_absence_reason st gate = None"
    "scan_log en (si_checkout si) = Inr (es, [])" "document_for ''plan'' (read_plan en (si_checkout si)) = Inr plan"
    "chain_blockers st gate True = []" "change_request_blockers plan st gate = []" "plan_blockers si plan = []" "task_blockers plan st gate = []"
    by (rule readiness_parts)
  then obtain p where p: "plan = Some p" by (auto simp: plan_blockers_Nil)
  with st obtain g where "join_graph p (Some st) = Inr g" "claims_without_a_task g p = []" by (auto simp: task_blockers_Nil)
  moreover have "change_requests_for st gate [''open''] = []" using st(6) by (simp add: change_request_blockers_def)
  ultimately show ?thesis
    using st p by (auto simp: gate_open_iff [symmetric] plan_blockers_Nil document_for_Inr intro!: exI join_accepted)
qed

section \<open>The mandate\<close>

definition awaited :: "jobj \<Rightarrow> (string \<times> string) set" where
  "awaited plan = {(d, tid). \<exists>t. plan_task plan tid = Some t \<and> d \<in> set (pt_blocked_by t)}"

lemma waits_of_edges: "dict_edges (waits_of plan) = awaited plan" "map_of (waits_of plan) tid = map_option pt_blocked_by (plan_task plan tid)"
proof -
  have d: "distinct (map fst (waits_of plan))" using distinct_plan_tasks [of plan] by (simp add: waits_of_def comp_def)
  show m: "map_of (waits_of plan) tid = map_option pt_blocked_by (plan_task plan tid)" for tid
  proof (cases "plan_task plan tid")
    case None
    then have "tid \<notin> pt_id ` set (plan_tasks plan)" using plan_task_in [of plan tid] by auto
    then have "tid \<notin> fst ` set (waits_of plan)" by (simp add: waits_of_def image_image)
    with None show ?thesis by (simp add: map_of_eq_None_iff)
  next
    case (Some t)
    then have "(tid, pt_blocked_by t) \<in> set (waits_of plan)" by (auto simp: plan_task_in waits_of_def)
    with d Some show ?thesis by simp
  qed
  show "dict_edges (waits_of plan) = awaited plan" by (auto simp: dict_edges_def awaited_def m)
qed

lemma ancestors_set: "set (ancestors plan tid) = {r. (r, tid) \<in> (awaited plan)\<^sup>+ \<and> plan_task plan r \<noteq> None}"
proof -
  have edge: "s \<in> set (case map_of (waits_of plan) tid of None \<Rightarrow> [] | Some ds \<Rightarrow> ds) \<longleftrightarrow> (s, tid) \<in> awaited plan" for s
    by (cases "plan_task plan tid") (simp_all add: waits_of_edges(2) awaited_def)
  have "(\<exists>s \<in> set (case map_of (waits_of plan) tid of None \<Rightarrow> [] | Some ds \<Rightarrow> ds). (r, s) \<in> (awaited plan)\<^sup>*) \<longleftrightarrow> (r, tid) \<in> (awaited plan)\<^sup>+" for r
    unfolding Bex_def edge by (auto simp: trancl_unfold_right)
  then show ?thesis by (auto simp: ancestors_def worklist_reach waits_of_edges)
qed

text \<open>What a mandate is asked to know of one task it authorizes beyond undoing: an attempt budget and a rehearsal block,
  whose named tasks (if it names any; a waived rehearsal does not) are reversible, waited for and on a stated scale.\<close>

definition crossing_prepared :: "jobj \<Rightarrow> ptask \<Rightarrow> bool" where
  "crossing_prepared plan t \<longleftrightarrow>
     pt_rehearsal t \<noteq> [] \<and> 0 < pt_attempt_max t \<and>
     (\<forall>v \<in> set (as_arr (jget (pt_rehearsal t) ''tasks'')). \<exists>rid u. v = JStr rid \<and> (rid, pt_id t) \<in> (awaited plan)\<^sup>+ \<and>
        plan_task plan rid = Some u \<and> pt_irreversible_surfaces u = []) \<and>
     (truthy (jget (pt_rehearsal t) ''tasks'') \<longrightarrow> is_obj (jget (pt_rehearsal t) ''scale''))"

lemma rehearsal_blockers_Nil: "rehearsal_blockers plan t v = [] \<longleftrightarrow>
    (\<exists>rid u. v = JStr rid \<and> (rid, pt_id t) \<in> (awaited plan)\<^sup>+ \<and> plan_task plan rid = Some u \<and> pt_irreversible_surfaces u = [])"
  by (auto simp: rehearsal_blockers_def ancestors_set split: json.splits option.splits)

lemma irreversible_blockers_Nil: "irreversible_blockers (Some p) ''mandate'' = [] \<longleftrightarrow>
    (\<forall>t \<in> set (plan_tasks p). pt_irreversible_surfaces t \<noteq> [] \<longrightarrow> crossing_prepared p t)"
  by (auto simp: irreversible_blockers_def crossing_blockers_def crossing_prepared_def rehearsal_blockers_Nil Let_def)

lemma decision_blockers_Nil: "decision_blockers (Some p) ''mandate'' = [] \<longleftrightarrow>
    (\<forall>d \<in> set (plan_decisions p). decision_reach d = ''mandate'' \<longrightarrow> decision_status d \<noteq> ''unknown'' \<and> \<not> decision_settled_without_asking d)"
  by (auto simp: decision_blockers_def filter_empty_conv Let_def decision_settled_without_asking_def)

lemma concat_map_Nil: "concat (map f xs) = [] \<longleftrightarrow> (\<forall>x \<in> set xs. f x = [])"
  by (induction xs) auto

lemma worktree_blockers_Nil: "worktree_blockers si (Some p) ''mandate'' = [] \<longleftrightarrow>
    (\<forall>(tid, path) \<in> set (produced_paths p). \<not> si_ignored si path) \<and>
    (\<forall>t \<in> set (plan_tasks p). \<forall>path \<in> set (pt_reads t).
       (\<exists>(_, theirs) \<in> set (produced_paths p). path_covered path theirs) \<or> si_tracked si path)"
proof -
  have "outside_scope [path] [theirs] [] = [] \<longleftrightarrow> path_covered path theirs" for path theirs by (simp add: outside_scope_def)
  moreover have "(if b then [] else if c then [] else [x]) = [] \<longleftrightarrow> b \<or> c" "(if b then [y] else []) = [] \<longleftrightarrow> \<not> b" for b c and x y :: obstacle
    by simp_all
  ultimately show ?thesis
    by (simp only: worktree_blockers_def option.case if_False simp_thms append_is_Nil_conv concat_map_Nil list_ex_iff case_prod_beta not_True_eq_False) auto
qed

lemma clarifications_Nil: "clarifications si arts = Inr [] \<longleftrightarrow> (\<forall>a \<in> set arts. clarification_of si a = Inr [])"
  by (induction arts) auto

lemma clarification_of_Nil: "clarification_of si a = Inr [] \<longleftrightarrow>
    ck_read (si_checkout si) a = Missing \<or> (\<exists>body. ck_read (si_checkout si) a = Contents body \<and> marked_lines (si_unicode si) body = [])"
  by (auto simp: clarification_of_def Let_def split: file_text.splits)

text \<open>C18: A mandate with nothing standing in its way is one the loop can work under: every task past the point of undoing has an
  attempt budget and a rehearsal block; each rehearsal task that block names is a reversible task of the plan it waits for,
  directly or through others, and when it names any it states a scale (a waived rehearsal names none and states none);
  no decision that reaches the mandate is unknown or was settled by the loop itself; what a
  criterion reads is produced by a task or tracked, and nothing a task produces is ignored; the baseline was
  measured and is green or known red; no question stands in the documents; and no open request is held against
  a gate this freeze would delete.\<close>

theorem clear_mandate_workable:
  assumes "readiness en si ''mandate'' again = Inr []"
  shows "\<exists>st p. read_state en (si_checkout si) = Inr (Some (Valid st)) \<and> read_plan en (si_checkout si) = Inr (Some (Valid p)) \<and>
    (\<forall>t \<in> set (plan_tasks p). pt_irreversible_surfaces t \<noteq> [] \<longrightarrow> crossing_prepared p t) \<and>
    (\<forall>d \<in> set (plan_decisions p). decision_reach d = ''mandate'' \<longrightarrow> decision_status d \<noteq> ''unknown'' \<and> \<not> decision_settled_without_asking d) \<and>
    (\<forall>t \<in> set (plan_tasks p). \<forall>path \<in> set (pt_reads t).
       (\<exists>(_, theirs) \<in> set (produced_paths p). path_covered path theirs) \<or> si_tracked si path) \<and>
    (\<forall>(tid, path) \<in> set (produced_paths p). \<not> si_ignored si path) \<and>
    st_baseline st \<noteq> [] \<and> (baseline_red st = [] \<or> jget (st_baseline st) ''frozen'' = JBool True) \<and>
    (\<forall>a \<in> set mandate_sources. ck_read (si_checkout si) a = Missing \<or>
       (\<exists>body. ck_read (si_checkout si) a = Contents body \<and> marked_lines (si_unicode si) body = [])) \<and>
    open_against st (dropped_gates st (crossing_task_ids p)) = []"
proof -
  from assms obtain st plan where st: "read_state en (si_checkout si) = Inr (Some (Valid st))"
    "document_for ''plan'' (read_plan en (si_checkout si)) = Inr plan" "plan_blockers si plan = []"
    "baseline_blockers st ''mandate'' = []" "change_request_blockers plan st ''mandate'' = []" "clarification_blockers si ''mandate'' = Inr []"
    "decision_blockers plan ''mandate'' = []" "irreversible_blockers plan ''mandate'' = []" "worktree_blockers si plan ''mandate'' = []"
    by (rule readiness_parts)
  then obtain p where p: "plan = Some p" by (auto simp: plan_blockers_Nil)
  note facts = st [unfolded p irreversible_blockers_Nil decision_blockers_Nil worktree_blockers_Nil]
  have "st_baseline st \<noteq> []" "baseline_red st = [] \<or> jget (st_baseline st) ''frozen'' = JBool True"
    using facts(4) by (auto simp: baseline_blockers_def Let_def split: if_splits)
  moreover have "open_against st (dropped_gates st (crossing_task_ids p)) = []"
    using facts(5) by (simp add: change_request_blockers_def)
  moreover have "\<forall>a \<in> set mandate_sources. clarification_of si a = Inr []"
    using facts(6) by (simp add: clarification_blockers_def clarifications_Nil)
  ultimately show ?thesis
    using facts(1,2,7-9) by (intro exI [of _ st] exI [of _ p]) (simp add: document_for_Inr clarification_of_Nil)
qed

section \<open>Acceptance\<close>

lemma outside_paths_Nil: "outside_paths settings plan expansions paths = [] \<longleftrightarrow>
    (\<forall>path \<in> set paths. authorized (fst (plan_scope plan)) (snd (plan_scope plan)) (gs_paths settings) expansions False path)"
  by (auto simp: outside_paths_def authorized_iff outside_the_mandate_def Let_def split: option.splits if_splits)

lemma widening_blockers_Nil: "widening_blockers expansions found = [] \<longleftrightarrow> found = []"
proof
  assume n: "widening_blockers expansions found = []"
  then have "named_as ''proposed'' expansions found = []" "named_as ''refused'' expansions found = []"
    by (auto simp: widening_blockers_def Let_def split: if_splits)
  with n show "found = []" by (cases found) (auto simp: widening_blockers_def Let_def split: if_splits)
qed (simp add: widening_blockers_def named_as_def)

lemma boundary_blockers_Nil:
  assumes "boundary_blockers en si (Some p) st (Some r) ''acceptance'' = Inr []" and "st_plan_status st = ''frozen''" and "is_generated r"
    and "read_settings en (si_checkout si) = Inr settings" and "\<not> gs_template settings"
  obtains out expansions where
    "si_diff si (let v = jget (rw_binding r) ''trusted_base_sha'' in if truthy v then py_str v else []) (subject_head_sha r) = Some out"
    "expansions_in_force en (si_checkout si) st = Inr expansions" "outside_paths settings p expansions (diff_paths out) = []"
proof -
  from assms show ?thesis
    by (auto simp: boundary_blockers_def widening_blockers_Nil Let_def intro: that split: if_splits option.splits)
qed

text \<open>C21: Acceptance with nothing standing in its way takes a change that stayed inside the mandate, where the plan is
  frozen and the guard settings are readable and not in \<^verbatim>\<open>template_mode\<close> (which switches this check off): over the span the
  reviewers read, every changed path is one the frozen plan's scope authorizes under the rule the edit guard applies,
  counting only the widenings a person adopted and the log recorded.\<close>

theorem clear_acceptance_inside_mandate:
  assumes "readiness en si ''acceptance'' again = Inr []" and "read_state en (si_checkout si) = Inr (Some (Valid st))"
    and "st_plan_status st = ''frozen''" and "read_settings en (si_checkout si) = Inr settings" and "\<not> gs_template settings"
  shows "\<exists>p r out expansions. read_plan en (si_checkout si) = Inr (Some (Valid p)) \<and>
    read_review en (si_checkout si) = Inr (Some (Valid r)) \<and>
    si_diff si (py_str (jget (rw_binding r) ''trusted_base_sha'')) (subject_head_sha r) = Some out \<and>
    expansions_in_force en (si_checkout si) st = Inr expansions \<and>
    (\<forall>path \<in> set (diff_paths out).
       authorized (fst (plan_scope p)) (snd (plan_scope p)) (gs_paths settings) expansions False path)"
proof -
  from assms(1) obtain st' plan review where st: "read_state en (si_checkout si) = Inr (Some (Valid st'))"
    "document_for ''plan'' (read_plan en (si_checkout si)) = Inr plan" "document_for ''review'' (read_review en (si_checkout si)) = Inr review"
    "plan_blockers si plan = []" "boundary_blockers en si plan st' review ''acceptance'' = Inr []"
    "review_blockers en si review st' ''acceptance'' = Inr []"
    by (rule readiness_parts)
  from st(1) assms(2) have "st' = st" by simp
  moreover from st(4) obtain p where p: "plan = Some p" by (auto simp: plan_blockers_Nil)
  moreover from st(6) obtain r where r: "review = Some r" "is_generated r" by (auto simp: review_blockers_def split: option.splits if_splits)
  ultimately have b: "boundary_blockers en si (Some p) st (Some r) ''acceptance'' = Inr []" using st(5) by simp
  from boundary_blockers_Nil [OF b assms(3) r(2) assms(4,5)] obtain out expansions where
    o: "si_diff si (let v = jget (rw_binding r) ''trusted_base_sha'' in if truthy v then py_str v else []) (subject_head_sha r) = Some out"
    "expansions_in_force en (si_checkout si) st = Inr expansions" "outside_paths settings p expansions (diff_paths out) = []" by blast
  have "truthy (jget (rw_binding r) ''trusted_base_sha'')"
    using b assms(3) r(2) by (auto simp: boundary_blockers_def Let_def split: if_splits)
  with o st(2,3) p r(1) show ?thesis
    by (intro exI [of _ p] exI [of _ r] exI [of _ out] exI [of _ expansions]) (simp add: document_for_Inr outside_paths_Nil)
qed

text \<open>C24: Acceptance with nothing standing in its way is one whose approval will not be refused for what it freezes: a
  machine review was generated, it left nothing for a person (so the answers can be frozen and the document the
  approval writes is frozen), it is fresh, it made the readings reviews.yaml asks for and the log records, every task
  is done, and the dependency audit that was configured passed and is current.\<close>

theorem clear_acceptance_freezes:
  assumes "readiness en si ''acceptance'' again = Inr []"
  shows "\<exists>st r p g reviews config. read_state en (si_checkout si) = Inr (Some (Valid st)) \<and>
    read_review en (si_checkout si) = Inr (Some (Valid r)) \<and> is_generated r \<and>
    completion_blockers (Some r) (Some (rw_human r)) = [] \<and> human_status (approved_human r) = ''frozen'' \<and> si_freshness si r st = [] \<and>
    require_bound en (si_checkout si) = Inr (Inr reviews) \<and>
    extraction_read r = rd_extraction (rv_readings reviews) \<and> comparison_read r = rd_comparison (rv_readings reviews) \<and>
    reviews_read r = rd_reviews (rv_readings reviews) \<and>
    read_plan en (si_checkout si) = Inr (Some (Valid p)) \<and> join_graph p (Some st) = Inr g \<and> list_all is_done g \<and>
    document_for ''config'' (read_config en (si_checkout si)) = Inr config \<and> audit_configured config \<noteq> [] \<and>
    audit_answer en si st config True = Inr None"
proof -
  from assms obtain st plan review config where st: "read_state en (si_checkout si) = Inr (Some (Valid st))"
    "document_for ''plan'' (read_plan en (si_checkout si)) = Inr plan" "document_for ''review'' (read_review en (si_checkout si)) = Inr review"
    "document_for ''config'' (read_config en (si_checkout si)) = Inr config" "audit_blockers en si st config ''acceptance'' = Inr []"
    "plan_blockers si plan = []" "task_blockers plan st ''acceptance'' = []" "review_blockers en si review st ''acceptance'' = Inr []"
    by (rule readiness_parts)
  from st(6) obtain p where p: "plan = Some p" by (auto simp: plan_blockers_Nil)
  with st(7) obtain g where g: "join_graph p (Some st) = Inr g" "list_all is_done g" by (auto simp: task_blockers_Nil)
  from st(8) obtain r bound where r: "review = Some r" "is_generated r" "completion_blockers (Some r) (Some (rw_human r)) = []"
    "si_freshness si r st = []" "require_bound en (si_checkout si) = Inr bound"
    "(case bound of Inl f \<Rightarrow> [ReviewsUnbound f] | Inr reviews \<Rightarrow> reading_blockers r reviews) = []"
    by (auto simp: review_blockers_def Let_def split: option.splits if_splits)
  from r(6) obtain reviews where v: "bound = Inr reviews" "reading_blockers r reviews = []" by (cases bound) auto
  have f: "human_status (approved_human r) = ''frozen''"
  proof (cases "human_status r = ''frozen''")
    case False
    with r(3) have "approved_human r = jset ''human'' (JObj (jset ''status'' (JStr ''frozen'') (human_base (rw_human r)))) r"
      by (simp add: approved_human_def freeze_def)
    then show ?thesis by (simp add: human_status_def rw_human_def field_eqs)
  qed (simp add: approved_human_def)
  have a: "audit_configured config \<noteq> []" "audit_answer en si st config True = Inr None"
    using st(5) by (auto simp: audit_blockers_def split: if_splits option.splits)
  from v(2) have "extraction_read r = rd_extraction (rv_readings reviews)" "comparison_read r = rd_comparison (rv_readings reviews)"
    "reviews_read r = rd_reviews (rv_readings reviews)"
    by (auto simp: reading_blockers_def Let_def split: if_splits)
  with st(1-4) p g r(1-5) v(1) f a show ?thesis
    by (intro exI [of _ st] exI [of _ r] exI [of _ p] exI [of _ g] exI [of _ reviews] exI [of _ config]) (simp add: document_for_Inr)
qed

section \<open>Two clear gates\<close>

definition no_reviews_digest :: string where
  "no_reviews_digest = (case digest_of toy_sha (JObj []) [] of Inr d \<Rightarrow> d | Inl _ \<Rightarrow> [])"

definition crossing_plan :: jobj where
  "crossing_plan = [(''claims'', JArr [JObj [(''id'', JStr ''C-001''), (''requirement_ids'', JArr [JStr ''R-1''])]]),
     (''scope'', JObj [(''include'', JArr [JStr ''pkg/''])]),
     (''issues'', JArr [JObj [(''id'', JStr ''I-001''), (''kind'', JStr ''parallel''), (''sub_issues'', JArr [
       JObj [(''id'', JStr ''T-001''), (''claim_ids'', JArr [JStr ''C-001'']), (''acceptance'', JArr [JObj [(''id'', JStr ''A-1''),
         (''evidence'', JObj [(''kind'', JStr ''artifact''), (''paths'', JArr [JStr ''pkg/''])])]])],
       JObj [(''id'', JStr ''T-002''), (''claim_ids'', JArr [JStr ''C-001'']), (''blocked_by'', JArr [JStr ''T-001'']),
         (''operator_surface'', JArr [JObj [(''reversible'', JBool False)]]), (''attempts'', JObj [(''max'', JInt 1)]),
         (''rehearsal'', JObj [(''tasks'', JArr [JStr ''T-001'']), (''scale'', JObj [(''run'', JInt 10)])]),
         (''acceptance'', JArr [JObj [(''id'', JStr ''A-1''),
           (''evidence'', JObj [(''kind'', JStr ''command''), (''command'', JArr [JStr ''check'']), (''reads'', JArr [JStr ''pkg/a.py''])])]])]])]])]"

definition before_mandate :: jobj where
  "before_mandate = [(''cycle_id'', JStr ''c1''), (''gates'', JObj [(''mandate'', JObj [(''status'', JStr ''pending'')])]),
     (''baseline'', JObj [(''measured_at'', JStr ''now'')])]"

definition before_acceptance :: jobj where
  "before_acceptance = [(''cycle_id'', JStr ''c1''), (''gates'', JObj [(''mandate'', JObj [(''status'', JStr ''approved'')]),
       (''T-002'', JObj [(''status'', JStr ''approved'')]), (''acceptance'', JObj [(''status'', JStr ''pending'')])]),
     (''plan'', JObj [(''status'', JStr ''frozen'')]),
     (''tasks'', JObj [(''T-001'', JObj [(''status'', JStr ''done'')]), (''T-002'', JObj [(''status'', JStr ''done'')])]),
     (''dependency_audit'', JObj [(''ran_at'', JStr ''now''), (''passed'', JBool True)])]"

definition taken_review :: jobj where
  "taken_review = [(''machine'', JObj [(''status'', JStr ''generated''), (''effective_risk'', JStr ''medium''),
     (''binding'', JObj [(''trusted_base_sha'', JStr ''b''), (''subject_head_sha'', JStr ''h'')])])]"

definition audited_config :: jobj where
  "audited_config = [(''security'', JObj [(''dependency_audit'', JObj [(''command'', JArr [JStr ''scan''])])])]"

definition reviews_event :: event where
  "reviews_event = \<lparr>ev_seq = 0, ev_id = ''e'', ev_tx = ''t1'', ev_ts = ''now'', ev_kind = ''reviews_changed'', ev_cycle = ''c1'',
     ev_actor = ''human'', ev_subjects = [], ev_prev = '''', ev_digest = '''',
     ev_detail = [(''document'', JObj []), (''digest'', JStr no_reviews_digest), (''reason'', JStr ''r'')]\<rparr>"

definition reviews_linked :: event where
  "reviews_linked = (case link toy_sha None reviews_event of Inr l \<Rightarrow> l | Inl _ \<Rightarrow> reviews_event)"

definition gate_env :: "jobj \<Rightarrow> env" where
  "gate_env state = \<lparr>en_sha = toy_sha, en_loads = table_loads [JObj (to_mapping reviews_linked)],
     en_load_doc = (\<lambda>s. if s = ''state'' then Inr state else if s = ''plan'' then Inr crossing_plan
        else if s = ''review'' then Inr taken_review else if s = ''config'' then Inr audited_config else Inr []),
     en_dump = (\<lambda>m. ser (JObj m)), en_schema = (\<lambda>_ _. True), en_event_ok = (\<lambda>_. True)\<rparr>"

definition gate_checkout :: "(string \<times> string) list \<Rightarrow> checkout" where
  "gate_checkout files = \<lparr>ck_rel = Some, ck_read = (\<lambda>p. case map_of files p of None \<Rightarrow> Missing | Some t \<Rightarrow> Contents t),
     ck_git_head_state = None, ck_git_status = None, ck_granted = False\<rparr>"

definition gate_site :: "(string \<times> string) list \<Rightarrow> site" where
  "gate_site files = \<lparr>si_checkout = gate_checkout files, si_unicode = \<lparr>un_digit = (\<lambda>_. False), un_word = (\<lambda>_. False), un_int = (\<lambda>_. 0)\<rparr>,
     si_behind = None, si_diff = (\<lambda>_ _. Some ''pkg/a.py''), si_ignored = (\<lambda>_. False), si_tracked = (\<lambda>_. False), si_integration = Inr [],
     si_ls_tree = None, si_time = (\<lambda>_. Some 0), si_now = 0, si_freshness = (\<lambda>_ _. []), si_say = (\<lambda>_. [])\<rparr>"

definition mandate_site :: site where
  "mandate_site = gate_site [(state_path, ''state''), (plan_path, ''plan'')]"

definition acceptance_site :: site where
  "acceptance_site = gate_site [(state_path, ''state''), (plan_path, ''plan''), (review_path, ''review''), (config_path, ''config''),
     (reviews_path, ''reviews''), (events_path, ser (JObj (to_mapping reviews_linked)) @ newline)]"

lemma mandate_clear_now: "readiness (gate_env before_mandate) mandate_site ''mandate'' True = Inr []"
  by code_simp

lemma acceptance_log: "scan_log (gate_env before_acceptance) (si_checkout acceptance_site) = Inr ([norm_event reviews_linked], [])"
proof -
  have "\<not> isl (link toy_sha None reviews_event)" by code_simp
  then have l: "link toy_sha None reviews_event = Inr reviews_linked"
    by (cases "link toy_sha None reviews_event") (simp_all add: reviews_linked_def)
  have "plain (JObj (to_mapping reviews_linked))" unfolding plain_def by code_simp
  moreover have "one_line reviews_linked" "within small_limits (norm (JObj (to_mapping reviews_linked)))"
    "length (ser (JObj (to_mapping reviews_linked))) \<le> max_bytes small_limits"
    by (code_simp, code_simp, code_simp)
  ultimately have "scan_text toy_sha (table_loads [JObj (to_mapping reviews_linked)]) (\<lambda>_. True)
      (ser (JObj (to_mapping reviews_linked)) @ newline) = Inr ([norm_event reviews_linked], [])"
    by (rule one_event_log [OF l])
  then show ?thesis
    by (simp add: scan_log_def gate_env_def acceptance_site_def gate_site_def gate_checkout_def map_err_def plan_path_def state_path_def
        config_path_def events_path_def review_path_def reviews_path_def)
qed

lemma acceptance_bound: "require_bound (gate_env before_acceptance) (si_checkout acceptance_site) = Inr (Inr [])"
proof -
  have "live_reviews (gate_env before_acceptance) (si_checkout acceptance_site) = Inr no_reviews_digest"
    "read_reviews (gate_env before_acceptance) (si_checkout acceptance_site) = Inr (Some (Valid []))"
    "map_err id (records_from 0 [norm_event reviews_linked]) = Inr [\<lparr>rr_document = [], rr_digest = no_reviews_digest, rr_actor = ''human'',
       rr_ts = ''now'', rr_reason = ''r'', rr_index = 0\<rparr>]"
    by (code_simp, code_simp, code_simp)
  moreover have "map_err id m = m" for m :: "raised + reviews_record list" by (cases m) (simp_all add: map_err_def)
  ultimately show ?thesis
    by (simp add: require_bound_def binding_problem_def recorded_def acceptance_log bind_err_def map_err_def)
qed

lemma acceptance_reads:
  "read_state (gate_env before_acceptance) (si_checkout acceptance_site) = Inr (Some (Valid before_acceptance))"
  "read_plan (gate_env before_acceptance) (si_checkout acceptance_site) = Inr (Some (Valid crossing_plan))"
  "read_review (gate_env before_acceptance) (si_checkout acceptance_site) = Inr (Some (Valid taken_review))"
  "read_config (gate_env before_acceptance) (si_checkout acceptance_site) = Inr (Some (Valid audited_config))"
proof -
  have "cross_reference_errors crossing_plan = []" "config_problems audited_config = []" by (code_simp, code_simp)
  then show "read_state (gate_env before_acceptance) (si_checkout acceptance_site) = Inr (Some (Valid before_acceptance))"
    "read_plan (gate_env before_acceptance) (si_checkout acceptance_site) = Inr (Some (Valid crossing_plan))"
    "read_review (gate_env before_acceptance) (si_checkout acceptance_site) = Inr (Some (Valid taken_review))"
    "read_config (gate_env before_acceptance) (si_checkout acceptance_site) = Inr (Some (Valid audited_config))"
    by (simp_all add: read_state_def read_plan_def read_review_def read_config_def read_checked_def plan_ok_def acceptance_site_def
        gate_site_def gate_checkout_def gate_env_def plan_path_def state_path_def review_path_def config_path_def)
qed

definition small_site :: site where
  "small_site = gate_site [(config_path, ''config'')]"

lemma acceptance_files:
  "si_diff acceptance_site = si_diff small_site" "si_ls_tree acceptance_site = si_ls_tree small_site" "si_time acceptance_site = si_time small_site"
  "si_now acceptance_site = si_now small_site" "si_unicode acceptance_site = si_unicode small_site"
  "ck_read (si_checkout acceptance_site) config_path = ck_read (si_checkout small_site) config_path"
  "ck_read (si_checkout acceptance_site) requirements_doc = ck_read (si_checkout small_site) requirements_doc"
  "ck_read (si_checkout acceptance_site) design_doc = ck_read (si_checkout small_site) design_doc"
  by (simp_all add: acceptance_site_def small_site_def gate_site_def gate_checkout_def plan_path_def state_path_def
        config_path_def events_path_def review_path_def reviews_path_def requirements_doc_def design_doc_def)

lemma acceptance_clear_now: "readiness (gate_env before_acceptance) acceptance_site ''acceptance'' True = Inr []"
proof -
  let ?en = "gate_env before_acceptance" and ?si = acceptance_site
  note reads = acceptance_reads
  have b: "si_behind ?si = None" by (simp add: acceptance_site_def gate_site_def)
  have checks: "gate_name_ok ''acceptance''" "gate_absence_reason before_acceptance ''acceptance'' = None"
    "chain_blockers before_acceptance ''acceptance'' True = []" "baseline_blockers before_acceptance ''acceptance'' = []"
    "change_request_blockers (Some crossing_plan) before_acceptance ''acceptance'' = []"
    "decision_blockers (Some crossing_plan) ''acceptance'' = []" "task_blockers (Some crossing_plan) before_acceptance ''acceptance'' = []"
    by (code_simp, code_simp, code_simp, code_simp, code_simp, code_simp, code_simp)
  have small: "boundary_blockers ?en small_site (Some crossing_plan) before_acceptance (Some taken_review) ''acceptance'' = Inr []"
    "audit_blockers ?en small_site before_acceptance (Some audited_config) ''acceptance'' = Inr []"
    "plan_blockers small_site (Some crossing_plan) = []"
    by (code_simp, code_simp, code_simp)
  have "scope_expansions before_acceptance = []" by code_simp
  then have reading: "read_settings ?en (si_checkout ?si) = read_settings ?en (si_checkout small_site)"
    "expansions_in_force ?en (si_checkout ?si) before_acceptance = expansions_in_force ?en (si_checkout small_site) before_acceptance"
    by (simp_all add: read_settings_def expansions_in_force_def acceptance_files)
  have large: "boundary_blockers ?en ?si (Some crossing_plan) before_acceptance (Some taken_review) ''acceptance'' = Inr []"
    "audit_blockers ?en ?si before_acceptance (Some audited_config) ''acceptance'' = Inr []"
    "plan_blockers ?si (Some crossing_plan) = []"
    unfolding boundary_blockers_def audit_blockers_def audit_answer_def plan_blockers_def trace_repo_def readable_text_def acceptance_files reading
    by (fact small [unfolded boundary_blockers_def audit_blockers_def audit_answer_def plan_blockers_def trace_repo_def readable_text_def])+
  have rest: "integration_blockers ?si (Some audited_config) ''acceptance'' = []" "clarification_blockers ?si ''acceptance'' = Inr []"
    "irreversible_blockers (Some crossing_plan) ''acceptance'' = []" "worktree_blockers ?si (Some crossing_plan) ''acceptance'' = []"
    by (simp_all add: integration_blockers_def clarification_blockers_def irreversible_blockers_def worktree_blockers_def acceptance_site_def gate_site_def)
  have "is_generated taken_review" "completion_blockers (Some taken_review) (Some (rw_human taken_review)) = []"
    "reading_blockers taken_review [] = []" "si_freshness ?si = (\<lambda>_ _. [])"
    by (code_simp, code_simp, code_simp, simp add: acceptance_site_def gate_site_def)
  then have "review_blockers ?en ?si (Some taken_review) before_acceptance ''acceptance'' = Inr []"
    by (simp add: review_blockers_def acceptance_bound bind_err_def)
  with reads b checks large rest show ?thesis
    by (simp add: document_for_def readiness_def gathered_def all_blockers_def acceptance_log bind_err_def map_err_def)
qed

theorem clear_gate_decidable_witness:
  "\<exists>st. read_state (gate_env before_mandate) (si_checkout mandate_site) = Inr (Some (Valid st)) \<and> ''mandate'' \<in> set (decidable_gates st)"
  using clear_gate_decidable [OF mandate_clear_now] by blast

theorem clear_mandate_workable_witness:
  "\<exists>p. read_plan (gate_env before_mandate) (si_checkout mandate_site) = Inr (Some (Valid p)) \<and>
     (\<forall>t \<in> set (plan_tasks p). pt_irreversible_surfaces t \<noteq> [] \<longrightarrow> crossing_prepared p t)"
  using clear_mandate_workable [OF mandate_clear_now] by blast

theorem clear_acceptance_inside_mandate_witness:
  "\<exists>p out. si_diff acceptance_site ''b'' ''h'' = Some out \<and>
     (\<forall>path \<in> set (diff_paths out). authorized (fst (plan_scope p)) (snd (plan_scope p)) default_guard_paths [] False path)"
proof -
  have "st_plan_status before_acceptance = ''frozen''" "scope_expansions before_acceptance = []"
    "py_str (jget (rw_binding taken_review) ''trusted_base_sha'') = ''b''" "subject_head_sha taken_review = ''h''"
    "settings_of audited_config = default_settings" "\<not> gs_template default_settings"
    by (code_simp, code_simp, code_simp, code_simp, code_simp, code_simp)
  moreover from this have "read_settings (gate_env before_acceptance) (si_checkout acceptance_site) = Inr default_settings"
    "expansions_in_force (gate_env before_acceptance) (si_checkout acceptance_site) before_acceptance = Inr []"
    by (simp_all add: read_settings_def expansions_in_force_def acceptance_site_def gate_site_def gate_checkout_def gate_env_def
        plan_path_def state_path_def review_path_def config_path_def)
  ultimately obtain p r out where "read_review (gate_env before_acceptance) (si_checkout acceptance_site) = Inr (Some (Valid r))"
    "si_diff acceptance_site (py_str (jget (rw_binding r) ''trusted_base_sha'')) (subject_head_sha r) = Some out"
    "\<forall>path \<in> set (diff_paths out). authorized (fst (plan_scope p)) (snd (plan_scope p)) (gs_paths default_settings) [] False path"
    using clear_acceptance_inside_mandate [OF acceptance_clear_now acceptance_reads(1)] by auto
  moreover have "gs_paths default_settings = default_guard_paths" by (simp add: default_settings_def)
  ultimately show ?thesis
    using acceptance_reads(3) \<open>py_str _ = _\<close> \<open>subject_head_sha _ = _\<close> by (intro exI [of _ p] exI [of _ out]) simp
qed

theorem clear_acceptance_freezes_witness:
  "\<exists>r. read_review (gate_env before_acceptance) (si_checkout acceptance_site) = Inr (Some (Valid r)) \<and>
     human_status (approved_human r) = ''frozen''"
  using clear_acceptance_freezes [OF acceptance_clear_now] by blast

end
