(* ===== verification/Conflict.thy ===== *)
theory Conflict
  imports Revise CrossRef EventQueries
begin

text \<open>
  \<^verbatim>\<open>conflict.py\<close>: a merge of two tasks' branches, classified before it is resolved. Git, the implementer and the
  quality gate are injected there and are parameters here, over a world \<open>'w\<close> each call may change; every call is
  also noted in the order it was made, so that what a merge leaves behind can be read off its calls. The
  escalation of a merge nobody could settle is a transaction of the store.
\<close>

section \<open>Calls\<close>

record conflict =
  cf_ours :: string
  cf_theirs :: string
  cf_paths :: "string list"

datatype call =
    Ran "string list" int
  | Implemented string
  | Gated int

record 'w tools =
  tl_run :: "string list \<Rightarrow> 'w \<Rightarrow> (int \<times> string) \<times> 'w"
  tl_implement :: "conflict \<Rightarrow> 'w \<Rightarrow> string \<times> 'w"
  tl_gate :: "'w \<Rightarrow> (int \<times> string) \<times> 'w"

type_synonym 'w session = "'w \<times> call list"

definition run_git :: "'w tools \<Rightarrow> string list \<Rightarrow> 'w session \<Rightarrow> (int \<times> string) \<times> 'w session" where
  "run_git tt cmd s = (case tl_run tt cmd (fst s) of ((rc, out), w) \<Rightarrow> ((rc, out), (w, snd s @ [Ran cmd rc])))"

definition ask :: "'w tools \<Rightarrow> conflict \<Rightarrow> 'w session \<Rightarrow> string \<times> 'w session" where
  "ask tt c s = (case tl_implement tt c (fst s) of (outcome, w) \<Rightarrow> (outcome, (w, snd s @ [Implemented outcome])))"

definition judge :: "'w tools \<Rightarrow> 'w session \<Rightarrow> (int \<times> string) \<times> 'w session" where
  "judge tt s = (case tl_gate tt (fst s) of ((rc, out), w) \<Rightarrow> ((rc, out), (w, snd s @ [Gated rc])))"

definition abort_command :: "string list" where
  "abort_command = [''git'', ''merge'', ''--abort'']"

definition merge_command :: "string \<Rightarrow> string list" where
  "merge_command source_ref = [''git'', ''merge'', ''--no-commit'', ''--no-ff'', source_ref]"

definition unmerged_command :: "string list" where
  "unmerged_command = [''git'', ''diff'', ''--name-only'', ''--diff-filter=U'']"

definition staged_command :: "string list" where
  "staged_command = [''git'', ''diff'', ''--cached'', ''--quiet'']"

definition commit_command :: "string \<Rightarrow> string list" where
  "commit_command message = [''git'', ''commit'', ''--no-verify'', ''-m'', message]"

section \<open>Classification\<close>

datatype kind = Noop | Clean | Mechanical | Semantic | ScopeViolation | Unresolved

definition merged_kinds :: "kind list" where
  "merged_kinds = [Noop, Clean, Mechanical]"

definition unresolved_kinds :: "kind list" where
  "unresolved_kinds = [Semantic, ScopeViolation, Unresolved]"

datatype escalation =
    MergeFailed string
  | PathsOutsideBoth "string list"
  | NotImplemented string
  | AttemptsRefused int
  | CommitFailed string

record resolution =
  rs_kind :: kind
  rs_conflict :: "conflict option"
  rs_escalation :: "escalation option"
  rs_log :: string

definition needs_a_human :: "resolution \<Rightarrow> bool" where
  "needs_a_human r \<longleftrightarrow> rs_kind r \<in> set unresolved_kinds"

definition out_of_scope :: "jobj \<Rightarrow> conflict \<Rightarrow> string list" where
  "out_of_scope plan c =
     (let includes = concat (map (\<lambda>tid. case plan_task plan tid of None \<Rightarrow> [] | Some t \<Rightarrow> [pt_scope_include t]) [cf_ours c, cf_theirs c])
      in if length includes < 2 \<or> [] \<in> set includes then []
         else filter (\<lambda>path. \<not> list_ex (\<lambda>inc. longest_cover path inc \<noteq> None) includes) (cf_paths c))"

definition conflicted_paths :: "'w tools \<Rightarrow> 'w session \<Rightarrow> string list \<times> 'w session" where
  "conflicted_paths tt s =
     (case run_git tt unmerged_command s of ((rc, out), s1) \<Rightarrow>
        (if rc \<noteq> 0 then [] else map py_strip (filter (\<lambda>l. \<not> blank l) (splitlines out)), s1))"

definition has_staged_changes :: "'w tools \<Rightarrow> 'w session \<Rightarrow> bool \<times> 'w session" where
  "has_staged_changes tt s = (case run_git tt staged_command s of ((rc, _), s1) \<Rightarrow> (rc \<noteq> 0, s1))"

definition described :: "conflict \<Rightarrow> string" where
  "described c = (if cf_theirs c = [] then ''the incoming branch'' else cf_theirs c) @ '' into '' @
     (if cf_ours c = [] then ''the current branch'' else cf_ours c)"

definition em_dash :: string where
  "em_dash = [CHR 0xE2, CHR 0x80, CHR 0x94]"

definition resolution_message :: "conflict \<Rightarrow> string" where
  "resolution_message c =
     ''merge '' @ described c @ '': resolved '' @ dec_nat (length (cf_paths c)) @ '' conflicted path(s)'' @ newline @ newline @
     ''Both sides changed these, and the resolution is mechanical '' @ em_dash @ '' each side'' @ [CHR 0x27] @ ''s hunks stay'' @ newline @
     ''inside its own declared scope, and the merged tree passed the task-stage quality gate:'' @ newline @
     join newline (map (\<lambda>p. ''- '' @ p) (cf_paths c)) @ newline"

definition clean_message :: "string \<Rightarrow> string \<Rightarrow> string \<Rightarrow> string" where
  "clean_message source_ref ours theirs =
     ''merge '' @ (if theirs = [] then source_ref else theirs) @ '' into '' @ (if ours = [] then ''the current branch'' else ours) @ newline"

section \<open>The merge\<close>

definition give_up :: "'w tools \<Rightarrow> resolution \<Rightarrow> 'w session \<Rightarrow> resolution \<times> 'w session" where
  "give_up tt r s = (r, snd (run_git tt abort_command s))"

definition commit_merge :: "'w tools \<Rightarrow> string \<Rightarrow> kind \<Rightarrow> conflict option \<Rightarrow> 'w session \<Rightarrow> resolution \<times> 'w session" where
  "commit_merge tt message k c s =
     (case run_git tt (commit_command message) s of ((rc, out), s1) \<Rightarrow>
        if rc \<noteq> 0 then give_up tt \<lparr>rs_kind = Unresolved, rs_conflict = c, rs_escalation = Some (CommitFailed out), rs_log = out\<rparr> s1
        else (\<lparr>rs_kind = k, rs_conflict = c, rs_escalation = None, rs_log = []\<rparr>, s1))"

definition still_marked :: "string list \<Rightarrow> string" where
  "still_marked paths = ''conflict markers are still in: '' @ join '', '' paths"

fun attempt :: "'w tools \<Rightarrow> conflict \<Rightarrow> int \<Rightarrow> nat \<Rightarrow> string \<Rightarrow> 'w session \<Rightarrow> resolution \<times> 'w session" where
  "attempt tt c attempts 0 last_log s =
     give_up tt \<lparr>rs_kind = Unresolved, rs_conflict = Some c, rs_escalation = Some (AttemptsRefused attempts), rs_log = last_log\<rparr> s"
| "attempt tt c attempts (Suc n) last_log s =
     (case ask tt c s of (outcome, s1) \<Rightarrow>
        if outcome \<noteq> ''implemented''
        then give_up tt \<lparr>rs_kind = Semantic, rs_conflict = Some c, rs_escalation = Some (NotImplemented outcome), rs_log = []\<rparr> s1
        else (case conflicted_paths tt s1 of (remaining, s2) \<Rightarrow>
          if remaining \<noteq> [] then attempt tt c attempts n (still_marked remaining) s2
          else (case judge tt s2 of ((status, output), s3) \<Rightarrow>
            if status = 0 then commit_merge tt (resolution_message c) Mechanical (Some c) s3
            else attempt tt c attempts n output s3)))"

definition merge_with_resolution ::
  "'w tools \<Rightarrow> jobj \<Rightarrow> string \<Rightarrow> string \<Rightarrow> string \<Rightarrow> int \<Rightarrow> 'w session \<Rightarrow> resolution \<times> 'w session" where
  "merge_with_resolution tt plan source_ref ours theirs attempts s =
     (case run_git tt (merge_command source_ref) s of ((rc, out), s1) \<Rightarrow>
        if rc = 0 then
          (case has_staged_changes tt s1 of (anything, s2) \<Rightarrow>
             if \<not> anything then (\<lparr>rs_kind = Noop, rs_conflict = None, rs_escalation = None, rs_log = []\<rparr>, s2)
             else commit_merge tt (clean_message source_ref ours theirs) Clean None s2)
        else (case conflicted_paths tt s1 of (paths, s2) \<Rightarrow>
          let c = \<lparr>cf_ours = ours, cf_theirs = theirs, cf_paths = paths\<rparr>
          in if paths = [] then give_up tt \<lparr>rs_kind = Unresolved, rs_conflict = Some c, rs_escalation = Some (MergeFailed out), rs_log = out\<rparr> s2
             else if out_of_scope plan c \<noteq> [] then
               give_up tt \<lparr>rs_kind = ScopeViolation, rs_conflict = Some c, rs_escalation = Some (PathsOutsideBoth (out_of_scope plan c)), rs_log = []\<rparr> s2
             else attempt tt c attempts (nat (max 1 attempts)) [] s2))"

section \<open>What a merge leaves behind\<close>

lemma run_git_eq: "run_git tt cmd s = ((rc, out), s') \<Longrightarrow> snd s' = snd s @ [Ran cmd rc]"
  by (auto simp: run_git_def split: prod.splits)

lemma give_up_eq: "give_up tt r s = (r', s') \<Longrightarrow> r' = r \<and> (\<exists>rc. snd s' = snd s @ [Ran abort_command rc])"
  by (cases "run_git tt abort_command s") (auto simp: give_up_def dest!: run_git_eq)

lemma conflicted_paths_eq: "conflicted_paths tt s = (paths, s') \<Longrightarrow> \<exists>rc. snd s' = snd s @ [Ran unmerged_command rc]"
  by (auto simp: conflicted_paths_def dest: run_git_eq split: prod.splits)

definition closed_by :: "resolution \<Rightarrow> call list \<Rightarrow> bool" where
  "closed_by r calls \<longleftrightarrow> (\<exists>pre. if needs_a_human r then \<exists>rc. calls = pre @ [Ran abort_command rc]
     else \<exists>message. calls = pre @ [Ran (commit_command message) 0])"

lemma closed_by_append: "closed_by r calls \<Longrightarrow> closed_by r (before @ calls)"
  by (auto simp: closed_by_def split: if_splits) (metis append_assoc)+

lemmas kind_sets = needs_a_human_def unresolved_kinds_def merged_kinds_def

definition answers :: "call list \<Rightarrow> string list" where
  "answers calls = concat (map (\<lambda>x. case x of Implemented o1 \<Rightarrow> [o1] | _ \<Rightarrow> []) calls)"

lemma answers_append [simp]: "answers (xs @ ys) = answers xs @ answers ys"
  by (simp add: answers_def)

lemma answers_simps [simp]: "answers [] = []" "answers (Ran c rc # xs) = answers xs" "answers (Gated rc # xs) = answers xs"
  "answers (Implemented o1 # xs) = o1 # answers xs"
  by (simp_all add: answers_def)

definition earned :: "conflict \<Rightarrow> call list \<Rightarrow> bool" where
  "earned c calls \<longleftrightarrow> (\<exists>pre rc. calls = pre @ [Implemented ''implemented'', Ran unmerged_command rc, Gated 0,
     Ran (commit_command (resolution_message c)) 0])"

lemma earned_append: "earned c calls \<Longrightarrow> earned c (before @ calls)"
  by (auto simp: earned_def)

lemma commit_merge_calls:
  assumes "commit_merge tt message k c s = (r, s')" and "k \<notin> set unresolved_kinds"
  obtains calls where "snd s' = snd s @ calls" "closed_by r calls" "answers calls = []"
    "rs_kind r = k \<and> rs_conflict r = c \<and> calls = [Ran (commit_command message) 0] \<or> rs_kind r = Unresolved"
proof -
  obtain rc out s1 where g: "run_git tt (commit_command message) s = ((rc, out), s1)" by (metis prod.exhaust)
  from run_git_eq [OF this] have s1: "snd s1 = snd s @ [Ran (commit_command message) rc]" .
  show ?thesis
  proof (cases "rc = 0")
    case True
    with assms g s1 show ?thesis by (intro that) (auto simp: commit_merge_def closed_by_def needs_a_human_def)
  next
    case False
    with assms(1) g have "give_up tt \<lparr>rs_kind = Unresolved, rs_conflict = c, rs_escalation = Some (CommitFailed out), rs_log = out\<rparr> s1 = (r, s')"
      by (simp add: commit_merge_def)
    from give_up_eq [OF this] s1 obtain rc' where "rs_kind r = Unresolved" "snd s' = snd s @ [Ran (commit_command message) rc] @ [Ran abort_command rc']"
      by auto
    then show ?thesis by (intro that) (auto simp: closed_by_def kind_sets)
  qed
qed

lemma attempt_calls:
  "attempt tt c attempts n last_log s = (r, s') \<Longrightarrow> \<exists>calls. snd s' = snd s @ calls \<and> closed_by r calls \<and>
     length (answers calls) \<le> n \<and> set (butlast (answers calls)) \<subseteq> {''implemented''} \<and>
     (rs_kind r = Mechanical \<and> rs_conflict r = Some c \<and> earned c calls \<or> rs_kind r \<in> {Semantic, Unresolved})"
proof (induction n arbitrary: last_log s)
  case 0
  then show ?case by (auto dest!: give_up_eq simp: closed_by_def kind_sets)
next
  case (Suc n)
  obtain outcome s1 where a: "ask tt c s = (outcome, s1)" by (metis prod.exhaust)
  then have s1: "snd s1 = snd s @ [Implemented outcome]" by (auto simp: ask_def split: prod.splits)
  obtain remaining s2 where m: "conflicted_paths tt s1 = (remaining, s2)" by (metis prod.exhaust)
  from conflicted_paths_eq [OF this] obtain rc where s2: "snd s2 = snd s1 @ [Ran unmerged_command rc]" by blast
  obtain status told s3 where j: "judge tt s2 = ((status, told), s3)" by (metis prod.exhaust)
  then have s3: "snd s3 = snd s2 @ [Gated status]" by (auto simp: judge_def split: prod.splits)
  have again: ?case if "attempt tt c attempts n l s4 = (r, s')" "snd s4 = snd s @ Implemented ''implemented'' # more" "answers more = []" for l s4 more
  proof -
    from Suc.IH [OF that(1)] obtain calls where "snd s' = snd s4 @ calls" "closed_by r calls" "length (answers calls) \<le> n"
      "set (butlast (answers calls)) \<subseteq> {''implemented''}"
      "rs_kind r = Mechanical \<and> rs_conflict r = Some c \<and> earned c calls \<or> rs_kind r \<in> {Semantic, Unresolved}" by blast
    then show ?thesis
      using that(2,3) closed_by_append [of r calls "Implemented ''implemented'' # more"] earned_append [of c calls "Implemented ''implemented'' # more"]
      by (intro exI [of _ "(Implemented ''implemented'' # more) @ calls"]) auto
  qed
  consider (other) "outcome \<noteq> ''implemented''" | (marked) "outcome = ''implemented''" "remaining \<noteq> []"
    | (passed) "outcome = ''implemented''" "remaining = []" "status = 0" | (failed) "outcome = ''implemented''" "remaining = []" "status \<noteq> 0"
    by blast
  then show ?case
  proof cases
    case other
    with Suc.prems a s1 show ?thesis by (auto dest!: give_up_eq simp: closed_by_def kind_sets)
  next
    case marked
    with Suc.prems a m show ?thesis by (intro again) (simp, simp add: s1 s2, simp)
  next
    case passed
    with Suc.prems a m j have "commit_merge tt (resolution_message c) Mechanical (Some c) s3 = (r, s')" by simp
    then obtain calls where k: "snd s' = snd s3 @ calls" "closed_by r calls" "answers calls = []"
      "rs_kind r = Mechanical \<and> rs_conflict r = Some c \<and> calls = [Ran (commit_command (resolution_message c)) 0] \<or> rs_kind r = Unresolved"
      by (rule commit_merge_calls) (simp add: kind_sets)
    let ?before = "[Implemented ''implemented'', Ran unmerged_command rc, Gated 0]"
    have "closed_by r (?before @ calls)" using k(2) by (rule closed_by_append)
    moreover have "earned c (?before @ calls)" if "calls = [Ran (commit_command (resolution_message c)) 0]"
      unfolding earned_def that by (intro exI [of _ "[]"]) simp
    ultimately show ?thesis using k passed by (intro exI [of _ "?before @ calls"]) (auto simp: s1 s2 s3)
  next
    case failed
    with Suc.prems a m j show ?thesis by (intro again) (simp, simp add: s1 s2 s3, simp)
  qed
qed

text \<open>C22: A merge is settled or undone, never left half-merged by a failure: when a conflict was found or something was staged, the
  last command is a commit that succeeded for the kinds that merged, and \<^verbatim>\<open>git merge --abort\<close> for the kinds a human has
  to look at. The one case with neither is a merge that staged nothing, whose only commands are the merge and the
  question whether anything is staged.\<close>

theorem merge_never_left_open:
  assumes "merge_with_resolution tt plan source_ref ours theirs attempts s = (r, s')"
  shows "\<exists>calls. snd s' = snd s @ calls \<and>
    (closed_by r calls \<and> rs_kind r \<noteq> Noop \<or> rs_kind r = Noop \<and> calls = [Ran (merge_command source_ref) 0, Ran staged_command 0])"
proof -
  obtain rc out s1 where m: "run_git tt (merge_command source_ref) s = ((rc, out), s1)" by (metis prod.exhaust)
  from run_git_eq [OF m] have s1: "snd s1 = snd s @ [Ran (merge_command source_ref) rc]" .
  obtain anything s2 where h: "has_staged_changes tt s1 = (anything, s2)" by (metis prod.exhaust)
  then obtain rc2 where s2: "snd s2 = snd s1 @ [Ran staged_command rc2]" "anything = (rc2 \<noteq> 0)"
    by (auto simp: has_staged_changes_def dest: run_git_eq split: prod.splits)
  obtain paths s3 where p: "conflicted_paths tt s1 = (paths, s3)" by (metis prod.exhaust)
  from conflicted_paths_eq [OF p] obtain rc3 where s3: "snd s3 = snd s1 @ [Ran unmerged_command rc3]" by blast
  let ?c = "\<lparr>cf_ours = ours, cf_theirs = theirs, cf_paths = paths\<rparr>"
  show ?thesis
  proof (cases "rc = 0")
    case True
    show ?thesis
    proof (cases anything)
      case True
      with assms m h \<open>rc = 0\<close> have "commit_merge tt (clean_message source_ref ours theirs) Clean None s2 = (r, s')"
        by (simp add: merge_with_resolution_def)
      then obtain calls where "snd s' = snd s2 @ calls" "closed_by r calls" "rs_kind r = Clean \<or> rs_kind r = Unresolved"
        by (rule commit_merge_calls) (auto simp: kind_sets)
      with s1 s2 closed_by_append [of r calls "[Ran (merge_command source_ref) rc, Ran staged_command rc2]"]
      show ?thesis by (intro exI [of _ "[Ran (merge_command source_ref) rc, Ran staged_command rc2] @ calls"]) auto
    qed (use assms m h \<open>rc = 0\<close> s1 s2 in \<open>auto simp: merge_with_resolution_def\<close>)
  next
    case False
    have "\<exists>calls. snd s' = snd s3 @ calls \<and> closed_by r calls \<and> rs_kind r \<noteq> Noop"
    proof (cases "paths = [] \<or> out_of_scope plan ?c \<noteq> []")
      case True
      with assms m p False show ?thesis
        by (auto simp: merge_with_resolution_def Let_def closed_by_def kind_sets split: if_splits dest!: give_up_eq)
    next
      case no: False
      with assms m p False have "attempt tt ?c attempts (nat (max 1 attempts)) [] s3 = (r, s')"
        by (simp add: merge_with_resolution_def Let_def)
      from attempt_calls [OF this] show ?thesis by auto
    qed
    then obtain calls where "snd s' = snd s3 @ calls" "closed_by r calls" "rs_kind r \<noteq> Noop" by blast
    with s1 s3 closed_by_append [of r calls "[Ran (merge_command source_ref) rc, Ran unmerged_command rc3]"]
    show ?thesis by (intro exI [of _ "[Ran (merge_command source_ref) rc, Ran unmerged_command rc3] @ calls"]) auto
  qed
qed

text \<open>C19: Mechanical is established, never claimed: a merge classified mechanical found conflicted paths, each inside the scope one
  of the two tasks declared (when both declared one), and its last four steps are the implementer answering
  \<^verbatim>\<open>implemented\<close>, git being asked for unmerged paths, the quality gate exiting with 0 and the commit that names the
  conflict. However the merge ends, the implementer was asked at most \<open>max 1 attempts\<close> times and never again after any
  other answer.\<close>

theorem mechanical_is_earned:
  assumes "merge_with_resolution tt plan source_ref ours theirs attempts s = (r, s')"
  shows "\<exists>calls. snd s' = snd s @ calls \<and> length (answers calls) \<le> nat (max 1 attempts) \<and>
    set (butlast (answers calls)) \<subseteq> {''implemented''} \<and>
    (rs_kind r = Mechanical \<longrightarrow> (\<exists>c. rs_conflict r = Some c \<and> cf_ours c = ours \<and> cf_theirs c = theirs \<and> cf_paths c \<noteq> [] \<and>
       out_of_scope plan c = [] \<and> earned c calls))"
proof -
  obtain rc out s1 where m: "run_git tt (merge_command source_ref) s = ((rc, out), s1)" by (metis prod.exhaust)
  from run_git_eq [OF m] have s1: "snd s1 = snd s @ [Ran (merge_command source_ref) rc]" .
  obtain anything s2 where h: "has_staged_changes tt s1 = (anything, s2)" by (metis prod.exhaust)
  then obtain rc2 where s2: "snd s2 = snd s1 @ [Ran staged_command rc2]" "anything = (rc2 \<noteq> 0)"
    by (auto simp: has_staged_changes_def dest: run_git_eq split: prod.splits)
  obtain paths s3 where p: "conflicted_paths tt s1 = (paths, s3)" by (metis prod.exhaust)
  from conflicted_paths_eq [OF p] obtain rc3 where s3: "snd s3 = snd s1 @ [Ran unmerged_command rc3]" by blast
  let ?c = "\<lparr>cf_ours = ours, cf_theirs = theirs, cf_paths = paths\<rparr>"
  consider (merged) "rc = 0" "anything" | (nothing) "rc = 0" "\<not> anything" | (early) "rc \<noteq> 0" "paths = [] \<or> out_of_scope plan ?c \<noteq> []"
    | (tried) "rc \<noteq> 0" "paths \<noteq> []" "out_of_scope plan ?c = []" by blast
  then show ?thesis
  proof cases
    case merged
    with assms m h have "commit_merge tt (clean_message source_ref ours theirs) Clean None s2 = (r, s')"
      by (simp add: merge_with_resolution_def)
    then obtain calls where "snd s' = snd s2 @ calls" "answers calls = []" "rs_kind r = Clean \<or> rs_kind r = Unresolved"
      by (rule commit_merge_calls) (auto simp: kind_sets)
    with s1 s2 show ?thesis by (intro exI [of _ "[Ran (merge_command source_ref) rc, Ran staged_command rc2] @ calls"]) auto
  next
    case tried
    with assms m p have "attempt tt ?c attempts (nat (max 1 attempts)) [] s3 = (r, s')"
      by (simp add: merge_with_resolution_def Let_def)
    from attempt_calls [OF this] obtain calls where k: "snd s' = snd s3 @ calls" "length (answers calls) \<le> nat (max 1 attempts)"
      "set (butlast (answers calls)) \<subseteq> {''implemented''}"
      "rs_kind r = Mechanical \<and> rs_conflict r = Some ?c \<and> earned ?c calls \<or> rs_kind r \<in> {Semantic, Unresolved}" by blast
    with s1 s3 tried earned_append [of ?c calls "[Ran (merge_command source_ref) rc, Ran unmerged_command rc3]"]
    show ?thesis by (intro exI [of _ "[Ran (merge_command source_ref) rc, Ran unmerged_command rc3] @ calls"]) auto
  qed (use assms m h p s1 s2 s3 in \<open>auto simp: merge_with_resolution_def Let_def split: if_splits dest!: give_up_eq\<close>)
qed

section \<open>One conflict, resolved\<close>

text \<open>The first reading of the index names one path; \<open>after\<close> is what git answers once the implementer was asked.\<close>

definition one_conflict :: "int \<times> string \<Rightarrow> nat tools" where
  "one_conflict after =
     \<lparr>tl_run = (\<lambda>cmd w. (if cmd = merge_command ''other'' then (1, ''conflict'')
        else if cmd = unmerged_command then (if w = 0 then (0, ''pkg/a.py'') else after) else (0, []), w)),
      tl_implement = (\<lambda>_ w. (''implemented'', Suc w)), tl_gate = (\<lambda>w. ((0, []), w))\<rparr>"

lemma one_conflict_mechanical:
  "rs_kind (fst (merge_with_resolution (one_conflict (0, [])) tidy_plan ''other'' ''T-001'' ''T-002'' 2 (0, []))) = Mechanical"
  by code_simp

theorem merge_never_left_open_witness:
  "\<exists>r calls. rs_kind r = Mechanical \<and> closed_by r calls"
proof -
  obtain r s' where m: "merge_with_resolution (one_conflict (0, [])) tidy_plan ''other'' ''T-001'' ''T-002'' 2 (0, []) = (r, s')"
    by (metis prod.exhaust)
  with one_conflict_mechanical have "rs_kind r = Mechanical" by simp
  with merge_never_left_open [OF m] show ?thesis by auto
qed

theorem mechanical_is_earned_witness:
  "\<exists>c calls. cf_paths c \<noteq> [] \<and> earned c calls \<and> length (answers calls) \<le> 2"
proof -
  obtain r s' where m: "merge_with_resolution (one_conflict (0, [])) tidy_plan ''other'' ''T-001'' ''T-002'' 2 (0, []) = (r, s')"
    by (metis prod.exhaust)
  with one_conflict_mechanical have "rs_kind r = Mechanical" by simp
  with mechanical_is_earned [OF m] show ?thesis by auto
qed

text \<open>A failing \<^verbatim>\<open>git diff\<close> reads as no unmerged path: the second reading fails here, and the merge is committed as a
  mechanical one without anyone having seen that nothing is left unmerged.\<close>

lemma unread_index_passes:
  "rs_kind (fst (merge_with_resolution (one_conflict (128, ''fatal'')) tidy_plan ''other'' ''T-001'' ''T-002'' 2 (0, []))) = Mechanical"
  by code_simp

text \<open>A merge that went well and staged nothing ends with neither a commit nor an abort: git, told not to commit, has left
  the merge open.\<close>

lemma nothing_staged_left_open:
  assumes "tl_run tt (merge_command source_ref) w = ((0, out), w1)" and "tl_run tt staged_command w1 = ((0, out2), w2)"
  shows "merge_with_resolution tt plan source_ref ours theirs attempts (w, []) =
    (\<lparr>rs_kind = Noop, rs_conflict = None, rs_escalation = None, rs_log = []\<rparr>, w2, [Ran (merge_command source_ref) 0, Ran staged_command 0])"
  using assms by (simp add: merge_with_resolution_def run_git_def has_staged_changes_def)

section \<open>The escalation\<close>

datatype escalate_error =
    DocumentsAbsent
  | GraphBroken dag_error
  | TasksUnusable
  | EventRefused make_error
  | StoreRefused store_error

definition kind_name :: "kind \<Rightarrow> string" where
  "kind_name k = (case k of Noop \<Rightarrow> ''noop'' | Clean \<Rightarrow> ''clean'' | Mechanical \<Rightarrow> ''mechanical'' | Semantic \<Rightarrow> ''semantic''
     | ScopeViolation \<Rightarrow> ''scope-violation'' | Unresolved \<Rightarrow> ''unresolved'')"

text \<open>\<^verbatim>\<open>_with_status\<close>: an entry keeps its other fields, a task without one gets one.\<close>

definition with_status :: "jobj \<Rightarrow> string list \<Rightarrow> string \<Rightarrow> escalate_error + jobj" where
  "with_status raw ids now =
     bind_err (map_err (\<lambda>_. TasksUnusable) (block raw ''tasks'')) (\<lambda>tasks.
       Inr (jset ''updated_at'' (JStr now) (jset ''tasks'' (JObj (fold mark_task ids tasks)) raw)))"

definition gap_detail :: "(escalation \<Rightarrow> string) \<Rightarrow> string \<Rightarrow> resolution \<Rightarrow> conflict \<Rightarrow> jobj" where
  "gap_detail say category r c =
     [(''statement'', JStr (concat (take 2000 (chars_of (case rs_escalation r of None \<Rightarrow> [] | Some e \<Rightarrow> say e))))),
      (''category'', JStr category), (''risk'', JStr ''high''), (''anchor'', JStr (join '','' (take 8 (cf_paths c)))),
      (''classification'', JStr (kind_name (rs_kind r))), (''gate_output'', JStr (concat (last_n 1000 (chars_of (rs_log r)))))]"

definition seeds_of :: "conflict \<Rightarrow> string list" where
  "seeds_of c = filter (\<lambda>t. t \<noteq> []) [cf_ours c, cf_theirs c]"

definition marked_for :: "jobj \<Rightarrow> jobj \<Rightarrow> conflict \<Rightarrow> escalate_error + string list" where
  "marked_for plan state c =
     bind_err (map_err GraphBroken (impacted_closure plan (Some state) (seeds_of c))) (\<lambda>(valid, ripple).
       Inr (sorted_set (valid @ ripple)))"

definition stage_escalation :: "env \<Rightarrow> (escalation \<Rightarrow> string) \<Rightarrow> string \<Rightarrow> resolution \<Rightarrow> conflict \<Rightarrow> jobj \<Rightarrow> string list \<Rightarrow> string \<Rightarrow>
    string \<Rightarrow> string \<Rightarrow> escalate_error + txn" where
  "stage_escalation en say category r c state ids now tid eid =
     bind_err (with_status state ids now) (\<lambda>raw.
     bind_err (map_err StoreRefused (read_digest en (Some state))) (\<lambda>seen.
     bind_err (if ids = [] then Inr (begin_tx tid) else map_err StoreRefused (tx_write en ''state'' raw (Some seen) (begin_tx tid))) (\<lambda>tx.
     bind_err (map_err EventRefused (EventQueries.make ''knowledge_gap'' (st_cycle_id state) '''' (if ids = [] then seeds_of c else ids)
       (gap_detail say category r c) tid eid now)) (\<lambda>e. Inr (tx_append e tx)))))"

definition read_plan_document :: "env \<Rightarrow> disk \<Rightarrow> store_error + jobj option" where
  "read_plan_document en dk =
     bind_err (read_document en dk ''plan'') (\<lambda>plan. case plan of
         None \<Rightarrow> Inr None
       | Some raw \<Rightarrow> if cross_reference_errors raw = [] then Inr (Some raw) else Inl (DocumentRejected ''plan''))"

text \<open>State and plan are read before the transaction opens; its write expects the state that was read.\<close>

definition escalate :: "env \<Rightarrow> (escalation \<Rightarrow> string) \<Rightarrow> string option \<Rightarrow> string \<Rightarrow> resolution \<Rightarrow> string \<Rightarrow> string \<Rightarrow> string \<Rightarrow> disk \<Rightarrow> disk \<Rightarrow>
    disk \<times> (escalate_error + string list)" where
  "escalate en say refusal category r now tid eid dk_read dk =
     (case (if needs_a_human r then rs_conflict r else None) of
        None \<Rightarrow> (dk, Inr [])
      | Some c \<Rightarrow>
          (case bind_err (map_err StoreRefused (read_document en dk_read ''state'')) (\<lambda>state.
                bind_err (map_err StoreRefused (read_plan_document en dk_read)) (\<lambda>plan.
                  case (state, plan) of
                    (Some st, Some p) \<Rightarrow> bind_err (marked_for p st c) (\<lambda>ids. Inr (st, ids))
                  | _ \<Rightarrow> Inl DocumentsAbsent)) of
             Inl e \<Rightarrow> (dk, Inl e)
           | Inr (st, ids) \<Rightarrow>
               (case transaction en StoreRefused refusal True (\<lambda>_. stage_escalation en say category r c st ids now tid eid) dk of
                  (dk', None) \<Rightarrow> (dk', Inr ids)
                | (dk', Some e) \<Rightarrow> (dk', Inl e))))"

lemma mark_tasks_other: "x \<notin> set ids \<Longrightarrow> map_of (fold mark_task ids tasks) x = map_of tasks x"
  by (induction ids arbitrary: tasks) (simp_all add: mark_task_lookup)

lemma with_status_tasks:
  assumes "with_status raw ids now = Inr raw'" and "distinct (map fst (obj_field raw ''tasks''))"
  shows "t \<in> set ids \<Longrightarrow> map_of (task_status raw') t = Some ''needs-revision''"
    "t \<notin> set ids \<Longrightarrow> map_of (obj_field raw' ''tasks'') t = map_of (obj_field raw ''tasks'') t"
proof -
  from assms(1) obtain tasks where t: "block raw ''tasks'' = Inr tasks"
    and raw': "raw' = jset ''updated_at'' (JStr now) (jset ''tasks'' (JObj (fold mark_task ids tasks)) raw)"
    by (auto simp: with_status_def)
  from block_field [OF t] have tasks: "obj_field raw ''tasks'' = tasks" .
  with assms(2) have d: "distinct (map fst (fold mark_task ids tasks))" by (simp add: mark_tasks_keys)
  have f: "obj_field raw' ''tasks'' = fold mark_task ids tasks" by (simp add: raw' obj_field_eq)
  show "t \<notin> set ids \<Longrightarrow> map_of (obj_field raw' ''tasks'') t = map_of (obj_field raw ''tasks'') t"
    by (simp add: f tasks mark_tasks_other)
  assume "t \<in> set ids"
  then have "needs_revision (map_of (fold mark_task ids tasks) t)" by (simp add: mark_tasks_need)
  then obtain m where m: "map_of (fold mark_task ids tasks) t = Some (JObj m)" "str_field m ''status'' ''todo'' = ''needs-revision''"
    by (auto simp: needs_revision_def split: option.splits json.splits)
  then have "map_of (st_tasks raw') t = Some m" by (simp add: st_tasks_def f map_of_obj_items [OF d])
  with m(2) show "map_of (task_status raw') t = Some ''needs-revision''"
    using map_of_map_fst [of "\<lambda>m. str_field m ''status'' ''todo''" "st_tasks raw'" t] by (simp add: task_status_def)
qed

text \<open>Escalating a conflict parks exactly the tasks it concerns and says why in the same transaction: over a plan and state
  that join to a graph, the tasks marked are the two sides that exist and everything that waits for one of them,
  directly or through others; each is left in need of revision and no other task's entry changes; the transaction
  appends one \<^verbatim>\<open>knowledge_gap\<close> event naming them (the two sides when none exists, and then it writes no document), and
  its write expects the state the tasks were computed from.\<close>

theorem escalation_marks_closure:
  assumes "marked_for plan state c = Inr ids" and "stage_escalation en say category r c state ids now tid eid = Inr tx"
    and "distinct (map fst (obj_field state ''tasks''))"
  shows "\<exists>g e seen. join_graph plan (Some state) = Inr g \<and>
    set ids = {x. \<exists>s \<in> set (seeds_of c) \<inter> set (g_ids g). (s, x) \<in> (waits_for g)\<^sup>*} \<and>
    tx_events tx = [e] \<and> ev_kind e = ''knowledge_gap'' \<and> ev_subjects e = (if ids = [] then seeds_of c else ids) \<and>
    read_digest en (Some state) = Inr seen \<and>
    (if ids = [] then tx_writes tx = [] else \<exists>raw. tx_writes tx = [(''state'', raw)] \<and> tx_expect tx = [(''state'', seen)] \<and>
       list_all (\<lambda>t. map_of (task_status raw) t = Some ''needs-revision'') ids \<and>
       (\<forall>t \<in> - set ids. map_of (obj_field raw ''tasks'') t = map_of (obj_field state ''tasks'') t))"
proof -
  from assms(1) obtain g where g: "join_graph plan (Some state) = Inr g"
    and ids: "ids = (let valid = filter (\<lambda>s. s \<in> set (g_ids g)) (seeds_of c) in sorted_set (valid @ sorted_set (dependents_closure g valid)))"
    by (auto simp: marked_for_def impacted_closure_def Let_def)
  from g have acc: "accepted g" by (auto simp: join_graph_def accepted_def Let_def from_tasks_iff split: if_splits)
  have "set ids = {x. \<exists>s \<in> set (seeds_of c) \<inter> set (g_ids g). (s, x) \<in> (waits_for g)\<^sup>*}"
    unfolding ids Let_def by (auto simp: dependents_closure_set [OF acc] rtrancl_eq_or_trancl)
  moreover from assms(2) obtain raw seen tx0 e where st: "with_status state ids now = Inr raw" "read_digest en (Some state) = Inr seen"
    "(if ids = [] then Inr (begin_tx tid) else map_err StoreRefused (tx_write en ''state'' raw (Some seen) (begin_tx tid))) = Inr tx0"
    "EventQueries.make ''knowledge_gap'' (st_cycle_id state) '''' (if ids = [] then seeds_of c else ids) (gap_detail say category r c) tid eid now = Inr e"
    "tx = tx_append e tx0" by (auto simp: stage_escalation_def)
  have e: "ev_kind e = ''knowledge_gap'' \<and> ev_subjects e = (if ids = [] then seeds_of c else ids)"
    using st(4) by (auto simp: EventQueries.make_def split: if_splits)
  have "tx_events tx = [e] \<and> (if ids = [] then tx_writes tx = [] else tx_writes tx = [(''state'', raw)] \<and> tx_expect tx = [(''state'', seen)])"
    using st(3,5) by (auto simp: tx_write_def tx_append_def begin_tx_def split: if_splits)
  with g e st(2) calculation with_status_tasks [OF st(1) assms(3)] show ?thesis
    by (intro exI [of _ g] exI [of _ e] exI [of _ seen]) (auto simp: list_all_iff)
qed

definition stuck_state :: jobj where
  "stuck_state = [(''cycle_id'', JStr ''c1''), (''tasks'', JObj [(''T-001'', JObj [(''status'', JStr ''in-progress'')])])]"

definition stuck_conflict :: conflict where
  "stuck_conflict = \<lparr>cf_ours = ''T-001'', cf_theirs = '''', cf_paths = [''pkg/a.py'']\<rparr>"

definition stuck :: resolution where
  "stuck = \<lparr>rs_kind = Semantic, rs_conflict = Some stuck_conflict, rs_escalation = None, rs_log = ''''\<rparr>"

definition stuck_env :: env where
  "stuck_env = \<lparr>en_sha = toy_sha, en_loads = (\<lambda>_. None), en_load_doc = (\<lambda>_. Inr []), en_dump = (\<lambda>m. ser (JObj m)),
     en_schema = (\<lambda>_ _. True), en_event_ok = (\<lambda>_. True)\<rparr>"

theorem escalation_marks_closure_witness:
  "\<exists>tx raw. stage_escalation stuck_env (\<lambda>_. []) ''merge_conflict'' stuck stuck_conflict stuck_state [''T-001'', ''T-002''] ''now'' ''t1'' ''e'' = Inr tx \<and>
     tx_writes tx = [(''state'', raw)] \<and> map_of (task_status raw) ''T-002'' = Some ''needs-revision''"
proof -
  have m: "marked_for tidy_plan stuck_state stuck_conflict = Inr [''T-001'', ''T-002'']" by code_simp
  have "\<not> isl (stage_escalation stuck_env (\<lambda>_. []) ''merge_conflict'' stuck stuck_conflict stuck_state [''T-001'', ''T-002''] ''now'' ''t1'' ''e'')"
    by code_simp
  then obtain tx where tx: "stage_escalation stuck_env (\<lambda>_. []) ''merge_conflict'' stuck stuck_conflict stuck_state [''T-001'', ''T-002''] ''now'' ''t1'' ''e'' = Inr tx"
    by (metis isl_def sum.exhaust)
  have "distinct (map fst (obj_field stuck_state ''tasks''))" by code_simp
  from escalation_marks_closure [OF m tx this] tx show ?thesis by auto
qed

end
