(* ===== verification/Comparator.thy ===== *)
theory Comparator
  imports ReviewPolicy Store
begin

text \<open>
  \<^verbatim>\<open>conformance.py\<close>: the comparison of the frozen plan's claims with what was read of the code. The reviewer's answer
  is bytes the model validates; the rows of the result are the plan's claims, never the answer's. The prompt
  (\<^verbatim>\<open>contract\<close>) is not modelled.
\<close>

section \<open>What an answer may not do\<close>

datatype comparator_problem =
    ClaimNotMapping nat
  | ClaimCitesUnread string string
  | FabricatedClaim string string
  | RiskBelowFloor string string
  | ExtraNotMapping nat
  | ExtraCitesNothing string
  | ExtraCitesUnread string string
  | ExtraUnclassified string string
  | AnsweredTwice string

text \<open>A risk that is no level raises a \<^verbatim>\<open>ValueError\<close> out of the comparison of levels.\<close>

datatype comparator_error =
    NotIndependent independence
  | BadAnswer output_error
  | RewritesActual string
  | OtherActual
  | ClaimsNotAList
  | ComparisonRejected "comparator_problem list"
  | NoSuchRisk
  | AnchorsHaveNoDigest digest_error

definition extra_categories :: "string list" where
  "extra_categories = [''new_default'', ''retry_timeout_fallback'', ''external_side_effect'', ''public_interface'', ''persistence'',
     ''exception_suppression'', ''security_boundary'', ''observability_reduction'', ''dependency_change'', ''concurrency'']"

definition string_list :: "json \<Rightarrow> string list" where
  "string_list v = map py_str (as_arr v)"

definition statement_ids_of :: "jobj \<Rightarrow> string list" where
  "statement_ids_of row = string_list (jget row ''actual_statement_ids'')"

definition actual_digest_of :: "jobj \<Rightarrow> string" where
  "actual_digest_of request = str_get request ''actual_digest'' ''''"

definition validate_claim :: "string list \<Rightarrow> string list \<Rightarrow> string \<Rightarrow> jobj \<Rightarrow> comparator_error + comparator_problem list" where
  "validate_claim actual_ids known effective claim =
     (let cid = str_get claim ''claim_id'' ''?'';
          unread = map (ClaimCitesUnread cid) (filter (\<lambda>a. a \<notin> set actual_ids) (statement_ids_of claim));
          fabricated = map (FabricatedClaim cid) (validate_citations [cid] known)
      in if jget claim ''risk'' = JNull then Inr (unread @ fabricated)
         else (case reject_risk_downgrade (py_str (jget claim ''risk'')) effective of
             None \<Rightarrow> Inl NoSuchRisk
           | Some below \<Rightarrow> Inr (unread @ fabricated @ (if below then [RiskBelowFloor cid (py_str (jget claim ''risk''))] else []))))"

definition validate_extra :: "string list \<Rightarrow> jobj \<Rightarrow> comparator_problem list" where
  "validate_extra actual_ids extra =
     (let eid = str_get extra ''id'' ''?''; referenced = statement_ids_of extra; category = str_get extra ''category'' ''''
      in (if referenced = [] then [ExtraCitesNothing eid] else []) @
         map (ExtraCitesUnread eid) (filter (\<lambda>a. a \<notin> set actual_ids) referenced) @
         (if category \<notin> set extra_categories then [ExtraUnclassified eid category] else []))"

fun check_claims :: "string list \<Rightarrow> string list \<Rightarrow> string \<Rightarrow> nat \<Rightarrow> json list \<Rightarrow>
    comparator_error + comparator_problem list \<times> jobj list" where
  "check_claims actual_ids known effective i [] = Inr ([], [])"
| "check_claims actual_ids known effective i (v # vs) =
     (case v of
        JObj claim \<Rightarrow>
          bind_err (validate_claim actual_ids known effective claim) (\<lambda>here.
          bind_err (check_claims actual_ids known effective (Suc i) vs) (\<lambda>(problems, rows).
            Inr (here @ problems, jpop ''integrity'' claim # rows)))
      | _ \<Rightarrow> bind_err (check_claims actual_ids known effective (Suc i) vs) (\<lambda>(problems, rows).
            Inr (ClaimNotMapping i # problems, rows)))"

fun check_extras :: "string list \<Rightarrow> nat \<Rightarrow> json list \<Rightarrow> comparator_problem list \<times> jobj list" where
  "check_extras actual_ids i [] = ([], [])"
| "check_extras actual_ids i (v # vs) =
     (case (v, check_extras actual_ids (Suc i) vs) of
        (JObj extra, (problems, rows)) \<Rightarrow> (validate_extra actual_ids extra @ problems, extra # rows)
      | (_, (problems, rows)) \<Rightarrow> (ExtraNotMapping i # problems, rows))"

section \<open>The rows of a comparison\<close>

definition unanswered_text :: string where
  "unanswered_text = ''the comparator returned no result for this claim''"

definition not_compared_text :: string where
  "not_compared_text = ''no comparison was taken (`reviews.yaml` `acceptance.comparison` is off)''"

definition unanswered_claim :: "string \<Rightarrow> string \<Rightarrow> jobj" where
  "unanswered_claim why cid =
     [(''claim_id'', JStr cid), (''verdict'', JStr ''unknown''), (''integrity'', JObj [(''status'', JStr ''unavailable'')]),
      (''semantic_support'', JObj [(''status'', JStr ''unknown''), (''assessment_basis'', JStr ''machine_assessed'')]),
      (''conformance'', JObj [(''status'', JStr ''unknown'')]), (''unknowns'', JArr [JStr why])]"

definition claim_of :: "jobj \<Rightarrow> string" where
  "claim_of row = str_get row ''claim_id'' ''''"

text \<open>\<^verbatim>\<open>_frame_by_expected\<close> over the answered rows by claim id: the plan's claims in its order, and whatever is left.\<close>

fun frame :: "(string \<times> jobj) list \<Rightarrow> string list \<Rightarrow> jobj list \<times> string list" where
  "frame answered [] = (map snd answered, [])"
| "frame answered (cid # cids) =
     (case map_of answered cid of
        None \<Rightarrow> (case frame answered cids of (rows, silent) \<Rightarrow> (unanswered_claim unanswered_text cid # rows, cid # silent))
      | Some row \<Rightarrow> (case frame (AList.delete cid answered) cids of (rows, silent) \<Rightarrow> (row # rows, silent)))"

definition frame_by_expected :: "jobj list \<Rightarrow> string list \<Rightarrow> jobj list \<times> string list" where
  "frame_by_expected rows expected = frame (dict_of (map (\<lambda>row. (claim_of row, row)) rows)) expected"

definition integrity_field :: "integrity \<Rightarrow> jobj" where
  "integrity_field i = (case i of
      Unavailable \<Rightarrow> [(''status'', JStr ''unavailable'')]
    | Failed d \<Rightarrow> [(''status'', JStr ''failed''), (''code_anchor_digest'', JStr d)]
    | Verified d \<Rightarrow> [(''status'', JStr ''verified''), (''code_anchor_digest'', JStr d)])"

fun with_integrity :: "(string \<Rightarrow> string) \<Rightarrow> tree \<Rightarrow> (string \<times> jobj list) list \<Rightarrow> jobj list \<Rightarrow> comparator_error + jobj list" where
  "with_integrity sha tr anchors [] = Inr []"
| "with_integrity sha tr anchors (row # rows) =
     bind_err (map_err AnchorsHaveNoDigest (derive_integrity sha tr (statement_ids_of row) anchors)) (\<lambda>i.
     bind_err (with_integrity sha tr anchors rows) (\<lambda>rest. Inr (jset ''integrity'' (JObj (integrity_field i)) row # rest)))"

record comparison =
  cm_claims :: "jobj list"
  cm_gaps :: "jobj list"
  cm_extras :: "jobj list"
  cm_unanswered :: "string list"

definition not_compared :: "string list \<Rightarrow> comparison" where
  "not_compared expected = \<lparr>cm_claims = map (unanswered_claim not_compared_text) expected, cm_gaps = [], cm_extras = [], cm_unanswered = []\<rparr>"

section \<open>The comparator\<close>

definition forbidden_keys :: "string list" where
  "forbidden_keys = [''actual_statements'', ''actual_extraction'']"

definition anchors_by_statement :: "jobj list \<Rightarrow> (string \<times> jobj list) list" where
  "anchors_by_statement statements = dict_of (map (\<lambda>a. (py_str (jget a ''id''), objs_in (as_arr (jget a ''code_anchors'')))) statements)"

definition independent :: "jobj \<Rightarrow> string \<Rightarrow> comparator_error + unit" where
  "independent ind effective = (case independence_ok ind effective of
      None \<Rightarrow> Inl NoSuchRisk
    | Some i \<Rightarrow> if i = NotRequired \<or> i = Distinct then Inr () else Inl (NotIndependent i))"

definition accept_answer :: "(string \<Rightarrow> string) \<Rightarrow> tree \<Rightarrow> jobj \<Rightarrow> jobj list \<Rightarrow> string list \<Rightarrow> string list \<Rightarrow> string \<Rightarrow> jobj \<Rightarrow>
    comparator_error + comparison" where
  "accept_answer sha tr request statements known expected effective document =
     (case find (\<lambda>k. k \<in> fst ` set document) forbidden_keys of
        Some k \<Rightarrow> Inl (RewritesActual k)
      | None \<Rightarrow>
          if str_get document ''actual_digest'' (actual_digest_of request) \<noteq> actual_digest_of request then Inl OtherActual
          else
            (let actual_ids = map (\<lambda>a. py_str (jget a ''id'')) statements
             in case jget document ''claims'' of
                  JArr answers \<Rightarrow>
                    bind_err (check_claims actual_ids known effective 0 answers) (\<lambda>(problems, rows).
                      case check_extras actual_ids 0 (as_arr (jget document ''extra_behaviors'')) of
                        (extra_problems, extras) \<Rightarrow>
                          (let all_problems = problems @ extra_problems @
                                 map AnsweredTwice (reject_duplicate_ids (map (\<lambda>row. [(''id'', jget row ''claim_id'')]) rows))
                           in if all_problems \<noteq> [] then Inl (ComparisonRejected all_problems)
                              else (case frame_by_expected rows expected of (framed, silent) \<Rightarrow>
                                bind_err (with_integrity sha tr (anchors_by_statement statements) framed) (\<lambda>done.
                                  Inr \<lparr>cm_claims = done, cm_gaps = objs_in (as_arr (jget document ''actual_coverage_gaps'')),
                                       cm_extras = extras, cm_unanswered = silent\<rparr>))))
                | _ \<Rightarrow> Inl ClaimsNotAList))"

definition run_comparator :: "(string \<Rightarrow> string) \<Rightarrow> (string \<Rightarrow> jraw option) \<Rightarrow> tree \<Rightarrow> jobj \<Rightarrow> (jobj \<Rightarrow> string) \<Rightarrow> jobj list \<Rightarrow> string list \<Rightarrow>
    string list \<Rightarrow> string \<Rightarrow> jobj \<Rightarrow> comparator_error + comparison" where
  "run_comparator sha loads tr request reviewer statements known expected effective ind =
     bind_err (independent ind effective) (\<lambda>_.
     bind_err (map_err BadAnswer (parse_reviewer_output loads (reviewer request))) (\<lambda>document.
       accept_answer sha tr request statements known expected effective document))"

text \<open>\<^verbatim>\<open>review._known_ids\<close>: what a caller lets an answer cite.\<close>

definition known_ids :: "jobj option \<Rightarrow> jobj list \<Rightarrow> string list" where
  "known_ids plan statements = map (\<lambda>a. py_str (jget a ''id'')) statements @ (case plan of None \<Rightarrow> [] | Some p \<Rightarrow> map el_id (plan_claims p))"

section \<open>Lemmas\<close>

lemma frame_spec:
  "distinct expected \<Longrightarrow> frame answered expected =
    (map (\<lambda>c. case map_of answered c of None \<Rightarrow> unanswered_claim unanswered_text c | Some r \<Rightarrow> r) expected @
       map snd (filter (\<lambda>kv. fst kv \<notin> set expected) answered),
     filter (\<lambda>c. map_of answered c = None) expected)"
proof (induction expected arbitrary: answered)
  case (Cons c cs)
  then have c: "c \<notin> set cs" and IH: "\<And>a. frame a cs =
    (map (\<lambda>c. case map_of a c of None \<Rightarrow> unanswered_claim unanswered_text c | Some r \<Rightarrow> r) cs @
       map snd (filter (\<lambda>kv. fst kv \<notin> set cs) a), filter (\<lambda>c. map_of a c = None) cs)" by simp_all
  have others: "map_of (AList.delete c answered) d = map_of answered d" if "d \<in> set cs" for d
    using that c by (auto simp: delete_conv)
  have left: "filter (\<lambda>kv. fst kv \<notin> set cs) (AList.delete c answered) = filter (\<lambda>kv. fst kv \<notin> set (c # cs)) answered"
    unfolding AList.delete_eq filter_filter by (rule filter_cong) auto
  show ?case
  proof (cases "map_of answered c")
    case None
    then have "fst kv \<noteq> c" if "kv \<in> set answered" for kv using that by (force simp: map_of_eq_None_iff)
    then have "filter (\<lambda>kv. fst kv \<notin> set (c # cs)) answered = filter (\<lambda>kv. fst kv \<notin> set cs) answered"
      by (intro filter_cong) auto
    with None show ?thesis by (simp add: IH)
  next
    case (Some r)
    have "map (\<lambda>d. case map_of (AList.delete c answered) d of None \<Rightarrow> unanswered_claim unanswered_text d | Some r \<Rightarrow> r) cs =
        map (\<lambda>d. case map_of answered d of None \<Rightarrow> unanswered_claim unanswered_text d | Some r \<Rightarrow> r) cs"
      using others by (intro map_cong) simp_all
    moreover have "filter (\<lambda>d. map_of (AList.delete c answered) d = None) cs = filter (\<lambda>d. map_of answered d = None) cs"
      using others by (intro filter_cong) simp_all
    ultimately show ?thesis using Some left by (simp add: IH)
  qed
qed simp

lemma check_claims_clean:
  "check_claims actual_ids known effective i vs = Inr ([], rows) \<Longrightarrow>
     rows = map (jpop ''integrity'') (objs_in vs) \<and>
     (\<forall>claim \<in> set (objs_in vs). validate_claim actual_ids known effective claim = Inr [])"
proof (induction vs arbitrary: i rows)
  case (Cons v vs)
  from Cons.prems show ?case
    by (cases v) (auto simp: bind_err_Inr dest!: Cons.IH)
qed simp

lemma check_extras_clean:
  "check_extras actual_ids i vs = ([], rows) \<Longrightarrow> \<forall>x \<in> set rows. validate_extra actual_ids x = []"
proof (induction vs arbitrary: i rows)
  case (Cons v vs)
  from Cons.prems show ?case
    using Cons.IH [of "Suc i"] by (cases v; cases "check_extras actual_ids (Suc i) vs") auto
qed simp

lemma with_integrity_rows:
  "with_integrity sha tr anchors rows = Inr complete \<Longrightarrow>
     list_all2 (\<lambda>row row'. \<exists>i. derive_integrity sha tr (statement_ids_of row) anchors = Inr i \<and>
       row' = jset ''integrity'' (JObj (integrity_field i)) row) rows complete"
proof (induction rows arbitrary: complete)
  case (Cons row rows)
  then show ?case
    by (auto simp: bind_err_Inr map_err_Inr)
qed simp

lemma claim_of_integrity [simp]: "claim_of (jset ''integrity'' v row) = claim_of row" "claim_of (jpop ''integrity'' row) = claim_of row"
  by (simp_all add: claim_of_def str_get_def jget_or_def)

lemma claim_of_unanswered [simp]: "claim_of (unanswered_claim why cid) = cid"
  by (simp add: claim_of_def str_get_def jget_or_def unanswered_claim_def)

lemma pop_integrity [simp]: "jpop ''integrity'' (jset ''integrity'' v row) = jpop ''integrity'' row"
  by (induction row) (auto simp: AList.delete_eq)

lemma pop_integrity_twice [simp]: "jpop ''integrity'' (jpop ''integrity'' row) = jpop ''integrity'' row"
  by (simp add: AList.delete_eq)

lemma duplicate_ids_nil: "duplicate_ids seen dups is = [] \<Longrightarrow> dups = [] \<and> distinct is \<and> set is \<inter> set seen = {}"
proof (induction "is" arbitrary: seen dups)
  case (Cons i "is")
  from Cons.IH [OF Cons.prems [simplified]] show ?case by (auto split: if_splits)
qed simp

section \<open>The plan frames the comparison\<close>

lemma accepted_parts:
  assumes "accept_answer sha tr request statements known expected effective document = Inr res"
  obtains answers problems rows where "jget document ''claims'' = JArr answers"
    "rows = map (jpop ''integrity'') (objs_in answers)"
    "\<forall>claim \<in> set (objs_in answers). validate_claim (map (\<lambda>a. py_str (jget a ''id'')) statements) known effective claim = Inr []"
    "\<forall>x \<in> set (cm_extras res). validate_extra (map (\<lambda>a. py_str (jget a ''id'')) statements) x = []"
    "distinct (map (\<lambda>row. py_str (jget row ''claim_id'')) rows)"
    "cm_unanswered res = snd (frame_by_expected rows expected)"
    "with_integrity sha tr (anchors_by_statement statements) (fst (frame_by_expected rows expected)) = Inr (cm_claims res)"
proof -
  let ?ids = "map (\<lambda>a. py_str (jget a ''id'')) statements"
  obtain answers where answers: "jget document ''claims'' = JArr answers"
    using assms by (auto simp: accept_answer_def Let_def split: option.splits if_splits json.splits)
  obtain problems rows where rows: "check_claims ?ids known effective 0 answers = Inr (problems, rows)"
    using assms answers by (auto simp: accept_answer_def Let_def bind_err_Inr split: option.splits if_splits)
  obtain extra_problems extras where extras: "check_extras ?ids 0 (as_arr (jget document ''extra_behaviors'')) = (extra_problems, extras)"
    by fastforce
  have clean: "problems = []" "extra_problems = []"
      "reject_duplicate_ids (map (\<lambda>row. [(''id'', jget row ''claim_id'')]) rows) = []"
      "cm_extras res = extras" "cm_unanswered res = snd (frame_by_expected rows expected)"
      "with_integrity sha tr (anchors_by_statement statements) (fst (frame_by_expected rows expected)) = Inr (cm_claims res)"
    using assms answers rows extras
    by (auto simp: accept_answer_def Let_def bind_err_Inr split: option.splits if_splits prod.splits)
  have "distinct (map (\<lambda>row. py_str (jget row ''claim_id'')) rows)"
    using duplicate_ids_nil [OF clean(3) [unfolded reject_duplicate_ids_def]]
    by (simp add: comp_def str_get_def jget_or_def)
  with that answers check_claims_clean [OF rows [unfolded clean(1)]] check_extras_clean [OF extras [unfolded clean(2)]] clean
  show thesis by blast
qed

lemma valid_claim_named:
  assumes "validate_claim actual_ids known effective claim = Inr []" "''?'' \<notin> set known"
  shows "claim_of claim \<in> set known" "py_str (jget claim ''claim_id'') = claim_of claim"
proof -
  have "str_get claim ''claim_id'' ''?'' \<in> set known"
    using assms(1) by (auto simp: validate_claim_def Let_def validate_citations_def sorted_set_def split: if_splits option.splits)
  with assms(2) show "claim_of claim \<in> set known" "py_str (jget claim ''claim_id'') = claim_of claim"
    by (auto simp: claim_of_def str_get_def jget_or_def jget_def split: option.splits)
qed

lemma accepted_frame:
  assumes "accept_answer sha tr request statements known expected effective document = Inr res"
    and "distinct expected" "''?'' \<notin> set known"
  obtains rows where "rows = map (jpop ''integrity'') (objs_in (as_arr (jget document ''claims'')))"
    "distinct (map claim_of rows)" "\<forall>row \<in> set rows. claim_of row \<in> set known"
    "cm_unanswered res = filter (\<lambda>c. c \<notin> claim_of ` set rows) expected"
    "with_integrity sha tr (anchors_by_statement statements)
       (map (\<lambda>c. case map_of (map (\<lambda>row. (claim_of row, row)) rows) c of None \<Rightarrow> unanswered_claim unanswered_text c | Some r \<Rightarrow> r) expected @
        filter (\<lambda>row. claim_of row \<notin> set expected) rows) = Inr (cm_claims res)"
proof (rule accepted_parts [OF assms(1)])
  fix answers rows
  assume a: "jget document ''claims'' = JArr answers" "rows = map (jpop ''integrity'') (objs_in answers)"
    "\<forall>claim \<in> set (objs_in answers). validate_claim (map (\<lambda>a. py_str (jget a ''id'')) statements) known effective claim = Inr []"
    "distinct (map (\<lambda>row. py_str (jget row ''claim_id'')) rows)"
    "cm_unanswered res = snd (frame_by_expected rows expected)"
    "with_integrity sha tr (anchors_by_statement statements) (fst (frame_by_expected rows expected)) = Inr (cm_claims res)"
  have named: "\<forall>claim \<in> set (objs_in answers). claim_of claim \<in> set known \<and> py_str (jget claim ''claim_id'') = claim_of claim"
    using a(3) valid_claim_named assms(3) by blast
  moreover have "py_str (jget (jpop ''integrity'' claim) ''claim_id'') = py_str (jget claim ''claim_id'')" for claim :: jobj
    by (simp add: jget_def)
  ultimately have rows: "\<forall>row \<in> set rows. claim_of row \<in> set known \<and> py_str (jget row ''claim_id'') = claim_of row"
    using a(2) by auto
  then have d: "distinct (map claim_of rows)"
    using a(4) by (metis (no_types, lifting) map_cong)
  let ?al = "map (\<lambda>row. (claim_of row, row)) rows"
  from d have al: "distinct (map fst ?al)" by (simp add: comp_def)
  have "(map_of ?al c = None) = (c \<notin> claim_of ` set rows)" for c by (force simp: map_of_eq_None_iff)
  then have "frame_by_expected rows expected =
    (map (\<lambda>c. case map_of ?al c of None \<Rightarrow> unanswered_claim unanswered_text c | Some r \<Rightarrow> r) expected @
        filter (\<lambda>row. claim_of row \<notin> set expected) rows, filter (\<lambda>c. c \<notin> claim_of ` set rows) expected)"
    unfolding frame_by_expected_def dict_of_id [OF al] frame_spec [OF assms(2)] by (simp add: filter_map comp_def)
  with a rows d show thesis by (intro that) auto
qed

lemma integrity_keeps:
  assumes "with_integrity sha tr anchors rows = Inr complete"
  shows "map claim_of complete = map claim_of rows" "map (jpop ''integrity'') complete = map (jpop ''integrity'') rows"
proof -
  have "claim_of row' = claim_of row \<and> jpop ''integrity'' row' = jpop ''integrity'' row"
    if "\<exists>i. derive_integrity sha tr (statement_ids_of row) anchors = Inr i \<and> row' = jset ''integrity'' (JObj (integrity_field i)) row"
    for row row' using that by auto
  with with_integrity_rows [OF assms]
  have "list_all2 (\<lambda>row row'. claim_of row' = claim_of row \<and> jpop ''integrity'' row' = jpop ''integrity'' row) rows complete"
    by (rule list_all2_mono)
  then show "map claim_of complete = map claim_of rows" "map (jpop ''integrity'') complete = map (jpop ''integrity'') rows"
    by (induction rule: list_all2_induct) auto
qed

lemma map_of_rows: "c \<in> set (map claim_of rows) \<Longrightarrow>
    \<exists>r. map_of (map (\<lambda>row. (claim_of row, row)) rows) c = Some r \<and> claim_of r = c \<and> r \<in> set rows"
  by (induction rows) auto

lemma in_map_append: "x \<in> set xs \<Longrightarrow> r = f x \<Longrightarrow> r \<in> set (map f xs @ ys)"
  by simp

lemma accepted_rows:
  assumes "accept_answer sha tr request statements known expected effective document = Inr res"
    and "distinct expected" "''?'' \<notin> set known"
  defines "answers \<equiv> map (jpop ''integrity'') (objs_in (as_arr (jget document ''claims'')))"
    and "bare \<equiv> map (jpop ''integrity'') (cm_claims res)"
  shows "map claim_of (take (length expected) (cm_claims res)) = expected \<and> distinct (map claim_of (cm_claims res)) \<and>
    cm_unanswered res = filter (\<lambda>c. c \<notin> claim_of ` set answers) expected \<and>
    set bare = set answers \<union> (\<lambda>c. jpop ''integrity'' (unanswered_claim unanswered_text c)) ` set (cm_unanswered res) \<and>
    claim_of ` set (drop (length expected) (cm_claims res)) \<subseteq> set known - set expected"
proof -
  obtain rows where rows: "rows = answers" "distinct (map claim_of rows)" "\<forall>row \<in> set rows. claim_of row \<in> set known"
    "cm_unanswered res = filter (\<lambda>c. c \<notin> claim_of ` set rows) expected"
    "with_integrity sha tr (anchors_by_statement statements)
       (map (\<lambda>c. case map_of (map (\<lambda>row. (claim_of row, row)) rows) c of None \<Rightarrow> unanswered_claim unanswered_text c | Some r \<Rightarrow> r) expected @
        filter (\<lambda>row. claim_of row \<notin> set expected) rows) = Inr (cm_claims res)"
    by (rule accepted_frame [OF assms(1-3), folded answers_def])
  let ?al = "map (\<lambda>row. (claim_of row, row)) rows"
  let ?pick = "\<lambda>c. case map_of ?al c of None \<Rightarrow> unanswered_claim unanswered_text c | Some r \<Rightarrow> r"
  let ?rest = "filter (\<lambda>row. claim_of row \<notin> set expected) rows"
  have named: "claim_of (?pick c) = c" for c
    using map_of_rows [of c rows] by (auto split: option.splits dest!: map_of_SomeD)
  have none: "map_of ?al c = None \<longleftrightarrow> c \<notin> claim_of ` set rows" for c by (force simp: map_of_eq_None_iff)
  have own: "map_of ?al (claim_of row) = Some row" if "row \<in> set rows" for row
    using that rows(2) by (intro map_of_is_SomeI) (auto simp: comp_def)
  have ids: "map claim_of (cm_claims res) = expected @ map claim_of ?rest"
    using integrity_keeps(1) [OF rows(5)] named by (simp add: comp_def)
  have first: "map claim_of (take (length expected) (cm_claims res)) = expected"
    using arg_cong [OF ids, of "take (length expected)"] by (simp add: take_map)
  have d: "distinct (map claim_of (cm_claims res))"
    unfolding ids using assms(2) rows(2) by (auto simp: distinct_map inj_on_def)
  have last: "claim_of ` set (drop (length expected) (cm_claims res)) \<subseteq> set known - set expected"
    using arg_cong [OF ids, of "\<lambda>xs. set (drop (length expected) xs)"] rows(3) by (auto simp: drop_map)
  have pops: "jpop ''integrity'' row = row" if "row \<in> set rows" for row
    using that rows(1) unfolding answers_def by auto
  have all_rows: "set (map ?pick expected @ ?rest) = set rows \<union> unanswered_claim unanswered_text ` set (cm_unanswered res)"
  proof (intro equalityI subsetI)
    fix r assume "r \<in> set (map ?pick expected @ ?rest)"
    then consider c where "c \<in> set expected" "r = ?pick c" | "r \<in> set rows" by auto
    then show "r \<in> set rows \<union> unanswered_claim unanswered_text ` set (cm_unanswered res)"
    proof cases
      case 1
      show ?thesis
      proof (cases "map_of ?al c")
        case None
        with 1 none [of c] rows(4) show ?thesis by simp
      next
        case (Some q)
        with 1 show ?thesis by (auto dest: map_of_SomeD)
      qed
    qed simp
  next
    fix r assume "r \<in> set rows \<union> unanswered_claim unanswered_text ` set (cm_unanswered res)"
    then consider "r \<in> set rows" "claim_of r \<notin> set expected" | "r \<in> set rows" "claim_of r \<in> set expected"
      | c where "c \<in> set expected" "map_of ?al c = None" "r = unanswered_claim unanswered_text c"
      using none rows(4) by auto
    then show "r \<in> set (map ?pick expected @ ?rest)"
    proof cases
      case 2
      then show ?thesis using own [of r] by (intro in_map_append [OF 2(2)]) simp
    next
      case 3
      then show ?thesis by (intro in_map_append [OF 3(1)]) simp
    qed simp
  qed
  have "set bare = jpop ''integrity'' ` set (map ?pick expected @ ?rest)"
    unfolding bare_def integrity_keeps(2) [OF rows(5)] by (simp only: set_map)
  also have "\<dots> = set rows \<union> (\<lambda>c. jpop ''integrity'' (unanswered_claim unanswered_text c)) ` set (cm_unanswered res)"
    unfolding all_rows image_Un using pops by (simp add: image_image)
  finally show ?thesis using first d last rows(1,4) by blast
qed

text \<open>C20: the plan frames the comparison, not the answer. For an accepted answer, the first rows are the plan's claims,
  each once and in the plan's order; a claim the reviewer was silent about is there, named in \<^verbatim>\<open>unanswered\<close>, with the
  \<^verbatim>\<open>unknown\<close> row; every other row is one the reviewer gave, untouched but for the integrity, and none of the reviewer's
  rows is dropped; a row beyond the plan's claims is for an id the caller lets an answer cite.
\<close>

theorem comparison_framed:
  assumes "accept_answer sha tr request statements known expected effective document = Inr res"
    and "distinct expected" "''?'' \<notin> set known"
  defines "answers \<equiv> map (jpop ''integrity'') (objs_in (as_arr (jget document ''claims'')))"
    and "bare \<equiv> map (jpop ''integrity'') (cm_claims res)"
  shows "map claim_of (take (length expected) (cm_claims res)) = expected \<and> distinct (map claim_of (cm_claims res)) \<and>
    cm_unanswered res = filter (\<lambda>c. c \<notin> claim_of ` set answers) expected \<and>
    set bare = set answers \<union> (\<lambda>c. jpop ''integrity'' (unanswered_claim unanswered_text c)) ` set (cm_unanswered res) \<and>
    claim_of ` set (drop (length expected) (cm_claims res)) \<subseteq> set known - set expected"
  unfolding answers_def bare_def by (rule accepted_rows [OF assms(1-3)])

lemma row_fields [simp]:
  "statement_ids_of (jpop ''integrity'' row) = statement_ids_of row" "statement_ids_of (jset ''integrity'' v row) = statement_ids_of row"
  "jget (jpop ''integrity'' row) ''risk'' = jget row ''risk''" "jget (jset ''integrity'' v row) ''risk'' = jget row ''risk''"
  "statement_ids_of (unanswered_claim why cid) = []" "jget (unanswered_claim why cid) ''risk'' = JNull"
  by (simp_all add: statement_ids_of_def string_list_def jget_def unanswered_claim_def)

lemma valid_claim_grounded:
  assumes "validate_claim actual_ids known effective claim = Inr []"
  shows "set (statement_ids_of claim) \<subseteq> set actual_ids"
    and "jget claim ''risk'' = JNull \<or> risk_at_least (py_str (jget claim ''risk'')) effective = Some True"
  using assms by (auto simp: validate_claim_def Let_def filter_empty_conv reject_risk_downgrade_def split: if_splits option.splits)

lemma valid_extra_grounded:
  "validate_extra actual_ids x = [] \<longleftrightarrow> statement_ids_of x \<noteq> [] \<and> set (statement_ids_of x) \<subseteq> set actual_ids \<and>
     str_get x ''category'' '''' \<in> set extra_categories"
  by (auto simp: validate_extra_def Let_def filter_empty_conv)

text \<open>C25: an accepted comparison is grounded. Only a reviewer that may judge this risk is asked; every row cites only
  statements that were read, says a risk that is no lower than the change's, and carries the integrity its cited anchors
  derive; every extra behaviour cites a statement that was read and has a known category.
\<close>

theorem comparison_grounded:
  assumes "run_comparator sha loads tr request reviewer statements known expected effective ind = Inr res"
    and "distinct expected" "''?'' \<notin> set known"
  defines "sids \<equiv> set (map (\<lambda>a. py_str (jget a ''id'')) statements)"
  shows "independence_ok ind effective \<in> {Some NotRequired, Some Distinct} \<and>
    (\<forall>row \<in> set (cm_claims res). set (statement_ids_of row) \<subseteq> sids \<and>
       (jget row ''risk'' = JNull \<or> risk_at_least (py_str (jget row ''risk'')) effective = Some True) \<and>
       (\<exists>i. derive_integrity sha tr (statement_ids_of row) (anchors_by_statement statements) = Inr i \<and>
          jget row ''integrity'' = JObj (integrity_field i))) \<and>
    (\<forall>x \<in> set (cm_extras res). statement_ids_of x \<noteq> [] \<and> set (statement_ids_of x) \<subseteq> sids \<and>
       str_get x ''category'' '''' \<in> set extra_categories)"
proof -
  obtain document where ind: "independence_ok ind effective \<in> {Some NotRequired, Some Distinct}"
    and acc: "accept_answer sha tr request statements known expected effective document = Inr res"
    using assms(1) by (auto simp: run_comparator_def independent_def bind_err_Inr split: option.splits if_splits)
  let ?answers = "map (jpop ''integrity'') (objs_in (as_arr (jget document ''claims'')))"
  have valid_answers: "\<forall>claim \<in> set (objs_in (as_arr (jget document ''claims''))).
      validate_claim (map (\<lambda>a. py_str (jget a ''id'')) statements) known effective claim = Inr []"
    by (rule accepted_parts [OF acc]) simp
  have good: "set (statement_ids_of row) \<subseteq> sids \<and> (jget row ''risk'' = JNull \<or> risk_at_least (py_str (jget row ''risk'')) effective = Some True)"
    if answered: "row \<in> set ?answers" for row
  proof -
    obtain claim where c: "claim \<in> set (objs_in (as_arr (jget document ''claims'')))" "row = jpop ''integrity'' claim"
      using answered by auto
    from valid_answers c(1) show ?thesis
      unfolding c(2) row_fields sids_def by (blast dest: valid_claim_grounded)
  qed
  have extras: "\<forall>x \<in> set (cm_extras res). validate_extra (map (\<lambda>a. py_str (jget a ''id'')) statements) x = []"
    by (rule accepted_parts [OF acc]) blast
  obtain framed where framed: "with_integrity sha tr (anchors_by_statement statements) framed = Inr (cm_claims res)"
    by (rule accepted_parts [OF acc]) blast
  have "set (statement_ids_of row) \<subseteq> sids \<and> (jget row ''risk'' = JNull \<or> risk_at_least (py_str (jget row ''risk'')) effective = Some True)"
    if "row \<in> set (cm_claims res)" for row
  proof -
    have "jpop ''integrity'' row \<in> set ?answers \<or> (\<exists>c. jpop ''integrity'' row = jpop ''integrity'' (unanswered_claim unanswered_text c))"
      using accepted_rows [OF acc assms(2,3)] that by auto
    then show ?thesis
    proof
      assume "jpop ''integrity'' row \<in> set ?answers"
      from good [OF this] show ?thesis by simp
    next
      assume "\<exists>c. jpop ''integrity'' row = jpop ''integrity'' (unanswered_claim unanswered_text c)"
      then show ?thesis by (metis row_fields(1,3,5,6) empty_subsetI list.set(1))
    qed
  qed
  moreover have "\<exists>i. derive_integrity sha tr (statement_ids_of row) (anchors_by_statement statements) = Inr i \<and>
          jget row ''integrity'' = JObj (integrity_field i)" if "row \<in> set (cm_claims res)" for row
  proof -
    from with_integrity_rows [OF framed] that obtain old i where
      "derive_integrity sha tr (statement_ids_of old) (anchors_by_statement statements) = Inr i"
      "row = jset ''integrity'' (JObj (integrity_field i)) old"
      by (auto simp: list_all2_conv_all_nth in_set_conv_nth)
    then show ?thesis by (simp add: jget_def)
  qed
  ultimately show ?thesis using ind extras by (auto simp: valid_extra_grounded sids_def)
qed

section \<open>A comparison\<close>

text \<open>Two claims of the plan; the reviewer answers for one of them, resting on a statement read from one line of \<^verbatim>\<open>a.py\<close>.\<close>

definition one_statement :: "jobj list" where
  "one_statement = [[(''id'', JStr ''AST-001''), (''code_anchors'', JArr [JObj one_anchor])]]"

definition one_answer :: jobj where
  "one_answer = [(''claims'', JArr [JObj [(''claim_id'', JStr ''CLM-002''), (''verdict'', JStr ''aligned''), (''risk'', JStr ''high''),
      (''integrity'', JStr ''verified''), (''actual_statement_ids'', JArr [JStr ''AST-001''])]]),
     (''extra_behaviors'', JArr [JObj [(''id'', JStr ''EXTRA-001''), (''category'', JStr ''persistence''),
      (''actual_statement_ids'', JArr [JStr ''AST-001''])]])]"

definition two_claims :: "string list" where
  "two_claims = [''CLM-001'', ''CLM-002'']"

definition accepted_one :: "comparator_error + comparison" where
  "accepted_one = accept_answer id one_file [] one_statement (''AST-001'' # two_claims) two_claims ''medium'' one_answer"

lemma accepted_one_runs: "(case accepted_one of Inr res \<Rightarrow> map claim_of (cm_claims res) = two_claims \<and> cm_unanswered res = [''CLM-001''] |
    Inl _ \<Rightarrow> False) \<and> distinct two_claims \<and> ''?'' \<notin> set (''AST-001'' # two_claims)"
  by code_simp

theorem comparison_framed_witness:
  "\<exists>res. accepted_one = Inr res \<and> map claim_of (take (length two_claims) (cm_claims res)) = two_claims \<and> cm_unanswered res = [''CLM-001'']"
proof -
  from accepted_one_runs obtain res where res: "accepted_one = Inr res" "cm_unanswered res = [''CLM-001'']"
    by (auto split: sum.splits)
  have "distinct two_claims" "''?'' \<notin> set (''AST-001'' # two_claims)" using accepted_one_runs by blast+
  from comparison_framed [OF res(1) [unfolded accepted_one_def] this] show ?thesis using res by blast
qed

definition distinct_reviewers :: jobj where
  "distinct_reviewers = [(''actual_extractor'', JObj [(''group'', JStr ''a''), (''model'', JStr ''m'')]),
     (''comparator'', JObj [(''group'', JStr ''b''), (''model'', JStr ''n'')])]"

text \<open>The bytes parse as this answer.\<close>

definition short_answer :: jobj where
  "short_answer = [(''claims'', JArr [JObj [(''claim_id'', JStr ''CLM-002''), (''actual_statement_ids'', JArr [JStr ''AST-001''])]])]"

definition short_raw :: jraw where
  "short_raw = RObj [(''claims'', RArr [RObj [(''claim_id'', RVal (JStr ''CLM-002'')), (''actual_statement_ids'', RArr [RVal (JStr ''AST-001'')])]])]"

lemma short_loads: "load_json_mapping (\<lambda>_. Some short_raw) untrusted_limits ''{}'' = Inr short_answer"
  by (simp add: load_json_mapping_def load_json_def short_raw_def short_answer_def untrusted_limits_def depth_and_size.simps
      code_points_def require_mapping_def bind_err_def)

lemma short_shape: "validate_shape (JObj short_answer) = []"
proof -
  have "case canonical (JObj short_answer) [] of Inr b \<Rightarrow> length b < 200 | _ \<Rightarrow> False" by code_simp
  moreover have "shape 0 (JObj short_answer) = (4, 1)" by code_simp
  ultimately show ?thesis
    by (auto simp: validate_shape_def max_output_bytes_def max_output_depth_def max_output_array_def split: sum.splits)
qed

lemma short_parse: "parse_reviewer_output (\<lambda>_. Some short_raw) ''{}'' = Inr short_answer"
proof -
  have "unwrap_fence ''{}'' = ''{}''" by code_simp
  then show ?thesis by (simp add: parse_reviewer_output_def short_loads short_shape)
qed

definition compared_one :: "comparator_error + comparison" where
  "compared_one = run_comparator id (\<lambda>_. Some short_raw) one_file [] (\<lambda>_. ''{}'') one_statement (''AST-001'' # two_claims)
     two_claims ''critical'' distinct_reviewers"

lemma short_accepted: "case accept_answer id one_file [] one_statement (''AST-001'' # two_claims) two_claims ''critical'' short_answer of
    Inr res \<Rightarrow> map statement_ids_of (cm_claims res) = [[], [''AST-001'']] \<and> list_all (\<lambda>row. as_obj (jget row ''integrity'') \<noteq> []) (cm_claims res) | Inl _ \<Rightarrow> False"
  by code_simp

lemma critical_independent: "independent distinct_reviewers ''critical'' = Inr ()"
  by code_simp

theorem comparison_grounded_witness:
  "\<exists>res. compared_one = Inr res \<and> map statement_ids_of (cm_claims res) = [[], [''AST-001'']] \<and>
     independence_ok distinct_reviewers ''critical'' \<in> {Some NotRequired, Some Distinct}"
proof -
  obtain res where res: "compared_one = Inr res" "map statement_ids_of (cm_claims res) = [[], [''AST-001'']]"
    using short_accepted unfolding compared_one_def run_comparator_def critical_independent short_parse
    by (auto simp: bind_err_def map_err_def split: sum.splits)
  have "distinct two_claims" "''?'' \<notin> set (''AST-001'' # two_claims)" using accepted_one_runs by blast+
  from comparison_grounded [OF res(1) [unfolded compared_one_def] this] res show ?thesis by (intro exI [of _ res] conjI) simp_all
qed

text \<open>
  \<^verbatim>\<open>_frame_by_expected\<close> calls a row beyond the plan's claims unreachable by a valid answer. It is not: the ids a
  caller lets an answer cite hold the statement ids too, so an answer may give a verdict on a statement as if it were a
  claim, and the comparison has a claim the plan has not.
\<close>

definition statement_as_claim :: jobj where
  "statement_as_claim = [(''claims'', JArr [JObj [(''claim_id'', JStr ''AST-001''), (''verdict'', JStr ''aligned'')]])]"

lemma statement_becomes_claim:
  "case accept_answer id one_file [] one_statement (known_ids None one_statement) [] ''medium'' statement_as_claim of
     Inr res \<Rightarrow> map claim_of (cm_claims res) = [''AST-001''] | Inl _ \<Rightarrow> False"
  by code_simp

end
