(* ===== verification/TaskEntry.thy ===== *)
theory TaskEntry
  imports Revise HumanReview Schedule Changes
begin

text \<open>
  The task entries of the state as \<^verbatim>\<open>build_loop.py\<close> changes them: a status with the event that explains it, what one
  attempt hands to the next, the observation of a premise and the splitting of a bundle, each as the document it
  leaves and the transaction it stages; and the choice of the next batch. Each operation reads the state, and its
  write expects what was read; it is retried by \<open>Store.retry_on_stale\<close>.
\<close>

section \<open>What an attempt hands over\<close>

definition attempt_fields :: "string list" where
  "attempt_fields = [''report'', ''review'']"

definition failure_fields :: "string list" where
  "failure_fields = [''failed_step'', ''failure_summary'', ''futile'', ''escalation'']"

definition failure_resolved :: jobj where
  "failure_resolved = map (\<lambda>k. (k, JNull)) failure_fields"

definition handoff_step_max :: nat where "handoff_step_max = 64"
definition handoff_summary_max :: nat where "handoff_summary_max = 4000"
definition handoff_branch_max :: nat where "handoff_branch_max = 200"

text \<open>\<^verbatim>\<open>s[-n:]\<close>.\<close>

definition closing :: "nat \<Rightarrow> string \<Rightarrow> string" where
  "closing n s = concat (last_n n (chars_of s))"

definition begin_attempt :: "jobj \<Rightarrow> jobj" where
  "begin_attempt ent =
     (case jget ent ''handoff'' of
        JObj h \<Rightarrow>
          (let kept = filter (\<lambda>kv. fst kv \<notin> set attempt_fields \<and> fst kv \<noteq> ''previous'') h;
               previous = map (\<lambda>k. (k, jget h k)) (filter (\<lambda>k. is_obj (jget h k)) attempt_fields)
           in jset ''handoff'' (JObj (kept @ (if previous = [] then [] else [(''previous'', JObj previous)]))) ent)
      | _ \<Rightarrow> ent)"

definition touches_failure :: "jobj \<Rightarrow> bool" where
  "touches_failure patch \<longleftrightarrow> list_ex (\<lambda>k. k \<in> fst ` set patch) failure_fields"

definition merge_handoff :: "json \<Rightarrow> jobj \<Rightarrow> jobj" where
  "merge_handoff previous patch =
     fold (\<lambda>(k, v). jset k v) (filter (\<lambda>kv. snd kv \<noteq> JNull) patch)
       (if touches_failure patch then filter (\<lambda>kv. fst kv \<notin> set failure_fields) (as_obj previous) else as_obj previous)"

definition read_task_handoff :: "jobj option \<Rightarrow> string \<Rightarrow> jobj" where
  "read_task_handoff state tid =
     (case state of None \<Rightarrow> [] | Some raw \<Rightarrow> as_obj (jget (as_obj (jget (as_obj (jget raw ''tasks'')) tid)) ''handoff''))"

section \<open>A status and the event that explains it\<close>

datatype record_error =
    NoStateToRecordIn
  | UnknownStatus string
  | TasksNotMapping
  | RecordRejected make_error
  | RecordStore store_error

text \<open>\<^verbatim>\<open>^[0-9a-f]{7,64}$\<close> with \<^verbatim>\<open>re.match\<close>.\<close>

definition commit_hash :: "string \<Rightarrow> bool" where
  "commit_hash s \<longleftrightarrow> (let h = takeWhile is_lower_hex s; rest = dropWhile is_lower_hex s
     in 7 \<le> length h \<and> length h \<le> 64 \<and> (rest = [] \<or> rest = newline))"

text \<open>\<^verbatim>\<open>isinstance(v, int)\<close>, which a bool is.\<close>

definition is_int :: "json \<Rightarrow> bool" where
  "is_int v \<longleftrightarrow> (case v of JInt n \<Rightarrow> True | JBool b \<Rightarrow> True | _ \<Rightarrow> False)"

definition attempts_after :: "string \<Rightarrow> jobj \<Rightarrow> json" where
  "attempts_after status ent =
     (let v = jget_or ent ''attempts'' (JInt 0); counted = (if is_int v then v else JInt 0)
      in if status \<noteq> ''in-progress'' then counted
         else case counted of JInt n \<Rightarrow> JInt (n + 1) | JBool b \<Rightarrow> JInt ((if b then 1 else 0) + 1) | _ \<Rightarrow> JInt 1)"

definition landed_statuses :: "string list" where
  "landed_statuses = [''done'', ''awaiting-evidence'']"

definition landed_commit :: "string \<Rightarrow> string \<Rightarrow> string" where
  "landed_commit status landing = (if status = ''done'' \<and> commit_hash landing then landing else [])"

text \<open>The fields before the empty strings are dropped: \<open>evid\<close> and \<open>patch\<close> are \<^verbatim>\<open>evidence\<close> and \<^verbatim>\<open>handoff\<close>.\<close>

definition merged_entry :: "jobj \<Rightarrow> string \<Rightarrow> string \<Rightarrow> string \<Rightarrow> jobj \<Rightarrow> jobj \<Rightarrow> string \<Rightarrow> jobj" where
  "merged_entry ent status note landing evid patch now =
     (let base = jset ''completed_commit'' (JStr (landed_commit status landing)) (jset ''note'' (JStr note)
                   (jset ''attempts'' (attempts_after status ent) (jset ''status'' (JStr status) ent)))
      in if status \<in> set landed_statuses then
           (let review = jget (merge_handoff (jget ent ''handoff'') patch) ''review''; bare = jpop ''handoff'' base;
                kept = (if truthy review then jset ''handoff'' (JObj [(''review'', review), (''updated_at'', JStr now)]) bare else bare);
                carried = (if evid \<noteq> [] then evid else as_obj (jget ent ''evidence''))
            in jset ''evidence'' (JObj (jset ''updated_at'' (JStr now) carried)) kept)
         else
           (let bare = jpop ''evidence'' base
            in if patch = [] then bare
               else jset ''handoff'' (JObj (jset ''updated_at'' (JStr now) (merge_handoff (jget ent ''handoff'') patch))) bare))"

definition without_blank :: "jobj \<Rightarrow> jobj" where
  "without_blank m = filter (\<lambda>kv. snd kv \<noteq> JStr []) m"

text \<open>\<^verbatim>\<open>tasks[task_id] = ...\<close> in a copy of the state, with the time.\<close>

definition put_task :: "jobj \<Rightarrow> string \<Rightarrow> (jobj \<Rightarrow> jobj) \<Rightarrow> string \<Rightarrow> record_error + jobj" where
  "put_task raw tid change now =
     bind_err (map_err (\<lambda>_. TasksNotMapping) (block raw ''tasks'')) (\<lambda>tasks.
       Inr (jset ''updated_at'' (JStr now)
         (jset ''tasks'' (JObj (jset tid (JObj (change (as_obj (jget tasks tid)))) tasks)) raw)))"

definition status_entry :: "string \<Rightarrow> string \<Rightarrow> string \<Rightarrow> jobj \<Rightarrow> jobj \<Rightarrow> bool \<Rightarrow> string \<Rightarrow> jobj \<Rightarrow> jobj" where
  "status_entry status note landing evid patch new_attempt now ent =
     without_blank (merged_entry (if new_attempt then begin_attempt ent else ent) status note landing evid patch now)"

definition status_event :: "string \<Rightarrow> string" where
  "status_event status =
     (if status = ''done'' then ''task_completed'' else if status = ''in-progress'' then ''task_started''
      else if status = ''blocked'' then ''task_failed'' else ''decision_declared'')"

definition failure_detail :: "json \<Rightarrow> jobj" where
  "failure_detail handed =
     (case handed of
        JObj h \<Rightarrow>
          (let step = str_field h ''failed_step'' []; budget = jget (as_obj (jget h ''retries_left'')) step;
               kind = str_field (as_obj (jget h ''escalation'')) ''kind'' []; futile = str_field h ''futile'' []
           in (if step \<noteq> [] then [(''step'', JStr step)] else []) @
              (if (case jget h ''failed_step'' of JStr _ \<Rightarrow> True | _ \<Rightarrow> False) \<and> is_int budget then [(''retries_left'', budget)] else []) @
              (if kind \<noteq> [] then [(''escalation'', JStr kind)] else []) @
              (if futile \<noteq> [] then [(''futile'', JStr futile)] else []))
      | _ \<Rightarrow> [])"

definition status_detail :: "string \<Rightarrow> string \<Rightarrow> string \<Rightarrow> jobj \<Rightarrow> jobj" where
  "status_detail status note landing filled =
     [(''status'', JStr status), (''note'', JStr note)] @
     (if landed_commit status landing \<noteq> [] then [(''commit'', JStr (landed_commit status landing))] else []) @
     (if status = ''blocked'' then failure_detail (jget filled ''handoff'') else [])"

text \<open>State and event of one record, staged over the state that was read.\<close>

definition stage_record :: "env \<Rightarrow> jobj \<Rightarrow> record_error + jobj \<Rightarrow> string \<Rightarrow> string list \<Rightarrow> jobj \<Rightarrow> string \<Rightarrow> string \<Rightarrow> string \<Rightarrow>
    record_error + txn" where
  "stage_record en state changed kind about_ids detail now tid eid =
     bind_err (map_err RecordStore (read_digest en (Some state))) (\<lambda>seen.
     bind_err changed (\<lambda>raw.
     bind_err (map_err RecordStore (tx_write en ''state'' raw (Some seen) (begin_tx tid))) (\<lambda>tx.
     bind_err (map_err RecordRejected (EventQueries.make kind (st_cycle_id state) '''' about_ids detail tid eid now)) (\<lambda>e.
       Inr (tx_append e tx)))))"

definition stage_status :: "env \<Rightarrow> string \<Rightarrow> string \<Rightarrow> string \<Rightarrow> string \<Rightarrow> jobj \<Rightarrow> jobj \<Rightarrow> bool \<Rightarrow> jobj \<Rightarrow> string \<Rightarrow> string \<Rightarrow> string \<Rightarrow>
    record_error + txn" where
  "stage_status en task status note landing evid patch new_attempt state now tid eid =
     (let ent = as_obj (jget (obj_field state ''tasks'') task);
          filled = merged_entry (if new_attempt then begin_attempt ent else ent) status note landing evid patch now
      in stage_record en state (put_task state task (status_entry status note landing evid patch new_attempt now) now)
           (status_event status) [task] (status_detail status note landing filled) now tid eid)"

text \<open>One try of a record: the state is read, then the transaction opens.\<close>

definition record_once :: "env \<Rightarrow> string option \<Rightarrow> (jobj \<Rightarrow> record_error + txn) \<Rightarrow> disk \<Rightarrow> disk \<Rightarrow> disk \<times> record_error option" where
  "record_once en refusal staging dk_read dk =
     (case read_document en dk_read ''state'' of
        Inl err \<Rightarrow> (dk, Some (RecordStore err))
      | Inr None \<Rightarrow> (dk, Some NoStateToRecordIn)
      | Inr (Some state) \<Rightarrow> transaction en RecordStore refusal True (\<lambda>_. staging state) dk)"

definition set_task_status :: "env \<Rightarrow> string option \<Rightarrow> string \<Rightarrow> string \<Rightarrow> string \<Rightarrow> string \<Rightarrow> jobj \<Rightarrow> jobj \<Rightarrow> bool \<Rightarrow> string \<Rightarrow> string \<Rightarrow>
    string \<Rightarrow> disk \<Rightarrow> disk \<Rightarrow> disk \<times> record_error option" where
  "set_task_status en refusal task status note landing evid patch new_attempt now tid eid dk_read dk =
     (if status \<notin> set task_status_order then (dk, Some (UnknownStatus status))
      else record_once en refusal (\<lambda>state. stage_status en task status note landing evid patch new_attempt state now tid eid) dk_read dk)"

section \<open>What the next attempt inherits\<close>

definition handoff_entry :: "jobj \<Rightarrow> string \<Rightarrow> jobj \<Rightarrow> jobj" where
  "handoff_entry patch now ent =
     jset ''handoff'' (JObj (jset ''updated_at'' (JStr now) (merge_handoff (jget ent ''handoff'') patch)))
       (jset ''status'' (jget_or ent ''status'' (JStr ''todo'')) ent)"

definition stage_handoff :: "env \<Rightarrow> string \<Rightarrow> jobj \<Rightarrow> string \<Rightarrow> jobj \<Rightarrow> jobj \<Rightarrow> string \<Rightarrow> string \<Rightarrow> string \<Rightarrow> record_error + txn" where
  "stage_handoff en task patch kind detail state now tid eid =
     stage_record en state (put_task state task (handoff_entry patch now) now) kind [task] detail now tid eid"

definition failure_patch :: "string \<Rightarrow> string \<Rightarrow> (string \<times> int) list \<Rightarrow> string \<Rightarrow> jobj" where
  "failure_patch failed summary budgets futile =
     [(''failed_step'', JStr (cut handoff_step_max failed)), (''failure_summary'', JStr (closing handoff_summary_max summary)),
      (''retries_left'', JObj (dict_of (map (\<lambda>(name, n). (cut handoff_step_max name, JInt (max 0 (min 100 n)))) budgets)))] @
     (if futile \<noteq> [] then [(''futile'', JStr (cut handoff_summary_max futile))] else [])"

definition attempt_failure_detail :: "string \<Rightarrow> (string \<times> int) list \<Rightarrow> string \<Rightarrow> jobj" where
  "attempt_failure_detail failed budgets futile =
     [(''step'', JStr failed), (''retries_left'', JInt (case map_of budgets failed of None \<Rightarrow> 0 | Some n \<Rightarrow> n))] @
     (if futile \<noteq> [] then [(''futile'', JStr futile)] else [])"

definition stage_attempt_failure :: "env \<Rightarrow> string \<Rightarrow> string \<Rightarrow> string \<Rightarrow> (string \<times> int) list \<Rightarrow> string \<Rightarrow> jobj \<Rightarrow> string \<Rightarrow> string \<Rightarrow> string \<Rightarrow>
    record_error + txn" where
  "stage_attempt_failure en task failed summary budgets futile state now tid eid =
     stage_handoff en task (failure_patch failed summary budgets futile) ''task_failed''
       (attempt_failure_detail failed budgets futile) state now tid eid"

definition escalation_patch :: "string \<Rightarrow> string \<Rightarrow> string \<Rightarrow> string \<Rightarrow> string list \<Rightarrow> jobj" where
  "escalation_patch kind message tree_id futile paths =
     [(''escalation'', JObj ([(''kind'', JStr (cut handoff_step_max kind)), (''message'', JStr (closing handoff_summary_max message))] @
        (if tree_id \<noteq> [] then [(''tree'', JStr tree_id)] else []) @
        (if paths \<noteq> [] then [(''paths'', JArr (map JStr paths))] else [])))] @
     (if futile \<noteq> [] then [(''futile'', JStr (cut handoff_summary_max futile))] else [])"

definition stage_stop :: "env \<Rightarrow> string \<Rightarrow> string \<Rightarrow> string \<Rightarrow> string \<Rightarrow> string \<Rightarrow> string list \<Rightarrow> jobj \<Rightarrow> string \<Rightarrow> string \<Rightarrow> string \<Rightarrow>
    record_error + txn" where
  "stage_stop en task kind message tree_id futile paths state now tid eid =
     stage_handoff en task (escalation_patch kind message tree_id futile paths) ''knowledge_gap''
       ([(''kind'', JStr kind), (''message'', JStr message)] @ (if futile \<noteq> [] then [(''futile'', JStr futile)] else [])) state now tid eid"

definition stage_salvage :: "env \<Rightarrow> string \<Rightarrow> string \<Rightarrow> string \<Rightarrow> jobj \<Rightarrow> string \<Rightarrow> string \<Rightarrow> string \<Rightarrow> record_error + txn" where
  "stage_salvage en task branch salvage_state state now tid eid =
     stage_handoff en task [(''salvage_branch'', JStr (cut handoff_branch_max branch)), (''salvage_state'', JStr salvage_state)]
       ''decision_declared'' [(''salvage_branch'', JStr branch), (''state'', JStr salvage_state)] state now tid eid"

definition launch_note :: "string \<Rightarrow> string \<Rightarrow> int \<Rightarrow> string \<Rightarrow> string \<Rightarrow> string \<Rightarrow> string \<Rightarrow> jobj" where
  "launch_note role adapter rc said session transcript now =
     [(''role'', JStr (cut handoff_step_max role)), (''adapter'', JStr (cut handoff_step_max adapter)),
      (''rc'', JInt (max (-256) (min 256 rc))), (''session'', JStr (cut 128 session)),
      (''output_tail'', JStr (closing handoff_summary_max said)), (''transcript'', JStr transcript), (''at'', JStr now)]"

section \<open>Premises and bundles\<close>

definition premise_record :: "bool \<Rightarrow> string \<Rightarrow> string \<Rightarrow> jobj" where
  "premise_record held said now =
     [(''status'', JStr (if held then ''held'' else ''falsified'')), (''observed_at'', JStr now), (''output'', JStr (closing 500 said))]"

definition put_premise :: "jobj \<Rightarrow> string \<Rightarrow> jobj \<Rightarrow> string list \<Rightarrow> string \<Rightarrow> record_error + jobj" where
  "put_premise raw pid observed park now =
     bind_err (map_err (\<lambda>_. TasksNotMapping) (block raw ''premises'')) (\<lambda>premises.
     bind_err (map_err (\<lambda>_. TasksNotMapping) (block raw ''tasks'')) (\<lambda>tasks.
       Inr (jset ''updated_at'' (JStr now) (jset ''tasks'' (JObj (fold mark_task park tasks))
         (jset ''premises'' (JObj (jset pid (JObj observed) premises)) raw)))))"

definition stage_premise :: "env \<Rightarrow> string \<Rightarrow> bool \<Rightarrow> string \<Rightarrow> bool \<Rightarrow> string list \<Rightarrow> jobj \<Rightarrow> string \<Rightarrow> string \<Rightarrow> string \<Rightarrow> record_error + txn" where
  "stage_premise en pid held said fallback park state now tid eid =
     stage_record en state (put_premise state pid (premise_record held said now) park now) ''decision_declared'' (pid # park)
       ([(''kind'', JStr (if held then ''premise_held'' else ''premise_falsified'')), (''premise'', JStr pid)] @
        (if held then [] else [(''fallback'', JBool fallback)])) now tid eid"

definition split_entry :: "string \<Rightarrow> jobj \<Rightarrow> jobj" where
  "split_entry why ent =
     jset ''unbundled'' (JStr (if cut 2000 why = [] then ''the bundle did not land'' else cut 2000 why)) (jset ''status'' (JStr ''todo'')
       (filter (\<lambda>kv. fst kv \<notin> set [''handoff'', ''evidence'', ''completed_commit'', ''note'']) ent))"

definition put_split :: "jobj \<Rightarrow> string list \<Rightarrow> string \<Rightarrow> string \<Rightarrow> record_error + jobj" where
  "put_split raw members why now =
     bind_err (map_err (\<lambda>_. TasksNotMapping) (block raw ''tasks'')) (\<lambda>tasks.
       Inr (jset ''updated_at'' (JStr now) (jset ''tasks''
         (JObj (fold (\<lambda>t ts. jset t (JObj (split_entry why (as_obj (jget ts t)))) ts) members tasks)) raw)))"

definition stage_split :: "env \<Rightarrow> string list \<Rightarrow> string \<Rightarrow> string \<Rightarrow> jobj \<Rightarrow> string \<Rightarrow> string \<Rightarrow> string \<Rightarrow> record_error + txn" where
  "stage_split en members why kept state now tid eid =
     stage_record en state (put_split state members why now) ''bundle_split'' members
       ((''why'', JStr (closing handoff_summary_max why)) # (if kept \<noteq> [] then [(''kept'', JStr kept)] else [])) now tid eid"

section \<open>The next batch\<close>

datatype batch = Serial dtask | Parallel "dtask list"

text \<open>\<^verbatim>\<open>plan_batch\<close>; \<^verbatim>\<open>ordered[:max_parallel]\<close> with a negative bound cuts from the end.\<close>

definition slice_to :: "int \<Rightarrow> 'a list \<Rightarrow> 'a list" where
  "slice_to n xs = take (nat (if n < 0 then int (length xs) + n else n)) xs"

definition plan_batch :: "graph \<Rightarrow> int \<Rightarrow> batch option" where
  "plan_batch g slots =
     (let ordered = order_frontier g; foundations = filter (\<lambda>t. d_kind t = ''foundation'') ordered
      in case ordered of
          [] \<Rightarrow> None
        | _ \<Rightarrow> (case foundations of f # _ \<Rightarrow> Some (Serial f) | [] \<Rightarrow> Some (Parallel (slice_to slots ordered))))"

section \<open>One failure at a time\<close>

lemma fold_jset_lookup:
  "distinct (map fst patch) \<Longrightarrow> map_of (fold (\<lambda>(k, v). jset k v) patch m) f = (case map_of patch f of Some v \<Rightarrow> Some v | None \<Rightarrow> map_of m f)"
proof (induction patch arbitrary: m)
  case (Cons p ps)
  obtain k v where p: "p = (k, v)" by fastforce
  with Cons have "map_of (fold (\<lambda>(k, v). jset k v) ps (jset k v m)) f = (case map_of ps f of Some v \<Rightarrow> Some v | None \<Rightarrow> map_of (jset k v m) f)"
    by simp
  moreover have "k \<noteq> f \<or> map_of ps f = None" using Cons.prems p by (auto simp: map_of_eq_None_iff)
  ultimately show ?case by (auto simp: p split: option.splits)
qed simp

lemma map_of_filter_key: "map_of (filter (\<lambda>kv. P (fst kv)) m) f = (if P f then map_of m f else None)"
  by (induction m) auto

lemma map_of_filter_val:
  "distinct (map fst m) \<Longrightarrow> map_of (filter (\<lambda>kv. Q (snd kv)) m) f = (case map_of m f of Some v \<Rightarrow> if Q v then Some v else None | None \<Rightarrow> None)"
proof (induction m)
  case (Cons p ps)
  then show ?case by (cases p) (auto split: option.splits simp: map_of_eq_None_iff image_iff dest: map_of_SomeD)
qed simp

text \<open>C13: The record of a failure is one failure's. For a patch that gives a null only to the four fields that describe a
  failure (what the program does: a null there says the failure is over), the record after it holds, of every field the patch
  gives, the value given, or nothing where that is null; of a failure field the patch does not give, nothing when it touches
  any of the four, so two failures are never mixed; and of every other field what it held before, so the retry budget,
  which spans failures, survives them.\<close>

theorem one_failure_at_a_time:
  assumes "distinct (map fst patch)" and "\<forall>k. map_of patch k = Some JNull \<longrightarrow> k \<in> set failure_fields"
  shows "map_of (merge_handoff previous patch) f =
    (case map_of patch f of
       Some v \<Rightarrow> if v = JNull then None else Some v
     | None \<Rightarrow> if f \<in> set failure_fields \<and> (\<exists>k \<in> set failure_fields. map_of patch k \<noteq> None) then None else map_of (as_obj previous) f)"
proof -
  have d: "distinct (map fst (filter (\<lambda>kv. snd kv \<noteq> JNull) patch))" using assms(1) by (simp add: distinct_map_filter)
  have t: "touches_failure patch \<longleftrightarrow> (\<exists>k \<in> set failure_fields. map_of patch k \<noteq> None)"
    by (auto simp: touches_failure_def list_ex_iff map_of_eq_None_iff image_iff)
  show ?thesis
    using map_of_filter_val [OF assms(1), of "\<lambda>v. v \<noteq> JNull" f] map_of_filter_key [of "\<lambda>k. k \<notin> set failure_fields" "as_obj previous" f] assms(2)
    unfolding merge_handoff_def fold_jset_lookup [OF d] t by (auto split: option.split)
qed

theorem one_failure_at_a_time_witness:
  "map_of (merge_handoff (JObj [(''failed_step'', JStr ''test''), (''retries_left'', JObj [])]) [(''failure_summary'', JStr ''red join''), (''futile'', JNull)]) ''failed_step'' = None
   \<and> map_of (merge_handoff (JObj [(''failed_step'', JStr ''test''), (''retries_left'', JObj [])]) [(''failure_summary'', JStr ''red join''), (''futile'', JNull)]) ''retries_left'' = Some (JObj [])"
proof -
  have n: "\<forall>k. map_of [(''failure_summary'', JStr ''red join''), (''futile'', JNull)] k = Some JNull \<longrightarrow> k \<in> set failure_fields"
    by (simp add: failure_fields_def)
  show ?thesis
    using one_failure_at_a_time [OF _ n, of "JObj [(''failed_step'', JStr ''test''), (''retries_left'', JObj [])]"]
    by (simp add: failure_fields_def)
qed

text \<open>The docstring says that a null in the patch removes its field. Only a failure field goes: any other keeps its old value.\<close>

lemma null_removes_nothing_else:
  "map_of (merge_handoff (JObj [(''salvage_branch'', JStr ''b'')]) [(''salvage_branch'', JNull)]) ''salvage_branch'' = Some (JStr ''b'')"
  by (simp add: merge_handoff_def touches_failure_def failure_fields_def)

section \<open>What a status write leaves\<close>


text \<open>A status write keeps the requests of the state.\<close>

lemma put_task_steps: "put_task raw tid change now = Inr raw' \<Longrightarrow> request_step\<^sup>*\<^sup>* raw raw'"
  by (auto simp: put_task_def bind_err_Inr intro!: jset_steps)
















section \<open>A split bundle and the next batch\<close>

text \<open>Every sub-issue of a bundle that did not land is to be done again, and inherits nothing of the bundle's record.\<close>

definition fresh_member :: "json \<Rightarrow> bool" where
  "fresh_member v \<longleftrightarrow> jget (as_obj v) ''status'' = JStr ''todo'' \<and>
     list_all (\<lambda>k. map_of (as_obj v) k = None) [''handoff'', ''evidence'', ''completed_commit'', ''note'']"

lemma split_entry_fresh: "fresh_member (JObj (split_entry why ent))"
  using map_of_filter_key [of "\<lambda>k. k \<notin> set [''handoff'', ''evidence'', ''completed_commit'', ''note'']" ent]
  by (simp add: fresh_member_def split_entry_def jget_def)

lemma split_fold:
  "map_of (fold (\<lambda>t ts. jset t (JObj (split_entry why (as_obj (jget ts t)))) ts) members tasks) x =
     (if x \<in> set members then map_of (fold (\<lambda>t ts. jset t (JObj (split_entry why (as_obj (jget ts t)))) ts) members tasks) x else map_of tasks x)"
  "x \<in> set members \<or> (\<exists>v. map_of tasks x = Some v \<and> fresh_member v) \<Longrightarrow>
     \<exists>v. map_of (fold (\<lambda>t ts. jset t (JObj (split_entry why (as_obj (jget ts t)))) ts) members tasks) x = Some v \<and> fresh_member v"
  by (induction members arbitrary: tasks) (auto simp: split_entry_fresh)

lemma split_members:
  assumes "put_split raw members why now = Inr raw'"
  shows "m \<in> set members \<Longrightarrow> fresh_member (jget (obj_field raw' ''tasks'') m)"
    and "t \<notin> set members \<Longrightarrow> map_of (obj_field raw' ''tasks'') t = map_of (obj_field raw ''tasks'') t"
proof -
  from assms obtain tasks where t: "block raw ''tasks'' = Inr tasks"
    and raw': "raw' = jset ''updated_at'' (JStr now) (jset ''tasks''
         (JObj (fold (\<lambda>t ts. jset t (JObj (split_entry why (as_obj (jget ts t)))) ts) members tasks)) raw)"
    by (auto simp: put_split_def bind_err_Inr map_err_Inr)
  have f: "obj_field raw' ''tasks'' = fold (\<lambda>t ts. jset t (JObj (split_entry why (as_obj (jget ts t)))) ts) members tasks"
    by (simp add: raw' obj_field_eq)
  show "m \<in> set members \<Longrightarrow> fresh_member (jget (obj_field raw' ''tasks'') m)"
    using split_fold(2) [of m members tasks why] by (auto simp: f jget_def)
  show "t \<notin> set members \<Longrightarrow> map_of (obj_field raw' ''tasks'') t = map_of (obj_field raw ''tasks'') t"
    unfolding f block_field [OF t] by (subst split_fold(1)) simp
qed

definition batch_tasks :: "batch option \<Rightarrow> dtask list" where
  "batch_tasks b = (case b of None \<Rightarrow> [] | Some (Serial t) \<Rightarrow> [t] | Some (Parallel ts) \<Rightarrow> ts)"

text \<open>With at least one slot, the next batch is empty exactly when nothing can start. It holds only tasks that can start, no more
  than the slots, and a task that lays a foundation is alone in its batch.\<close>

theorem next_batch_progress:
  assumes "1 \<le> slots"
  shows "(plan_batch g slots = None \<longleftrightarrow> frontier g = []) \<and> (batch_tasks (plan_batch g slots) = [] \<longleftrightarrow> frontier g = []) \<and>
    set (batch_tasks (plan_batch g slots)) \<subseteq> set (frontier g) \<and> int (length (batch_tasks (plan_batch g slots))) \<le> slots \<and>
    (\<forall>t \<in> set (batch_tasks (plan_batch g slots)). d_kind t = ''foundation'' \<longrightarrow> batch_tasks (plan_batch g slots) = [t])"
proof -
  have set_of: "set (order_frontier g) = set (frontier g)" by (simp add: order_frontier_def)
  show ?thesis
  proof (cases "filter (\<lambda>t. d_kind t = ''foundation'') (order_frontier g)")
    case (Cons f fs)
    then have "f \<in> set (filter (\<lambda>t. d_kind t = ''foundation'') (order_frontier g))" by simp
    then have f: "f \<in> set (order_frontier g)" by simp
    then have ne: "order_frontier g \<noteq> []" by (cases "order_frontier g") simp_all
    have b: "plan_batch g slots = Some (Serial f)"
      unfolding plan_batch_def Let_def Cons using ne by (cases "order_frontier g") simp_all
    have "f \<in> set (frontier g)" "frontier g \<noteq> []" using f set_of by auto
    then show ?thesis using assms unfolding b batch_tasks_def option.case batch.case by simp
  next
    case Nil
    then have none: "\<forall>t \<in> set (order_frontier g). d_kind t \<noteq> ''foundation''" by (simp add: filter_empty_conv)
    let ?b = "take (nat slots) (order_frontier g)"
    have s: "slice_to slots (order_frontier g) = ?b" using assms by (simp add: slice_to_def)
    have sub: "set ?b \<subseteq> set (order_frontier g)" by (rule set_take_subset)
    show ?thesis
    proof (cases "order_frontier g = []")
      case True
      with set_of assms show ?thesis by (simp add: plan_batch_def batch_tasks_def)
    next
      case False
      then have b: "plan_batch g slots = Some (Parallel ?b)"
        unfolding plan_batch_def Let_def Nil s using False by (cases "order_frontier g") simp_all
      have "frontier g \<noteq> []" "?b \<noteq> []" using False set_of assms by auto
      moreover have "int (length ?b) \<le> slots" using assms by simp
      moreover have "\<forall>t \<in> set ?b. d_kind t = ''foundation'' \<longrightarrow> ?b = [t]" using none sub by blast
      ultimately show ?thesis unfolding b batch_tasks_def option.case batch.case using sub set_of by blast
    qed
  qed
qed

theorem next_batch_progress_witness: "(plan_batch diamond 2 = None \<longleftrightarrow> frontier diamond = []) \<and> (1::int) \<le> 2"
  using next_batch_progress [of 2 diamond] by simp

end
