(* ===== verification/SendBack.thy ===== *)
theory SendBack
  imports TaskEntry ConfigDoc
begin

text \<open>
  \<^verbatim>\<open>Orchestrator._run_task_to_done\<close> of \<^verbatim>\<open>build_loop.py\<close>: one task, from its first launch to a tree the quality gate has
  passed, or to the reason it stops. What the loop asks of the world (a launch, git, a gate step's run, a reader, the
  guard's verdict on a path) is the record \<open>workshop\<close>, over a world of any type; what the loop does is kept as a list
  of acts beside the world, the notes the evidence is made of among them. Whether a red step is the change's own
  (\<^verbatim>\<open>_attribute_red\<close>) is part of the answer of \<open>sh_gate\<close>, and recording a green or a proof in the ledger part of what \<open>sh_record\<close>
  does with the act. A dry run, which launches nothing, is not modelled, and the sentences it says are the
  parameter \<open>sh_say\<close>.
\<close>

section \<open>What the loop asks and what it does\<close>

record gate_step =
  qs_name :: string
  qs_kind :: string
  qs_command :: "string list"
  qs_retries :: int
  qs_paths :: "string list"
  qs_stage :: string
  qs_runs_tests :: bool
  qs_profile :: string

text \<open>\<^verbatim>\<open>EnvironmentFault\<close> and \<^verbatim>\<open>StopLoop\<close>, as they leave a part.\<close>

datatype trouble = EnvFault string | Halt string

datatype reading = Passed | SendsBack string | Unheard string | NeverRan string

datatype control = NoTests | Undetermined string | Discriminating string string | Inert string

datatype reason =
    AgentSaid string string
  | NothingChanged string string bool
  | OutOfScope "string list" "string list" "string list"
  | Misreported "string list"
  | BudgetSpent int string
  | OperatedOutside "string list" "string list" "string list"
  | AnsweredBefore string
  | AlreadyRed string string
  | NothingMoved string
  | TestsInert string
  | Uncommitted
  | OperatedUncommitted

text \<open>What the loop does, in the order it does it. A run of a gate step carries the failure the change owns (none: the step
  passes) and, when a run of it was green, the note of it: what it ran in, and whether a green on record stood for it. A
  step whose red was there before the change passes without a note (\<^verbatim>\<open>_attribute_red\<close>).\<close>

datatype act =
    Launched string string bool "string \<times> string" string
  | Committed bool
  | ReaderAsked string reading
  | PricedRun
  | Operated string string
  | NotesCleared
  | GateRan string string "(string \<times> bool) option"
  | ControlTaken control
  | CriterionNoted string string bool
  | WroteStop string string string string "string list"
  | WroteFailure string string "(string \<times> int) list" string
  | EvidenceNoted jobj
  | SessionKept string

record 'w workshop =
  sh_launch :: "string \<Rightarrow> string \<Rightarrow> bool \<Rightarrow> string \<times> string \<Rightarrow> string \<Rightarrow> 'w \<Rightarrow> (trouble + string) \<times> 'w"
  sh_fresh :: "'w \<Rightarrow> string \<times> 'w"
  sh_changed :: "'w \<Rightarrow> string list \<times> string"
  sh_on_branch :: "'w \<Rightarrow> string list"
  sh_handoff :: "'w \<Rightarrow> jobj"
  sh_refusal :: "string \<Rightarrow> 'w \<Rightarrow> string option"
  sh_commit :: "'w \<Rightarrow> bool \<times> 'w"
  sh_tree :: "'w \<Rightarrow> string"
  sh_current :: "'w \<Rightarrow> dtask"
  sh_reader :: "string \<Rightarrow> 'w \<Rightarrow> reading \<times> 'w"
  sh_operate :: "nat \<Rightarrow> jobj \<Rightarrow> 'w \<Rightarrow> (trouble + string) \<times> 'w"
  sh_gate :: "gate_step \<Rightarrow> 'w \<Rightarrow> (trouble + string \<times> (string \<times> bool) option) \<times> 'w"
  sh_run :: "gate_step \<Rightarrow> 'w \<Rightarrow> (trouble + string \<times> (string \<times> bool) option) \<times> 'w"
  sh_is_test :: "string \<Rightarrow> bool"
  sh_control :: "gate_step list \<Rightarrow> 'w \<Rightarrow> (trouble + control) \<times> 'w"
  sh_proven :: "string list \<Rightarrow> 'w \<Rightarrow> bool"
  sh_exists :: "string \<Rightarrow> 'w \<Rightarrow> bool"
  sh_record :: "act \<Rightarrow> 'w \<Rightarrow> 'w"
  sh_say :: "reason \<Rightarrow> string"
  sh_digest :: "string \<Rightarrow> string"

record standing =
  su_steps :: "gate_step list"
  su_baseline_red :: "(string \<times> string) list"
  su_continuity :: bool
  su_mints_own :: bool
  su_inherited :: "string \<times> string"
  su_own :: string

text \<open>The world, and the acts so far, each with the world it left.\<close>

type_synonym 'w shift = "'w \<times> (act \<times> 'w) list"

definition did :: "'w workshop \<Rightarrow> act \<Rightarrow> 'w shift \<Rightarrow> 'w shift" where
  "did sh a s = (sh_record sh a (fst s), snd s @ [(a, sh_record sh a (fst s))])"

section \<open>The steps of a task\<close>

definition negative_control_name :: string where "negative_control_name = ''negative-control''"
definition acceptance_prefix :: string where "acceptance_prefix = ''acceptance:''"
definition operate_prefix :: string where "operate_prefix = ''operate:''"
definition review_prefix :: string where "review_prefix = ''review:''"
definition send_back_retries :: int where "send_back_retries = 1"
definition plan_defect_kinds :: "string list" where "plan_defect_kinds = [''agent_needs_revision'', ''scope_violation'']"
definition mechanized_evidence_kinds :: "string list" where "mechanized_evidence_kinds = [''command'', ''artifact'']"

definition matches_paths :: "gate_step \<Rightarrow> string list \<Rightarrow> bool" where
  "matches_paths q changed \<longleftrightarrow> qs_paths q = [] \<or> changed = [] \<or> list_ex (\<lambda>p. list_ex (fnmatch p) (qs_paths q)) changed"

definition steps_at :: "gate_step list \<Rightarrow> string \<Rightarrow> gate_step list" where
  "steps_at steps stage = filter (\<lambda>q. qs_stage q \<in> {stage, ''both''}) steps"

definition steps_for :: "'w workshop \<Rightarrow> gate_step list \<Rightarrow> 'w \<Rightarrow> gate_step list" where
  "steps_for sh steps w = filter (\<lambda>q. matches_paths q (fst (sh_changed sh w))) (steps_at steps ''task'')"

definition command_steps :: "'w workshop \<Rightarrow> gate_step list \<Rightarrow> 'w \<Rightarrow> gate_step list" where
  "command_steps sh steps w = filter (\<lambda>q. qs_kind q = ''command'') (steps_for sh steps w)"

definition batch_review_steps :: "gate_step list \<Rightarrow> gate_step list" where
  "batch_review_steps steps = filter (\<lambda>q. qs_kind q = ''agent'') (steps_at steps ''task'')"

section \<open>The quality gate over one tree\<close>

fun run_gates :: "'w workshop \<Rightarrow> gate_step list \<Rightarrow> 'w shift \<Rightarrow> (trouble + (string \<times> string) option) \<times> 'w shift" where
  "run_gates sh [] s = (Inr None, s)"
| "run_gates sh (q # qs) s =
     (if qs_command q = [] then run_gates sh qs s
      else case sh_gate sh q (fst s) of
          (Inl t, w) \<Rightarrow> (Inl t, (w, snd s))
        | (Inr (failure, note), w) \<Rightarrow>
            (let s' = did sh (GateRan (qs_name q) failure note) (w, snd s)
             in if failure \<noteq> [] then (Inr (Some (qs_name q, failure)), s') else run_gates sh qs s'))"

definition no_suite :: string where
  "no_suite = ''no quality-gate step that ran for this task declares `runs_tests`''"

definition no_contrast :: string where
  "no_contrast = ''every path in this change is a test path, so base plus the test half is the head tree '' @ [CHR 0xE2, CHR 0x80, CHR 0x94] @
     '' there is no contrast to measure''"

fun trouble_text :: "trouble \<Rightarrow> string" where
  "trouble_text (EnvFault said) = said"
| "trouble_text (Halt said) = said"

definition negative_control :: "'w workshop \<Rightarrow> gate_step list \<Rightarrow> 'w shift \<Rightarrow> (string \<times> string) option \<times> 'w shift" where
  "negative_control sh passed s =
     (let commands = filter (\<lambda>q. qs_kind q = ''command'' \<and> qs_command q \<noteq> [] \<and> qs_runs_tests q) passed;
          changed = fst (sh_changed sh (fst s)); tests = filter (sh_is_test sh) changed
      in if commands = [] then (None, did sh (ControlTaken (Undetermined no_suite)) s)
         else if tests = [] then (None, did sh (ControlTaken NoTests) s)
         else if length tests = length changed then (None, did sh (ControlTaken (Undetermined no_contrast)) s)
         else case sh_control sh commands (fst s) of
             (Inl t, w) \<Rightarrow> (None, did sh (ControlTaken (Undetermined (trouble_text t))) (w, snd s))
           | (Inr r, w) \<Rightarrow>
               (let s' = did sh (ControlTaken r) (w, snd s)
                in case r of Inert names \<Rightarrow> (Some (negative_control_name, sh_say sh (TestsInert names)), s') | _ \<Rightarrow> (None, s')))"

text \<open>The criteria the loop can establish: each with its id, its kind and its evidence.\<close>

definition mechanized :: "jobj list \<Rightarrow> jobj list" where
  "mechanized criteria = filter (\<lambda>c. case jget c ''evidence'' of JObj sp \<Rightarrow> str_get sp ''kind'' '''' \<in> set mechanized_evidence_kinds | _ \<Rightarrow> False) criteria"

definition criterion_id :: "jobj \<Rightarrow> string" where
  "criterion_id c = str_get c ''id'' ''?''"

definition criterion_kind :: "jobj \<Rightarrow> string" where
  "criterion_kind c = str_get (as_obj (jget c ''evidence'')) ''kind'' ''''"

text \<open>What a criterion's proof is kept under, and the step a command criterion is run as (the schema has its lists be lists).\<close>

definition criterion_tool :: "string \<Rightarrow> jobj \<Rightarrow> string list" where
  "criterion_tool tid c =
     (let sp = as_obj (jget c ''evidence'')
      in [tid @ '':'' @ criterion_id c, criterion_kind c] @
         map py_str (as_arr (jget_or sp ''command'' (jget_or sp ''paths'' (JArr [])))))"

definition criterion_step :: "jobj \<Rightarrow> gate_step" where
  "criterion_step c =
     (let sp = as_obj (jget c ''evidence'')
      in \<lparr>qs_name = acceptance_prefix @ criterion_id c, qs_kind = ''command'', qs_command = map py_str (as_arr (jget sp ''command'')),
          qs_retries = 2, qs_paths = [], qs_stage = ''both'', qs_runs_tests = False, qs_profile = str_get sp ''executor_profile'' ''''\<rparr>)"

definition establish :: "'w workshop \<Rightarrow> string \<Rightarrow> jobj \<Rightarrow> 'w shift \<Rightarrow> (trouble + string) \<times> 'w shift" where
  "establish sh tid c s =
     (let cid = criterion_id c; kind = criterion_kind c
      in if sh_proven sh (criterion_tool tid c) (fst s) then (Inr [], did sh (CriterionNoted cid kind True) s)
         else if kind = ''artifact'' then
           (let missing = filter (\<lambda>p. \<not> sh_exists sh p (fst s)) (map py_str (as_arr (jget (as_obj (jget c ''evidence'')) ''paths'')))
            in if missing \<noteq> [] then (Inr (''these artifacts do not exist: '' @ join '', '' missing), s)
               else (Inr [], did sh (CriterionNoted cid kind False) s))
         else case sh_run sh (criterion_step c) (fst s) of
             (Inl t, w) \<Rightarrow> (Inl t, (w, snd s))
           | (Inr (failure, note), w) \<Rightarrow>
               (let s' = did sh (GateRan (qs_name (criterion_step c)) failure note) (w, snd s)
                in if failure \<noteq> [] then (Inr failure, s') else (Inr [], did sh (CriterionNoted cid kind False) s')))"

fun run_acceptance :: "'w workshop \<Rightarrow> string \<Rightarrow> jobj list \<Rightarrow> 'w shift \<Rightarrow> (trouble + (string \<times> string) option) \<times> 'w shift" where
  "run_acceptance sh tid [] s = (Inr None, s)"
| "run_acceptance sh tid (c # cs) s =
     (case establish sh tid c s of
        (Inl t, s') \<Rightarrow> (Inl t, s')
      | (Inr failure, s') \<Rightarrow>
          (if failure \<noteq> []
           then (Inr (Some (acceptance_prefix @ criterion_id c,
                  criterion_id c @ '' ('' @ str_get c ''statement'' '''' @ '') is not satisfied.'' @ newline @ failure)), s')
           else run_acceptance sh tid cs s'))"

definition run_pipeline :: "'w workshop \<Rightarrow> gate_step list \<Rightarrow> dtask \<Rightarrow> 'w shift \<Rightarrow> (trouble + (string \<times> string) option) \<times> 'w shift" where
  "run_pipeline sh steps task s =
     (let qs = command_steps sh steps (fst s)
      in case run_gates sh qs s of
          (Inl t, s1) \<Rightarrow> (Inl t, s1)
        | (Inr (Some red), s1) \<Rightarrow> (Inr (Some red), s1)
        | (Inr None, s1) \<Rightarrow>
            (case negative_control sh (filter (\<lambda>q. qs_command q \<noteq> []) qs) s1 of
               (Some red, s2) \<Rightarrow> (Inr (Some red), s2)
             | (None, s2) \<Rightarrow> run_acceptance sh (d_id task) (mechanized (d_acceptance task)) s2))"

section \<open>What a pass rests on\<close>

text \<open>What the loop notes of one tree, from the point it clears its notes: the green runs, the criteria, the control.\<close>

definition control_note :: "control \<Rightarrow> jobj" where
  "control_note r = (case r of
      NoTests \<Rightarrow> [(''result'', JStr ''no_tests_changed''), (''detail'', JStr ''the change touched no test path'')]
    | Undetermined why \<Rightarrow> [(''result'', JStr ''undetermined'')] @ (if why \<noteq> [] then [(''detail'', JStr (cut 500 why))] else [])
    | Discriminating base step \<Rightarrow> [(''result'', JStr ''discriminating'')] @ (if base \<noteq> [] then [(''base'', JStr base)] else []) @
        (if step \<noteq> [] then [(''step'', JStr step)] else [])
    | Inert names \<Rightarrow> [])"

definition step_entry :: "string \<times> string \<times> bool \<Rightarrow> json" where
  "step_entry n = (case n of (name, box, reused) \<Rightarrow> JObj [(''name'', JStr name), (''image'', JStr box), (''reused'', JBool reused)])"

definition criterion_entry :: "string \<times> string \<times> bool \<Rightarrow> json" where
  "criterion_entry n = (case n of (cid, kind, reused) \<Rightarrow> JObj [(''id'', JStr cid), (''kind'', JStr kind), (''reused'', JBool reused)])"

definition step_notes :: "act list \<Rightarrow> (string \<times> string \<times> bool) list" where
  "step_notes acts = concat (map (\<lambda>a. case a of GateRan name failure (Some (box, reused)) \<Rightarrow> [(name, box, reused)] | _ \<Rightarrow> []) acts)"

definition criterion_notes :: "act list \<Rightarrow> (string \<times> string \<times> bool) list" where
  "criterion_notes acts = concat (map (\<lambda>a. case a of CriterionNoted cid kind reused \<Rightarrow> [(cid, kind, reused)] | _ \<Rightarrow> []) acts)"

definition control_notes :: "act list \<Rightarrow> jobj list" where
  "control_notes acts = concat (map (\<lambda>a. case a of ControlTaken r \<Rightarrow> (if control_note r = [] then [] else [control_note r]) | _ \<Rightarrow> []) acts)"

definition since_cleared :: "act list \<Rightarrow> act list" where
  "since_cleared acts = rev (takeWhile (\<lambda>a. a \<noteq> NotesCleared) (rev acts))"

definition task_report :: "'w workshop \<Rightarrow> 'w \<Rightarrow> jobj" where
  "task_report sh w = as_obj (jget (sh_handoff sh w) ''report'')"

definition evidence_record :: "'w workshop \<Rightarrow> 'w shift \<Rightarrow> jobj" where
  "evidence_record sh s =
     (let notes = since_cleared (map fst (snd s)); criteria = criterion_notes notes; control = control_notes notes;
          tree_id = sh_tree sh (fst s)
      in [(''steps'', JArr (map step_entry (dict_of (step_notes notes)))),
          (''reported'', jget_or (task_report sh (fst s)) ''outcome'' (JStr ''none''))] @
         (if criteria \<noteq> [] then [(''acceptance'', JArr (map criterion_entry criteria))] else []) @
         (if control \<noteq> [] then [(''negative_control'', JObj (last control))] else []) @
         (if tree_id \<noteq> [] then [(''tree'', JStr tree_id)] else []))"

section \<open>A task that operates\<close>

fun read_first :: "'w workshop \<Rightarrow> string list \<Rightarrow> gate_step list \<Rightarrow> 'w shift \<Rightarrow> (trouble + (string \<times> string) option) \<times> 'w shift" where
  "read_first sh changed [] s = (Inr None, s)"
| "read_first sh changed (q # qs) s =
     (if \<not> matches_paths q changed then read_first sh changed qs s
      else case sh_reader sh (qs_name q) (fst s) of
        (r, w) \<Rightarrow>
          (let s' = did sh (ReaderAsked (qs_name q) r) (w, snd s)
           in case r of
                NeverRan fault \<Rightarrow> (Inl (EnvFault fault), s')
              | Unheard why \<Rightarrow> (Inl (Halt why), s')
              | SendsBack findings \<Rightarrow> (Inr (Some (review_prefix @ qs_name q, findings)), s')
              | Passed \<Rightarrow> read_first sh changed qs s'))"

definition review_before_operate :: "'w workshop \<Rightarrow> gate_step list \<Rightarrow> 'w shift \<Rightarrow> (trouble + (string \<times> string) option) \<times> 'w shift" where
  "review_before_operate sh steps s = read_first sh (sh_on_branch sh (fst s)) (batch_review_steps steps) s"

definition count_priced_run :: "'w workshop \<Rightarrow> 'w shift \<Rightarrow> reason option \<times> 'w shift" where
  "count_priced_run sh s =
     (let cur = sh_current sh (fst s)
      in if d_attempt_max cur \<noteq> 0 \<and> d_attempt_max cur \<le> d_attempts cur then (Some (BudgetSpent (d_attempt_max cur) (d_attempt_cost cur)), s)
         else (None, did sh PricedRun s))"

fun run_operate :: "'w workshop \<Rightarrow> nat \<Rightarrow> jobj list \<Rightarrow> 'w shift \<Rightarrow> (trouble + (string \<times> string) option) \<times> 'w shift" where
  "run_operate sh i [] s = (Inr None, s)"
| "run_operate sh i (o1 # os) s =
     (case sh_operate sh i o1 (fst s) of
        (Inl t, w) \<Rightarrow> (Inl t, (w, snd s))
      | (Inr failure, w) \<Rightarrow>
          (let name = str_get o1 ''name'' (''step'' @ dec_int (int i)); s' = did sh (Operated name failure) (w, snd s)
           in if failure \<noteq> [] then (Inr (Some (operate_prefix @ name, failure)), s') else run_operate sh (Suc i) os s'))"

section \<open>What an attempt produced\<close>

definition guard_violations :: "'w workshop \<Rightarrow> string list \<Rightarrow> 'w \<Rightarrow> (string \<times> string) list" where
  "guard_violations sh paths w = concat (map (\<lambda>p. case sh_refusal sh p w of None \<Rightarrow> [] | Some why \<Rightarrow> [(p, why)]) paths)"

definition scope_violations :: "dtask \<Rightarrow> string list \<Rightarrow> string list" where
  "scope_violations task changed = outside_scope changed (d_scope_include task) (d_scope_exclude task)"

definition check_output :: "'w workshop \<Rightarrow> dtask \<Rightarrow> 'w \<Rightarrow> reason option" where
  "check_output sh task w =
     (let report = task_report sh w; outcome = str_get report ''outcome'' ''''; changed = fst (sh_changed sh w); diff = snd (sh_changed sh w);
          said = py_strip (str_get report ''summary'' ''''); beyond = scope_violations task changed;
          claimed = strs_in (as_arr (jget report ''touched''));
          untouched = (if claimed \<noteq> [] \<and> changed \<noteq> [] then sorted_set (filter (\<lambda>p. p \<notin> set changed) claimed) else [])
      in if outcome \<in> {''blocked'', ''needs-revision''} then Some (AgentSaid outcome (if said = [] then ''(no summary given)'' else said))
         else if diff \<noteq> [] \<and> changed = [] then Some (NothingChanged diff (str_get report ''summary'' '''') (report = []))
         else if beyond \<noteq> [] then Some (OutOfScope beyond (d_scope_include task) (d_scope_exclude task))
         else if untouched \<noteq> [] then Some (Misreported untouched)
         else None)"

definition kind_of :: "reason \<Rightarrow> string" where
  "kind_of r = (case r of
      AgentSaid outcome said \<Rightarrow> ''agent_'' @ map (\<lambda>c. if c = CHR ''-'' then CHR ''_'' else c) outcome
    | NothingChanged diff said silent \<Rightarrow> ''no_implementation''
    | OutOfScope beyond include exclude \<Rightarrow> ''scope_violation''
    | OperatedOutside beyond include exclude \<Rightarrow> ''scope_violation''
    | Misreported paths \<Rightarrow> ''report_mismatch''
    | BudgetSpent most cost \<Rightarrow> ''attempt_budget_spent''
    | AnsweredBefore kind \<Rightarrow> kind
    | _ \<Rightarrow> [])"

text \<open>The status an attempt that stopped before the gate calls for, and whether the caller still owes an escalation.\<close>

definition stop_status :: "string \<Rightarrow> string" where
  "stop_status kind = (if kind \<in> set plan_defect_kinds then ''needs-revision'' else ''blocked'')"

datatype ending = Landed | Refused string | Violated "(string \<times> string) list" | Raised trouble | NoBudget string

definition commit_attempt :: "'w workshop \<Rightarrow> reason \<Rightarrow> 'w shift \<Rightarrow> ending option \<times> 'w shift" where
  "commit_attempt sh why s =
     (case sh_commit sh (fst s) of
        (ok, w) \<Rightarrow> (if ok then None else Some (Refused (sh_say sh why)), did sh (Committed ok) (w, snd s)))"

definition stop_before :: "'w workshop \<Rightarrow> reason \<Rightarrow> string \<Rightarrow> string list \<Rightarrow> 'w shift \<Rightarrow> ending option \<times> 'w shift" where
  "stop_before sh r tree_id paths s =
     (Some (Refused (sh_say sh r)), did sh (WroteStop (kind_of r) (sh_say sh r) tree_id [] paths) s)"

definition produced :: "'w workshop \<Rightarrow> dtask \<Rightarrow> 'w shift \<Rightarrow> ending option \<times> 'w shift" where
  "produced sh task s =
     (let changed = fst (sh_changed sh (fst s)); violations = guard_violations sh changed (fst s)
      in if violations \<noteq> [] then (Some (Violated violations), s)
         else case check_output sh task (fst s) of
             Some r \<Rightarrow> stop_before sh r (sh_tree sh (fst s))
               (if kind_of r = ''scope_violation'' then scope_violations task changed else []) s
           | None \<Rightarrow> commit_attempt sh Uncommitted s)"

definition operated_well :: "'w workshop \<Rightarrow> dtask \<Rightarrow> 'w shift \<Rightarrow> ending option \<times> 'w shift" where
  "operated_well sh task s =
     (let changed = fst (sh_changed sh (fst s)); violations = guard_violations sh changed (fst s); beyond = scope_violations task changed
      in if violations \<noteq> [] then (Some (Violated violations), s)
         else if beyond \<noteq> [] then
           stop_before sh (OperatedOutside beyond (d_scope_include task) (d_scope_exclude task)) (sh_tree sh (fst s)) beyond s
         else commit_attempt sh OperatedUncommitted s)"

text \<open>The part of a round only a task that operates has: whether its run was started, and the verdict of the part.\<close>

definition operate_part :: "'w workshop \<Rightarrow> gate_step list \<Rightarrow> dtask \<Rightarrow> bool \<Rightarrow> string \<Rightarrow> 'w shift \<Rightarrow>
    (ending + bool \<times> (string \<times> string) option) \<times> 'w shift" where
  "operate_part sh steps task operated after s =
     (if d_operate task = [] then (Inr (False, None), s)
      else case review_before_operate sh steps s of
          (Inl t, s1) \<Rightarrow> (Inl (Raised t), s1)
        | (Inr (Some red), s1) \<Rightarrow> (Inr (False, Some red), s1)
        | (Inr None, s1) \<Rightarrow>
            (case (if operated then count_priced_run sh s1 else (None, s1)) of
               (Some r, s2) \<Rightarrow>
                 (Inl (Refused (sh_say sh r)), did sh (WroteStop (kind_of r) (sh_say sh r) after [] []) s2)
             | (None, s2) \<Rightarrow>
                 (case run_operate sh 1 (d_operate task) s2 of
                    (Inl t, s3) \<Rightarrow> (Inl (Raised t), s3)
                  | (Inr (Some red), s3) \<Rightarrow> (Inr (True, Some red), s3)
                  | (Inr None, s3) \<Rightarrow>
                      (case operated_well sh task s3 of
                         (Some e, s4) \<Rightarrow> (Inl e, s4)
                       | (None, s4) \<Rightarrow> (Inr (True, None), s4)))))"

section \<open>One round\<close>

record lap =
  lp_budgets :: "(string \<times> int) list"
  lp_log :: string
  lp_session :: string
  lp_resume :: bool
  lp_fork :: "string \<times> string"
  lp_review :: string
  lp_seen :: "string \<times> string \<times> string"
  lp_operated :: bool

datatype turn = Ended ending | Again lap

definition futile_reason :: "'w workshop \<Rightarrow> standing \<Rightarrow> string \<Rightarrow> string \<Rightarrow> string \<Rightarrow> string \<times> string \<times> string \<Rightarrow> reason option" where
  "futile_reason sh su failed log tree_id seen =
     (case map_of (su_baseline_red su) failed of
        Some said \<Rightarrow> Some (AlreadyRed failed said)
      | None \<Rightarrow> if tree_id \<noteq> [] \<and> seen = (failed, sh_digest sh log, tree_id) then Some (NothingMoved failed) else None)"

definition send_back :: "'w workshop \<Rightarrow> standing \<Rightarrow> lap \<Rightarrow> string \<Rightarrow> bool \<Rightarrow> string \<Rightarrow> string \<times> string \<Rightarrow> 'w shift \<Rightarrow> turn \<times> 'w shift" where
  "send_back sh su lp session started after red s =
     (let failed = fst red; log = snd red; futile = futile_reason sh su failed log after (lp_seen lp)
      in case map_of (lp_budgets lp) failed of
          None \<Rightarrow> (Ended (NoBudget failed), s)
        | Some budget \<Rightarrow>
            (let left = (if futile \<noteq> None then 0 else budget); budgets = AList.update failed (max 0 (left - 1)) (lp_budgets lp);
                 s1 = did sh (WroteFailure failed log budgets (case futile of None \<Rightarrow> [] | Some r \<Rightarrow> sh_say sh r)) s
             in if left \<le> 0 then (Ended (Refused log), s1)
                else
                  (let findings = prefix review_prefix failed; anew = su_continuity su \<and> left - 1 \<le> 0 \<and> \<not> findings
                   in case (if anew \<and> \<not> su_mints_own su then sh_fresh sh (fst s1) else ([], fst s1)) of
                     (name, w) \<Rightarrow>
                       (Again \<lparr>lp_budgets = budgets, lp_log = (if findings then [] else log), lp_session = (if anew then name else session),
                          lp_resume = (\<not> anew \<and> session \<noteq> []), lp_fork = ([], []), lp_review = (if findings then log else []),
                          lp_seen = (failed, sh_digest sh log, after), lp_operated = (lp_operated lp \<or> started)\<rparr>, (w, snd s1)))))"

definition one_round :: "'w workshop \<Rightarrow> standing \<Rightarrow> dtask \<Rightarrow> lap \<Rightarrow> 'w shift \<Rightarrow> turn \<times> 'w shift" where
  "one_round sh su task lp s =
     (case sh_launch sh (lp_log lp) (lp_session lp) (lp_resume lp) (lp_fork lp) (lp_review lp) (fst s) of
        (launched, w) \<Rightarrow>
          (let s0 = did sh (Launched (lp_log lp) (lp_session lp) (lp_resume lp) (lp_fork lp) (lp_review lp)) (w, snd s)
           in case launched of
                Inl t \<Rightarrow> (Ended (Raised t), s0)
              | Inr session \<Rightarrow>
                  (case produced sh task s0 of
                     (Some e, s1) \<Rightarrow> (Ended e, s1)
                   | (None, s1') \<Rightarrow>
                       (let s1 = did sh NotesCleared s1'; after = sh_tree sh (fst s1)
                        in case operate_part sh (su_steps su) task (lp_operated lp) after s1 of
                             (Inl e, s2) \<Rightarrow> (Ended e, s2)
                           | (Inr (started, Some red), s2) \<Rightarrow> send_back sh su lp session started after red s2
                           | (Inr (started, None), s2) \<Rightarrow>
                               (case run_pipeline sh (su_steps su) task s2 of
                                  (Inl t, s3) \<Rightarrow> (Ended (Raised t), s3)
                                | (Inr (Some red), s3) \<Rightarrow> send_back sh su lp session started after red s3
                                | (Inr None, s3) \<Rightarrow>
                                    (Ended Landed, (let s4 = did sh (EvidenceNoted (evidence_record sh s3)) s3
                                       in if session \<noteq> [] then did sh (SessionKept session) s4 else s4)))))))"

section \<open>The rounds end\<close>

definition allowance :: "(string \<times> int) list \<Rightarrow> nat" where
  "allowance budgets = sum_list (map (\<lambda>b. nat (snd b)) budgets)"

lemma total_spent: "map_of budgets f = Some b \<Longrightarrow> 0 < b \<Longrightarrow> Suc (allowance (AList.update f (b - 1) budgets)) = allowance budgets"
  by (induction budgets) (auto simp: allowance_def split: if_splits)

lemma send_back_spends: "send_back sh su lp session started after red s = (Again lp', s') \<Longrightarrow> Suc (allowance (lp_budgets lp')) = allowance (lp_budgets lp)"
  by (auto simp: send_back_def Let_def total_spent split: option.splits if_splits prod.splits)

lemma one_round_spends: "one_round sh su task lp s = (Again lp', s') \<Longrightarrow> Suc (allowance (lp_budgets lp')) = allowance (lp_budgets lp)"
  by (auto simp: one_round_def Let_def dest: send_back_spends split: option.splits sum.splits prod.splits if_splits)

function rounds :: "'w workshop \<Rightarrow> standing \<Rightarrow> dtask \<Rightarrow> lap \<Rightarrow> 'w shift \<Rightarrow> ending \<times> 'w shift" where
  "rounds sh su task lp s =
     (case one_round sh su task lp s of
        (Ended e, s') \<Rightarrow> (e, s')
      | (Again lp', s') \<Rightarrow> rounds sh su task lp' s')"
  by pat_completeness auto
termination
  by (relation "measure (\<lambda>(sh, su, task, lp, s). allowance (lp_budgets lp))") (auto dest!: one_round_spends [OF sym])

declare rounds.simps [simp del]

section \<open>Where a run starts\<close>

definition seeded_budgets :: "'w workshop \<Rightarrow> standing \<Rightarrow> dtask \<Rightarrow> 'w \<Rightarrow> (string \<times> int) list" where
  "seeded_budgets sh su task w =
     dict_of (map (\<lambda>q. (qs_name q, qs_retries q)) (command_steps sh (su_steps su) w) @
       [(negative_control_name, send_back_retries)] @
       map (\<lambda>o1. (operate_prefix @ str_get o1 ''name'' ''?'', send_back_retries)) (d_operate task) @
       (if d_operate task \<noteq> [] then map (\<lambda>q. (review_prefix @ qs_name q, max 0 (qs_retries q))) (batch_review_steps (su_steps su)) else []) @
       map (\<lambda>c. (acceptance_prefix @ criterion_id c, send_back_retries)) (d_acceptance task))"

text \<open>What an interrupted attempt had left of them (a value that is no integer raises, and the schema closes the field).\<close>

definition inherited_budgets :: "(string \<times> int) list \<Rightarrow> jobj \<Rightarrow> (string \<times> int) list" where
  "inherited_budgets budgets handoff =
     (case jget handoff ''retries_left'' of
        JObj inh \<Rightarrow> map (\<lambda>(name, left). (name, min left (case map_of inh name of Some (JInt n) \<Rightarrow> n | _ \<Rightarrow> left))) budgets
      | _ \<Rightarrow> budgets)"

definition opening_budgets :: "'w workshop \<Rightarrow> standing \<Rightarrow> dtask \<Rightarrow> 'w \<Rightarrow> (string \<times> int) list" where
  "opening_budgets sh su task w = inherited_budgets (seeded_budgets sh su task w) (sh_handoff sh w)"

definition opening_log :: "jobj \<Rightarrow> string \<Rightarrow> string" where
  "opening_log handoff review =
     (if review \<noteq> [] then []
      else py_str (py_or (py_or (jget handoff ''failure_summary'') (jget (as_obj (jget handoff ''escalation'')) ''message'')) (JStr [])))"

definition already_answered :: "'w workshop \<Rightarrow> 'w \<Rightarrow> (string \<times> string \<times> string) option" where
  "already_answered sh w =
     (case jget (sh_handoff sh w) ''escalation'' of
        JObj esc \<Rightarrow>
          (let kind = str_get esc ''kind'' ''''; tree_id = str_get esc ''tree'' ''''; paths = strs_in (as_arr (jget esc ''paths'')); cur = sh_current sh w
           in if kind = [] \<or> tree_id = [] \<or> tree_id \<noteq> sh_tree sh w then None
              else if kind = ''scope_violation'' \<and> paths \<noteq> [] \<and> scope_violations cur paths = [] then None
              else if kind = ''attempt_budget_spent'' \<and> d_attempts cur < d_attempt_max cur then None
              else Some (kind, str_get esc ''message'' '''', tree_id))
      | _ \<Rightarrow> None)"

definition opening_session :: "'w workshop \<Rightarrow> standing \<Rightarrow> string \<Rightarrow> 'w \<Rightarrow> (string \<times> bool \<times> (string \<times> string)) \<times> 'w" where
  "opening_session sh su review w =
     (case (if su_continuity su \<and> \<not> su_mints_own su then sh_fresh sh w else ([], w)) of
        (session, w') \<Rightarrow>
          (let fork = (if session \<noteq> [] \<and> review = [] then su_inherited su else ([], []))
           in if review \<noteq> [] \<and> su_continuity su \<and> su_own su \<noteq> [] then ((su_own su, True, fork), w') else ((session, False, fork), w')))"

definition run_task_to_done :: "'w workshop \<Rightarrow> standing \<Rightarrow> dtask \<Rightarrow> string \<Rightarrow> 'w \<Rightarrow> ending \<times> 'w shift" where
  "run_task_to_done sh su task review w =
     (case opening_session sh su review w of
        ((session, resume, fork), w1) \<Rightarrow>
          (case (if review \<noteq> [] then None else already_answered sh w1) of
             Some (kind, prior, tree_id) \<Rightarrow>
               (let futile = sh_say sh (AnsweredBefore kind); message = (if prior \<noteq> [] then prior @ newline @ futile else futile)
                in (Refused message, did sh (WroteStop kind message tree_id futile []) (w1, [])))
           | None \<Rightarrow>
               rounds sh su task
                 \<lparr>lp_budgets = opening_budgets sh su task w, lp_log = opening_log (sh_handoff sh w) review, lp_session = session,
                  lp_resume = resume, lp_fork = fork, lp_review = review, lp_seen = ([], [], []), lp_operated = False\<rparr> (w1, [])))"

section \<open>What the acts of a part are\<close>

definition is_launch :: "act \<Rightarrow> bool" where
  "is_launch a = (case a of Launched log session resume fork review \<Rightarrow> True | _ \<Rightarrow> False)"



lemma control_note_empty [simp]: "control_note r = [] \<longleftrightarrow> (\<exists>names. r = Inert names)"
  by (cases r) (simp_all add: control_note_def)

lemma notes_append [simp]:
  "step_notes (xs @ ys) = step_notes xs @ step_notes ys" "criterion_notes (xs @ ys) = criterion_notes xs @ criterion_notes ys"
  "control_notes (xs @ ys) = control_notes xs @ control_notes ys"
  by (simp_all add: step_notes_def criterion_notes_def control_notes_def)

lemma notes_Nil [simp]: "step_notes [] = []" "criterion_notes [] = []" "control_notes [] = []"
  by (simp_all add: step_notes_def criterion_notes_def control_notes_def)

lemma criterion_notes_Cons [simp]:
  "criterion_notes (CriterionNoted cid kind reused # xs) = (cid, kind, reused) # criterion_notes xs"
  "criterion_notes (GateRan name failure note # xs) = criterion_notes xs"
  "criterion_notes (ControlTaken r # xs) = criterion_notes xs"
  by (simp_all add: criterion_notes_def)







text \<open>The world is the one the last act left.\<close>

definition settled :: "'w shift \<Rightarrow> bool" where
  "settled s \<longleftrightarrow> snd s \<noteq> [] \<and> fst s = snd (last (snd s))"

lemma settled_did [simp]: "settled (did sh a s)"
  by (simp add: settled_def did_def)

text \<open>A part added acts, none of them a launch, that satisfy \<open>P\<close>.\<close>

definition adds :: "'w shift \<Rightarrow> 'w shift \<Rightarrow> (act list \<Rightarrow> bool) \<Rightarrow> bool" where
  "adds s s' P \<longleftrightarrow> (\<exists>new. snd s' = snd s @ new \<and> list_all (\<lambda>a. \<not> is_launch (fst a)) new \<and> P (map fst new))"








lemma is_launch_simps [simp]:
  "is_launch (Launched log session resume fork review)" "\<not> is_launch (Committed ok)" "\<not> is_launch (ReaderAsked name r)"
  "\<not> is_launch PricedRun" "\<not> is_launch (Operated name failure)" "\<not> is_launch (GateRan name failure note)" "\<not> is_launch (ControlTaken c)"
  "\<not> is_launch NotesCleared" "\<not> is_launch (CriterionNoted cid kind reused)" "\<not> is_launch (WroteStop kind message tree_id futile paths)"
  "\<not> is_launch (WroteFailure failed log budgets futile)" "\<not> is_launch (EvidenceNoted record)" "\<not> is_launch (SessionKept name)"
  by (simp_all add: is_launch_def)
















lemma stop_before_acts: "adds s (snd (stop_before sh r tree_id paths s)) (\<lambda>_. True)" "\<exists>m. fst (stop_before sh r tree_id paths s) = Some (Refused m)"
  by (simp_all add: stop_before_def did_def adds_def)











definition launches :: "(act \<times> 'w) list \<Rightarrow> nat" where
  "launches acts = length (filter (\<lambda>a. is_launch (fst a)) acts)"

lemma launches_simps [simp]:
  "launches (xs @ ys) = launches xs + launches ys" "launches [] = 0" "launches (a # xs) = (if is_launch (fst a) then 1 else 0) + launches xs"
  by (simp_all add: launches_def)







section \<open>A task that is sent back once\<close>

definition suite :: gate_step where
  "suite = \<lparr>qs_name = ''test'', qs_kind = ''command'', qs_command = [''make'', ''test''], qs_retries = 2, qs_paths = [], qs_stage = ''both'',
     qs_runs_tests = True, qs_profile = []\<rparr>"

definition ticket :: dtask where
  "ticket = (default_task ''T-001'' ''base'' ''foundation'')\<lparr>d_scope_include := [''src''],
     d_acceptance := [[(''id'', JStr ''A-1''), (''statement'', JStr ''it exists''),
       (''evidence'', JObj [(''kind'', JStr ''artifact''), (''paths'', JArr [JStr ''src/a.py''])])]]\<rparr>"

text \<open>The world counts the launches: the suite is red over the tree of the first.\<close>

definition small_shop :: "nat workshop" where
  "small_shop = \<lparr>sh_launch = (\<lambda>log session resume fork review w. (Inr session, Suc w)), sh_fresh = (\<lambda>w. (''s'', w)),
     sh_changed = (\<lambda>w. ([''src/a.py''], ''git diff'')), sh_on_branch = (\<lambda>w. [''src/a.py'']), sh_handoff = (\<lambda>w. []),
     sh_refusal = (\<lambda>p w. None), sh_commit = (\<lambda>w. (True, w)), sh_tree = (\<lambda>w. dec_int (int w)), sh_current = (\<lambda>w. ticket),
     sh_reader = (\<lambda>name w. (Passed, w)), sh_operate = (\<lambda>i o1 w. (Inr [], w)),
     sh_gate = (\<lambda>q w. (Inr (if w < 2 then (''1 failed'', None) else ([], Some (''host:host'', False))), w)),
     sh_run = (\<lambda>q w. (Inr ([], Some (''host:host'', False)), w)), sh_is_test = (\<lambda>p. False),
     sh_control = (\<lambda>qs w. (Inr NoTests, w)), sh_proven = (\<lambda>tool w. False), sh_exists = (\<lambda>p w. True), sh_record = (\<lambda>a w. w),
     sh_say = (\<lambda>r. ''said''), sh_digest = id\<rparr>"

definition one_suite :: standing where
  "one_suite = \<lparr>su_steps = [suite], su_baseline_red = [], su_continuity = True, su_mints_own = False, su_inherited = ([], []), su_own = []\<rparr>"




section \<open>A restart\<close>

lemma failure_budgets:
  assumes "distinct (map fst budgets)" and "\<forall>n \<in> fst ` set budgets. cut handoff_step_max n = n"
  shows "jget (merge_handoff previous (failure_patch failed summary budgets futile)) ''retries_left'' =
    JObj (map (\<lambda>(n, b). (n, JInt (max 0 (min 100 b)))) budgets)"
proof -
  have same: "map (\<lambda>(n, b). (cut handoff_step_max n, JInt (max 0 (min 100 b)))) budgets = map (\<lambda>(n, b). (n, JInt (max 0 (min 100 b)))) budgets"
    using assms(2) by (auto intro!: map_cong)
  have "map fst (map (\<lambda>(n, b). (n, JInt (max 0 (min 100 b)))) budgets) = map fst budgets" by (simp add: comp_def case_prod_beta)
  then have d: "dict_of (map (\<lambda>(n, b). (cut handoff_step_max n, JInt (max 0 (min 100 b)))) budgets) =
      map (\<lambda>(n, b). (n, JInt (max 0 (min 100 b)))) budgets"
    unfolding same using dict_of_id assms(1) by metis
  show ?thesis
    unfolding failure_patch_def d by (simp add: merge_handoff_def jget_def)
qed

text \<open>C5: A restart buys no new allowance. A run that opens on the record of a failure whose budgets have distinct names, none of
  them longer than the 64 characters the record keeps of a name, has, of every budget that record names, at
  most what it left: the record holds each budget between 0 and 100 under its name, and the opening takes the smaller
  of it and the step's own. A longer name is recorded cut and is not found again (\<^verbatim>\<open>long_name_buys_again\<close>).\<close>

theorem restart_buys_nothing:
  assumes "sh_handoff sh w = merge_handoff previous (failure_patch failed summary budgets futile)"
    and "distinct (map fst budgets)" and "\<forall>n \<in> fst ` set budgets. cut handoff_step_max n = n"
    and "(n, b) \<in> set budgets" and "(n, v) \<in> set (opening_budgets sh su task w)"
  shows "v \<le> max 0 (min 100 b) \<and> (\<exists>own. (n, own) \<in> set (seeded_budgets sh su task w) \<and> v \<le> own)"
proof -
  let ?inh = "map (\<lambda>(n, b). (n, JInt (max 0 (min 100 b)))) budgets"
  have "map fst ?inh = map fst budgets" by (simp add: comp_def case_prod_beta)
  then have "distinct (map fst ?inh)" using assms(2) by metis
  moreover have "(n, JInt (max 0 (min 100 b))) \<in> set ?inh" using assms(4) by force
  ultimately have m: "map_of ?inh n = Some (JInt (max 0 (min 100 b)))" by (rule map_of_is_SomeI)
  have "opening_budgets sh su task w =
      map (\<lambda>(name, left). (name, min left (case map_of ?inh name of Some (JInt n) \<Rightarrow> n | _ \<Rightarrow> left))) (seeded_budgets sh su task w)"
    unfolding opening_budgets_def inherited_budgets_def assms(1) failure_budgets [OF assms(2,3)] json.case ..
  with assms(5) obtain own where "(n, own) \<in> set (seeded_budgets sh su task w)" "v = min own (max 0 (min 100 b))"
    using m by auto
  then show ?thesis by auto
qed

definition restarted_shop :: "nat workshop" where
  "restarted_shop = small_shop\<lparr>sh_handoff := (\<lambda>w. merge_handoff JNull (failure_patch ''test'' ''1 failed'' [(''test'', 1)] []))\<rparr>"

theorem restart_buys_nothing_witness:
  "(''test'', 1) \<in> set (opening_budgets restarted_shop one_suite ticket 0) \<and> (1::int) \<le> max 0 (min 100 1)"
proof -
  have o1: "(''test'', 1) \<in> set (opening_budgets restarted_shop one_suite ticket 0)" by code_simp
  have c: "\<forall>n \<in> fst ` set [(''test'', 1::int)]. cut handoff_step_max n = n" by code_simp
  have h: "sh_handoff restarted_shop 0 = merge_handoff JNull (failure_patch ''test'' ''1 failed'' [(''test'', 1)] [])"
    by (simp add: restarted_shop_def)
  from restart_buys_nothing [OF h _ c _ o1, of 1] o1 show ?thesis by simp
qed

section \<open>Where the loop does not do what it says\<close>

text \<open>
  The loop seeds its budgets with the command steps the diff selects when it starts, and says that every verdict the
  gate can give is among them. The gate selects its steps again after every launch: a step with \<^verbatim>\<open>paths\<close> that the change
  of a resumed task did not touch yet, and the next launch touches, has no budget, and its first red raises out of the
  loop as an internal error.
\<close>

definition docs_step :: gate_step where
  "docs_step = suite\<lparr>qs_name := ''docs'', qs_paths := [''docs/*'']\<rparr>"

definition late_shop :: "nat workshop" where
  "late_shop = small_shop\<lparr>sh_changed := (\<lambda>w. (if w = 0 then [''src/a.py''] else [''src/a.py'', ''docs/b.md''], ''git diff'')),
     sh_current := (\<lambda>w. ticket\<lparr>d_scope_include := []\<rparr>)\<rparr>"

lemma late_step_has_no_budget:
  "fst (run_task_to_done late_shop (one_suite\<lparr>su_steps := [docs_step]\<rparr>) (ticket\<lparr>d_scope_include := []\<rparr>) [] 0) = NoBudget ''docs''"
  by code_simp

text \<open>
  The record of a failure cuts the name of a budget at 64 characters, and the next run looks for it under its full name.
  The names the configuration gives fit (a step's name is bounded by the schema, the one reader is called \<^verbatim>\<open>review\<close>, an
  operate step's name has at most 40 characters); only the number of an acceptance criterion has no bound, and one of more than
  51 digits has its budget back whole with every restart.
\<close>

definition long_criterion :: jobj where
  "long_criterion = [(''id'', JStr (''A-'' @ replicate 52 (CHR ''1'')))]"

definition long_budget :: string where
  "long_budget = acceptance_prefix @ criterion_id long_criterion"

lemma long_name_buys_again:
  "map_of (opening_budgets (small_shop\<lparr>sh_handoff := (\<lambda>w. merge_handoff JNull (failure_patch long_budget ''not there'' [(long_budget, 0)] []))\<rparr>)
     one_suite (ticket\<lparr>d_acceptance := [long_criterion]\<rparr>) 0) long_budget = Some 1"
  by code_simp

text \<open>
  A scope violation is asked again once the scope covers the paths it was about, which its record names. Replaying the
  old answer writes the record anew, without the paths; from then on it is replayed over every scope.
\<close>

lemma escalation_read:
  "jget (merge_handoff previous (escalation_patch ''scope_violation'' m tree_id f paths)) ''escalation'' =
    JObj ([(''kind'', JStr ''scope_violation''), (''message'', JStr (closing handoff_summary_max m))] @
        (if tree_id \<noteq> [] then [(''tree'', JStr tree_id)] else []) @ (if paths \<noteq> [] then [(''paths'', JArr (map JStr paths))] else []))"
proof -
  have "cut handoff_step_max ''scope_violation'' = ''scope_violation''" by code_simp
  then show ?thesis
    by (simp add: escalation_patch_def merge_handoff_def jget_def)
qed

lemma replay_forgets_paths:
  assumes "sh_handoff sh w = merge_handoff previous (escalation_patch ''scope_violation'' m tree_id f [])"
    and "tree_id \<noteq> []" and "sh_tree sh w = tree_id"
  shows "\<exists>prior. already_answered sh w = Some (''scope_violation'', prior, tree_id)"
  unfolding already_answered_def assms(1) escalation_read json.case using assms(2,3)
  by (simp add: Let_def str_get_def jget_or_def jget_def)

lemma recorded_paths_ask_again:
  assumes "sh_handoff sh w = merge_handoff previous (escalation_patch ''scope_violation'' m tree_id f paths)"
    and "paths \<noteq> []" and "scope_violations (sh_current sh w) paths = []"
  shows "already_answered sh w = None"
proof -
  have "strs_in (map JStr paths) = paths" by (induction paths) simp_all
  with assms(2,3) show ?thesis unfolding already_answered_def assms(1) escalation_read json.case
    by (simp add: Let_def str_get_def jget_or_def jget_def)
qed

end
