(* ===== verification/Spec2Isabelle.thy ===== *)
theory Spec2Isabelle
  imports Revise Approvals Trace Cleared Conflict Comparator SendBack
begin

text \<open>
  Loose Rein (\<^verbatim>\<open>src/src/rein\<close>) is a harness that keeps a human in charge of a development loop run by agents.
  A person approves a plan (the \<^emph>\<open>mandate\<close>) through a fan of gates; an orchestrator launches agents on the
  plan's tasks; a machine review compares the change with what the plan claims; a person settles what the
  machine could not and approves acceptance. Everything that binds a decision to what it was made about is a
  YAML or NDJSON document under \<^verbatim>\<open>.rein/\<close>, a digest of it, and an event in a hash-chained log. This
  development models the part of the program those promises rest on: the documents, their parsing and
  digests, the gates, the task graph, the log, the one write path, the roll back, the review, the edit guard, the
  readiness and the recording of an approval, the loop that takes one task to done, and the settling of a merge conflict.

  \<^bold>\<open>Parts and how they interact.\<close> A document is parsed behind a strict boundary (\<open>Strict\<close>) into a JSON value
  (\<open>Json\<close>); typed readers look at it without copying (\<open>PlanDoc\<close>, \<open>StateDoc\<close>, \<open>ReviewsDoc\<close>, \<open>ConfigDoc\<close>). A digest of its
  canonical bytes (\<open>Digests\<close>) is what an approval or a write is bound to. The plan is checked for dangling
  references, shared files and cycles before it is frozen (\<open>CrossRef\<close>), and joined with the mutable state to
  the task graph (\<open>Bundle\<close>), whose constructor refuses what is not a DAG (\<open>Kahn\<close>, \<open>Dag\<close>) and from which the loop
  takes its frontier and its bundles (\<open>Schedule\<close>, \<open>Bundle\<close>). Documents and log change only in a transaction of
  \<open>Store\<close>, which appends to the log of \<open>Chain\<close>; a roll back (\<open>Revise\<close>) is one such transaction. The machine half
  of a review is bounded and priced by \<open>ReviewPolicy\<close>, what it leaves open becomes cards (\<open>Cards\<close>), the answers go
  into its human half (\<open>HumanReview\<close>), and an answer that says the code is wrong goes back to the loop (\<open>Repair\<close>);
  what the reviewer says of the plan's claims is framed by the plan (\<open>Comparator\<close>). The guard (\<open>Guard\<close>, \<open>Hooks\<close>) reads the
  documents of a checkout (\<open>Checkout\<close>) and refuses an edit outside the mandate; change requests (\<open>Changes\<close>) are how work
  asks for more. A gate is offered for approval when nothing stands in its way (\<open>Readiness\<close>, over \<open>Trace\<close>,
  \<open>AuditRecord\<close> and the graph), and an approval is one transaction (\<open>Approve\<close>) that binds the digests of what was shown.
  A task runs in \<open>SendBack\<close>: launch, check, commit, gate, and back to the implementer while a budget is left; what it
  leaves for the next attempt and the status it ends in are transactions of \<open>TaskEntry\<close>. Merges of task branches are settled or undone by \<open>Conflict\<close>, and what cannot be settled is escalated into the state.

  \<^bold>\<open>Theories, and the code they model.\<close>

    \<^item> \<open>Prelude\<close>, \<open>Text\<close>: Python's dict as an association list in insertion order, with the laws of a dictionary
      as the locale \<open>dictionary\<close>; strings as UTF-8 bytes, their characters, strip, join and split.
    \<^item> \<open>Json\<close>, \<open>Digests\<close> (\<^verbatim>\<open>digests.py\<close>): the value datatype; \<open>canonical\<close> is \<^verbatim>\<open>canonical_bytes\<close>, \<open>tree_digest\<close> the digest of
      a working tree. SHA-256 is a parameter \<open>sha\<close>; where a property needs it, collision freedom on the two
      inputs at hand is a hypothesis, never a global law.
    \<^item> \<open>Strict\<close> (\<^verbatim>\<open>strict_yaml.py\<close>): \<open>compose\<close>, \<open>construct\<close> and \<open>load_json\<close> after the tokenizers, which are parameters.
    \<^item> \<open>Paths\<close> (\<^verbatim>\<open>common.py\<close>): path coverage, scope checks, the summary of failing output.
    \<^item> \<open>Vocabulary\<close>, \<open>PlanDoc\<close>, \<open>StateDoc\<close>, \<open>ReviewsDoc\<close>, \<open>ConfigDoc\<close>, \<open>CrossRef\<close> (\<^verbatim>\<open>models.py\<close>): closed vocabularies and id
      patterns; views over plan, state, reviews and configuration; the gate fan (interpreting the locale
      \<open>approval_order\<close>); \<open>cross_reference_errors\<close>.
    \<^item> \<open>Kahn\<close>, \<open>Dag\<close>, \<open>Schedule\<close>, \<open>Bundle\<close> (\<^verbatim>\<open>dag.py\<close>): Kahn's algorithm, \<open>from_tasks\<close> with its refusals in order (an
      accepted graph interprets the locale \<open>ordered_dag\<close>), closures, frontier, layers, critical path, \<open>join\<close>,
      bundles and the issue graph.
    \<^item> \<open>Chain\<close>, \<open>EventQueries\<close> (\<^verbatim>\<open>models.Event\<close>, \<^verbatim>\<open>event_chain.py\<close>): events, linking, scanning, appending, summaries.
    \<^item> \<open>Store\<close> (\<^verbatim>\<open>store.py\<close>): transactions as a list of durable steps \<open>commit_run\<close>; a crash is a prefix of that
      list, after which \<open>recover\<close> reads the journal it finds.
    \<^item> \<open>Revise\<close> (\<^verbatim>\<open>revise.py\<close>): what rolling back to a gate changes, and its application.
    \<^item> \<open>ReviewPolicy\<close> (\<^verbatim>\<open>review_policy.py\<close>, \<^verbatim>\<open>diff_facts.py\<close>), \<open>Cards\<close> (\<^verbatim>\<open>decision_cards.py\<close>), \<open>Repair\<close> (\<^verbatim>\<open>findings.py\<close>,
      \<^verbatim>\<open>repair.py\<close>), \<open>HumanReview\<close> (\<^verbatim>\<open>human_review.py\<close>): the review, from the reviewer's bytes to the frozen answers.
    \<^item> \<open>Comparator\<close> (\<^verbatim>\<open>conformance.py\<close>): \<open>accept_answer\<close> is everything \<^verbatim>\<open>run_comparator\<close> does with a parsed answer;
      \<open>frame\<close> is \<^verbatim>\<open>_frame_by_expected\<close>.
    \<^item> \<open>Checkout\<close> (\<^verbatim>\<open>repo.py\<close>), \<open>Guard\<close>, \<open>Hooks\<close> (\<^verbatim>\<open>gate_guard.py\<close>): reading a checkout, \<open>evaluate\<close> over one path with its rules in
      their order, the commit-stage check \<open>check_diff\<close>, the payload of a hook and its registration.
    \<^item> \<open>Changes\<close> (\<^verbatim>\<open>change_request.py\<close>): filing, answering and closing a request; \<open>request_step\<close>, the writes of the state within a
      cycle; and the state the next cycle starts from (\<^verbatim>\<open>cycle.next_state\<close>), which carries no request over.
    \<^item> \<open>Approve\<close>, \<open>Approvals\<close> (\<^verbatim>\<open>approve.py\<close>): what an approval covers, the crossings it carries and \<open>record_approval\<close>;
      \<open>Readiness\<close>, \<open>Cleared\<close>: every check of \<^verbatim>\<open>readiness\<close>, and what a gate with no obstacle is good for.
    \<^item> \<open>Trace\<close> (\<^verbatim>\<open>dag_trace.py\<close>), \<open>AuditRecord\<close> (\<^verbatim>\<open>audit.py\<close>): the thread from clause to test, and the age of an audit.
    \<^item> \<open>Conflict\<close> (\<^verbatim>\<open>conflict.py\<close>): \<open>merge_with_resolution\<close> over git, the implementer and the quality gate as
      arguments, the commands it ran kept in its result; \<open>escalate\<close>.
    \<^item> \<open>TaskEntry\<close> (\<^verbatim>\<open>build_loop.py\<close>: \<^verbatim>\<open>set_task_status\<close>, \<^verbatim>\<open>update_task_handoff\<close> and the records over it, \<^verbatim>\<open>plan_batch\<close>);
      \<open>SendBack\<close> (\<^verbatim>\<open>Orchestrator._run_task_to_done\<close>, \<^verbatim>\<open>_run_pipeline\<close>, \<^verbatim>\<open>_negative_control\<close>, \<^verbatim>\<open>_run_acceptance\<close>,
      \<^verbatim>\<open>_run_operate\<close>, \<^verbatim>\<open>_record_task_evidence\<close>, \<^verbatim>\<open>_check_implementer_output\<close>, \<^verbatim>\<open>_futile\<close>, \<^verbatim>\<open>_already_answered\<close>): \<open>one_round\<close> is one turn of its
      \<^verbatim>\<open>while True\<close>, \<open>rounds\<close> the loop, the acts of a run kept beside the world.

  \<^bold>\<open>What the lemmas show.\<close> For the log and the store: over a log that ends its line and fresh
  events that read back (\<open>log_ready\<close>), a commit lands whole, and after a crash at any step recovery ends, in the transaction undone
  or complete unless the cut fell between the first document and the second journal entry (\<open>recovery_outcome\<close>; \<open>unfinished_line_joined\<close>
  and \<open>line_separator_splits\<close> show what the conditions exclude); a commit that is refused leaves everything as it was; an update whose
  base moved is refused; equal chain heads mean equal logs. For the gates: approving keeps the chain of
  approvals closed upwards, some gate can always be decided until all are approved, a roll back withdraws
  exactly the gates that stand on its target and marks the closure of the tasks, on the state it was computed from, and a
  later reading it is applied to is not compared with that one (\<open>approval_between_readings\<close>). For the graph: the
  constructor accepts exactly the well-formed DAGs, the topological order, the closures and the critical path
  are what their names say, the frontier is exactly what can start and is empty, while work is left, only if a task is in between, and a bundle is safe and loses no
  criterion. For the plan: a plan without cross-reference errors joins to an accepted graph and orders whoever
  touches another task's files after it. For the review: risk never opens a gate, freezing needs every
  judgement, every finding goes to exactly one place, by the paths it names, and an answered card means what its option says; an accepted
  comparison has exactly the plan's claims first, drops none of the reviewer's rows and cites only what was read.
  For the guard: outside \<^verbatim>\<open>template_mode\<close>, what it lets through
  of the guarded paths is inside the mandate, and only a human's decision widens that; a request stays in the state until
  the cycle ends. For an
  approval: it binds what was shown, keeps the chain, is backed by its event, and a gate reported ready is one that
  can be decided, whose mandate the loop can work under, or whose change stayed inside its mandate. For a task:
  the loop ends after a number of launches its budgets bound, a restart buys no more of them (of a budget whose name
  the record does not cut, \<open>long_name_buys_again\<close>), and done means that every check passed after the last commit, with the
  evidence listing what was noted of them; a status is written with what justifies it. For a merge: it
  ends in a commit or an abort, mechanical is earned, and an escalation parks exactly the closure it names.

  \<^bold>\<open>Bounds and fuel.\<close> Limits (document depth and size, array length, cards, excerpt lengths) are the code's
  constants, as definitions. Two definitions take fuel for a recursion the code leaves open: \<open>CrossRef.visits\<close>, the recursion of \<^verbatim>\<open>_cycle_errors\<close>,
  gets the number of tasks plus one, and \<open>cycle_errors_exact\<close> shows it never runs out, since every nested visit
  colours a new task; \<open>Schedule.walk_back\<close> gets one step per node, and \<open>critical_path_longest\<close> shows the walk ends;
  the attempts of \<open>Conflict.attempt\<close> are the code's own count;
  \<open>SendBack.rounds\<close>, a loop without a bound in the code, terminates by the budgets left; \<open>Kahn\<close>'s extraction and the closures' worklists terminate by their own measures.
  Integers are Python's and unbounded.

  \<^bold>\<open>Conventions.\<close> A raise is the left of a sum, one constructor per message with the values it names; the
  sentence itself is left out where nothing reads it. Fields a document may hold with another type read
  through \<open>py_str\<close> and the other coercions the code applies; a mapping keeps its insertion order and the last
  value of a repeated key.

  \<^bold>\<open>Not modelled.\<close> Launching processes, git, containers, sockets, the web server and the terminal
  (\<^verbatim>\<open>build_loop\<close>, \<^verbatim>\<open>adapters\<close>, \<^verbatim>\<open>ui\<close>, \<^verbatim>\<open>executors\<close>, \<^verbatim>\<open>review_transport\<close> and others) are input and output whose results
  the modelled parts take as arguments. Renderings, prompts, packaged data and JSON Schema validation are
  left out, so a property that needs a schema-closed field says so. The file lock, atomic replacement of one
  file and the durability of a write are what \<open>Store\<close> takes as its steps. The clock and fresh identifiers are
  arguments. The run around the tasks
  (the frontier loop, worktrees, batch reviews, acceptance repairs), the reading of tests and transcripts, and the commands that only list or render what a modelled part holds
  have no definition here.
\<close>

end
